(* ===== verification/Frog_Prelude.thy ===== *)
theory Frog_Prelude
  imports "HOL-Library.Word"
begin

text \<open>
  The common ground of the development: the fixed-width integers of the i386 C code, the
  byte-addressed memory that pointers read and write, the regions of that memory, and the
  lemma collections the component theories share.
\<close>

unbundle bit_operations_syntax

section \<open>Machine integers\<close>

type_synonym u8 = "8 word"
type_synonym u16 = "16 word"
type_synonym u32 = "32 word"
type_synonym u64 = "64 word"

text \<open>A pointer is a 32-bit address; the null pointer is 0.\<close>

type_synonym addr = u32

lemma unat_lt32: "unat (x :: u32) < 2 ^ 32"
  using unsigned_less [of x] by simp

lemma unat_le32 [simp]: "unat (x :: u32) \<le> 4294967296"
  using unat_lt32 [of x] by simp

lemma unat_eq_one_iff: "unat (x :: u32) = Suc 0 \<longleftrightarrow> x = 1"
  by (simp add: word_unat_eq_iff)

lemma unat_inc:
  fixes i w :: "'a::len word"
  assumes "i < w"
  shows "unat (i + 1) = Suc (unat i)"
proof -
  have "unat w < 2 ^ LENGTH('a)" by (rule unsigned_less)
  moreover have "unat i < unat w" using assms by (simp add: word_less_nat_alt)
  ultimately have "unat i + 1 < 2 ^ LENGTH('a)" by linarith
  then show ?thesis by (simp add: unat_word_ariths)
qed

text \<open>Distances that come out negative are evaluated modulo the width.\<close>

lemma unat_neg_one32 [simp]: "unat (- 1 :: u32) = 4294967295"
  by (simp add: unsigned_minus_1_eq_mask mask_eq_exp_minus_1)

lemma unat_neg_numeral [simp]:
  "unat (- numeral k :: 'a::len word) = nat (take_bit LENGTH('a) (- numeral k))"
  by (simp add: nat_uint_eq [symmetric] uint_word_of_int_eq del: nat_uint_eq)

lemma ucast_up_down [simp]:
  "(ucast (ucast (b :: u8) :: u32) :: u8) = b" "(ucast (ucast (h :: u16) :: u32) :: u16) = h"
  "(ucast (ucast (b :: u8) :: u16) :: u8) = b"
  by (rule bit_word_eqI, auto simp: bit_simps)+

lemma unat_ucast_widen [simp]:
  "unat (ucast (b :: u8) :: u32) = unat b" "unat (ucast (h :: u16) :: u32) = unat h"
proof -
  have "unat b < 2 ^ LENGTH(8)" "unat h < 2 ^ LENGTH(16)" by (rule unsigned_less)+
  moreover have "(2::nat) ^ LENGTH(8) \<le> 2 ^ 32" "(2::nat) ^ LENGTH(16) \<le> 2 ^ 32" by simp_all
  ultimately have "unat b < 2 ^ 32" "unat h < 2 ^ 32" by linarith+
  then show "unat (ucast b :: u32) = unat b" "unat (ucast h :: u32) = unat h"
    by (simp_all only: unsigned_ucast_eq take_bit_eq_mod) simp_all
qed

text \<open>A statement about every byte below a bound can be checked by enumeration.\<close>

lemma byte_enum: "unat (c :: u8) < n \<Longrightarrow> c \<in> set (map word_of_nat [0..<n])"
  by (auto intro!: image_eqI [of _ _ "unat c"])

lemma xor_word_cancel_right [simp]: "(a :: 'a::len word) XOR c = b XOR c \<longleftrightarrow> a = b"
proof
  assume "a XOR c = b XOR c"
  then have "(a XOR c) XOR c = (b XOR c) XOR c" by simp
  then show "a = b" by (simp add: xor.assoc)
qed simp

lemma xor_word_cancel_left [simp]: "(c :: 'a::len word) XOR a = c XOR b \<longleftrightarrow> a = b"
  using xor_word_cancel_right [of a c b] by (simp only: xor.commute)

text \<open>Truncation to 16 bits.\<close>

lemma unat_ucast16: "unat (ucast (x :: u32) :: u16) = unat x mod 65536"
  by (simp add: unsigned_ucast_eq take_bit_eq_mod)

lemma ucast16_add: "(ucast ((a :: u32) + b) :: u16) = ucast a + ucast b"
proof -
  have "(65536 :: nat) dvd 4294967296" by simp
  then have "(unat a + unat b) mod 4294967296 mod 65536 = (unat a + unat b) mod 65536" by (rule mod_mod_cancel)
  then show ?thesis by (simp add: word_unat_eq_iff unat_ucast16 unat_word_ariths mod_add_eq)
qed

lemma ucast16_diff: "(ucast ((a :: u32) - b) :: u16) = ucast a - ucast b"
  using ucast16_add [of "a - b" b] by simp

text \<open>Bit masks as arithmetic.\<close>

lemma unat_take_bit: "unat (take_bit k (x::u32)) = unat x mod 2 ^ k"
  by (simp only: unsigned_take_bit_eq) (simp add: take_bit_eq_mod)

lemma unat_mask32: "k \<le> 32 \<Longrightarrow> unat (mask k :: u32) = 2 ^ k - 1"
  using unsigned_take_bit_eq [of k "-1 :: u32", where ?'a=nat]
  by (simp only: take_bit_minus_one_eq_mask unsigned_minus_1_eq_mask take_bit_of_mask min_def
      len_num0 len_num1 len_bit0 len_bit1) (simp add: mask_eq_exp_minus_1 min_def)

lemma unat_and_not_mask: "unat ((x::u32) AND NOT (mask k)) = unat x div 2 ^ k * 2 ^ k"
proof -
  have "x AND NOT (mask k) = push_bit k (drop_bit k x)"
    by (rule bit_word_eqI) (auto simp: bit_simps dest: bit_imp_le_length)
  also have "\<dots> = x - take_bit k x"
    using bits_ident [of k x] by (metis add_diff_cancel_right')
  also have "unat \<dots> = unat x - unat (take_bit k x)"
    by (rule unat_sub) (simp only: word_le_nat_alt unat_take_bit mod_less_eq_dividend)
  finally show ?thesis by (simp only: unat_take_bit minus_mod_eq_div_mult)
qed

named_theorems mem_simps \<open>reading a memory after writing it\<close>

section \<open>Byte-addressed memory\<close>

type_synonym byte_mem = "addr \<Rightarrow> u8"

text \<open>Little-endian loads and stores, as the i386 does them for \<^verbatim>\<open>uint16_t\<close> and \<^verbatim>\<open>uint32_t\<close>
  lvalues of any alignment.\<close>

definition load16 :: "byte_mem \<Rightarrow> addr \<Rightarrow> u16" where
  "load16 m a = ucast (m a) OR push_bit 8 (ucast (m (a + 1)))"

definition load32 :: "byte_mem \<Rightarrow> addr \<Rightarrow> u32" where
  "load32 m a = ucast (m a) OR push_bit 8 (ucast (m (a + 1)))
     OR push_bit 16 (ucast (m (a + 2))) OR push_bit 24 (ucast (m (a + 3)))"

definition store16 :: "byte_mem \<Rightarrow> addr \<Rightarrow> u16 \<Rightarrow> byte_mem" where
  "store16 m a v = m(a := ucast v, a + 1 := ucast (drop_bit 8 v))"

definition store32 :: "byte_mem \<Rightarrow> addr \<Rightarrow> u32 \<Rightarrow> byte_mem" where
  "store32 m a v = m(a := ucast v, a + 1 := ucast (drop_bit 8 v),
     a + 2 := ucast (drop_bit 16 v), a + 3 := ucast (drop_bit 24 v))"

subsection \<open>Addresses and regions\<close>

text \<open>
  A region is \<open>n\<close> bytes from \<open>a\<close> on, in the wrapping 32-bit address space. Membership is the
  unsigned distance from the start, which needs no assumption about wrap-around.
\<close>

definition region :: "addr \<Rightarrow> nat \<Rightarrow> addr set" where
  "region a n = {x. unat (x - a) < n}"

lemma in_region [simp]: "x \<in> region a n \<longleftrightarrow> unat (x - a) < n"
  by (simp add: region_def)

lemma region_mono: "n \<le> n' \<Longrightarrow> region a n \<subseteq> region a n'"
  by auto

lemma addr_distinct_offsets [simp]:
  fixes a :: addr
  shows "a + 1 \<noteq> a" "a + 2 \<noteq> a" "a + 3 \<noteq> a" "a + 1 \<noteq> a + 2" "a + 1 \<noteq> a + 3" "a + 2 \<noteq> a + 3"
        "a \<noteq> a + 1" "a \<noteq> a + 2" "a \<noteq> a + 3" "a + 2 \<noteq> a + 1" "a + 3 \<noteq> a + 1" "a + 3 \<noteq> a + 2"
  by simp_all

lemma region_absolute:
  assumes "unat a + n \<le> 2 ^ 32" "unat a \<le> unat x" "unat x < unat a + n"
  shows "x \<in> region a n"
proof -
  have "a \<le> x" using assms(2) by (simp add: word_le_nat_alt)
  then have "unat (x - a) = unat x - unat a" by (rule unat_sub)
  with assms show ?thesis by simp
qed

lemma region_absoluteD:
  assumes "x \<in> region a n" "unat a + n \<le> 2 ^ 32"
  shows "unat a \<le> unat x \<and> unat x < unat a + n"
proof -
  have "unat (a + (x - a)) = (unat a + unat (x - a)) mod 2 ^ 32"
    by (simp only: unat_word_ariths(1)) simp
  then have "unat x = (unat a + unat (x - a)) mod 2 ^ 32" by simp
  then have "unat x = unat a + unat (x - a)" using assms by simp
  with assms show ?thesis by simp
qed

lemma region_disjoint_abs:
  assumes "unat a + n \<le> unat b" "unat b + k \<le> 2 ^ 32"
  shows "region a n \<inter> region b k = {}"
proof -
  have "False" if "x \<in> region a n" "x \<in> region b k" for x
    using region_absoluteD [OF that(1)] region_absoluteD [OF that(2)] assms by linarith
  then show ?thesis by blast
qed

lemma unat_diff_below:
  fixes o' k :: u32
  assumes "o' < k"
  shows "unat (o' - k) = 2 ^ 32 + unat o' - unat k"
  using assms unat_lt32 [of k] unat_lt32 [of o']
  by (simp add: unat_sub_if' word_le_nat_alt word_less_nat_alt)

text \<open>A region at an offset, in distances from the common base.\<close>

lemma region_shift:
  fixes x a k :: addr
  assumes "unat k + n \<le> 2 ^ 32"
  shows "x \<in> region (a + k) n \<longleftrightarrow> unat k \<le> unat (x - a) \<and> unat (x - a) < unat k + n"
proof -
  have eq: "x - (a + k) = (x - a) - k" by simp
  show ?thesis
  proof (cases "k \<le> x - a")
    case True
    then have "unat (x - (a + k)) = unat (x - a) - unat k" unfolding eq by (rule unat_sub)
    moreover have "unat k \<le> unat (x - a)" using True by (simp add: word_le_nat_alt)
    ultimately show ?thesis by auto
  next
    case False
    then have "unat (x - (a + k)) = 2 ^ 32 + unat (x - a) - unat k"
      unfolding eq by (intro unat_diff_below) simp
    moreover have "unat (x - a) < unat k" using False by (simp add: word_le_nat_alt)
    ultimately show ?thesis using assms by simp
  qed
qed

lemma unat_diff_shift:
  fixes x a k :: addr
  assumes "unat k \<le> unat (x - a)"
  shows "unat (x - (a + k)) = unat (x - a) - unat k"
proof -
  have eq: "x - (a + k) = (x - a) - k" by simp
  show ?thesis unfolding eq using assms by (intro unat_sub) (simp add: word_le_nat_alt)
qed

subsection \<open>Reading back what was written\<close>

lemma store16_apply [mem_simps]:
  "store16 m a v x = (if x = a + 1 then ucast (drop_bit 8 v) else if x = a then ucast v else m x)"
  by (simp add: store16_def)

lemma store32_apply [mem_simps]:
  "store32 m a v x =
     (if x = a + 3 then ucast (drop_bit 24 v) else if x = a + 2 then ucast (drop_bit 16 v)
      else if x = a + 1 then ucast (drop_bit 8 v) else if x = a then ucast v else m x)"
  by (simp add: store32_def)

lemma word16_of_bytes:
  fixes v :: u16
  shows "(ucast (ucast v :: u8) :: u16) OR push_bit 8 (ucast (ucast (drop_bit 8 v) :: u8)) = v"
  by (rule bit_word_eqI) (auto simp: bit_simps)

lemma word32_of_bytes:
  fixes v :: u32
  shows "(ucast (ucast v :: u8) :: u32) OR push_bit 8 (ucast (ucast (drop_bit 8 v) :: u8))
      OR push_bit 16 (ucast (ucast (drop_bit 16 v) :: u8))
      OR push_bit 24 (ucast (ucast (drop_bit 24 v) :: u8)) = v"
proof (rule bit_word_eqI)
  fix n assume "n < LENGTH(32)"
  then consider "n < 8" | "8 \<le> n" "n < 16" | "16 \<le> n" "n < 24" | "24 \<le> n" "n < 32"
    by fastforce
  then show "bit ((ucast (ucast v :: u8) :: u32) OR push_bit 8 (ucast (ucast (drop_bit 8 v) :: u8))
      OR push_bit 16 (ucast (ucast (drop_bit 16 v) :: u8))
      OR push_bit 24 (ucast (ucast (drop_bit 24 v) :: u8))) n = bit v n"
    by cases (auto simp: bit_simps)
qed

lemma load16_store16 [simp]: "load16 (store16 m a v) a = v"
  by (simp add: load16_def store16_apply word16_of_bytes)

lemma load32_store32 [simp]: "load32 (store32 m a v) a = v"
  by (simp add: load32_def store32_apply word32_of_bytes)

lemma store16_same [simp]: "x \<notin> region a 2 \<Longrightarrow> store16 m a v x = m x"
  by (auto simp: store16_apply)

lemma store32_same [simp]: "x \<notin> region a 4 \<Longrightarrow> store32 m a v x = m x"
  by (auto simp: store32_apply)

lemma load32_cong: "(\<And>x. x \<in> region a 4 \<Longrightarrow> m x = m' x) \<Longrightarrow> load32 m a = load32 m' a"
  by (simp add: load32_def)

lemma load16_cong: "(\<And>x. x \<in> region a 2 \<Longrightarrow> m x = m' x) \<Longrightarrow> load16 m a = load16 m' a"
  by (simp add: load16_def)

lemma load32_store32_disjoint:
  "region a 4 \<inter> region b 4 = {} \<Longrightarrow> load32 (store32 m a v) b = load32 m b"
  by (rule load32_cong) (rule store32_same, blast)

lemma load32_eqI:
  assumes "m a = ucast v" "m (a + 1) = ucast (drop_bit 8 v)"
    "m (a + 2) = ucast (drop_bit 16 v)" "m (a + 3) = ucast (drop_bit 24 v)"
  shows "load32 m a = v"
  by (simp add: load32_def assms word32_of_bytes)

lemma region_sub: "unat k + l \<le> n \<Longrightarrow> region (p + k) l \<subseteq> region p n"
proof
  fix x assume a: "unat k + l \<le> n" "x \<in> region (p + k) l"
  have "x - p = (x - (p + k)) + k" by simp
  then have "unat (x - p) = (unat (x - (p + k)) + unat k) mod 2 ^ LENGTH(32)" by (metis unat_word_ariths(1))
  also have "\<dots> \<le> unat (x - (p + k)) + unat k" by (rule mod_less_eq_dividend)
  finally have "unat (x - p) \<le> unat (x - (p + k)) + unat k" .
  then show "x \<in> region p n" using a by simp
qed

end
