(* ===== verification/Frog_String.thy ===== *)
theory Frog_String
  imports Frog_Prelude
begin

text \<open>
  The string and memory primitives of lib/: \<^verbatim>\<open>memcpy\<close>, \<^verbatim>\<open>memset\<close>, \<^verbatim>\<open>memsetw\<close> and
  \<^verbatim>\<open>memcmp\<close>, which are single \<^verbatim>\<open>rep\<close> string instructions, and \<^verbatim>\<open>strlen\<close>. The
  instructions are modelled step by step on the byte memory; the lemmas give each its closed
  form, which is what the other theories compute with. The copying and filling functions
  return their first argument unchanged in C, so the model is their effect on memory.
\<close>

section \<open>The string instructions\<close>

text \<open>\<^verbatim>\<open>cld; rep stosb\<close>: ECX times, store AL at EDI and advance EDI.\<close>

fun rep_stosb :: "nat \<Rightarrow> addr \<Rightarrow> u8 \<Rightarrow> byte_mem \<Rightarrow> byte_mem" where
  "rep_stosb 0 edi al m = m"
| "rep_stosb (Suc ecx) edi al m = rep_stosb ecx (edi + 1) al (m(edi := al))"

text \<open>\<^verbatim>\<open>cld; rep stosw\<close>: ECX times, store AX at EDI and advance EDI by two.\<close>

fun rep_stosw :: "nat \<Rightarrow> addr \<Rightarrow> u16 \<Rightarrow> byte_mem \<Rightarrow> byte_mem" where
  "rep_stosw 0 edi ax m = m"
| "rep_stosw (Suc ecx) edi ax m = rep_stosw ecx (edi + 2) ax (store16 m edi ax)"

text \<open>\<^verbatim>\<open>cld; rep movsb\<close>: ECX times, copy the byte at ESI to EDI and advance both. The bytes are
  copied one at a time in ascending order, which matters when the two areas overlap.\<close>

fun rep_movsb :: "nat \<Rightarrow> addr \<Rightarrow> addr \<Rightarrow> byte_mem \<Rightarrow> byte_mem" where
  "rep_movsb 0 edi esi m = m"
| "rep_movsb (Suc ecx) edi esi m = rep_movsb ecx (edi + 1) (esi + 1) (m(edi := m esi))"

text \<open>\<^verbatim>\<open>repe cmpsb\<close>: while ECX is not zero, compare the bytes at ESI and EDI into ZF, advance
  both, and stop early when they differ. The result is ZF at the end.\<close>

fun repe_cmpsb :: "nat \<Rightarrow> addr \<Rightarrow> addr \<Rightarrow> byte_mem \<Rightarrow> bool \<Rightarrow> bool" where
  "repe_cmpsb 0 esi edi m zf = zf"
| "repe_cmpsb (Suc ecx) esi edi m zf =
     (if m esi = m edi then repe_cmpsb ecx (esi + 1) (edi + 1) m True else False)"

section \<open>The C functions\<close>

definition memset :: "addr \<Rightarrow> u8 \<Rightarrow> u32 \<Rightarrow> byte_mem \<Rightarrow> byte_mem" where
  "memset s c n m = rep_stosb (unat n) s c m"

definition memsetw :: "addr \<Rightarrow> u16 \<Rightarrow> u32 \<Rightarrow> byte_mem \<Rightarrow> byte_mem" where
  "memsetw s c n m = rep_stosw (unat n) s c m"

definition memcpy :: "addr \<Rightarrow> addr \<Rightarrow> u32 \<Rightarrow> byte_mem \<Rightarrow> byte_mem" where
  "memcpy dest src n m = rep_movsb (unat n) dest src m"

text \<open>\<^verbatim>\<open>cmp %ecx,%ecx\<close> sets ZF first, so an empty comparison is equal; \<^verbatim>\<open>setz\<close> turns ZF into
  the \<^verbatim>\<open>uint8_t\<close> that is returned as an \<^verbatim>\<open>int\<close>.\<close>

definition memcmp :: "addr \<Rightarrow> addr \<Rightarrow> u32 \<Rightarrow> byte_mem \<Rightarrow> int" where
  "memcmp s1 s2 n m = (if repe_cmpsb (unat n) s1 s2 m True then 1 else 0)"

text \<open>\<^verbatim>\<open>strlen\<close> runs until it meets a NUL; in a memory without one it never returns, which is
  the value \<open>None\<close>. The counter is a 32-bit \<^verbatim>\<open>int\<close>.\<close>

partial_function (option) strlen_loop :: "byte_mem \<Rightarrow> addr \<Rightarrow> u32 \<Rightarrow> u32 option" where
  "strlen_loop m str len = (if m str = 0 then Some len else strlen_loop m (str + 1) (len + 1))"

definition strlen :: "byte_mem \<Rightarrow> addr \<Rightarrow> u32 option" where
  "strlen m str = strlen_loop m str 0"

section \<open>Closed forms\<close>

lemma region_Suc: 
  fixes a x :: addr
  assumes "Suc n \<le> 2 ^ 32"
  shows "x \<in> region a (Suc n) \<longleftrightarrow> x = a \<or> x \<in> region (a + 1) n"
proof (cases "x = a")
  case True then show ?thesis by simp
next
  case False
  then have "unat (x - a) \<noteq> 0" by (simp add: unat_eq_zero)
  moreover have "x - (a + 1) = (x - a) - 1" by simp
  ultimately have "unat (x - (a + 1)) = unat (x - a) - 1"
    using False by (metis eq_iff_diff_eq_0 unat_minus_one)
  then show ?thesis using False \<open>unat (x - a) \<noteq> 0\<close> by auto
qed

lemma start_notin_tail:
  fixes a :: addr
  assumes "Suc n \<le> 2 ^ 32"
  shows "a \<notin> region (a + 1) n"
proof -
  have "a - (a + 1) = (-1 :: addr)" by simp
  then have "unat (a - (a + 1)) = 2 ^ 32 - 1" 
    by simp
  then show ?thesis using assms by simp
qed

lemma rep_stosb_apply:
  "n \<le> 2 ^ 32 \<Longrightarrow> rep_stosb n a c m x = (if x \<in> region a n then c else m x)"
proof (induction n arbitrary: a m)
  case 0 then show ?case by simp
next
  case (Suc n)
  then show ?case
    using region_Suc [of n x a] by (auto simp del: in_region)
qed

lemma rep_movsb_apply:
  "n \<le> 2 ^ 32 \<Longrightarrow> d = s \<or> d \<notin> region s n \<Longrightarrow>
   rep_movsb n d s m x = (if x \<in> region d n then m (s + (x - d)) else m x)"
proof (induction n arbitrary: d s m)
  case 0 then show ?case by simp
next
  case (Suc n)
  have bound: "n \<le> 2 ^ 32" "Suc n \<le> 2 ^ 32" using Suc.prems by simp_all
  have apart: "d + 1 = s + 1 \<or> d + 1 \<notin> region (s + 1) n"
    using Suc.prems(2) by auto
  have src: "s + 1 + (x - (d + 1)) = s + (x - d)" by simp
  have IH: "rep_movsb n (d + 1) (s + 1) (m(d := m s)) x =
     (if x \<in> region (d + 1) n then (m(d := m s)) (s + (x - d)) else (m(d := m s)) x)"
    using Suc.IH [OF bound(1) apart] unfolding src .
  have kept: "(m(d := m s)) (s + (x - d)) = m (s + (x - d))" if "x \<in> region (d + 1) n"
  proof (cases "d = s")
    case True then show ?thesis by simp
  next
    case False
    have "s + (x - d) \<noteq> d"
    proof
      assume "s + (x - d) = d"
      then have "d - s = x - d" by (metis add_diff_cancel_left')
      moreover have "x \<in> region d (Suc n)" using that region_Suc [OF bound(2)] by blast
      ultimately have "d \<in> region s (Suc n)" by (simp only: in_region)
      then show False using Suc.prems(2) False by blast
    qed
    then show ?thesis by simp
  qed
  show ?case
    using IH kept region_Suc [OF bound(2), of x d] start_notin_tail [OF bound(2), of d]
    by (auto simp del: in_region)
qed

lemma rep_stosw_apply:
  "2 * n \<le> 2 ^ 32 \<Longrightarrow> rep_stosw n a c m x =
     (if x \<in> region a (2 * n)
      then (if even (unat (x - a)) then ucast c else ucast (drop_bit 8 c)) else m x)"
proof (induction n arbitrary: a m)
  case 0 then show ?case by simp
next
  case (Suc n)
  have split: "x \<in> region a (2 * Suc n) \<longleftrightarrow> x = a \<or> x = a + 1 \<or> x \<in> region (a + 2) (2 * n)"
    using region_Suc [of "Suc (2 * n)" x a] region_Suc [of "2 * n" x "a + 1"] Suc.prems
    by (simp add: add.assoc del: in_region)
  have notin: "a \<notin> region (a + 2) (2 * n)" "a + 1 \<notin> region (a + 2) (2 * n)"
    using start_notin_tail [of "Suc (2 * n)" a] region_Suc [of "2 * n" a "a + 1"]
      start_notin_tail [of "2 * n" "a + 1"] Suc.prems
    by (auto simp: add.assoc simp del: in_region)
  have parity: "even (unat (x - (a + 2))) = even (unat (x - a))" if "x \<in> region (a + 2) (2 * n)"
  proof -
    have "x \<noteq> a" "x \<noteq> a + 1" using that notin by blast+
    then have "unat (x - a) \<noteq> 0" "unat (x - a) \<noteq> 1"
      by (simp_all add: unat_eq_zero unat_eq_one_iff diff_eq_eq add.commute)
    then have ge: "2 \<le> x - a" by (simp add: word_le_nat_alt)
    have eq: "x - (a + 2) = (x - a) - 2" by simp
    have "unat (x - (a + 2)) = unat (x - a) - 2" unfolding eq using unat_sub [OF ge] by simp
    moreover have "2 \<le> unat (x - a)" using ge by (simp add: word_le_nat_alt)
    ultimately show ?thesis by simp
  qed
  have one: "unat (a + 1 - a) = 1" by simp
  have "rep_stosw (Suc n) a c m x = (if x \<in> region (a + 2) (2 * n)
      then (if even (unat (x - (a + 2))) then ucast c else ucast (drop_bit 8 c))
      else store16 m a c x)"
    using Suc.IH [of "a + 2" "store16 m a c"] Suc.prems by simp
  then show ?case using split parity one notin
    by (auto simp: store16_apply simp del: in_region)
qed

lemma memset_apply [mem_simps]:
  "memset s c n m x = (if x \<in> region s (unat n) then c else m x)"
  unfolding memset_def by (rule rep_stosb_apply) simp

lemma memcpy_apply:
  assumes "dest = src \<or> dest \<notin> region src (unat n)"
  shows "memcpy dest src n m x = (if x \<in> region dest (unat n) then m (src + (x - dest)) else m x)"
  unfolding memcpy_def using assms by (intro rep_movsb_apply) simp_all

lemma memsetw_apply:
  assumes "2 * unat n \<le> 2 ^ 32"
  shows "memsetw s c n m x = (if x \<in> region s (2 * unat n)
      then (if even (unat (x - s)) then ucast c else ucast (drop_bit 8 c)) else m x)"
  unfolding memsetw_def using assms by (rule rep_stosw_apply)

lemma repe_cmpsb_iff:
  "repe_cmpsb n a b m zf \<longleftrightarrow> (if n = 0 then zf else \<forall>i<n. m (a + of_nat i) = m (b + of_nat i))"
proof (induction n arbitrary: a b zf)
  case 0 then show ?case by simp
next
  case (Suc n)
  have shift: "(\<forall>i<n. m (a + 1 + of_nat i) = m (b + 1 + of_nat i)) \<longleftrightarrow>
      (\<forall>i<n. m (a + of_nat (Suc i)) = m (b + of_nat (Suc i)))"
    by (simp add: add.assoc)
  show ?case using Suc.IH [of "a + 1" "b + 1" True]
    by (auto simp: shift less_Suc_eq_0_disj simp del: of_nat_Suc)
qed

lemma strlen_loop_first_nul:
  assumes "\<And>i. i < k \<Longrightarrow> m (s + of_nat i) \<noteq> 0" "m (s + of_nat k) = 0"
  shows "strlen_loop m s len = Some (len + of_nat k)"
  using assms
proof (induction k arbitrary: s len)
  case 0 then show ?case by (simp add: strlen_loop.simps)
next
  case (Suc k)
  have "m s \<noteq> 0" using Suc.prems(1) [of 0] by simp
  moreover have "strlen_loop m (s + 1) (len + 1) = Some (len + 1 + of_nat k)"
    using Suc.prems(1) [of "Suc _"] Suc.prems(2) by (intro Suc.IH) (simp_all add: add.assoc)
  ultimately show ?case by (simp add: strlen_loop.simps [of m s] add.assoc)
qed

lemma strlen_loop_nul:
  assumes "strlen_loop m s len = Some r"
  shows "\<exists>x. m x = 0"
  by (rule strlen_loop.raw_induct [where P = "\<lambda>m s len r. \<exists>x. m x = 0", OF _ assms])
    (auto split: if_splits)

text \<open>A NUL-terminated string in memory.\<close>

definition cstr :: "byte_mem \<Rightarrow> addr \<Rightarrow> u8 list \<Rightarrow> bool" where
  "cstr m a bs \<longleftrightarrow> (\<forall>i<length bs. m (a + of_nat i) = bs ! i \<and> bs ! i \<noteq> 0)
     \<and> m (a + of_nat (length bs)) = 0"

lemma strlen_cstr: "cstr m a bs \<Longrightarrow> strlen m a = Some (of_nat (length bs))"
  unfolding strlen_def cstr_def using strlen_loop_first_nul [of "length bs" m a 0] by simp

lemma cstr_cong:
  "(\<And>i. i \<le> length bs \<Longrightarrow> m (a + of_nat i) = m' (a + of_nat i)) \<Longrightarrow> cstr m a bs = cstr m' a bs"
  by (simp add: cstr_def)

lemma first_nul_exists:
  fixes m :: byte_mem
  assumes "m x = 0"
  shows "\<exists>k < 2 ^ 32. m (s + of_nat k) = 0 \<and> (\<forall>i<k. m (s + of_nat i) \<noteq> 0)"
proof -
  define P where "P k \<longleftrightarrow> m (s + of_nat k) = 0" for k :: nat
  have "P (unat (x - s))" using assms by (simp add: P_def)
  then have "P (LEAST k. P k)" "(LEAST k. P k) \<le> unat (x - s)"
    by (rule LeastI, rule Least_le)
  then show ?thesis
    using not_less_Least [of _ P] unat_lt32 [of "x - s"] unfolding P_def
    by (metis (no_types, lifting) order_le_less_trans)
qed

section \<open>Properties\<close>

text \<open>\<^verbatim>\<open>memcpy\<close> copies its \<open>n\<close> source bytes to the destination and changes nothing else,
  also when the two areas overlap, as long as the destination does not start strictly inside
  the source area (this is the case the screen scroll relies on).\<close>

theorem memcpy_copies_forward:
  assumes "dest = src \<or> dest \<notin> region src (unat n)"
  shows "(\<forall>i<unat n. memcpy dest src n m (dest + of_nat i) = m (src + of_nat i)) \<and>
     (\<forall>x. x \<notin> region dest (unat n) \<longrightarrow> memcpy dest src n m x = m x)"
proof -
  have "unat (of_nat i :: u32) < unat n" if "i < unat n" for i
    using that unat_lt32 [of n] by (simp add: unat_of_nat)
  then show ?thesis by (simp add: memcpy_apply [OF assms])
qed

theorem memcpy_copies_forward_witness:
  "(100 :: addr) \<notin> region 101 (unat (3 :: u32)) \<and>
   memcpy 100 101 3 ((\<lambda>_. 0)(101 := 7, 102 := 8, 103 := 9)) (100 + of_nat 2) = 9"
proof -
  let ?m = "(\<lambda>_. 0)(101 := 7, 102 := 8, 103 := 9) :: byte_mem"
  have h: "(100 :: addr) \<notin> region 101 (unat (3 :: u32))" by simp
  have "\<forall>i<unat (3 :: u32). memcpy 100 101 3 ?m (100 + of_nat i) = ?m (101 + of_nat i)"
    using memcpy_copies_forward [of 100 101 3 ?m] h by blast
  from spec [OF this, of 2] h show ?thesis by simp
qed

text \<open>\<^verbatim>\<open>memcmp\<close> returns 1 exactly when the two areas hold the same bytes and 0
  otherwise: the opposite of the C library's convention, where 0 means equal.\<close>

theorem memcmp_returns_equality:
  "memcmp s1 s2 n m = (if \<forall>i<unat n. m (s1 + of_nat i) = m (s2 + of_nat i) then 1 else 0)"
  by (auto simp: memcmp_def repe_cmpsb_iff)

theorem memcmp_returns_equality_witness:
  "memcmp 16 32 2 ((\<lambda>_. 0)(16 := 5, 17 := 6, 32 := 5, 33 := 6)) = 1 \<and>
   memcmp 16 32 2 ((\<lambda>_. 0)(16 := 5, 17 := 6, 32 := 5)) = 0"
  by (auto simp: memcmp_returns_equality less_2_cases_iff dest: spec [of _ 1])

text \<open>In a memory that holds a NUL somewhere, \<^verbatim>\<open>strlen\<close> returns, and it returns the
  distance to the first NUL at or after its argument.\<close>

theorem strlen_finds_first_nul:
  assumes "m x = 0"
  shows "\<exists>k < 2 ^ 32. strlen m s = Some (of_nat k) \<and> m (s + of_nat k) = 0 \<and>
     (\<forall>i<k. m (s + of_nat i) \<noteq> 0)"
proof -
  from first_nul_exists [of m x s] assms obtain k where
    k: "k < 2 ^ 32" "m (s + of_nat k) = 0" "\<And>i. i < k \<Longrightarrow> m (s + of_nat i) \<noteq> 0" by blast
  then have "strlen m s = Some (of_nat k)"
    unfolding strlen_def using strlen_loop_first_nul [of k m s 0] by simp
  with k show ?thesis by blast
qed

theorem strlen_finds_first_nul_witness:
  "strlen ((\<lambda>_. 0)(16 := 72, 17 := 105)) 16 = Some 2"
proof -
  let ?m = "(\<lambda>_. 0)(16 := 72, 17 := 105) :: byte_mem"
  obtain k where k: "k < 2 ^ 32" "strlen ?m 16 = Some (of_nat k)" "?m (16 + of_nat k) = 0"
      "\<forall>i<k. ?m (16 + of_nat i) \<noteq> 0"
    using strlen_finds_first_nul [of ?m 0 16] by auto
  have "k \<noteq> 0" "k \<noteq> 1" using k(3) by (auto split: if_splits intro: ccontr)
  moreover have "\<not> 2 < k" using k(4) by (auto dest: spec [of _ 2])
  ultimately have "k = 2" by linarith
  with k(2) show ?thesis by simp
qed

section \<open>Byte strings in memory\<close>

definition bytes_at :: "byte_mem \<Rightarrow> addr \<Rightarrow> nat \<Rightarrow> u8 list" where
  "bytes_at m a n = map (\<lambda>i. m (a + of_nat i)) [0..<n]"

primrec store_list :: "addr \<Rightarrow> u8 list \<Rightarrow> byte_mem \<Rightarrow> byte_mem" where
  "store_list a [] m = m"
| "store_list a (x # xs) m = store_list (a + 1) xs (m(a := x))"

lemma length_bytes_at [simp]: "length (bytes_at m a n) = n"
  by (simp add: bytes_at_def)

lemma bytes_at_nth [simp]: "i < n \<Longrightarrow> bytes_at m a n ! i = m (a + of_nat i)"
  by (simp add: bytes_at_def)

lemma bytes_at_cong: "(\<And>i. i < n \<Longrightarrow> m' (a + of_nat i) = m (a + of_nat i)) \<Longrightarrow> bytes_at m' a n = bytes_at m a n"
  by (simp add: bytes_at_def)

lemma store_list_append: "store_list a (xs @ ys) m = store_list (a + of_nat (length xs)) ys (store_list a xs m)"
  by (induction xs arbitrary: a m) (simp_all add: add.assoc)

lemma store_list_apply:
  "length xs < 2 ^ 32 \<Longrightarrow> store_list a xs m x = (let k = unat (x - a) in if k < length xs then xs ! k else m x)"
proof (induction xs arbitrary: a m)
  case (Cons c xs)
  show ?case
  proof (cases "x = a")
    case True
    have "unat (- 1 :: addr) = 2 ^ 32 - 1" by simp
    then show ?thesis using Cons True by (simp add: Let_def)
  next
    case False
    then have "0 < unat (x - a)" by (simp add: unat_gt_0)
    moreover have "unat (x - (a + 1)) = unat (x - a) - 1"
      using unat_diff_shift [of 1 x a] calculation by simp
    ultimately show ?thesis using Cons False by (auto simp: Let_def nth_Cons')
  qed
qed simp

lemma bytes_at_store_list [simp]: "length xs < 2 ^ 32 \<Longrightarrow> n = length xs \<Longrightarrow> bytes_at (store_list a xs m) a n = xs"
  by (rule nth_equalityI) (simp_all add: store_list_apply unat_of_nat)

lemma store_list_out: "length xs < 2 ^ 32 \<Longrightarrow> x \<notin> region a (length xs) \<Longrightarrow> store_list a xs m x = m x"
  by (simp add: store_list_apply)

lemma memcpy_store_list:
  assumes "d = s \<or> d \<notin> region s (unat n)"
  shows "memcpy d s n m = store_list d (bytes_at m s (unat n)) m"
proof
  fix x
  show "memcpy d s n m x = store_list d (bytes_at m s (unat n)) m x"
    using unat_lt32 [of n] by (simp add: memcpy_apply [OF assms] store_list_apply Let_def)
qed

lemma memcpy_out: "x \<notin> region d (unat n) \<Longrightarrow> memcpy d s n m x = m x"
proof -
  have "x \<notin> region d k \<Longrightarrow> k \<le> 2 ^ 32 \<Longrightarrow> rep_movsb k d s m x = m x" for k
  proof (induction k arbitrary: d s m)
    case (Suc k)
    then have "x \<noteq> d" "x \<notin> region (d + 1) k" using region_Suc [of k x d] by auto
    then show ?case using Suc by simp
  qed simp
  then show "x \<notin> region d (unat n) \<Longrightarrow> memcpy d s n m x = m x" using unat_lt32 [of n] by (simp add: memcpy_def)
qed

text \<open>The stores of the C code as byte strings.\<close>

lemma store_as_list:
  "store16 m a v = store_list a [ucast v, ucast (drop_bit 8 v)] m"
  "store32 m a w = store_list a [ucast w, ucast (drop_bit 8 w), ucast (drop_bit 16 w), ucast (drop_bit 24 w)] m"
  "m(a := b) = store_list a [b] m"
  by (simp_all add: store16_def store32_def add.assoc)

lemma load32_bytes:
  "(ucast (load32 m a) :: u8) = m a" "(ucast (drop_bit 8 (load32 m a)) :: u8) = m (a + 1)"
  "(ucast (drop_bit 16 (load32 m a)) :: u8) = m (a + 2)" "(ucast (drop_bit 24 (load32 m a)) :: u8) = m (a + 3)"
  unfolding load32_def by (rule bit_word_eqI, auto simp: bit_simps dest: bit_imp_le_length)+

lemma load16_bytes:
  "(ucast (load16 m a) :: u8) = m a" "(ucast (drop_bit 8 (load16 m a)) :: u8) = m (a + 1)"
  unfolding load16_def by (rule bit_word_eqI, auto simp: bit_simps dest: bit_imp_le_length)+

lemma bytes_at_4: "bytes_at m a 4 = [m a, m (a + 1), m (a + 2), m (a + 3)]"
proof -
  have "[0..<4] = [0, 1, 2, 3 :: nat]" by (simp add: upt_rec)
  then show ?thesis by (simp add: bytes_at_def)
qed

end
