(* ===== verification/Frog_Port.thy ===== *)
theory Frog_Port
  imports Frog_Prelude
begin

text \<open>
  The machine every component runs on: the byte memory and the history of port writes.
  include/port.h wraps the \<^verbatim>\<open>in\<close> and \<^verbatim>\<open>out\<close> instructions; what a device answers to a read is
  not part of the repository, so a read is a function of the history of writes that the
  definitions using it take as a parameter. \<^verbatim>\<open>io_wait\<close> only jumps and has no effect here.
\<close>

datatype io_event =
    OutB u16 u8
  | OutW u16 u16
  | OutL u16 u32
  | InW u16  \<comment> \<open>a read made for its effect on the device, not for its value\<close>

record machine =
  mem :: byte_mem
  io :: "io_event list"  \<comment> \<open>port accesses so far, the latest last\<close>

definition outportb :: "u16 \<Rightarrow> u8 \<Rightarrow> 'a machine_scheme \<Rightarrow> 'a machine_scheme" where
  "outportb port data s = s\<lparr>io := io s @ [OutB port data]\<rparr>"

definition outportw :: "u16 \<Rightarrow> u16 \<Rightarrow> 'a machine_scheme \<Rightarrow> 'a machine_scheme" where
  "outportw port data s = s\<lparr>io := io s @ [OutW port data]\<rparr>"

definition outportl :: "u16 \<Rightarrow> u32 \<Rightarrow> 'a machine_scheme \<Rightarrow> 'a machine_scheme" where
  "outportl port data s = s\<lparr>io := io s @ [OutL port data]\<rparr>"

definition touchw :: "u16 \<Rightarrow> 'a machine_scheme \<Rightarrow> 'a machine_scheme" where
  "touchw port s = s\<lparr>io := io s @ [InW port]\<rparr>"

text \<open>What the devices answer: the value a port reads as after a history of writes.\<close>

type_synonym 'w port_read = "io_event list \<Rightarrow> u16 \<Rightarrow> 'w"

definition inportb :: "u8 port_read \<Rightarrow> u16 \<Rightarrow> 'a machine_scheme \<Rightarrow> u8" where
  "inportb dev port s = dev (io s) port"

definition inportw :: "u16 port_read \<Rightarrow> u16 \<Rightarrow> 'a machine_scheme \<Rightarrow> u16" where
  "inportw dev port s = dev (io s) port"

definition inportl :: "u32 port_read \<Rightarrow> u16 \<Rightarrow> 'a machine_scheme \<Rightarrow> u32" where
  "inportl dev port s = dev (io s) port"

lemma outport_mem [simp]:
  "mem (outportb p b s) = mem s" "mem (outportw p w s) = mem s" "mem (outportl p l s) = mem s"
  by (simp_all add: outportb_def outportw_def outportl_def)

lemma outport_io [simp]:
  "io (outportb p b s) = io s @ [OutB p b]"
  "io (outportw p w s) = io s @ [OutW p w]"
  "io (outportl p l s) = io s @ [OutL p l]"
  by (simp_all add: outportb_def outportw_def outportl_def)

end
