(* ===== verification/Frog_Conio.thy ===== *)
theory Frog_Conio
  imports Frog_String Frog_Port
begin

text \<open>
  The text console of lib/conio.c: 25 rows of 80 character cells in the memory-mapped video
  buffer, a cursor and an attribute. The operations work on the byte memory itself, through
  \<^verbatim>\<open>memcpy\<close> and \<^verbatim>\<open>memsetw\<close>; the abstract console is the list of the 2000 cells, on which
  \<^verbatim>\<open>putch\<close> is a list update followed by at most one scroll.
\<close>

section \<open>State and operations\<close>

record con = machine +
  csr_x :: int
  csr_y :: int
  attrib :: u32

definition video :: addr where
  "video = 0xC00B8000"

text \<open>\<^verbatim>\<open>move_csr\<close>: the cursor position as the VGA's cursor registers 14 and 15 take it.\<close>

definition move_csr :: "'a con_scheme \<Rightarrow> 'a con_scheme" where
  "move_csr s = (let temp = word_of_int (csr_y s * 80 + csr_x s) :: u32 in
     outportb 0x3D5 (ucast temp) (outportb 0x3D4 15
       (outportb 0x3D5 (ucast (drop_bit 8 temp)) (outportb 0x3D4 14 s))))"

definition cls :: "'a con_scheme \<Rightarrow> 'a con_scheme" where
  "cls s = move_csr (s\<lparr>mem := memsetw video (ucast (push_bit 8 (attrib s))) (80 * 25) (mem s),
     csr_x := 0, csr_y := 0\<rparr>)"

text \<open>\<^verbatim>\<open>scroll\<close>: pointer arithmetic on \<^verbatim>\<open>short *\<close> counts in units of two bytes.\<close>

definition scroll :: "'a con_scheme \<Rightarrow> 'a con_scheme" where
  "scroll s = (let blank = 0x20 OR push_bit 8 (attrib s) in
     if 25 \<le> csr_y s then
       let temp = word_of_int (csr_y s - 25 + 1) :: u32;
           m1 = memcpy video (video + 2 * (temp * 80)) ((25 - temp) * 80 * 2) (mem s);
           m2 = memsetw (video + 2 * ((25 - temp) * 80)) (ucast blank) 80 m1
       in s\<lparr>mem := m2, csr_y := 25 - 1\<rparr>
     else s)"

text \<open>The five cases of \<^verbatim>\<open>putch\<close> on the character, then the line wrap, the scroll and the
  cursor. \<^verbatim>\<open>(csr_x + 8) & ~(8 - 1)\<close> is the next multiple of 8.\<close>

definition putch_char :: "u8 \<Rightarrow> 'a con_scheme \<Rightarrow> 'a con_scheme" where
  "putch_char c s =
     (let att = push_bit 8 (attrib s) in
      if c = 0x08 then (if csr_x s \<noteq> 0 then s\<lparr>csr_x := csr_x s - 1\<rparr> else s)
      else if c = 0x09 then s\<lparr>csr_x := (csr_x s + 8) AND NOT (8 - 1)\<rparr>
      else if c = 0x0D then s\<lparr>csr_x := 0\<rparr>
      else if c = 0x0A then s\<lparr>csr_x := 0, csr_y := csr_y s + 1\<rparr>
      else if 0x20 \<le> c then
        s\<lparr>mem := store16 (mem s) (video + 2 * word_of_int (csr_y s * 80 + csr_x s))
                   (ucast (ucast c OR att)),
          csr_x := csr_x s + 1\<rparr>
      else s)"

definition putch_wrap :: "'a con_scheme \<Rightarrow> 'a con_scheme" where
  "putch_wrap s = (if 80 \<le> csr_x s then s\<lparr>csr_x := 0, csr_y := csr_y s + 1\<rparr> else s)"

definition putch :: "u8 \<Rightarrow> 'a con_scheme \<Rightarrow> 'a con_scheme" where
  "putch c s = move_csr (scroll (putch_wrap (putch_char c s)))"

text \<open>\<^verbatim>\<open>puts\<close> calls \<^verbatim>\<open>strlen\<close> again before every character.\<close>

partial_function (option) puts_loop :: "addr \<Rightarrow> u32 \<Rightarrow> 'a con_scheme \<Rightarrow> 'a con_scheme option" where
  "puts_loop str i s =
     Option.bind (strlen (mem s) str)
       (\<lambda>n. if i < n then puts_loop str (i + 1) (putch (mem s (str + i)) s) else Some s)"

definition puts :: "addr \<Rightarrow> 'a con_scheme \<Rightarrow> 'a con_scheme option" where
  "puts str s = puts_loop str 0 s"

section \<open>The abstract console\<close>

text \<open>The cursor stays on the screen.\<close>

definition con_ok :: "'a con_scheme \<Rightarrow> bool" where
  "con_ok s \<longleftrightarrow> 0 \<le> csr_x s \<and> csr_x s < 80 \<and> 0 \<le> csr_y s \<and> csr_y s < 25"

definition cells :: "byte_mem \<Rightarrow> u16 list" where
  "cells m = map (\<lambda>i. load16 m (video + 2 * of_nat i)) [0..<2000]"

record console =
  screen :: "u16 list"
  pos :: nat

definition blank_cell :: "u32 \<Rightarrow> u16" where
  "blank_cell a = ucast (0x20 OR push_bit 8 a)"

definition char_cell :: "u32 \<Rightarrow> u8 \<Rightarrow> u16" where
  "char_cell a c = ucast (ucast c OR push_bit 8 a)"

text \<open>Moving to position \<open>p\<close>: past the last cell the screen scrolls by one row.\<close>

definition goto :: "u32 \<Rightarrow> nat \<Rightarrow> u16 list \<Rightarrow> console" where
  "goto a p cs = (if p < 2000 then \<lparr>screen = cs, pos = p\<rparr>
     else \<lparr>screen = drop 80 cs @ replicate 80 (blank_cell a), pos = p - 80\<rparr>)"

definition con_putch :: "u32 \<Rightarrow> u8 \<Rightarrow> console \<Rightarrow> console" where
  "con_putch a c k =
     (let p = pos k; col = p mod 80; row = p div 80 in
      if c = 0x08 then k\<lparr>pos := (if col = 0 then p else p - 1)\<rparr>
      else if c = 0x09 then goto a (80 * row + 8 * (col div 8 + 1)) (screen k)
      else if c = 0x0D then k\<lparr>pos := 80 * row\<rparr>
      else if c = 0x0A then goto a (80 * (row + 1)) (screen k)
      else if 0x20 \<le> c then goto a (p + 1) ((screen k)[p := char_cell a c])
      else k)"

definition con_abs :: "'a con_scheme \<Rightarrow> console" where
  "con_abs s = \<lparr>screen = cells (mem s), pos = nat (80 * csr_y s + csr_x s)\<rparr>"

section \<open>Cells in memory\<close>

lemma length_cells [simp]: "length (cells m) = 2000"
  by (simp add: cells_def)

lemma cells_nth [simp]: "i < 2000 \<Longrightarrow> cells m ! i = load16 m (video + 2 * of_nat i)"
  by (simp add: cells_def)

lemma unat_cell_offset: "i < 2000 \<Longrightarrow> unat (2 * of_nat i :: addr) = 2 * i"
  by (simp add: unat_word_ariths unat_of_nat)

lemma unat_cell_offset1: "i < 2000 \<Longrightarrow> unat (2 * of_nat i + 1 :: addr) = 2 * i + 1"
  by (simp add: unat_word_ariths unat_of_nat)

lemma unat_cell_offset_comm: "i < 2000 \<Longrightarrow> unat (1 + 2 * of_nat i :: addr) = 2 * i + 1"
  by (simp add: unat_word_ariths unat_of_nat)

lemmas cell_offsets = unat_cell_offset unat_cell_offset1 unat_cell_offset_comm

lemma cell_offset_inj:
  assumes "i < 2000" "j < 2000"
  shows "2 * of_nat i = (2 * of_nat j :: addr) \<longleftrightarrow> i = j"
    and "2 * of_nat i = (2 * of_nat j + 1 :: addr) \<longleftrightarrow> False"
    and "2 * of_nat i + 1 = (2 * of_nat j :: addr) \<longleftrightarrow> False"
  unfolding word_unat_eq_iff using assms by (simp_all add: cell_offsets) presburger+

lemma cells_store16:
  assumes "p < 2000"
  shows "cells (store16 m (video + 2 * of_nat p) v) = (cells m)[p := v]"
proof (rule nth_equalityI)
  fix i assume "i < length (cells (store16 m (video + 2 * of_nat p) v))"
  then have i: "i < 2000" by simp
  show "cells (store16 m (video + 2 * of_nat p) v) ! i = (cells m)[p := v] ! i"
  proof (cases "i = p")
    case True then show ?thesis using assms by simp
  next
    case False
    then show ?thesis using i assms cell_offset_inj [OF i assms] cell_offset_inj [OF assms i]
      by (simp add: load16_def store16_apply add.assoc)
  qed
qed simp

text \<open>One scroll step: rows move up, the last row is blank.\<close>

lemma scroll_bytes:
  "memsetw (video + 3840) b 80 (memcpy video (video + 160) 3840 m) y =
     (let n = unat (y - video) in
      if n < 3840 then m (y + 160)
      else if n < 4000 then (if even n then ucast b else ucast (drop_bit 8 b))
      else m y)"
proof -
  have "memcpy video (video + 160) 3840 m y =
      (if y \<in> region video 3840 then m (y + 160) else m y)"
    by (subst memcpy_apply) (simp_all add: add.commute [of 160 y])
  moreover have "y \<in> region (video + 3840) 160 \<longleftrightarrow> 3840 \<le> unat (y - video) \<and> unat (y - video) < 4000"
    by (subst region_shift) simp_all
  moreover have "even (unat (y - (video + 3840))) = even (unat (y - video))" if "3840 \<le> unat (y - video)"
    using that by (simp add: unat_diff_shift)
  ultimately show ?thesis
    by (subst memsetw_apply) (auto simp: Let_def)
qed

lemma scroll_cells:
  "cells (memsetw (video + 3840) b 80 (memcpy video (video + 160) 3840 m))
     = drop 80 (cells m) @ replicate 80 b"
proof (rule nth_equalityI)
  fix i assume "i < length (cells (memsetw (video + 3840) b 80 (memcpy video (video + 160) 3840 m)))"
  then have i: "i < 2000" by simp
  show "cells (memsetw (video + 3840) b 80 (memcpy video (video + 160) 3840 m)) ! i
      = (drop 80 (cells m) @ replicate 80 b) ! i"
  proof (cases "i < 1920")
    case True
    then show ?thesis
      by (simp add: load16_def scroll_bytes Let_def cell_offsets nth_append add.assoc
          add.commute [of 160] add.commute [of 161])
  next
    case False
    with i show ?thesis
      by (simp add: load16_def scroll_bytes Let_def cell_offsets nth_append word16_of_bytes add.assoc)
  qed
qed simp

section \<open>The operations on the abstract console\<close>

lemma move_csr_simps [simp]:
  "mem (move_csr s) = mem s" "csr_x (move_csr s) = csr_x s" "csr_y (move_csr s) = csr_y s"
  "attrib (move_csr s) = attrib s" "con.more (move_csr s) = con.more s"
  by (simp_all add: move_csr_def Let_def outportb_def)

lemma scroll_off [simp]: "csr_y s < 25 \<Longrightarrow> scroll s = s"
  by (simp add: scroll_def)

lemma scroll_one:
  "csr_y s = 25 \<Longrightarrow> scroll s = s\<lparr>mem := memsetw (video + 3840) (blank_cell (attrib s)) 80
     (memcpy video (video + 160) 3840 (mem s)), csr_y := 24\<rparr>"
  by (simp add: scroll_def Let_def blank_cell_def)

text \<open>After the character has been handled the cursor is at most one past the row or on the
  row below the screen; this is what wrap and scroll repair.\<close>

lemma finish_goto:
  assumes "0 \<le> csr_x s" "csr_x s \<le> 80" "0 \<le> csr_y s" "csr_y s < 25 \<or> csr_y s = 25 \<and> csr_x s = 0"
  shows "con_abs (move_csr (scroll (putch_wrap s)))
      = goto (attrib s) (nat (80 * csr_y s + csr_x s)) (cells (mem s))"
    and "con_ok (move_csr (scroll (putch_wrap s)))"
proof -
  consider (wrap_scroll) "csr_x s = 80" "csr_y s = 24" | (wrap) "csr_x s = 80" "csr_y s < 24"
    | (scroll) "csr_x s = 0" "csr_y s = 25" | (stay) "csr_x s < 80" "csr_y s < 25"
    using assms by linarith
  note cases = this
  show "con_abs (move_csr (scroll (putch_wrap s)))
      = goto (attrib s) (nat (80 * csr_y s + csr_x s)) (cells (mem s))"
    using cases
    by cases (use assms in \<open>simp_all add: putch_wrap_def scroll_one con_abs_def goto_def
        scroll_cells nat_less_iff\<close>)
  show "con_ok (move_csr (scroll (putch_wrap s)))"
    using cases
    by cases (use assms in \<open>simp_all add: putch_wrap_def scroll_one con_ok_def\<close>)
qed

lemma tab_stop:
  fixes x :: int
  assumes "0 \<le> x"
  shows "(x + 8) AND - 8 = 8 * (x div 8 + 1)"
proof -
  have "(x + 8) AND NOT (mask 3) = push_bit 3 (drop_bit 3 (x + 8))"
    by (rule bit_eqI) (auto simp: bit_simps)
  moreover have "(x + 8) div 8 = x div 8 + 1" by simp
  ultimately show ?thesis by (simp add: mask_numeral push_bit_eq_mult drop_bit_eq_div)
qed

lemma con_okE:
  assumes "con_ok s"
  obtains x y where "csr_x s = int x" "csr_y s = int y" "x < 80" "y < 25"
  using assms by (metis con_ok_def int_nat_eq nat_less_iff of_nat_numeral zero_le_numeral)

lemma putch_char_goto:
  assumes ok: "con_ok s" and c: "c \<noteq> 0x08"
  defines "t \<equiv> putch_char c s"
  shows "0 \<le> csr_x t" "csr_x t \<le> 80" "0 \<le> csr_y t" "csr_y t < 25 \<or> csr_y t = 25 \<and> csr_x t = 0"
    "attrib t = attrib s"
    "goto (attrib s) (nat (80 * csr_y t + csr_x t)) (cells (mem t)) = con_putch (attrib s) c (con_abs s)"
proof -
  from ok obtain x y where xy: "csr_x s = int x" "csr_y s = int y" "x < 80" "y < 25"
    by (rule con_okE)
  have tab: "8 * (int x div 8 + 1) = int (8 * (x div 8 + 1))" "8 * (x div 8 + 1) \<le> 80"
    using xy by (simp_all add: zdiv_int)
  have pos: "nat (80 * int y + int z) = 80 * y + z" for z by linarith
  have lt: "80 * y + x < 2000" using xy by simp
  have at: "word_of_int (int y * 80 + int x) = (of_nat (80 * y + x) :: addr)"
    by (simp add: mult.commute)
  show "0 \<le> csr_x t" "csr_x t \<le> 80" "0 \<le> csr_y t" "csr_y t < 25 \<or> csr_y t = 25 \<and> csr_x t = 0"
    "attrib t = attrib s"
    using xy tab by (auto simp: t_def putch_char_def Let_def tab_stop)
  show "goto (attrib s) (nat (80 * csr_y t + csr_x t)) (cells (mem t)) = con_putch (attrib s) c (con_abs s)"
  proof -
    consider (tab) "c = 9" | (cr) "c = 0xD" | (nl) "c = 0xA"
      | (printable) "0x20 \<le> c" "c \<noteq> 9" "c \<noteq> 0xD" "c \<noteq> 0xA"
      | (other) "\<not> 0x20 \<le> c" "c \<noteq> 9" "c \<noteq> 0xD" "c \<noteq> 0xA" by blast
    then show ?thesis
    proof cases
      case tab
      then have "nat (80 * csr_y t + csr_x t) = 80 * y + 8 * (x div 8 + 1)"
        using xy \<open>8 * (int x div 8 + 1) = _\<close> pos by (simp add: t_def putch_char_def tab_stop)
      then show ?thesis using xy tab pos [of x]
        by (simp add: t_def putch_char_def con_putch_def con_abs_def Let_def)
    next
      case cr
      then show ?thesis using xy pos [of 0] pos [of x]
        by (simp add: t_def putch_char_def con_putch_def con_abs_def goto_def)
    next
      case nl
      have "nat (80 * (int y + 1)) = 80 * (y + 1)" using pos [of 80] by (simp add: distrib_left)
      with nl show ?thesis using xy pos [of x]
        by (simp add: t_def putch_char_def con_putch_def con_abs_def)
    next
      case printable
      have "nat (80 * int y + (int x + 1)) = Suc (80 * y + x)" by linarith
      with printable show ?thesis using xy pos [of x] lt c cells_store16 [OF lt]
        by (simp add: t_def putch_char_def con_putch_def con_abs_def at char_cell_def Let_def)
    next
      case other
      then show ?thesis using xy pos [of x] lt c
        by (simp add: t_def putch_char_def con_putch_def con_abs_def goto_def)
    qed
  qed
qed

lemma putch_ok_abs:
  assumes ok: "con_ok s"
  shows "con_ok (putch c s)" "con_abs (putch c s) = con_putch (attrib s) c (con_abs s)"
proof -
  have "con_ok (putch c s) \<and> con_abs (putch c s) = con_putch (attrib s) c (con_abs s)"
  proof (cases "c = 0x08")
    case True
    from ok obtain x y where xy: "csr_x s = int x" "csr_y s = int y" "x < 80" "y < 25"
      by (rule con_okE)
    have "nat (80 * int y + int x) = 80 * y + x" "nat (80 * int y + (int x - 1)) = 80 * y + x - 1"
      by linarith+
    with True xy show ?thesis
      by (auto simp: putch_def putch_char_def putch_wrap_def con_ok_def con_abs_def con_putch_def
          Let_def add_diff_eq)
  next
    case False
    note t = putch_char_goto [OF ok False]
    show ?thesis
      using finish_goto [OF t(1-4)] t(5,6) by (simp add: putch_def)
  qed
  then show "con_ok (putch c s)" "con_abs (putch c s) = con_putch (attrib s) c (con_abs s)" by simp_all
qed

lemma putch_frame:
  assumes ok: "con_ok s" and x: "x \<notin> region video 4000"
  shows "mem (putch c s) x = mem s x"
proof -
  from ok obtain i j where xy: "csr_x s = int i" "csr_y s = int j" "i < 80" "j < 25"
    by (rule con_okE)
  define p where "p = 80 * j + i"
  have at: "word_of_int (csr_y s * 80 + csr_x s) = (of_nat p :: addr)"
    unfolding xy by (simp add: p_def mult.commute)
  have p: "p < 2000" using xy by (simp add: p_def)
  have "x \<notin> region (video + 2 * of_nat p) 2"
    using x p by (subst region_shift) (simp_all add: unat_cell_offset)
  then have char: "mem (putch_char c s) x = mem s x"
    unfolding putch_char_def Let_def at by (auto simp del: in_region)
  have "mem (scroll u) x = mem u x" if "csr_y u \<le> 25" for u :: "'a con_scheme"
    using x that by (cases "csr_y u = 25") (simp_all add: scroll_one scroll_bytes Let_def)
  moreover have "csr_y (putch_wrap (putch_char c s)) \<le> 25"
    using ok by (auto simp: putch_wrap_def putch_char_def con_ok_def Let_def tab_stop)
  ultimately show ?thesis using char by (simp add: putch_def putch_wrap_def)
qed

lemma putch_attrib [simp]: "attrib (putch c s) = attrib s"
  by (simp add: putch_def putch_wrap_def putch_char_def scroll_def Let_def)

lemma putch_more [simp]: "con.more (putch c s) = con.more s"
  by (simp add: putch_def putch_wrap_def putch_char_def scroll_def Let_def)

lemma putch_io: "\<exists>temp. temp = (word_of_int (csr_y (putch c s) * 80 + csr_x (putch c s)) :: u32) \<and>
   io (putch c s) = io s @ [OutB 0x3D4 14, OutB 0x3D5 (ucast (drop_bit 8 temp)),
     OutB 0x3D4 15, OutB 0x3D5 (ucast temp)]"
  by (simp add: putch_def move_csr_def putch_wrap_def putch_char_def scroll_def outportb_def Let_def)

lemma cursor_register_bytes:
  fixes t :: u32
  assumes "unat t < 65536"
  shows "256 * unat (ucast (drop_bit 8 t) :: u8) + unat (ucast t :: u8) = unat t"
  using assms by (simp add: unsigned_ucast_eq unat_drop_bit_eq drop_bit_eq_div
      take_bit_eq_mod unat_div)

text \<open>Printing a string that does not lie in the video buffer.\<close>

lemma puts_loop_string:
  assumes "con_ok s" "cstr (mem s) str bs" "i \<le> length bs" "length bs < 2 ^ 32"
    and apart: "\<And>k. k \<le> length bs \<Longrightarrow> str + of_nat k \<notin> region video 4000"
  shows "puts_loop str (of_nat i) s = Some (foldl (\<lambda>s b. putch b s) s (drop i bs))"
  using assms(1-3)
proof (induction "length bs - i" arbitrary: i s)
  case 0
  then have "i = length bs" by simp
  then show ?case using 0 by (simp add: puts_loop.simps strlen_cstr)
next
  case (Suc n)
  then have i: "i < length bs" by simp
  have "(of_nat i :: u32) < of_nat (length bs)"
    using i assms(4) by (simp add: word_less_nat_alt unat_of_nat)
  moreover have "mem s (str + of_nat i) = bs ! i" using Suc.prems(2) i by (simp add: cstr_def)
  moreover have "puts_loop str (of_nat (Suc i)) (putch (bs ! i) s)
      = Some (foldl (\<lambda>s b. putch b s) (putch (bs ! i) s) (drop (Suc i) bs))"
  proof (rule Suc.hyps(1))
    show "cstr (mem (putch (bs ! i) s)) str bs"
      using Suc.prems(2) apart by (subst cstr_cong [where m' = "mem s"])
        (auto intro!: putch_frame [OF Suc.prems(1)])
  qed (use Suc i in \<open>auto intro: putch_ok_abs(1)\<close>)
  ultimately show ?case
    using i Suc.prems(2) by (simp add: puts_loop.simps [of str "of_nat i"] strlen_cstr
        Cons_nth_drop_Suc [symmetric] add.commute)
qed

section \<open>Properties\<close>

text \<open>C5: \<^verbatim>\<open>putch\<close> implements the abstract console: for a cursor on the screen, the new cells and
  the new position are those of the list-level \<open>con_putch\<close> (character, backspace, tab,
  carriage return, newline, wrap at column 80 and scroll at row 25), and the cursor is again
  on the screen.\<close>

theorem putch_refines_console:
  assumes "con_ok s"
  shows "con_ok (putch c s) \<and> con_abs (putch c s) = con_putch (attrib s) c (con_abs s)"
  using putch_ok_abs [OF assms] by simp

theorem putch_refines_console_witness:
  "let s = \<lparr>mem = (\<lambda>_. 0), io = [], csr_x = 79, csr_y = 24, attrib = 0xF\<rparr> in
   pos (con_abs (putch 65 s)) = 1920 \<and> screen (con_abs (putch 65 s)) ! 1919 = 0xF41"
proof -
  let ?s = "\<lparr>mem = (\<lambda>_. 0), io = [], csr_x = 79, csr_y = 24, attrib = 0xF\<rparr>"
  have "con_abs (putch 65 ?s) = con_putch 0xF 65 (con_abs ?s)"
    using putch_refines_console [of ?s 65] by (simp add: con_ok_def)
  moreover have "pos (con_putch 0xF 65 (con_abs ?s)) = 1920"
      "screen (con_putch 0xF 65 (con_abs ?s)) ! 1919 = 0xF41"
    by (simp_all add: con_putch_def con_abs_def goto_def char_cell_def nth_append)
  ultimately show ?thesis by (simp only: Let_def)
qed

text \<open>With the cursor on the screen \<^verbatim>\<open>putch\<close> changes no byte outside the 4000 bytes of the
  video buffer, and its last port writes put the cursor's linear position into the VGA's
  cursor registers 14 (high byte) and 15 (low byte).\<close>

theorem putch_writes_video_and_cursor:
  assumes "con_ok s"
  shows "(\<forall>x. x \<notin> region video 4000 \<longrightarrow> mem (putch c s) x = mem s x) \<and>
    (\<exists>hi lo. io (putch c s) = io s @ [OutB 0x3D4 14, OutB 0x3D5 hi, OutB 0x3D4 15, OutB 0x3D5 lo] \<and>
       256 * unat hi + unat lo = pos (con_abs (putch c s)))"
proof -
  obtain temp where temp: "temp = (word_of_int (csr_y (putch c s) * 80 + csr_x (putch c s)) :: u32)"
    and io: "io (putch c s) = io s @ [OutB 0x3D4 14, OutB 0x3D5 (ucast (drop_bit 8 temp)),
       OutB 0x3D4 15, OutB 0x3D5 (ucast temp)]"
    using putch_io by blast
  obtain x y where xy: "csr_x (putch c s) = int x" "csr_y (putch c s) = int y" "x < 80" "y < 25"
    using con_okE [OF putch_ok_abs(1) [OF assms, of c]] by metis
  have "temp = of_nat (80 * y + x)" unfolding temp xy by (simp add: mult.commute)
  then have "unat temp = 80 * y + x" using xy by (simp only:) (simp add: unat_of_nat del: of_nat_add of_nat_mult)
  moreover have "nat (80 * int y + int x) = 80 * y + x" by linarith
  ultimately have "256 * unat (ucast (drop_bit 8 temp) :: u8) + unat (ucast temp :: u8)
      = pos (con_abs (putch c s))"
    using cursor_register_bytes [of temp] xy by (simp add: con_abs_def)
  then show ?thesis using putch_frame [OF assms] io by blast
qed

theorem putch_writes_video_and_cursor_witness:
  "let s = \<lparr>mem = (\<lambda>_. 0), io = [], csr_x = 3, csr_y = 10, attrib = 0xF\<rparr> in
   (\<exists>hi lo. io (putch 65 s) = [OutB 0x3D4 14, OutB 0x3D5 hi, OutB 0x3D4 15, OutB 0x3D5 lo] \<and>
     256 * unat hi + unat lo = 804)"
proof -
  let ?s = "\<lparr>mem = (\<lambda>_. 0), io = [], csr_x = 3, csr_y = 10, attrib = 0xF\<rparr>"
  have "con_ok ?s" by (simp add: con_ok_def)
  moreover have "pos (con_abs (putch 65 ?s)) = 804"
    using putch_ok_abs(2) [of ?s 65] \<open>con_ok ?s\<close>
    by (simp only:) (simp add: con_abs_def con_putch_def goto_def)
  ultimately show ?thesis
    using putch_writes_video_and_cursor [of ?s 65] by (auto simp del: in_region)
qed

text \<open>\<^verbatim>\<open>puts\<close> of a NUL-terminated string outside the video buffer returns, and has the effect
  of \<^verbatim>\<open>putch\<close> of each of its characters in order.\<close>

theorem puts_prints_string:
  assumes "con_ok s" "cstr (mem s) str bs" "length bs < 2 ^ 32"
    and "\<forall>k\<le>length bs. str + of_nat k \<notin> region video 4000"
  shows "puts str s = Some (foldl (\<lambda>s b. putch b s) s bs)"
  using puts_loop_string [of s str bs 0] assms by (simp add: puts_def)

theorem puts_prints_string_witness:
  "let s = \<lparr>mem = (\<lambda>_. 0)(16 := 72, 17 := 105), io = [], csr_x = 0, csr_y = 0, attrib = 0xF\<rparr> in
   puts 16 s = Some (putch 105 (putch 72 s))"
proof -
  let ?s = "\<lparr>mem = (\<lambda>_. 0)(16 := 72, 17 := 105), io = [], csr_x = 0, csr_y = 0, attrib = 0xF\<rparr>"
  have "cstr (mem ?s) 16 [72, 105]" by (auto simp: cstr_def less_Suc_eq)
  moreover have "\<forall>k\<le>length [72, 105 :: u8]. 16 + of_nat k \<notin> region video 4000"
    by (auto simp: video_def le_Suc_eq)
  ultimately show ?thesis
    using puts_prints_string [of ?s 16 "[72, 105]"] by (simp add: con_ok_def)
qed

end
