(* ===== verification/Frog_Crc32.thy ===== *)
theory Frog_Crc32
  imports Frog_String
begin

text \<open>
  The CRC-32 of lib/crc32.c: the 256-entry table and the byte-at-a-time loop over it. The
  reference is the bitwise definition of the CRC with the reflected polynomial 0xEDB88320;
  the table-driven loop is proved equal to it on every buffer, and the CRC is shown to tell
  apart any two buffers that differ in exactly one byte.
\<close>

section \<open>The code\<close>

definition crc32_tab :: "u32 list" where
  "crc32_tab = [
    0x00000000, 0x77073096, 0xee0e612c, 0x990951ba, 0x076dc419, 0x706af48f,
    0xe963a535, 0x9e6495a3, 0x0edb8832, 0x79dcb8a4, 0xe0d5e91e, 0x97d2d988,
    0x09b64c2b, 0x7eb17cbd, 0xe7b82d07, 0x90bf1d91, 0x1db71064, 0x6ab020f2,
    0xf3b97148, 0x84be41de, 0x1adad47d, 0x6ddde4eb, 0xf4d4b551, 0x83d385c7,
    0x136c9856, 0x646ba8c0, 0xfd62f97a, 0x8a65c9ec, 0x14015c4f, 0x63066cd9,
    0xfa0f3d63, 0x8d080df5, 0x3b6e20c8, 0x4c69105e, 0xd56041e4, 0xa2677172,
    0x3c03e4d1, 0x4b04d447, 0xd20d85fd, 0xa50ab56b, 0x35b5a8fa, 0x42b2986c,
    0xdbbbc9d6, 0xacbcf940, 0x32d86ce3, 0x45df5c75, 0xdcd60dcf, 0xabd13d59,
    0x26d930ac, 0x51de003a, 0xc8d75180, 0xbfd06116, 0x21b4f4b5, 0x56b3c423,
    0xcfba9599, 0xb8bda50f, 0x2802b89e, 0x5f058808, 0xc60cd9b2, 0xb10be924,
    0x2f6f7c87, 0x58684c11, 0xc1611dab, 0xb6662d3d, 0x76dc4190, 0x01db7106,
    0x98d220bc, 0xefd5102a, 0x71b18589, 0x06b6b51f, 0x9fbfe4a5, 0xe8b8d433,
    0x7807c9a2, 0x0f00f934, 0x9609a88e, 0xe10e9818, 0x7f6a0dbb, 0x086d3d2d,
    0x91646c97, 0xe6635c01, 0x6b6b51f4, 0x1c6c6162, 0x856530d8, 0xf262004e,
    0x6c0695ed, 0x1b01a57b, 0x8208f4c1, 0xf50fc457, 0x65b0d9c6, 0x12b7e950,
    0x8bbeb8ea, 0xfcb9887c, 0x62dd1ddf, 0x15da2d49, 0x8cd37cf3, 0xfbd44c65,
    0x4db26158, 0x3ab551ce, 0xa3bc0074, 0xd4bb30e2, 0x4adfa541, 0x3dd895d7,
    0xa4d1c46d, 0xd3d6f4fb, 0x4369e96a, 0x346ed9fc, 0xad678846, 0xda60b8d0,
    0x44042d73, 0x33031de5, 0xaa0a4c5f, 0xdd0d7cc9, 0x5005713c, 0x270241aa,
    0xbe0b1010, 0xc90c2086, 0x5768b525, 0x206f85b3, 0xb966d409, 0xce61e49f,
    0x5edef90e, 0x29d9c998, 0xb0d09822, 0xc7d7a8b4, 0x59b33d17, 0x2eb40d81,
    0xb7bd5c3b, 0xc0ba6cad, 0xedb88320, 0x9abfb3b6, 0x03b6e20c, 0x74b1d29a,
    0xead54739, 0x9dd277af, 0x04db2615, 0x73dc1683, 0xe3630b12, 0x94643b84,
    0x0d6d6a3e, 0x7a6a5aa8, 0xe40ecf0b, 0x9309ff9d, 0x0a00ae27, 0x7d079eb1,
    0xf00f9344, 0x8708a3d2, 0x1e01f268, 0x6906c2fe, 0xf762575d, 0x806567cb,
    0x196c3671, 0x6e6b06e7, 0xfed41b76, 0x89d32be0, 0x10da7a5a, 0x67dd4acc,
    0xf9b9df6f, 0x8ebeeff9, 0x17b7be43, 0x60b08ed5, 0xd6d6a3e8, 0xa1d1937e,
    0x38d8c2c4, 0x4fdff252, 0xd1bb67f1, 0xa6bc5767, 0x3fb506dd, 0x48b2364b,
    0xd80d2bda, 0xaf0a1b4c, 0x36034af6, 0x41047a60, 0xdf60efc3, 0xa867df55,
    0x316e8eef, 0x4669be79, 0xcb61b38c, 0xbc66831a, 0x256fd2a0, 0x5268e236,
    0xcc0c7795, 0xbb0b4703, 0x220216b9, 0x5505262f, 0xc5ba3bbe, 0xb2bd0b28,
    0x2bb45a92, 0x5cb36a04, 0xc2d7ffa7, 0xb5d0cf31, 0x2cd99e8b, 0x5bdeae1d,
    0x9b64c2b0, 0xec63f226, 0x756aa39c, 0x026d930a, 0x9c0906a9, 0xeb0e363f,
    0x72076785, 0x05005713, 0x95bf4a82, 0xe2b87a14, 0x7bb12bae, 0x0cb61b38,
    0x92d28e9b, 0xe5d5be0d, 0x7cdcefb7, 0x0bdbdf21, 0x86d3d2d4, 0xf1d4e242,
    0x68ddb3f8, 0x1fda836e, 0x81be16cd, 0xf6b9265b, 0x6fb077e1, 0x18b74777,
    0x88085ae6, 0xff0f6a70, 0x66063bca, 0x11010b5c, 0x8f659eff, 0xf862ae69,
    0x616bffd3, 0x166ccf45, 0xa00ae278, 0xd70dd2ee, 0x4e048354, 0x3903b3c2,
    0xa7672661, 0xd06016f7, 0x4969474d, 0x3e6e77db, 0xaed16a4a, 0xd9d65adc,
    0x40df0b66, 0x37d83bf0, 0xa9bcae53, 0xdebb9ec5, 0x47b2cf7f, 0x30b5ffe9,
    0xbdbdf21c, 0xcabac28a, 0x53b39330, 0x24b4a3a6, 0xbad03605, 0xcdd70693,
    0x54de5729, 0x23d967bf, 0xb3667a2e, 0xc4614ab8, 0x5d681b02, 0x2a6f2b94,
    0xb40bbe37, 0xc30c8ea1, 0x5a05df1b, 0x2d02ef8d]"

text \<open>The body of the loop for one byte \<^verbatim>\<open>*p\<close>. The index is masked to 8 bits, so it stays
  inside the table.\<close>

definition crc32_byte :: "u32 \<Rightarrow> u8 \<Rightarrow> u32" where
  "crc32_byte crc b = (crc32_tab ! unat ((crc XOR ucast b) AND 0xFF)) XOR drop_bit 8 crc"

text \<open>\<^verbatim>\<open>while (size--)\<close>: the loop runs \<^verbatim>\<open>size\<close> times.\<close>

fun crc32_loop :: "byte_mem \<Rightarrow> addr \<Rightarrow> nat \<Rightarrow> u32 \<Rightarrow> u32" where
  "crc32_loop m p 0 crc = crc"
| "crc32_loop m p (Suc n) crc = crc32_loop m (p + 1) n (crc32_byte crc (m p))"

definition crc32 :: "byte_mem \<Rightarrow> addr \<Rightarrow> u32 \<Rightarrow> u32" where
  "crc32 m buf len = crc32_loop m buf (unat len) (NOT 0) XOR NOT 0"

section \<open>The reference: one bit at a time\<close>

definition crc_poly :: u32 where
  "crc_poly = 0xEDB88320"

definition crc_bit :: "u32 \<Rightarrow> u32" where
  "crc_bit c = (if bit c 0 then drop_bit 1 c XOR crc_poly else drop_bit 1 c)"

definition crc_ref_byte :: "u32 \<Rightarrow> u8 \<Rightarrow> u32" where
  "crc_ref_byte c b = (crc_bit ^^ 8) (c XOR ucast b)"

definition crc_ref :: "u8 list \<Rightarrow> u32" where
  "crc_ref bs = foldl crc_ref_byte (NOT 0) bs XOR NOT 0"

section \<open>The table is the reference on single bytes\<close>

lemma crc32_tab_length [simp]: "length crc32_tab = 256"
  by (simp add: crc32_tab_def)

lemma crc_bit_linear: "crc_bit (a XOR b) = crc_bit a XOR crc_bit b"
  by (rule bit_word_eqI) (auto simp: crc_bit_def bit_simps)

lemma crc_bits_linear: "(crc_bit ^^ n) (a XOR b) = (crc_bit ^^ n) a XOR (crc_bit ^^ n) b"
  by (induction n) (simp_all add: crc_bit_linear)

lemma crc_bits_shift:
  "take_bit n c = 0 \<Longrightarrow> (crc_bit ^^ n) c = drop_bit n c"
proof (induction n arbitrary: c)
  case 0 then show ?case by simp
next
  case (Suc n)
  have low: "\<not> bit c 0" 
  proof
    assume "bit c 0"
    then have "bit (take_bit (Suc n) c) 0" by (simp add: bit_take_bit_iff)
    with Suc.prems show False by simp
  qed
  have "take_bit n (drop_bit 1 c) = drop_bit 1 (take_bit (Suc n) c)"
    by (simp add: drop_bit_take_bit)
  then have "(crc_bit ^^ n) (drop_bit 1 c) = drop_bit n (drop_bit 1 c)"
    using Suc by simp
  moreover have "crc_bit c = drop_bit 1 c" using low by (simp add: crc_bit_def)
  ultimately show ?case by (simp add: funpow_Suc_right del: funpow.simps)
qed

lemma crc_bits_8: "(crc_bit ^^ 8) c = crc_bit (crc_bit (crc_bit (crc_bit (crc_bit (crc_bit (crc_bit (crc_bit c)))))))"
  by (simp add: eval_nat_numeral)

lemma crc_bit_even: "even c \<Longrightarrow> crc_bit c = drop_bit 1 c"
  by (simp add: crc_bit_def bit_0)

lemma crc_bit_odd: "odd c \<Longrightarrow> crc_bit c = drop_bit 1 c XOR 0xEDB88320"
  by (simp add: crc_bit_def bit_0 crc_poly_def)

lemma upt_256: "[0..<256] = 0 # 1 # [2..<256]"
  by (simp add: upt_rec [of 0] upt_rec [of "Suc 0"] numeral_2_eq_2)

lemma crc32_tab_eq: "map (\<lambda>i. (crc_bit ^^ 8) (word_of_nat i)) [0..<256] = crc32_tab"
  by (simp add: crc32_tab_def crc_bits_8 crc_bit_even crc_bit_odd upt_256 upt_rec_numeral)

lemma crc32_tab_nth: "i < 256 \<Longrightarrow> crc32_tab ! i = (crc_bit ^^ 8) (word_of_nat i)"
  by (simp add: crc32_tab_eq [symmetric])

lemma low_byte_index: "unat ((c :: u32) AND 0xFF) < 256"
proof -
  have "unat (c AND 0xFF) \<le> unat (0xFF :: u32)"
    by (rule word_and_le1 [THEN word_le_nat_alt [THEN iffD1]])
  then show ?thesis by simp
qed

text \<open>Eight bit steps split into the table entry of the low byte and a shift of the rest.\<close>

lemma crc_bits_8_split: "(crc_bit ^^ 8) c = (crc_bit ^^ 8) (c AND 0xFF) XOR drop_bit 8 c"
proof -
  let ?hi = "c AND NOT 0xFF"
  have "c = (c AND 0xFF) XOR ?hi" by (rule bit_word_eqI) (auto simp: bit_simps)
  then have "(crc_bit ^^ 8) c = (crc_bit ^^ 8) (c AND 0xFF) XOR (crc_bit ^^ 8) ?hi"
    by (metis crc_bits_linear)
  moreover have mask: "(0xFF :: u32) = mask 8" by (simp add: mask_numeral)
  have "take_bit 8 ?hi = 0" "drop_bit 8 ?hi = drop_bit 8 c"
    unfolding mask by (rule bit_word_eqI, auto simp: bit_simps dest: bit_imp_le_length)+
  then have "(crc_bit ^^ 8) ?hi = drop_bit 8 c" by (simp add: crc_bits_shift)
  ultimately show ?thesis by simp
qed

lemma crc32_byte_ref: "crc32_byte c b = crc_ref_byte c b"
proof -
  let ?x = "c XOR ucast b"
  have "drop_bit 8 (ucast b :: u32) = 0"
    by (rule bit_word_eqI) (auto simp: bit_simps dest: bit_imp_le_length)
  then have "drop_bit 8 ?x = drop_bit 8 c" by (simp add: drop_bit_xor)
  then show ?thesis
    using low_byte_index [of ?x] crc_bits_8_split [of ?x]
    by (simp add: crc32_byte_def crc_ref_byte_def crc32_tab_nth)
qed

lemma bytes_at_Suc: "bytes_at m p (Suc n) = m p # bytes_at m (p + 1) n"
  by (simp add: bytes_at_def map_upt_Suc add.assoc del: upt_Suc)

lemma crc32_loop_foldl: "crc32_loop m p n c = foldl crc_ref_byte c (bytes_at m p n)"
proof (induction n arbitrary: p c)
  case 0 then show ?case by (simp add: bytes_at_def)
next
  case (Suc n) then show ?case by (simp add: bytes_at_Suc crc32_byte_ref)
qed

section \<open>Injectivity of the update\<close>

text \<open>The top bit of the polynomial records the bit shifted out, so a bit step loses nothing.\<close>

lemma crc_bit_msb: "bit (crc_bit c) 31 = bit c 0"
  by (auto simp: crc_bit_def crc_poly_def bit_simps dest: bit_imp_le_length)

lemma crc_bit_inj: "inj crc_bit"
proof (rule injI)
  fix a b assume eq: "crc_bit a = crc_bit b"
  then have low: "bit a 0 = bit b 0" by (metis crc_bit_msb)
  with eq have "drop_bit 1 a = drop_bit 1 b"
    by (simp add: crc_bit_def split: if_splits)
  then have "bit (drop_bit 1 a) n = bit (drop_bit 1 b) n" for n by simp
  then have "bit a (Suc n) = bit b (Suc n)" for n by (simp add: bit_simps)
  with low show "a = b"
    by (intro bit_word_eqI) (metis not0_implies_Suc)
qed

lemma crc_bits_inj: "inj (crc_bit ^^ n)"
proof (induction n)
  case (Suc n)
  then show ?case using inj_compose [OF crc_bit_inj, of "crc_bit ^^ n"] by (simp add: comp_def)
qed simp

lemma crc_ref_byte_inj_crc: "crc_ref_byte c b = crc_ref_byte c' b \<Longrightarrow> c = c'"
  using injD [OF crc_bits_inj] unfolding crc_ref_byte_def by fastforce

lemma crc_ref_byte_inj_byte:
  assumes "crc_ref_byte c b = crc_ref_byte c b'"
  shows "b = b'"
proof -
  have "c XOR ucast b = c XOR ucast b'"
    using injD [OF crc_bits_inj] assms unfolding crc_ref_byte_def by blast
  then have "(ucast b :: u32) = ucast b'" by simp
  then have "(ucast (ucast b :: u32) :: u8) = ucast (ucast b' :: u32)" by simp
  then show ?thesis by simp
qed

lemma foldl_inj_start:
  "foldl crc_ref_byte c bs = foldl crc_ref_byte c' bs \<Longrightarrow> c = c'"
  by (induction bs arbitrary: c c') (auto dest: crc_ref_byte_inj_crc)

section \<open>Properties\<close>

text \<open>C13: on every buffer the table-driven \<^verbatim>\<open>crc32\<close> returns the bitwise CRC-32 (reflected
  polynomial 0xEDB88320, initial value and final complement) of the buffer's bytes.\<close>

theorem crc32_is_bitwise_crc: "crc32 m buf len = crc_ref (bytes_at m buf (unat len))"
  by (simp add: crc32_def crc_ref_def crc32_loop_foldl)

text \<open>C22: two buffers of the same length that differ in exactly one byte never have the same
  \<^verbatim>\<open>crc32\<close>.\<close>

theorem crc32_detects_byte_error:
  assumes "bytes_at m p (unat len) = us @ b # vs" "bytes_at m' p' (unat len) = us @ b' # vs"
    and "b \<noteq> b'"
  shows "crc32 m p len \<noteq> crc32 m' p' len"
proof
  assume "crc32 m p len = crc32 m' p' len"
  then have "foldl crc_ref_byte (NOT 0) (us @ b # vs) = foldl crc_ref_byte (NOT 0) (us @ b' # vs)"
    by (simp only: crc32_def crc32_loop_foldl assms xor_word_cancel_right)
  then have "crc_ref_byte (foldl crc_ref_byte (NOT 0) us) b
      = crc_ref_byte (foldl crc_ref_byte (NOT 0) us) b'"
    by (simp only: foldl_append foldl_Cons) (rule foldl_inj_start)
  then show False using assms(3) crc_ref_byte_inj_byte by blast
qed

theorem crc32_detects_byte_error_witness:
  "crc32 ((\<lambda>_. 0)(16 := 1, 17 := 2)) 16 2 \<noteq> crc32 ((\<lambda>_. 0)(16 := 1, 17 := 3)) 16 2"
  by (rule crc32_detects_byte_error [where us = "[1]" and vs = "[]" and b = 2 and b' = 3])
    (simp_all add: bytes_at_def upt_rec_numeral upt_rec [of 0] upt_rec [of "Suc 0"])

end
