(* ===== verification/Frog_Udivmod.thy ===== *)
theory Frog_Udivmod
  imports Frog_Prelude
begin

text \<open>
  The 64-bit division helper \<^verbatim>\<open>__udivmoddi4\<close> of lib/gcc.c, which the compiler calls for
  \<^verbatim>\<open>unsigned long long\<close> division (the printf conversions with \<^verbatim>\<open>ll\<close> use it). Both of its
  loops are modelled on 64-bit words; they are proved to terminate and to compute the
  quotient and the remainder.
\<close>

section \<open>Shifting 64-bit words\<close>

lemma drop_one_bit [simp]: "drop_bit (Suc 0) (x :: u64) = x div 2"
  by (simp add: drop_bit_Suc)

lemma halve_unat: "unat ((x :: u64) div 2) = unat x div 2"
  by (simp add: unat_div)

lemma halve_less: "(x :: u64) \<noteq> 0 \<Longrightarrow> unat (x div 2) < unat x"
  by (simp add: halve_unat unat_gt_0)

lemma double_unat: "unat (x :: u64) < 2 ^ 63 \<Longrightarrow> unat (x * 2) = 2 * unat x"
  by (simp add: unat_word_ariths)

lemma sint64_nonneg: "0 \<le> sint (d :: u64) \<longleftrightarrow> unat d < 2 ^ 63"
proof -
  have lt: "unat d < 2 ^ 64" using unsigned_less [of d] by simp
  have "0 \<le> sint d \<longleftrightarrow> \<not> bit d 63" by (simp add: sint_uint bit_simps)
  also have "\<dots> \<longleftrightarrow> \<not> bit (unat d) 63" by (simp add: bit_unsigned_iff)
  also have "\<dots> \<longleftrightarrow> even (unat d div 2 ^ 63)" by (simp add: bit_iff_odd)
  also have "\<dots> \<longleftrightarrow> unat d < 2 ^ 63"
  proof (cases "unat d < 2 ^ 63")
    case False
    then have "unat d div 2 ^ 63 = 1" using lt by (intro div_nat_eqI) simp_all
    with False show ?thesis by simp
  qed simp
  finally show ?thesis .
qed

section \<open>The code\<close>

text \<open>What the division does besides returning: \<^verbatim>\<open>1/((unsigned)den)\<close> with a zero
  denominator raises the processor's divide error.\<close>

datatype cpu_fault = Divide_Error

text \<open>\<^verbatim>\<open>while ((int64_t)den >= 0)\<close>: shift until the top bit of \<open>den\<close> is set. The loop does not
  end for \<open>den = 0\<close>, which the caller has excluded; \<open>None\<close> stands for that.\<close>

partial_function (option) udiv_justify :: "u64 \<Rightarrow> u64 \<Rightarrow> (u64 \<times> u64) option" where
  "udiv_justify den qbit =
     (if 0 \<le> sint den then udiv_justify (push_bit 1 den) (push_bit 1 qbit) else Some (den, qbit))"

text \<open>\<^verbatim>\<open>while (qbit)\<close>: subtract and shift right. Every round halves \<open>qbit\<close>.\<close>

function udiv_loop :: "u64 \<Rightarrow> u64 \<Rightarrow> u64 \<Rightarrow> u64 \<Rightarrow> u64 \<times> u64" where
  "udiv_loop num den quot qbit =
     (if qbit \<noteq> 0 then
        if den \<le> num
        then udiv_loop (num - den) (drop_bit 1 den) (quot + qbit) (drop_bit 1 qbit)
        else udiv_loop num (drop_bit 1 den) quot (drop_bit 1 qbit)
      else (quot, num))"
  by pat_completeness auto
termination
  by (relation "measure (\<lambda>(num, den, quot, qbit). unat qbit)") (simp_all add: halve_less)

declare udiv_loop.simps [simp del]

text \<open>The result is the quotient and the value stored through \<^verbatim>\<open>rem_p\<close>, or the divide error.\<close>

definition udivmoddi4 :: "u64 \<Rightarrow> u64 \<Rightarrow> (cpu_fault + u64 \<times> u64) option" where
  "udivmoddi4 num den =
     (if den = 0 then Some (Inl Divide_Error)
      else case udiv_justify den 1 of
        None \<Rightarrow> None
      | Some (d, q) \<Rightarrow> Some (Inr (udiv_loop num d 0 q)))"

section \<open>The loops\<close>

text \<open>The first loop shifts by the number of leading zeros: after it \<open>den * 2 ^ k\<close> fits in 64
  bits, has its top bit set, and \<open>qbit = 2 ^ k\<close>.\<close>

lemma udiv_justify_result:
  assumes "0 < unat q" "unat q \<le> unat d"
  shows "\<exists>k d' q'. udiv_justify d q = Some (d', q') \<and> unat d' = unat d * 2 ^ k \<and>
     unat q' = unat q * 2 ^ k \<and> 2 ^ 63 \<le> unat d'"
  using assms
proof (induction "2 ^ 64 - unat d" arbitrary: d q rule: less_induct)
  case less
  show ?case
  proof (cases "unat d < 2 ^ 63")
    case False
    then show ?thesis
      by (intro exI [of _ 0] exI [of _ d] exI [of _ q])
        (simp add: udiv_justify.simps sint64_nonneg del: sint_ge)
  next
    case True
    let ?d = "d * 2" and ?q = "q * 2"
    have d: "unat ?d = 2 * unat d" and q: "unat ?q = 2 * unat q"
      using True less.prems by (auto intro!: double_unat)
    have "2 ^ 64 - unat ?d < 2 ^ 64 - unat d" using True less.prems d by simp
    then obtain k d' q' where "udiv_justify ?d ?q = Some (d', q')" "unat d' = unat ?d * 2 ^ k"
        "unat q' = unat ?q * 2 ^ k" "2 ^ 63 \<le> unat d'"
      using less.hyps [of ?d ?q] less.prems d q by auto
    then show ?thesis using True d q
      by (intro exI [of _ "Suc k"] exI [of _ d'] exI [of _ q'])
        (simp add: udiv_justify.simps [of d] sint64_nonneg)
  qed
qed

text \<open>The second loop is long division by \<open>D\<close>: while \<open>qbit = 2 ^ j\<close>, \<open>den = D * 2 ^ j\<close> and
  \<open>num < D * 2 ^ (j + 1)\<close>, it adds the quotient of what is left of \<open>num\<close> to \<open>quot\<close>.\<close>

lemma udiv_loop_result:
  assumes "unat qbit = 2 ^ j" "unat den = D * 2 ^ j" "unat num < D * 2 ^ Suc j"
    "unat quot + 2 ^ Suc j \<le> 2 ^ 64"
  shows "unat (fst (udiv_loop num den quot qbit)) = unat quot + unat num div D \<and>
     unat (snd (udiv_loop num den quot qbit)) = unat num mod D"
  using assms
proof (induction j arbitrary: qbit den num quot)
  case 0
  have step: "udiv_loop n d c (qbit div 2) = (c, n)" for n d c
    using 0 by (simp add: udiv_loop.simps unat_eq_zero [symmetric] halve_unat)
  show ?case
  proof (cases "den \<le> num")
    case True
    then have le: "D \<le> unat num" using 0 by (simp add: word_le_nat_alt)
    have "unat (num - den) = unat num - D" using True 0 by (simp add: unat_sub)
    moreover have "unat (quot + qbit) = unat quot + 1" using 0 by (simp add: unat_word_ariths)
    moreover have "unat num div D = 1" "unat num mod D = unat num - D"
      using le 0 by (simp_all add: div_nat_eqI mod_if)
    ultimately show ?thesis using True 0 step
      by (subst (1 2) udiv_loop.simps) (auto simp: unat_eq_zero [symmetric])
  next
    case False
    then have "unat num < D" using 0 by (simp add: word_less_nat_alt not_le)
    then show ?thesis using False 0 step
      by (subst (1 2) udiv_loop.simps) (auto simp: unat_eq_zero [symmetric])
  qed
next
  case (Suc j)
  have nz: "qbit \<noteq> 0" using Suc.prems by (auto simp: unat_eq_zero [symmetric])
  have q: "unat (qbit div 2) = 2 ^ j" and d: "unat (den div 2) = D * 2 ^ j"
    using Suc.prems by (simp_all add: halve_unat)
  show ?case
  proof (cases "den \<le> num")
    case True
    then have le: "D * 2 ^ Suc j \<le> unat num" using Suc.prems by (simp add: word_le_nat_alt)
    have n: "unat (num - den) = unat num - D * 2 ^ Suc j"
      using True Suc.prems by (simp add: unat_sub)
    have c: "unat (quot + qbit) = unat quot + 2 ^ Suc j"
    proof -
      have "(0 :: nat) < 2 ^ Suc j" by simp
      moreover have "(2 :: nat) ^ Suc (Suc j) = 2 * 2 ^ Suc j" by simp
      ultimately have "unat quot + 2 ^ Suc j < 2 ^ 64" using Suc.prems(4) by linarith
      then show ?thesis using Suc.prems by (simp add: unat_word_ariths)
    qed
    have "0 < D" using Suc.prems(3) by (cases D) auto
    moreover obtain r where "unat num = D * 2 ^ Suc j + r" using le le_Suc_ex by blast
    ultimately have "unat num div D = (unat num - D * 2 ^ Suc j) div D + 2 ^ Suc j"
      "(unat num - D * 2 ^ Suc j) mod D = unat num mod D"
      by (simp_all del: power_Suc)
    then show ?thesis
      using Suc.IH [OF q d, of "num - den" "quot + qbit"] n c le Suc.prems nz True
      by (subst (1 2) udiv_loop.simps) simp
  next
    case False
    then have "unat num < D * 2 ^ Suc j" using Suc.prems by (simp add: word_less_nat_alt not_le)
    then show ?thesis
      using Suc.IH [OF q d, of num quot] Suc.prems nz False
      by (subst (1 2) udiv_loop.simps) simp
  qed
qed

section \<open>Properties\<close>

text \<open>C14: for a non-zero denominator \<^verbatim>\<open>__udivmoddi4\<close> terminates and returns the quotient and
  the remainder of the 64-bit operands; for a zero denominator it raises the divide error.\<close>

theorem udivmoddi4_correct:
  "udivmoddi4 num den =
     Some (if den = 0 then Inl Divide_Error else Inr (num div den, num mod den))"
proof (cases "den = 0")
  case True then show ?thesis by (simp add: udivmoddi4_def)
next
  case False
  then have "0 < unat den" by (simp add: unat_gt_0)
  then obtain k d q where just: "udiv_justify den 1 = Some (d, q)"
    and d: "unat d = unat den * 2 ^ k" and q: "unat q = 2 ^ k" and top: "2 ^ 63 \<le> unat d"
    using udiv_justify_result [of 1 den] by auto
  have "unat num < 2 ^ 64" using unsigned_less [of num] by simp
  then have num: "unat num < unat den * 2 ^ Suc k" using top d by simp
  have "unat q < 2 ^ 64" using unsigned_less [of q] by simp
  then have "k < 64" unfolding q by (rule power_less_imp_less_exp [rotated]) simp
  then have "(2 :: nat) ^ Suc k \<le> 2 ^ 64" by (intro power_increasing) simp_all
  then have "unat (fst (udiv_loop num d 0 q)) = unat num div unat den"
      "unat (snd (udiv_loop num d 0 q)) = unat num mod unat den"
    using udiv_loop_result [OF q d num, of 0] by simp_all
  then have "udiv_loop num d 0 q = (num div den, num mod den)"
    by (simp add: prod_eq_iff word_unat_eq_iff unat_div unat_mod)
  then show ?thesis using False just by (simp add: udivmoddi4_def)
qed

end
