(* ===== verification/Frog_Queue.thy ===== *)
theory Frog_Queue
  imports Main
begin

text \<open>
  The interface of a bounded first-in first-out queue, as the keyboard ring offers it: an
  insertion that drops the element when the queue is full, and a removal that returns a
  default when it is empty. The client lemma relates any sequence of calls to the same calls
  on a list.
\<close>

datatype 'a queue_op = Enq 'a | Deq

text \<open>The calls on the list specification: the values the removals returned and the contents
  left.\<close>

fun list_run :: "nat \<Rightarrow> 'a \<Rightarrow> 'a queue_op list \<Rightarrow> 'a list \<Rightarrow> 'a list \<times> 'a list" where
  "list_run cap d [] xs = ([], xs)"
| "list_run cap d (Enq x # ops) xs =
     list_run cap d ops (if length xs < cap then xs @ [x] else xs)"
| "list_run cap d (Deq # ops) xs =
     (case xs of
        [] \<Rightarrow> (let (out, ys) = list_run cap d ops [] in (d # out, ys))
      | x # xs' \<Rightarrow> (let (out, ys) = list_run cap d ops xs' in (x # out, ys)))"

text \<open>The same calls on an implementation.\<close>

fun impl_run :: "('a \<Rightarrow> 'q \<Rightarrow> 'q) \<Rightarrow> ('q \<Rightarrow> 'a \<times> 'q) \<Rightarrow> 'a queue_op list \<Rightarrow> 'q \<Rightarrow> 'a list \<times> 'q" where
  "impl_run enq deq [] q = ([], q)"
| "impl_run enq deq (Enq x # ops) q = impl_run enq deq ops (enq x q)"
| "impl_run enq deq (Deq # ops) q =
     (let (x, q') = deq q; (out, q'') = impl_run enq deq ops q' in (x # out, q''))"

locale bounded_queue =
  fixes enq :: "'a \<Rightarrow> 'q \<Rightarrow> 'q"
    and deq :: "'q \<Rightarrow> 'a \<times> 'q"
    and is_empty :: "'q \<Rightarrow> bool"
    and contents :: "'q \<Rightarrow> 'a list"
    and invar :: "'q \<Rightarrow> bool"
    and capacity :: nat
    and default_elem :: 'a
  assumes invar_enq: "invar q \<Longrightarrow> invar (enq x q)"
    and invar_deq: "invar q \<Longrightarrow> invar (snd (deq q))"
    and contents_bound: "invar q \<Longrightarrow> length (contents q) \<le> capacity"
    and contents_enq: "invar q \<Longrightarrow> contents (enq x q) =
          (if length (contents q) < capacity then contents q @ [x] else contents q)"
    and deq_nonempty: "invar q \<Longrightarrow> contents q = x # xs \<Longrightarrow>
          fst (deq q) = x \<and> contents (snd (deq q)) = xs"
    and deq_empty: "invar q \<Longrightarrow> contents q = [] \<Longrightarrow> deq q = (default_elem, q)"
    and is_empty_iff: "invar q \<Longrightarrow> is_empty q \<longleftrightarrow> contents q = []"
begin

lemma run_refines_list:
  "invar q \<Longrightarrow> invar (snd (impl_run enq deq ops q)) \<and>
     (fst (impl_run enq deq ops q), contents (snd (impl_run enq deq ops q)))
       = list_run capacity default_elem ops (contents q)"
proof (induction ops arbitrary: q)
  case Nil
  then show ?case by simp
next
  case (Cons op ops)
  show ?case
  proof (cases op)
    case (Enq x)
    then show ?thesis using Cons.IH [OF invar_enq [OF Cons.prems]]
      by (simp add: contents_enq [OF Cons.prems])
  next
    case Deq
    have IH: "invar (snd (impl_run enq deq ops (snd (deq q)))) \<and>
       (fst (impl_run enq deq ops (snd (deq q))), contents (snd (impl_run enq deq ops (snd (deq q)))))
         = list_run capacity default_elem ops (contents (snd (deq q)))"
      by (rule Cons.IH [OF invar_deq [OF Cons.prems]])
    show ?thesis
    proof (cases "contents q")
      case Nil
      then have "deq q = (default_elem, q)" using deq_empty Cons.prems by blast
      with IH Nil Deq show ?thesis
        by (auto simp: split_beta Let_def dest: sym)
    next
      case (Cons x xs)
      then have "fst (deq q) = x" "contents (snd (deq q)) = xs"
        using deq_nonempty Cons.prems by blast+
      with IH Cons Deq show ?thesis
        by (auto simp: split_beta Let_def dest: sym)
    qed
  qed
qed

end

end
