(* ===== verification/Frog_Keyboard.thy ===== *)
theory Frog_Keyboard
  imports Frog_Prelude Frog_Queue "HOL-Library.Sublist"
begin

text \<open>
  The keyboard driver of keyboard.c: the ring buffer between the interrupt handler and the
  main loop, and the scancode decoder with its prefix states and shift state
  (include/kbd_scancode.h, include/conio.h). The ring is proved to be a bounded FIFO through
  the interface \<open>bounded_queue\<close>; an interleaving model shows that the interrupt handler and
  the statements of \<^verbatim>\<open>kbd_dequeue\<close> never lose or reorder a key.
\<close>

section \<open>Key codes and scancode tables\<close>

abbreviation KBD_SHIFT :: "u32" where "KBD_SHIFT \<equiv> 0x1"
abbreviation KBD_CTRL :: "u32" where "KBD_CTRL \<equiv> 0x2"
abbreviation KBD_ALT :: "u32" where "KBD_ALT \<equiv> 0x4"
abbreviation KBD_INSERT :: "u32" where "KBD_INSERT \<equiv> 0x8"
abbreviation KEY_PAUSE :: "u8" where "KEY_PAUSE \<equiv> 0x80"
abbreviation KEY_PRTSC :: "u8" where "KEY_PRTSC \<equiv> 0x81"
abbreviation KEY_LEFTCTRL :: "u8" where "KEY_LEFTCTRL \<equiv> 0x82"
abbreviation KEY_LEFTSHFT :: "u8" where "KEY_LEFTSHFT \<equiv> 0x83"
abbreviation KEY_RGHTSHFT :: "u8" where "KEY_RGHTSHFT \<equiv> 0x84"
abbreviation KEY_LEFTALT :: "u8" where "KEY_LEFTALT \<equiv> 0x85"
abbreviation KEY_CAPSLOCK :: "u8" where "KEY_CAPSLOCK \<equiv> 0x86"
abbreviation KEY_F1 :: "u8" where "KEY_F1 \<equiv> 0x87"
abbreviation KEY_F2 :: "u8" where "KEY_F2 \<equiv> 0x88"
abbreviation KEY_F3 :: "u8" where "KEY_F3 \<equiv> 0x89"
abbreviation KEY_F4 :: "u8" where "KEY_F4 \<equiv> 0x8A"
abbreviation KEY_F5 :: "u8" where "KEY_F5 \<equiv> 0x8B"
abbreviation KEY_F6 :: "u8" where "KEY_F6 \<equiv> 0x8C"
abbreviation KEY_F7 :: "u8" where "KEY_F7 \<equiv> 0x8D"
abbreviation KEY_F8 :: "u8" where "KEY_F8 \<equiv> 0x8E"
abbreviation KEY_F9 :: "u8" where "KEY_F9 \<equiv> 0x8F"
abbreviation KEY_F10 :: "u8" where "KEY_F10 \<equiv> 0x90"
abbreviation KEY_F11 :: "u8" where "KEY_F11 \<equiv> 0x91"
abbreviation KEY_F12 :: "u8" where "KEY_F12 \<equiv> 0x92"
abbreviation KEY_NUMLOCK :: "u8" where "KEY_NUMLOCK \<equiv> 0x93"
abbreviation KEY_SCRLLOCK :: "u8" where "KEY_SCRLLOCK \<equiv> 0x94"
abbreviation KEY_HOME :: "u8" where "KEY_HOME \<equiv> 0x95"
abbreviation KEY_UP :: "u8" where "KEY_UP \<equiv> 0x96"
abbreviation KEY_PGUP :: "u8" where "KEY_PGUP \<equiv> 0x97"
abbreviation KEY_LEFT :: "u8" where "KEY_LEFT \<equiv> 0x98"
abbreviation KEY_RIGHT :: "u8" where "KEY_RIGHT \<equiv> 0x99"
abbreviation KEY_DOWN :: "u8" where "KEY_DOWN \<equiv> 0x9A"
abbreviation KEY_PGDOWN :: "u8" where "KEY_PGDOWN \<equiv> 0x9B"
abbreviation KEY_DELETE :: "u8" where "KEY_DELETE \<equiv> 0x9C"
abbreviation KEY_GUI :: "u8" where "KEY_GUI \<equiv> 0x9D"
abbreviation KEY_RGHTGUI :: "u8" where "KEY_RGHTGUI \<equiv> 0x9E"
abbreviation KEY_APPS :: "u8" where "KEY_APPS \<equiv> 0x9F"
abbreviation KEY_END :: "u8" where "KEY_END \<equiv> 0xA0"

definition scancodes :: "u8 list" where
  "scancodes = [
    0, 27, 0x31, 0x32, 0x33, 0x34, 0x35, 0x36, 0x37, 0x38, 0x39, 0x30,
    0x2d, 0x3d, 0x8, 0x9, 0x71, 0x77, 0x65, 0x72, 0x74, 0x79, 0x75, 0x69,
    0x6f, 0x70, 0x5b, 0x5d, 0xa, KEY_LEFTCTRL, 0x61, 0x73, 0x64, 0x66, 0x67, 0x68,
    0x6a, 0x6b, 0x6c, 0x3b, 39, 0x60, KEY_LEFTSHFT, 0x7c, 0x7a, 0x78, 0x63, 0x76,
    0x62, 0x6e, 0x6d, 0x2c, 0x2e, 0x2f, KEY_RGHTSHFT, 0x2a, KEY_LEFTALT, 0x20, KEY_CAPSLOCK, KEY_F1,
    KEY_F2, KEY_F3, KEY_F4, KEY_F5, KEY_F6, KEY_F7, KEY_F8, KEY_F9, KEY_F10, KEY_NUMLOCK, KEY_SCRLLOCK, 0x37,
    0x38, 0x39, 0x2d, 0x34, 0x35, 0x36, 0x2b, 0x31, 0x32, 0x33, 0x30, 0x2e,
    0, 0, 0, KEY_F11, KEY_F12]"

definition shift_scancodes :: "u8 list" where
  "shift_scancodes = [
    0, 27, 0x21, 0x40, 0x23, 0x24, 0x25, 0x5e, 0x26, 0x2a, 0x28, 0x29,
    0x5f, 0x2b, 0x8, 0x9, 0x51, 0x57, 0x45, 0x52, 0x54, 0x59, 0x55, 0x49,
    0x4f, 0x50, 0x7b, 0x7d, 0xa, KEY_LEFTCTRL, 0x41, 0x53, 0x44, 0x46, 0x47, 0x48,
    0x4a, 0x4b, 0x4c, 0x3a, 0x22, 0x7e, KEY_LEFTSHFT, 0x5c, 0x5a, 0x58, 0x43, 0x56,
    0x42, 0x4e, 0x4d, 0x3c, 0x3e, 0x3f, KEY_RGHTSHFT, 0x2a, KEY_LEFTALT, 0x20, KEY_CAPSLOCK, KEY_F1,
    KEY_F2, KEY_F3, KEY_F4, KEY_F5, KEY_F6, KEY_F7, KEY_F8, KEY_F9, KEY_F10, KEY_NUMLOCK, KEY_SCRLLOCK, 0x37,
    0x38, 0x39, 0x2d, 0x34, 0x35, 0x36, 0x2b, 0x31, 0x32, 0x33, 0x30, 0x2e,
    0, 0, 0, KEY_F11, KEY_F12]"

text \<open>Reading a table of 0x59 entries: an index past the end is outside the array, \<open>None\<close>.\<close>

definition table_read :: "u8 list \<Rightarrow> u8 \<Rightarrow> u8 option" where
  "table_read t i = (if unat i < length t then Some (t ! unat i) else None)"

section \<open>State\<close>

record kbd =
  kbd_buffer :: "u32 list"
  kbd_size :: nat
  kbd_head :: nat
  kbd_tail :: nat
  kbd_state :: u32
  kbd_shiftstate :: u32

abbreviation KBD_QUEUE_SIZE :: nat where "KBD_QUEUE_SIZE \<equiv> 128"

definition kbd_init :: kbd where
  "kbd_init = \<lparr>kbd_buffer = replicate KBD_QUEUE_SIZE 0, kbd_size = 0, kbd_head = 0, kbd_tail = 0,
     kbd_state = 0, kbd_shiftstate = 0\<rparr>"

section \<open>The ring buffer\<close>

definition kbd_isempty :: "kbd \<Rightarrow> bool" where
  "kbd_isempty k \<longleftrightarrow> kbd_size k = 0"

definition kbd_enqueue :: "u32 \<Rightarrow> kbd \<Rightarrow> kbd" where
  "kbd_enqueue c k =
     (if kbd_size k = KBD_QUEUE_SIZE then k
      else let k1 = k\<lparr>kbd_buffer := (kbd_buffer k)[kbd_tail k := c], kbd_tail := kbd_tail k + 1\<rparr>;
               k2 = (if kbd_tail k1 = KBD_QUEUE_SIZE then k1\<lparr>kbd_tail := 0\<rparr> else k1)
           in k2\<lparr>kbd_size := kbd_size k2 + 1\<rparr>)"

text \<open>The statements of \<^verbatim>\<open>kbd_dequeue\<close> between \<^verbatim>\<open>disable()\<close> and \<^verbatim>\<open>enable()\<close>, one by one; the
  interleaving model below runs them as separate steps.\<close>

definition deq_take :: "kbd \<Rightarrow> u32 \<times> kbd" where
  "deq_take k = (kbd_buffer k ! kbd_head k, k\<lparr>kbd_head := kbd_head k + 1\<rparr>)"

definition deq_wrap :: "kbd \<Rightarrow> kbd" where
  "deq_wrap k = (if kbd_head k = KBD_QUEUE_SIZE then k\<lparr>kbd_head := 0\<rparr> else k)"

definition deq_count :: "kbd \<Rightarrow> kbd" where
  "deq_count k = k\<lparr>kbd_size := kbd_size k - 1\<rparr>"

definition kbd_dequeue :: "kbd \<Rightarrow> u32 \<times> kbd" where
  "kbd_dequeue k =
     (if kbd_size k = 0 then (0, k)
      else let (c, k1) = deq_take k in (c, deq_count (deq_wrap k1)))"

section \<open>The decoder\<close>

definition ENQUEUE :: "u8 \<Rightarrow> kbd \<Rightarrow> kbd" where
  "ENQUEUE c k = kbd_enqueue (push_bit 8 (kbd_shiftstate k) OR ucast c) k"

definition set_shift :: "u32 \<Rightarrow> kbd \<Rightarrow> kbd" where
  "set_shift b k = k\<lparr>kbd_shiftstate := kbd_shiftstate k OR b\<rparr>"

definition clear_shift :: "u32 \<Rightarrow> kbd \<Rightarrow> kbd" where
  "clear_shift b k = k\<lparr>kbd_shiftstate := kbd_shiftstate k AND NOT b\<rparr>"

definition toggle_shift :: "u32 \<Rightarrow> kbd \<Rightarrow> kbd" where
  "toggle_shift b k = k\<lparr>kbd_shiftstate := kbd_shiftstate k XOR b\<rparr>"

text \<open>The switch on the second byte of an E0 sequence.\<close>

definition decode_extended :: "u8 \<Rightarrow> kbd \<Rightarrow> kbd" where
  "decode_extended c k =
     (if c = 0x1D then set_shift KBD_CTRL k
      else if c = 0x38 then set_shift KBD_ALT k
      else if c = 0x47 then ENQUEUE KEY_HOME k
      else if c = 0x48 then ENQUEUE KEY_UP k
      else if c = 0x49 then ENQUEUE KEY_PGUP k
      else if c = 0x4B then ENQUEUE KEY_LEFT k
      else if c = 0x4D then ENQUEUE KEY_RIGHT k
      else if c = 0x4F then ENQUEUE KEY_END k
      else if c = 0x50 then ENQUEUE KEY_DOWN k
      else if c = 0x51 then ENQUEUE KEY_PGDOWN k
      else if c = 0x52 then toggle_shift KBD_INSERT k
      else if c = 0x53 then ENQUEUE KEY_DELETE k
      else if c = 0x5B then ENQUEUE KEY_GUI k
      else if c = 0x5C then ENQUEUE KEY_RGHTGUI k
      else if c = 0x5D then ENQUEUE KEY_APPS k
      else if c = 0x9D then clear_shift KBD_CTRL k
      else if c = 0xB8 then clear_shift KBD_ALT k
      else k)"

text \<open>The make branch (bit 7 clear) and the break branch of the plain state.\<close>

definition decode_make :: "u8 \<Rightarrow> kbd \<Rightarrow> kbd option" where
  "decode_make c k =
     (case table_read (if kbd_shiftstate k AND KBD_SHIFT \<noteq> 0 then shift_scancodes else scancodes) c of
        None \<Rightarrow> None
      | Some decoded \<Rightarrow> Some
         (if decoded = KEY_LEFTCTRL then set_shift KBD_CTRL k
          else if decoded = KEY_CAPSLOCK then toggle_shift KBD_SHIFT k
          else if decoded = KEY_LEFTSHFT \<or> decoded = KEY_RGHTSHFT then set_shift KBD_SHIFT k
          else if decoded = KEY_LEFTALT then set_shift KBD_ALT k
          else if decoded = 0 then k
          else ENQUEUE decoded k))"

definition decode_break :: "u8 \<Rightarrow> kbd \<Rightarrow> kbd option" where
  "decode_break c k =
     (case table_read scancodes (c AND 0x7F) of
        None \<Rightarrow> None
      | Some decoded \<Rightarrow> Some
         (if decoded = KEY_LEFTCTRL then clear_shift KBD_CTRL k
          else if decoded = KEY_LEFTSHFT \<or> decoded = KEY_RGHTSHFT then clear_shift KBD_SHIFT k
          else if decoded = KEY_LEFTALT then clear_shift KBD_ALT k
          else k))"

text \<open>\<^verbatim>\<open>decode\<close>: an unexpected byte resets the state and is decoded again from state 0, so the
  recursion is at most one deep. \<open>None\<close> is a table access out of bounds.\<close>

function decode :: "u8 \<Rightarrow> kbd \<Rightarrow> kbd option" where
  "decode c k =
     (let st = kbd_state k in
      if st = 0 \<and> c = 0xE0 \<or> st = 0 \<and> c = 0xE1 \<or> st = 0xE1 \<and> c = 0x1D \<or> st = 0x1D \<and> c = 0x45 \<or>
         st = 0x2E1 \<and> c = 0x9D
      then Some (k\<lparr>kbd_state := ucast c\<rparr>)
      else if st = 0x45 \<and> c = 0xE1 then Some (k\<lparr>kbd_state := 0x2E1\<rparr>)
      else if st = 0x9D \<and> c = 0xC5 then Some ((ENQUEUE KEY_PAUSE k)\<lparr>kbd_state := 0\<rparr>)
      else if st = 0xE02A \<and> c = 0xE0 then Some (k\<lparr>kbd_state := 0x2AE0\<rparr>)
      else if st = 0x2AE0 \<and> c = 0x37 then Some ((ENQUEUE KEY_PRTSC k)\<lparr>kbd_state := 0\<rparr>)
      else if st = 0xE0 \<and> c = 0x2A then Some (k\<lparr>kbd_state := 0xE02A\<rparr>)
      else if st = 0xE0 then Some ((decode_extended c k)\<lparr>kbd_state := 0\<rparr>)
      else if st = 0 then
        map_option (\<lambda>k'. k'\<lparr>kbd_state := 0\<rparr>)
          (if c AND 0x80 = 0 then decode_make c k else decode_break c k)
      else decode c (k\<lparr>kbd_state := 0\<rparr>))"
  by pat_completeness auto
termination
  by (relation "measure (\<lambda>(c, k). if kbd_state k = 0 then 0 else 1)") (auto simp: Let_def)

declare decode.simps [simp del]

text \<open>\<^verbatim>\<open>kbd_handler\<close> decodes the byte the keyboard controller holds at port 0x60.\<close>

definition kbd_handler :: "u8 \<Rightarrow> kbd \<Rightarrow> kbd option" where
  "kbd_handler port60 k = decode port60 k"

section \<open>The ring as a list\<close>

definition kbd_ok :: "kbd \<Rightarrow> bool" where
  "kbd_ok k \<longleftrightarrow> length (kbd_buffer k) = KBD_QUEUE_SIZE \<and> kbd_head k < KBD_QUEUE_SIZE \<and>
     kbd_size k \<le> KBD_QUEUE_SIZE \<and> kbd_tail k = (kbd_head k + kbd_size k) mod KBD_QUEUE_SIZE"

definition kbd_list :: "kbd \<Rightarrow> u32 list" where
  "kbd_list k = map (\<lambda>i. kbd_buffer k ! ((kbd_head k + i) mod KBD_QUEUE_SIZE)) [0..<kbd_size k]"

lemma kbd_init_ok [simp]: "kbd_ok kbd_init" "kbd_list kbd_init = []"
  by (simp_all add: kbd_ok_def kbd_list_def kbd_init_def)

lemma length_kbd_list [simp]: "length (kbd_list k) = kbd_size k"
  by (simp add: kbd_list_def)

lemma kbd_list_state [simp]:
  "kbd_list (k\<lparr>kbd_state := st\<rparr>) = kbd_list k" "kbd_list (k\<lparr>kbd_shiftstate := sh\<rparr>) = kbd_list k"
  "kbd_ok (k\<lparr>kbd_state := st\<rparr>) = kbd_ok k" "kbd_ok (k\<lparr>kbd_shiftstate := sh\<rparr>) = kbd_ok k"
  by (simp_all add: kbd_list_def kbd_ok_def)

lemma ring_slot_distinct:
  fixes h i n :: nat
  assumes "i < n" "n < 128"
  shows "(h + i) mod 128 \<noteq> (h + n) mod 128"
proof
  assume "(h + i) mod 128 = (h + n) mod 128"
  then have "128 dvd (h + n) - (h + i)" using assms mod_eq_dvd_iff_nat [of "h + i" "h + n" 128] by simp
  then show False using assms by (auto dest: dvd_imp_le)
qed

lemma enqueue_full: "kbd_size k = KBD_QUEUE_SIZE \<Longrightarrow> kbd_enqueue c k = k"
  by (simp add: kbd_enqueue_def)

lemma enqueue_room:
  assumes "kbd_ok k" "kbd_size k < KBD_QUEUE_SIZE"
  shows "kbd_enqueue c k = k\<lparr>kbd_buffer := (kbd_buffer k)[kbd_tail k := c],
      kbd_tail := (kbd_head k + kbd_size k + 1) mod KBD_QUEUE_SIZE, kbd_size := kbd_size k + 1\<rparr>"
proof -
  have "(kbd_head k + kbd_size k + 1) mod 128
      = (if kbd_tail k + 1 = 128 then 0 else kbd_tail k + 1)"
    using assms by (auto simp: kbd_ok_def mod_Suc)
  then show ?thesis using assms by (simp add: kbd_enqueue_def Let_def)
qed

lemma enqueue_ok: "kbd_ok k \<Longrightarrow> kbd_ok (kbd_enqueue c k)"
proof (cases "kbd_size k < KBD_QUEUE_SIZE")
  case True
  assume "kbd_ok k"
  with True show ?thesis by (simp add: enqueue_room) (simp add: kbd_ok_def)
next
  case False
  assume "kbd_ok k"
  with False show ?thesis by (simp add: kbd_ok_def enqueue_full)
qed

lemma enqueue_list:
  assumes "kbd_ok k"
  shows "kbd_list (kbd_enqueue c k) = (if kbd_size k < KBD_QUEUE_SIZE then kbd_list k @ [c] else kbd_list k)"
proof (cases "kbd_size k < KBD_QUEUE_SIZE")
  case True
  have slot: "kbd_tail k \<noteq> (kbd_head k + i) mod 128" if "i < kbd_size k" for i
    using ring_slot_distinct [OF that True, of "kbd_head k"] assms by (simp add: kbd_ok_def)
  have "kbd_tail k < 128" "length (kbd_buffer k) = 128" "(kbd_head k + kbd_size k) mod 128 = kbd_tail k"
    using assms by (auto simp: kbd_ok_def)
  with True slot show ?thesis
    by (auto simp: enqueue_room [OF assms True] kbd_list_def)
next
  case False
  with assms show ?thesis by (simp add: kbd_ok_def enqueue_full)
qed

lemma dequeue_empty: "kbd_size k = 0 \<Longrightarrow> kbd_dequeue k = (0, k)"
  by (simp add: kbd_dequeue_def)

lemma dequeue_room:
  assumes "kbd_ok k" "kbd_size k \<noteq> 0"
  shows "kbd_dequeue k = (kbd_buffer k ! kbd_head k,
     k\<lparr>kbd_head := (kbd_head k + 1) mod KBD_QUEUE_SIZE, kbd_size := kbd_size k - 1\<rparr>)"
proof -
  have "(kbd_head k + 1) mod 128 = (if kbd_head k + 1 = 128 then 0 else kbd_head k + 1)"
    using assms(1) by (auto simp: kbd_ok_def)
  then show ?thesis using assms
    by (simp add: kbd_dequeue_def deq_take_def deq_wrap_def deq_count_def)
qed

lemma dequeue_ok: "kbd_ok k \<Longrightarrow> kbd_ok (snd (kbd_dequeue k))"
proof (cases "kbd_size k = 0")
  case False
  assume ok: "kbd_ok k"
  obtain n where "kbd_size k = Suc n" using False not0_implies_Suc by blast
  then have "kbd_tail k = ((kbd_head k + 1) mod 128 + (kbd_size k - 1)) mod 128"
    using ok by (simp add: kbd_ok_def mod_simps)
  with ok False show ?thesis by (simp add: dequeue_room) (auto simp: kbd_ok_def)
qed (simp add: dequeue_empty)

lemma dequeue_list:
  assumes "kbd_ok k" "kbd_list k = x # xs"
  shows "fst (kbd_dequeue k) = x \<and> kbd_list (snd (kbd_dequeue k)) = xs"
proof -
  obtain n where n: "kbd_size k = Suc n" using assms(2) by (metis length_kbd_list length_Cons)
  have split: "kbd_list k = kbd_buffer k ! kbd_head k #
      map (\<lambda>i. kbd_buffer k ! ((kbd_head k + Suc i) mod 128)) [0..<n]"
    using assms(1) by (simp add: kbd_list_def n map_upt_Suc kbd_ok_def del: upt_Suc)
  with assms n show ?thesis
    by (simp add: dequeue_room) (simp add: kbd_list_def mod_simps)
qed

interpretation kq: bounded_queue kbd_enqueue kbd_dequeue kbd_isempty kbd_list kbd_ok KBD_QUEUE_SIZE "0 :: u32"
proof
  fix q :: kbd and x :: u32 and xs
  assume ok: "kbd_ok q"
  show "kbd_ok (kbd_enqueue x q)" using ok by (rule enqueue_ok)
  show "kbd_ok (snd (kbd_dequeue q))" using ok by (rule dequeue_ok)
  show "length (kbd_list q) \<le> KBD_QUEUE_SIZE" using ok by (simp add: kbd_ok_def)
  show "kbd_list (kbd_enqueue x q) =
      (if length (kbd_list q) < KBD_QUEUE_SIZE then kbd_list q @ [x] else kbd_list q)"
    using ok by (simp add: enqueue_list)
  show "kbd_isempty q \<longleftrightarrow> kbd_list q = []"
    by (metis kbd_isempty_def length_0_conv length_kbd_list)
  show "kbd_list q = x # xs \<Longrightarrow> fst (kbd_dequeue q) = x \<and> kbd_list (snd (kbd_dequeue q)) = xs"
    using ok by (rule dequeue_list)
  show "kbd_list q = [] \<Longrightarrow> kbd_dequeue q = (0, q)"
    by (metis dequeue_empty length_0_conv length_kbd_list)
qed

section \<open>The decoder and the ring\<close>

text \<open>A decoded byte appends at most one key and removes none.\<close>

definition ring_grows :: "kbd \<Rightarrow> kbd \<Rightarrow> bool" where
  "ring_grows k k' \<longleftrightarrow> (kbd_ok k \<longrightarrow> kbd_ok k' \<and>
     (kbd_list k' = kbd_list k \<or> (\<exists>e. kbd_list k' = kbd_list k @ [e])))"

text \<open>The prefix states the decoder uses, and the four shift bits.\<close>

definition decode_states :: "u32 set" where
  "decode_states = {0, 0xE0, 0xE1, 0x1D, 0x45, 0x2E1, 0x9D, 0xE02A, 0x2AE0}"

definition shift_bits :: "u32 \<Rightarrow> bool" where
  "shift_bits sh \<longleftrightarrow> sh AND NOT 0xF = 0"

definition modifier_bits_kept :: "kbd \<Rightarrow> kbd \<Rightarrow> bool" where
  "modifier_bits_kept k k' \<longleftrightarrow> (shift_bits (kbd_shiftstate k) \<longrightarrow> shift_bits (kbd_shiftstate k'))"

lemma ring_grows_refl [simp]: "ring_grows k k" "ring_grows k (k\<lparr>kbd_state := st\<rparr>)"
  by (simp_all add: ring_grows_def)

lemma ring_grows_state [simp]:
  "ring_grows k (k'\<lparr>kbd_state := st\<rparr>) = ring_grows k k'"
  "ring_grows (k\<lparr>kbd_state := st\<rparr>) k' = ring_grows k k'"
  by (simp_all add: ring_grows_def)

lemma ring_grows_shift [simp]:
  "ring_grows k (set_shift b k)" "ring_grows k (clear_shift b k)" "ring_grows k (toggle_shift b k)"
  by (simp_all add: ring_grows_def set_shift_def clear_shift_def toggle_shift_def)

lemma ring_grows_ENQUEUE [simp]: "ring_grows k (ENQUEUE c k)"
  by (auto simp: ring_grows_def ENQUEUE_def enqueue_ok enqueue_list)

lemma ENQUEUE_shiftstate [simp]: "kbd_shiftstate (ENQUEUE c k) = kbd_shiftstate k"
  "kbd_state (ENQUEUE c k) = kbd_state k"
  by (simp_all add: ENQUEUE_def kbd_enqueue_def Let_def)

lemma modifier_bits_kept_simps [simp]:
  "modifier_bits_kept k k"
  "modifier_bits_kept k (k'\<lparr>kbd_state := st\<rparr>) = modifier_bits_kept k k'"
  "modifier_bits_kept (k\<lparr>kbd_state := st\<rparr>) k' = modifier_bits_kept k k'"
  "modifier_bits_kept k (ENQUEUE c k)"
  "modifier_bits_kept k (clear_shift b k)"
  by (simp_all add: modifier_bits_kept_def shift_bits_def clear_shift_def and.assoc and.left_commute)

lemma modifier_bits_kept_or_xor [simp]:
  "b AND NOT 0xF = 0 \<Longrightarrow> modifier_bits_kept k (set_shift b k)"
  "b AND NOT 0xF = 0 \<Longrightarrow> modifier_bits_kept k (toggle_shift b k)"
  by (simp_all add: modifier_bits_kept_def shift_bits_def set_shift_def toggle_shift_def
      bit.conj_disj_distrib2 bit.conj_xor_distrib2)

lemma decode_extended_steps [simp]:
  "ring_grows k (decode_extended c k)" "modifier_bits_kept k (decode_extended c k)"
  by (simp_all add: decode_extended_def)

lemma decode_make_steps:
  "decode_make c k = Some k' \<Longrightarrow> ring_grows k k' \<and> modifier_bits_kept k k'"
  by (auto simp: decode_make_def split: option.splits)

lemma decode_break_steps:
  "decode_break c k = Some k' \<Longrightarrow> ring_grows k k' \<and> modifier_bits_kept k k'"
  by (auto simp: decode_break_def split: option.splits)

lemma decode_plain:
  "kbd_state k = 0 \<Longrightarrow> decode c k =
     (if c = 0xE0 \<or> c = 0xE1 then Some (k\<lparr>kbd_state := ucast c\<rparr>)
      else map_option (\<lambda>k'. k'\<lparr>kbd_state := 0\<rparr>)
        (if c AND 0x80 = 0 then decode_make c k else decode_break c k))"
  by (simp add: decode.simps)

lemma decode_plain_steps:
  assumes "kbd_state k = 0" "decode c k = Some k'"
  shows "ring_grows k k' \<and> modifier_bits_kept k k' \<and> kbd_state k' \<in> decode_states"
  using assms decode_make_steps decode_break_steps
  by (fastforce simp: decode_plain decode_states_def split: if_splits)

text \<open>In a prefix state the byte is either expected, or decoded again from state 0.\<close>

lemma decode_prefix_steps:
  assumes "kbd_state k \<noteq> 0" "decode c k \<noteq> decode c (k\<lparr>kbd_state := 0\<rparr>)" "decode c k = Some k'"
  shows "ring_grows k k' \<and> modifier_bits_kept k k' \<and> kbd_state k' \<in> decode_states"
  using assms by (subst (asm) (1 3) decode.simps) (auto simp: Let_def decode_states_def split: if_splits)

lemma decode_steps:
  assumes "decode c k = Some k'"
  shows "ring_grows k k' \<and> modifier_bits_kept k k' \<and> kbd_state k' \<in> decode_states"
proof -
  consider "kbd_state k = 0" | "kbd_state k \<noteq> 0" "decode c k = decode c (k\<lparr>kbd_state := 0\<rparr>)"
    | "kbd_state k \<noteq> 0" "decode c k \<noteq> decode c (k\<lparr>kbd_state := 0\<rparr>)" by blast
  then show ?thesis
  proof cases
    case 1 then show ?thesis using assms by (rule decode_plain_steps)
  next
    case 2 then show ?thesis using decode_plain_steps [of "k\<lparr>kbd_state := 0\<rparr>" c k'] assms by simp
  next
    case 3 then show ?thesis using assms by (rule decode_prefix_steps)
  qed
qed

section \<open>The interrupt handler against the main loop\<close>

text \<open>
  Where the main loop stands in \<^verbatim>\<open>kbd_dequeue\<close>: outside it, after the test of \<^verbatim>\<open>kbd_size\<close>,
  after \<^verbatim>\<open>disable()\<close>, and after each of the three statements up to \<^verbatim>\<open>enable()\<close>. The
  keyboard interrupt may come whenever the interrupt flag is set; the interrupt gate keeps
  interrupts off while the handler runs. \<open>produced\<close> and \<open>consumed\<close> record the keys put into
  the ring and handed to the main loop.
\<close>

datatype deq_pc = Outside | Tested | Masked | Taken u32 | Wrapped u32 | Counted u32

record kq_sys =
  ring :: kbd
  ints_on :: bool
  deq_at :: deq_pc
  produced :: "u32 list"
  consumed :: "u32 list"

definition kq_start :: kq_sys where
  "kq_start = \<lparr>ring = kbd_init, ints_on = True, deq_at = Outside, produced = [], consumed = []\<rparr>"

inductive kq_step :: "kq_sys \<Rightarrow> kq_sys \<Rightarrow> bool" where
  irq: "ints_on s \<Longrightarrow> kbd_handler b (ring s) = Some k \<Longrightarrow>
    kq_step s (s\<lparr>ring := k, produced := produced s @ drop (length (kbd_list (ring s))) (kbd_list k)\<rparr>)"
| test_empty: "deq_at s = Outside \<Longrightarrow> kbd_size (ring s) = 0 \<Longrightarrow> kq_step s s"
| test: "deq_at s = Outside \<Longrightarrow> kbd_size (ring s) \<noteq> 0 \<Longrightarrow> kq_step s (s\<lparr>deq_at := Tested\<rparr>)"
| disable: "deq_at s = Tested \<Longrightarrow> kq_step s (s\<lparr>ints_on := False, deq_at := Masked\<rparr>)"
| take_elem: "deq_at s = Masked \<Longrightarrow> deq_take (ring s) = (c, k) \<Longrightarrow>
    kq_step s (s\<lparr>ring := k, deq_at := Taken c\<rparr>)"
| wrap: "deq_at s = Taken c \<Longrightarrow> kq_step s (s\<lparr>ring := deq_wrap (ring s), deq_at := Wrapped c\<rparr>)"
| count: "deq_at s = Wrapped c \<Longrightarrow> kq_step s (s\<lparr>ring := deq_count (ring s), deq_at := Counted c\<rparr>)"
| enable: "deq_at s = Counted c \<Longrightarrow>
    kq_step s (s\<lparr>ints_on := True, deq_at := Outside, consumed := consumed s @ [c]\<rparr>)"

inductive kq_reachable :: "kq_sys \<Rightarrow> bool" where
  start: "kq_reachable kq_start"
| step: "kq_reachable s \<Longrightarrow> kq_step s t \<Longrightarrow> kq_reachable t"

text \<open>Without an interrupt in between, the steps are \<^verbatim>\<open>kbd_dequeue\<close>.\<close>

lemma kq_steps_dequeue:
  assumes "deq_at s = Outside" "ints_on s" "kbd_size (ring s) \<noteq> 0"
  shows "kq_step\<^sup>*\<^sup>* s (s\<lparr>ring := snd (kbd_dequeue (ring s)),
     consumed := consumed s @ [fst (kbd_dequeue (ring s))]\<rparr>)"
proof -
  obtain k p d where s: "s = \<lparr>ring = k, ints_on = True, deq_at = Outside, produced = p, consumed = d\<rparr>"
    using assms by (cases s) simp
  let ?c = "fst (deq_take k)" and ?k = "snd (deq_take k)"
  let ?at = "\<lambda>k b a. \<lparr>ring = k, ints_on = b, deq_at = a, produced = p, consumed = d\<rparr>"
  have "kq_step s (?at k True Tested)" "kq_step (?at k True Tested) (?at k False Masked)"
    "kq_step (?at k False Masked) (?at ?k False (Taken ?c))"
    "kq_step (?at ?k False (Taken ?c)) (?at (deq_wrap ?k) False (Wrapped ?c))"
    "kq_step (?at (deq_wrap ?k) False (Wrapped ?c)) (?at (deq_count (deq_wrap ?k)) False (Counted ?c))"
    "kq_step (?at (deq_count (deq_wrap ?k)) False (Counted ?c))
       ((?at (deq_count (deq_wrap ?k)) True Outside)\<lparr>consumed := d @ [?c]\<rparr>)"
    using assms kq_step.test [of s] kq_step.disable [of "?at k True Tested"]
      kq_step.take_elem [of "?at k False Masked" ?c ?k]
      kq_step.wrap [of "?at ?k False (Taken ?c)" ?c]
      kq_step.count [of "?at (deq_wrap ?k) False (Wrapped ?c)" ?c]
      kq_step.enable [of "?at (deq_count (deq_wrap ?k)) False (Counted ?c)" ?c]
    by (simp_all add: s)
  then have "kq_step\<^sup>*\<^sup>* s ((?at (deq_count (deq_wrap ?k)) True Outside)\<lparr>consumed := d @ [?c]\<rparr>)"
    by (meson converse_rtranclp_into_rtranclp rtranclp.rtrancl_refl)
  moreover have "kbd_dequeue k = (?c, deq_count (deq_wrap ?k))"
    using assms(3) by (simp add: s kbd_dequeue_def split_beta)
  ultimately show ?thesis by (simp add: s)
qed

text \<open>What holds at each point: outside the masked section the ring holds exactly the keys not
  yet consumed; inside it, the ring is an intermediate state of removing its first key.\<close>

definition in_deq :: "(kbd \<Rightarrow> kbd) \<Rightarrow> u32 \<Rightarrow> kq_sys \<Rightarrow> bool" where
  "in_deq f c s \<longleftrightarrow> \<not> ints_on s \<and> (\<exists>k. kbd_ok k \<and> kbd_size k \<noteq> 0 \<and> fst (deq_take k) = c \<and>
     ring s = f (snd (deq_take k)) \<and> produced s = consumed s @ kbd_list k)"

definition quiet :: "kq_sys \<Rightarrow> bool" where
  "quiet s \<longleftrightarrow> kbd_ok (ring s) \<and> produced s = consumed s @ kbd_list (ring s)"

definition kq_inv :: "kq_sys \<Rightarrow> bool" where
  "kq_inv s = (case deq_at s of
     Outside \<Rightarrow> ints_on s \<and> quiet s
   | Tested \<Rightarrow> ints_on s \<and> quiet s \<and> kbd_size (ring s) \<noteq> 0
   | Masked \<Rightarrow> \<not> ints_on s \<and> quiet s \<and> kbd_size (ring s) \<noteq> 0
   | Taken c \<Rightarrow> in_deq (\<lambda>k. k) c s
   | Wrapped c \<Rightarrow> in_deq deq_wrap c s
   | Counted c \<Rightarrow> in_deq (\<lambda>k. deq_count (deq_wrap k)) c s)"

lemma kq_inv_irq:
  assumes inv: "kq_inv s" and iff: "ints_on s" and step: "kbd_handler b (ring s) = Some k"
  shows "kq_inv (s\<lparr>ring := k, produced := produced s @ drop (length (kbd_list (ring s))) (kbd_list k)\<rparr>)"
proof -
  have at: "deq_at s = Outside \<or> deq_at s = Tested" and q: "quiet s"
    using inv iff by (auto simp: kq_inv_def in_deq_def split: deq_pc.splits)
  have "ring_grows (ring s) k" using decode_steps step by (simp add: kbd_handler_def)
  then have ok: "kbd_ok k" and
    grown: "kbd_list k = kbd_list (ring s) \<or> (\<exists>e. kbd_list k = kbd_list (ring s) @ [e])"
    using q by (auto simp: ring_grows_def quiet_def)
  have size: "kbd_size (ring s) \<le> kbd_size k"
    using grown length_kbd_list [of k] length_kbd_list [of "ring s"] by (metis length_append le_add1 le_refl)
  have "produced s @ drop (length (kbd_list (ring s))) (kbd_list k) = consumed s @ kbd_list k"
    using grown q by (auto simp: quiet_def)
  then show ?thesis using at inv ok size
    by (auto simp: kq_inv_def quiet_def)
qed

lemma kq_inv_enable:
  assumes "in_deq (\<lambda>k. deq_count (deq_wrap k)) c s"
  shows "quiet (s\<lparr>ints_on := True, deq_at := Outside, consumed := consumed s @ [c]\<rparr>)"
proof -
  obtain k where k: "kbd_ok k" "kbd_size k \<noteq> 0" "fst (deq_take k) = c"
      "ring s = deq_count (deq_wrap (snd (deq_take k)))" "produced s = consumed s @ kbd_list k"
    using assms by (auto simp: in_deq_def)
  have deq: "kbd_dequeue k = (c, ring s)" using k by (simp add: kbd_dequeue_def split_beta)
  obtain x xs where xs: "kbd_list k = x # xs"
    using k(2) by (metis length_0_conv length_kbd_list neq_Nil_conv)
  have "kbd_ok (ring s)" using kq.invar_deq [OF k(1)] deq by simp
  moreover have "x = c" "kbd_list (ring s) = xs" using kq.deq_nonempty [OF k(1) xs] deq by simp_all
  ultimately show ?thesis using k(5) xs by (simp add: quiet_def)
qed

lemma kq_inv_step: "kq_step s t \<Longrightarrow> kq_inv s \<Longrightarrow> kq_inv t"
proof (induction rule: kq_step.induct)
  case (irq s b k) then show ?case by (blast intro: kq_inv_irq)
next
  case (take_elem s c k)
  then show ?case
    by (auto simp: kq_inv_def in_deq_def quiet_def intro!: exI [of _ "ring s"])
next
  case (enable s c)
  then show ?case using kq_inv_enable [of c s] by (simp add: kq_inv_def)
qed (auto simp: kq_inv_def quiet_def in_deq_def)

lemma kq_inv_reachable: "kq_reachable s \<Longrightarrow> kq_inv s"
proof (induction rule: kq_reachable.induct)
  case start
  then show ?case by (simp add: kq_inv_def quiet_def kq_start_def)
next
  case (step s t)
  then show ?case using kq_inv_step by blast
qed

section \<open>Decoding sequences\<close>

fun decode_all :: "u8 list \<Rightarrow> kbd \<Rightarrow> kbd option" where
  "decode_all [] k = Some k"
| "decode_all (c # cs) k = Option.bind (decode c k) (decode_all cs)"

lemma table_lengths [simp]: "length scancodes = 0x59" "length shift_scancodes = 0x59"
  by (simp_all add: scancodes_def shift_scancodes_def)

lemma table_read_None: "table_read scancodes i = None \<longleftrightarrow> 0x59 \<le> i"
  "table_read shift_scancodes i = None \<longleftrightarrow> 0x59 \<le> i"
  by (simp_all add: table_read_def word_le_nat_alt)

lemma decode_make_None: "decode_make c k = None \<longleftrightarrow> 0x59 \<le> c"
proof (cases "kbd_shiftstate k AND KBD_SHIFT = 0")
  case True
  then show ?thesis unfolding table_read_None(1) [symmetric]
    by (simp add: decode_make_def split: option.split)
next
  case False
  then show ?thesis unfolding table_read_None(2) [symmetric]
    by (simp add: decode_make_def split: option.split)
qed

lemma decode_break_None: "decode_break c k = None \<longleftrightarrow> 0x59 \<le> c AND 0x7F"
  unfolding table_read_None(1) [symmetric] by (simp add: decode_break_def split: option.split)

lemma and_7f_make: 
  assumes "c AND 0x80 = 0"
  shows "(c :: u8) AND 0x7F = c"
proof -
  have full: "(0x7F OR 0x80 :: u8) = - 1" by simp
  have "c = c AND (0x7F OR 0x80)" unfolding full by simp
  also have "\<dots> = (c AND 0x7F) OR (c AND 0x80)" by (rule bit.conj_disj_distrib)
  finally show ?thesis using assms by simp
qed

lemma small_make:
  assumes "unat (c :: u8) < 0x59"
  shows "c AND 0x80 = 0 \<and> c OR 0x80 \<noteq> 0xE0 \<and> c OR 0x80 \<noteq> 0xE1 \<and> (c OR 0x80) AND 0x80 \<noteq> 0 \<and>
    (c OR 0x80) AND 0x7F = c \<and> c \<noteq> 0xE0 \<and> c \<noteq> 0xE1"
proof -
  have "\<forall>c \<in> set (map word_of_nat [0..<0x59]). (c :: u8) AND 0x80 = 0 \<and> c OR 0x80 \<noteq> 0xE0 \<and>
      c OR 0x80 \<noteq> 0xE1 \<and> (c OR 0x80) AND 0x80 \<noteq> 0 \<and> (c OR 0x80) AND 0x7F = c \<and> c \<noteq> 0xE0 \<and> c \<noteq> 0xE1"
    by code_simp
  with byte_enum [OF assms] show ?thesis by blast
qed

text \<open>The modifier keys are the same in both tables.\<close>

definition modifier_keys :: "u8 set" where
  "modifier_keys = {KEY_LEFTCTRL, KEY_CAPSLOCK, KEY_LEFTSHFT, KEY_RGHTSHFT, KEY_LEFTALT}"

lemma modifiers_agree:
  assumes "i < 0x59"
  shows "shift_scancodes ! i \<in> modifier_keys \<longleftrightarrow> scancodes ! i \<in> modifier_keys"
proof -
  have "\<forall>i \<in> set [0..<0x59]. shift_scancodes ! i \<in> modifier_keys \<longleftrightarrow> scancodes ! i \<in> modifier_keys"
    by code_simp
  with assms show ?thesis by simp
qed

section \<open>Properties\<close>

text \<open>C21: the ring buffer is a FIFO of capacity 128: for any sequence of \<^verbatim>\<open>kbd_enqueue\<close> and
  \<^verbatim>\<open>kbd_dequeue\<close> calls, the values returned and the keys left are those of a list that drops
  insertions when it holds 128 keys and returns 0 when it is empty.\<close>

theorem kbd_ring_is_bounded_fifo:
  assumes "kbd_ok k"
  shows "(fst (impl_run kbd_enqueue kbd_dequeue ops k),
      kbd_list (snd (impl_run kbd_enqueue kbd_dequeue ops k))) = list_run 128 0 ops (kbd_list k)"
  using kq.run_refines_list [OF assms] by blast

theorem kbd_ring_is_bounded_fifo_witness:
  "kbd_ok kbd_init \<and> fst (impl_run kbd_enqueue kbd_dequeue [Enq 7, Enq 8, Deq, Deq, Deq] kbd_init) = [7, 8, 0]"
  using kbd_ring_is_bounded_fifo [OF kbd_init_ok(1), of "[Enq 7, Enq 8, Deq, Deq, Deq]"] by simp

text \<open>C4: however keyboard interrupts interleave with the statements of \<^verbatim>\<open>kbd_dequeue\<close>, the main
  loop receives the keys in the order they were put in and none is lost or duplicated: what
  was consumed is a prefix of what was produced, and whenever the main loop is outside
  \<^verbatim>\<open>kbd_dequeue\<close> the ring holds exactly the rest.\<close>

theorem kbd_interleaving_keeps_fifo:
  assumes "kq_reachable s"
  shows "prefix (consumed s) (produced s) \<and>
     (deq_at s = Outside \<longrightarrow> kbd_ok (ring s) \<and> produced s = consumed s @ kbd_list (ring s))"
  using kq_inv_reachable [OF assms]
  by (auto simp: kq_inv_def quiet_def in_deq_def prefix_def split: deq_pc.splits)

theorem kbd_interleaving_keeps_fifo_witness:
  "\<exists>s. kq_reachable s \<and> ints_on s \<and> deq_at s = Tested \<and> produced s = [0x61, 0x62] \<and>
     prefix (consumed s) (produced s)"
proof -
  define k1 where "k1 = the (kbd_handler 0x1E kbd_init)"
  define k2 where "k2 = the (kbd_handler 0x30 k1)"
  have k1: "kbd_handler 0x1E kbd_init = Some k1" "kbd_list kbd_init = []" "kbd_list k1 = [0x61]"
      "kbd_size k1 \<noteq> 0"
    unfolding k1_def by code_simp+
  have k2: "kbd_handler 0x30 k1 = Some k2" "kbd_list k2 = [0x61, 0x62]"
    unfolding k2_def k1_def by code_simp+
  let ?s1 = "\<lparr>ring = k1, ints_on = True, deq_at = Outside, produced = [0x61], consumed = []\<rparr>"
  let ?s2 = "\<lparr>ring = k1, ints_on = True, deq_at = Tested, produced = [0x61], consumed = []\<rparr>"
  let ?s3 = "\<lparr>ring = k2, ints_on = True, deq_at = Tested, produced = [0x61, 0x62], consumed = []\<rparr>"
  have "kq_step kq_start ?s1" "kq_step ?s1 ?s2" "kq_step ?s2 ?s3"
    using kq_step.irq [of kq_start "0x1E" k1] kq_step.test [of ?s1] kq_step.irq [of ?s2 "0x30" k2] k1 k2
    by (simp_all add: kq_start_def)
  then have "kq_reachable ?s3" by (meson kq_reachable.intros)
  with kbd_interleaving_keeps_fifo [OF this] show ?thesis by (intro exI [of _ ?s3]) simp
qed

text \<open>C23: from any well-formed driver state a scancode leads to a well-formed state again: the
  ring invariant holds, the prefix state is one of the nine the decoder knows, only the four
  shift bits are used, and at most one key has been appended to the ring.\<close>

theorem decode_keeps_invariant:
  assumes "decode c k = Some k'" "kbd_ok k" "shift_bits (kbd_shiftstate k)"
  shows "kbd_ok k' \<and> kbd_state k' \<in> decode_states \<and> shift_bits (kbd_shiftstate k') \<and>
     (kbd_list k' = kbd_list k \<or> (\<exists>e. kbd_list k' = kbd_list k @ [e]))"
  using decode_steps [OF assms(1)] assms(2,3) by (simp add: ring_grows_def modifier_bits_kept_def)

theorem decode_keeps_invariant_witness:
  "let k = the (decode 0x2A kbd_init) in
   decode 0x2A kbd_init = Some k \<and> kbd_ok k \<and> kbd_state k \<in> decode_states \<and> shift_bits (kbd_shiftstate k)"
proof -
  have h: "decode 0x2A kbd_init = Some (the (decode 0x2A kbd_init))" "shift_bits (kbd_shiftstate kbd_init)"
    by code_simp+
  from decode_keeps_invariant [OF h(1) kbd_init_ok(1) h(2)] h show ?thesis by (simp only: Let_def)
qed

text \<open>C24: in the plain state a byte is decoded without reading past the 0x59-entry tables
  exactly when it is a prefix byte or its low seven bits are below 0x59; the make codes
  0x59-0x7F and the break codes 0xD9-0xFF other than the prefixes read out of bounds.\<close>

theorem decode_out_of_bounds_iff:
  assumes "kbd_state k = 0"
  shows "decode c k = None \<longleftrightarrow> c \<noteq> 0xE0 \<and> c \<noteq> 0xE1 \<and> 0x59 \<le> c AND 0x7F"
  using assms and_7f_make [of c]
  by (auto simp: decode_plain decode_make_None decode_break_None)

theorem decode_out_of_bounds_iff_witness:
  "decode 0x5B kbd_init = None \<and> decode 0xFA kbd_init = None"
  using decode_out_of_bounds_iff [of kbd_init "0x5B"] decode_out_of_bounds_iff [of kbd_init "0xFA"]
  by (simp add: kbd_init_def)

text \<open>Pressing and releasing a key that is not a modifier, from the plain state, puts exactly
  one entry into the ring: the code of the table selected by the shift state, with the shift
  state in the bits above it. Nothing else of the driver state changes.\<close>

theorem decode_press_release:
  assumes "kbd_state k = 0" "unat c < 0x59"
    and "scancodes ! unat c \<notin> modifier_keys"
    and "v = (if kbd_shiftstate k AND KBD_SHIFT \<noteq> 0 then shift_scancodes else scancodes) ! unat c"
    and "v \<noteq> 0"
  shows "decode_all [c, c OR 0x80] k = Some (ENQUEUE v k)"
proof -
  have v: "v \<notin> modifier_keys" using assms(2-4) modifiers_agree by (auto split: if_splits)
  have same: "k'\<lparr>kbd_state := 0\<rparr> = k'" if "kbd_state k' = 0" for k' :: kbd
    using that by (cases k') simp
  have "table_read (if kbd_shiftstate k AND KBD_SHIFT \<noteq> 0 then shift_scancodes else scancodes) c = Some v"
    using assms(2,4) by (simp add: table_read_def)
  then have "decode_make c k = Some (ENQUEUE v k)"
    using v assms(5) by (simp add: decode_make_def modifier_keys_def)
  then have press: "decode c k = Some (ENQUEUE v k)"
    using small_make [OF assms(2)] assms(1) by (simp add: decode_plain same)
  have "decode_break (c OR 0x80) (ENQUEUE v k) = Some (ENQUEUE v k)"
    using assms(2,3) small_make [OF assms(2)]
    by (simp add: decode_break_def table_read_def modifier_keys_def)
  then have "decode (c OR 0x80) (ENQUEUE v k) = Some (ENQUEUE v k)"
    using small_make [OF assms(2)] assms(1) by (simp add: decode_plain same)
  with press show ?thesis by simp
qed

theorem decode_press_release_witness:
  "decode_all [0x1E, 0x1E OR 0x80] kbd_init = Some (ENQUEUE 0x61 kbd_init)"
  by (rule decode_press_release) (simp_all add: kbd_init_def scancodes_def modifier_keys_def)

text \<open>The six bytes of the Pause key and the four bytes of Print Screen, from the plain
  state, each put their one key into the ring and return to the plain state.\<close>

theorem decode_pause_and_prtsc:
  assumes "kbd_state k = 0"
  shows "decode_all [0xE1, 0x1D, 0x45, 0xE1, 0x9D, 0xC5] k = Some (ENQUEUE KEY_PAUSE k) \<and>
     decode_all [0xE0, 0x2A, 0xE0, 0x37] k = Some (ENQUEUE KEY_PRTSC k)"
proof -
  have same: "(ENQUEUE c (k\<lparr>kbd_state := st\<rparr>))\<lparr>kbd_state := 0\<rparr> = ENQUEUE c k" for c st
    using assms by (cases k) (simp add: ENQUEUE_def kbd_enqueue_def Let_def)
  show ?thesis using assms by (simp add: decode.simps same)
qed

theorem decode_pause_and_prtsc_witness:
  "decode_all [0xE1, 0x1D, 0x45, 0xE1, 0x9D, 0xC5] kbd_init = Some (ENQUEUE KEY_PAUSE kbd_init)"
  using decode_pause_and_prtsc [of kbd_init] by (simp add: kbd_init_def)

end
