(* ===== verification/Frog_Allocator.thy ===== *)
theory Frog_Allocator
  imports Frog_Prelude
begin

text \<open>
  The interface between the kernel heap and its clients (the network buffer pool, the device
  structures and the descriptor rings): an allocator that hands out parts of a shrinking free
  area and touches nothing else, and the clients that write the blocks they got.
\<close>

text \<open>The histories of an allocator and its clients: from a start state, any sequence of
  requests and of byte writes into blocks handed out before. The list holds the blocks (address
  and requested length), the latest first; a null result adds no block. The largest length a
  request may have is a parameter.\<close>

inductive client ::
  "(u32 \<Rightarrow> 's \<Rightarrow> (addr \<times> 's) option) \<Rightarrow> ('s \<Rightarrow> byte_mem) \<Rightarrow> (byte_mem \<Rightarrow> 's \<Rightarrow> 's) \<Rightarrow> u32 \<Rightarrow> 's
     \<Rightarrow> 's \<Rightarrow> (addr \<times> u32) list \<Rightarrow> bool"
  for alloc1 memory poke most s0 where
  start: "client alloc1 memory poke most s0 s0 []"
| get: "client alloc1 memory poke most s0 s bl \<Longrightarrow> n \<le> most \<Longrightarrow> alloc1 n s = Some (a, s')
    \<Longrightarrow> client alloc1 memory poke most s0 s' (if a = 0 then bl else (a, n) # bl)"
| put: "client alloc1 memory poke most s0 s bl \<Longrightarrow> (a, n) \<in> set bl \<Longrightarrow> x \<in> region a (unat n)
    \<Longrightarrow> client alloc1 memory poke most s0 (poke ((memory s)(x := v)) s) bl"

primrec blocks_disjoint :: "(addr \<times> u32) list \<Rightarrow> bool" where
  "blocks_disjoint [] = True"
| "blocks_disjoint (b # bl) = ((\<forall>c \<in> set bl. region (fst b) (unat (snd b)) \<inter> region (fst c) (unat (snd c)) = {})
     \<and> blocks_disjoint bl)"

locale allocator =
  fixes alloc1 :: "u32 \<Rightarrow> 's \<Rightarrow> (addr \<times> 's) option"
    and inv :: "'s \<Rightarrow> bool"
    and free_area :: "'s \<Rightarrow> addr set"
    and memory :: "'s \<Rightarrow> byte_mem"
    and poke :: "byte_mem \<Rightarrow> 's \<Rightarrow> 's"
    and most :: u32
  assumes alloc_total: "inv s \<Longrightarrow> n \<le> most \<Longrightarrow> alloc1 n s \<noteq> None"
    and alloc_inv: "inv s \<Longrightarrow> n \<le> most \<Longrightarrow> alloc1 n s = Some (a, s') \<Longrightarrow> inv s'"
    and alloc_free: "inv s \<Longrightarrow> n \<le> most \<Longrightarrow> alloc1 n s = Some (a, s') \<Longrightarrow> free_area s' \<subseteq> free_area s"
    and alloc_block: "inv s \<Longrightarrow> n \<le> most \<Longrightarrow> alloc1 n s = Some (a, s') \<Longrightarrow> a \<noteq> 0
      \<Longrightarrow> region a (unat n) \<subseteq> free_area s - free_area s'"
    and alloc_frame: "inv s \<Longrightarrow> n \<le> most \<Longrightarrow> alloc1 n s = Some (a, s') \<Longrightarrow> x \<notin> free_area s
      \<Longrightarrow> memory s' x = memory s x"
    and poke_inv: "inv s \<Longrightarrow> (\<And>x. x \<in> free_area s \<Longrightarrow> m x = memory s x) \<Longrightarrow> inv (poke m s)"
    and poke_free: "inv s \<Longrightarrow> (\<And>x. x \<in> free_area s \<Longrightarrow> m x = memory s x)
      \<Longrightarrow> free_area (poke m s) = free_area s"
begin

lemma client_invariant:
  assumes "inv s0" "client alloc1 memory poke most s0 s bl"
  shows "inv s \<and> free_area s \<subseteq> free_area s0 \<and> blocks_disjoint bl
    \<and> (\<forall>b \<in> set bl. region (fst b) (unat (snd b)) \<subseteq> free_area s0 - free_area s)"
  using assms(2)
proof (induction rule: client.induct)
  case start then show ?case using assms(1) by simp
next
  case (get s bl n a s')
  note step = get.IH get.hyps(2,3)
  have sub: "free_area s' \<subseteq> free_area s" using alloc_free step by blast
  have old: "region (fst b) (unat (snd b)) \<subseteq> free_area s0 - free_area s'" if "b \<in> set bl" for b
    using step sub that by blast
  show ?case
  proof (cases "a = 0")
    case True then show ?thesis using step sub old alloc_inv by auto
  next
    case False
    have new: "region a (unat n) \<subseteq> free_area s - free_area s'" using alloc_block step False by blast
    have "region a (unat n) \<inter> region (fst b) (unat (snd b)) = {}" if "b \<in> set bl" for b
      using new step that by blast
    then show ?thesis using False step sub old new alloc_inv [of s n a s'] by auto
  qed
next
  case (put s bl a n x v)
  then have x: "x \<notin> free_area s" by fastforce
  have "inv (poke ((memory s)(x := v)) s)" using put x by (intro poke_inv) auto
  moreover have "free_area (poke ((memory s)(x := v)) s) = free_area s"
    using put x by (intro poke_free) auto
  ultimately show ?case using put by simp
qed

end

end
