(* ===== verification/Frog_Memory.thy ===== *)
theory Frog_Memory
  imports Frog_Allocator Frog_Conio
begin

text \<open>
  The kernel heap of memory.c: a list of free blocks whose headers (size, next) stand in the free
  memory itself, from the end of the kernel image to 0xC0C00000. Nothing is ever given back.
\<close>

section \<open>State and operations\<close>

record heap = con +
  high_mem :: addr

text \<open>The fields of \<^verbatim>\<open>memhdr\<close>.\<close>

definition hdr_size :: "byte_mem \<Rightarrow> addr \<Rightarrow> u32" where
  "hdr_size m p = load32 m p"

definition hdr_next :: "byte_mem \<Rightarrow> addr \<Rightarrow> addr" where
  "hdr_next m p = load32 m (p + 4)"

definition set_hdr_size :: "addr \<Rightarrow> u32 \<Rightarrow> byte_mem \<Rightarrow> byte_mem" where
  "set_hdr_size p v m = store32 m p v"

definition set_hdr_next :: "addr \<Rightarrow> addr \<Rightarrow> byte_mem \<Rightarrow> byte_mem" where
  "set_hdr_next p v m = store32 m (p + 4) v"

text \<open>\<^verbatim>\<open>size - 1\<close> is an \<^verbatim>\<open>int\<close>, converted to 32 bits in the sum and in the mask.\<close>

definition round_up :: "u32 \<Rightarrow> u16 \<Rightarrow> u32" where
  "round_up a sz = (a + (ucast sz - 1)) AND NOT (ucast sz - 1)"

definition init_mem :: "addr \<Rightarrow> 'a heap_scheme \<Rightarrow> 'a heap_scheme" where
  "init_mem kernel_end s =
     (let h = round_up kernel_end 16 in
      s\<lparr>high_mem := h, mem := set_hdr_next h 0 (set_hdr_size h (0xC0C00000 - h) (mem s))\<rparr>)"

text \<open>The two ways \<^verbatim>\<open>alloc\<close> takes a block: splitting off an aligned part in the middle, or
  cutting the front.\<close>

definition alloc_split :: "u32 \<Rightarrow> u32 \<Rightarrow> addr \<Rightarrow> 'a heap_scheme \<Rightarrow> addr \<times> 'a heap_scheme" where
  "alloc_split sz lost p s =
     (let new_mem = p + lost + sz;
          m1 = set_hdr_next new_mem (hdr_next (mem s) p) (mem s);
          m2 = set_hdr_size new_mem (hdr_size m1 p - (lost + sz)) m1;
          m3 = set_hdr_size p lost m2;
          m4 = set_hdr_next p new_mem m3
      in (p + lost, s\<lparr>mem := m4\<rparr>))"

definition alloc_front :: "u32 \<Rightarrow> addr \<Rightarrow> 'a heap_scheme \<Rightarrow> addr \<times> 'a heap_scheme" where
  "alloc_front sz p s =
     (let new_mem = p + sz;
          m1 = set_hdr_next new_mem (hdr_next (mem s) p) (mem s);
          m2 = set_hdr_size new_mem (hdr_size m1 p - sz) m1
      in (high_mem s, s\<lparr>mem := m2, high_mem := new_mem\<rparr>))"

text \<open>The walk over the list: it does not return on a cyclic list.\<close>

partial_function (option) alloc_loop ::
    "u32 \<Rightarrow> u16 \<Rightarrow> addr \<Rightarrow> 'a heap_scheme \<Rightarrow> (addr \<times> 'a heap_scheme) option" where
  "alloc_loop sz align p s =
     (if p = 0 then Some (0, s)
      else if sz \<le> hdr_size (mem s) p then
        let lost = round_up p align - p in
        if sz < hdr_size (mem s) p - lost then
          Some (if 16 \<le> lost then alloc_split sz lost p s else alloc_front sz p s)
        else alloc_loop sz align (hdr_next (mem s) p) s
      else alloc_loop sz align (hdr_next (mem s) p) s)"

definition alloc :: "u32 \<Rightarrow> u16 \<Rightarrow> 'a heap_scheme \<Rightarrow> (addr \<times> 'a heap_scheme) option" where
  "alloc sz align s = alloc_loop (round_up sz 16) align (high_mem s) s"

section \<open>Rounding\<close>

lemma round_up_1 [simp]: "round_up a 1 = a"
  by (simp add: round_up_def)

text \<open>For a power of two \<open>2 ^ k\<close> the mask clears the low \<open>k\<close> bits.\<close>

lemma round_up_pow2:
  assumes "k < 16"
  shows "unat (round_up a (push_bit k 1)) = (unat a + (2 ^ k - 1)) mod 2 ^ 32 div 2 ^ k * 2 ^ k"
proof -
  have c: "(ucast (push_bit k 1 :: u16) :: u32) = 2 ^ k"
    using assms by (intro bit_word_eqI) (auto simp: bit_simps)
  have "round_up a (push_bit k 1) = (a + mask k) AND NOT (mask k)"
    by (simp only: round_up_def c) (simp add: mask_eq_exp_minus_1)
  moreover have "unat (a + mask k) = (unat a + (2 ^ k - 1)) mod 2 ^ 32"
    using assms by (simp only: unat_word_ariths unat_mask32) simp
  ultimately show ?thesis by (simp only: unat_and_not_mask)
qed

lemma round_up_16: "unat (round_up a 16) = (unat a + 15) mod 2 ^ 32 div 16 * 16"
  using round_up_pow2 [of 4 a] by (simp add: push_bit_eq_mult)

section \<open>The heap with one free block\<close>

text \<open>
  Every call of \<^verbatim>\<open>alloc\<close> in the kernel passes alignment 1. Then the list never has more than one
  block, which runs from \<^verbatim>\<open>high_mem\<close> to 0xC0C00000.
\<close>

definition heap_ok :: "'a heap_scheme \<Rightarrow> bool" where
  "heap_ok s \<longleftrightarrow> 0xC0100000 \<le> high_mem s \<and> 16 dvd unat (high_mem s)
     \<and> unat (high_mem s) + unat (hdr_size (mem s) (high_mem s)) = 0xC0C00000
     \<and> 16 \<le> hdr_size (mem s) (high_mem s) \<and> hdr_next (mem s) (high_mem s) = 0"

definition heap_free :: "'a heap_scheme \<Rightarrow> addr set" where
  "heap_free s = {x. high_mem s \<le> x \<and> x < 0xC0C00000}"

lemma hdr_fields [simp]:
  "hdr_size (set_hdr_size p v m) p = v" "hdr_next (set_hdr_next p v m) p = v"
  "hdr_size (set_hdr_next p v m) p = hdr_size m p" "hdr_next (set_hdr_size p v m) p = hdr_next m p"
  by (simp_all add: hdr_size_def hdr_next_def set_hdr_size_def set_hdr_next_def load32_def
      store32_apply word32_of_bytes)

lemma hdr_frame [simp]:
  "x \<notin> region p 8 \<Longrightarrow> set_hdr_size p v m x = m x"
  "x \<notin> region p 8 \<Longrightarrow> set_hdr_next p v m x = m x"
  by (auto simp: set_hdr_size_def set_hdr_next_def store32_apply add.assoc)

lemma hdr_cong:
  "(\<And>x. x \<in> region p 8 \<Longrightarrow> m x = m' x) \<Longrightarrow> hdr_size m p = hdr_size m' p \<and> hdr_next m p = hdr_next m' p"
  by (simp add: hdr_size_def hdr_next_def load32_def add.assoc)


lemma round_up_16_request:
  assumes "sz \<le> 0xFFFFFFF0"
  shows "unat (round_up sz 16) = (unat sz + 15) div 16 * 16" "unat sz \<le> unat (round_up sz 16)"
proof -
  have "unat sz + 15 < 2 ^ 32" using assms by (simp add: word_le_nat_alt)
  then show eq: "unat (round_up sz 16) = (unat sz + 15) div 16 * 16" by (simp add: round_up_16)
  show "unat sz \<le> unat (round_up sz 16)" unfolding eq by linarith
qed

text \<open>The walk ends after one block: a cut at the front, or the null pointer.\<close>

lemma alloc_one_block:
  assumes "heap_ok s"
  shows "alloc sz 1 s = Some (if round_up sz 16 < hdr_size (mem s) (high_mem s)
     then alloc_front (round_up sz 16) (high_mem s) s else (0, s))"
proof -
  have "high_mem s \<noteq> 0" using assms by (auto simp: heap_ok_def)
  moreover have "hdr_next (mem s) (high_mem s) = 0" using assms by (simp add: heap_ok_def)
  ultimately show ?thesis
    by (auto simp: alloc_def alloc_loop.simps [of _ _ "high_mem s"] alloc_loop.simps [of _ _ 0]
        dest: less_imp_le)
qed

lemma alloc_front_ok:
  assumes "heap_ok s" "r < hdr_size (mem s) (high_mem s)" "16 dvd unat r"
  shows "heap_ok (snd (alloc_front r (high_mem s) s))"
    and "unat (high_mem (snd (alloc_front r (high_mem s) s))) = unat (high_mem s) + unat r"
proof -
  define h z where "h = high_mem s" and "z = hdr_size (mem s) (high_mem s)"
  have b: "0xC0100000 \<le> unat h" "unat h + unat z = 0xC0C00000" "unat r < unat z" "16 dvd unat h"
    using assms by (auto simp: heap_ok_def h_def z_def word_le_nat_alt word_less_nat_alt)
  then have hr: "unat (h + r) = unat h + unat r" by (simp add: unat_word_ariths)
  have zr: "unat (z - r) = unat z - unat r" using b by (intro unat_sub) (simp add: word_le_nat_alt)
  have "unat z = 0xC0C00000 - unat h" using b by simp
  then have "16 dvd unat z - unat r" using b(4) assms(3) by (simp add: dvd_diff_nat)
  then have d: "16 \<le> unat z - unat r" using b(3) by (simp add: dvd_imp_le)
  have "hdr_size (set_hdr_next (h + r) 0 (mem s)) h = z"
  proof (cases "r = 0")
    case True then show ?thesis by (simp add: z_def h_def)
  next
    case False
    then have "16 \<le> unat r" using assms(3) by (auto simp: dvd_def word_unat_eq_iff)
    then have "x \<notin> region (h + r) 8" if "x \<in> region h 4" for x
      using that b by (subst region_shift) auto
    then show ?thesis unfolding z_def hdr_size_def h_def [symmetric]
      by (intro load32_cong) (rule hdr_frame, blast)
  qed
  then have s': "snd (alloc_front r h s) = s\<lparr>mem := set_hdr_size (h + r) (z - r)
      (set_hdr_next (h + r) 0 (mem s)), high_mem := h + r\<rparr>"
    using assms(1) by (simp add: alloc_front_def Let_def heap_ok_def h_def)
  show "heap_ok (snd (alloc_front r (high_mem s) s))"
    unfolding h_def [symmetric] s' using b hr zr d assms(3)
    by (simp add: heap_ok_def word_le_nat_alt)
  show "unat (high_mem (snd (alloc_front r (high_mem s) s))) = unat (high_mem s) + unat r"
    unfolding h_def [symmetric] s' by (simp add: hr)
qed

lemma alloc_front_frame:
  assumes "heap_ok s" "r < hdr_size (mem s) (high_mem s)" "16 dvd unat r" "x \<notin> heap_free s"
  shows "mem (snd (alloc_front r (high_mem s) s)) x = mem s x"
proof -
  define s' where "s' = snd (alloc_front r (high_mem s) s)"
  have h': "high_mem s' = high_mem s + r" by (simp add: s'_def alloc_front_def Let_def)
  have "unat (high_mem s') + 16 \<le> 0xC0C00000" and u: "unat (high_mem s) \<le> unat (high_mem s')"
    using alloc_front_ok [OF assms(1-3)] unfolding s'_def [symmetric]
    by (auto simp: heap_ok_def word_le_nat_alt)
  then have "x \<notin> region (high_mem s') 8" using assms(4) region_absoluteD [of x "high_mem s'" 8]
    by (fastforce simp: heap_free_def word_le_nat_alt word_less_nat_alt)
  then show ?thesis by (simp add: h' alloc_front_def Let_def)
qed

lemma heap_ok_cong:
  assumes "heap_ok s" "high_mem s' = high_mem s" "\<And>x. x \<in> heap_free s \<Longrightarrow> mem s' x = mem s x"
  shows "heap_ok s'"
proof -
  have "unat (high_mem s) + 16 \<le> 0xC0C00000"
    using assms(1) by (auto simp: heap_ok_def word_le_nat_alt)
  then have "mem s' x = mem s x" if "x \<in> region (high_mem s) 8" for x
    using that region_absoluteD [of x "high_mem s" 8]
    by (intro assms(3)) (simp add: heap_free_def word_le_nat_alt word_less_nat_alt)
  from hdr_cong [OF this] show ?thesis using assms(1,2) by (simp add: heap_ok_def)
qed

lemma init_mem_ok:
  assumes "0xC0100000 \<le> kernel_end" "kernel_end \<le> 0xC0BFFFF0"
  shows "heap_ok (init_mem kernel_end s)" "kernel_end \<le> high_mem (init_mem kernel_end s)"
proof -
  define h where "h = round_up kernel_end 16"
  have k: "0xC0100000 \<le> unat kernel_end" "unat kernel_end \<le> 0xC0BFFFF0"
    using assms by (simp_all add: word_le_nat_alt)
  then have h: "unat h = (unat kernel_end + 15) div 16 * 16"
    unfolding h_def by (intro round_up_16_request) (simp add: word_le_nat_alt)
  then have b: "unat kernel_end \<le> unat h" "unat h \<le> 0xC0BFFFF0"
    using k div_le_mono [of "unat kernel_end + 15" "0xC0BFFFF0 + 15" 16] by (linarith, simp)
  then have z: "unat (0xC0C00000 - h) = 0xC0C00000 - unat h"
    by (subst unat_sub) (simp_all add: word_le_nat_alt)
  show "heap_ok (init_mem kernel_end s)" using k b h z
    by (simp add: heap_ok_def init_mem_def Let_def h_def [symmetric] word_le_nat_alt)
  show "kernel_end \<le> high_mem (init_mem kernel_end s)"
    using b by (simp add: init_mem_def Let_def h_def [symmetric] word_le_nat_alt)
qed

section \<open>The heap is an allocator\<close>

lemma alloc_align1:
  assumes "heap_ok s" "n \<le> 0xFFFFFFF0" "alloc n 1 s = Some (a, s')"
  shows "heap_ok s'" "heap_free s' \<subseteq> heap_free s"
    "a \<noteq> 0 \<Longrightarrow> a = high_mem s \<and> region a (unat n) \<subseteq> heap_free s - heap_free s'"
    "x \<notin> heap_free s \<Longrightarrow> mem s' x = mem s x"
proof -
  define r where "r = round_up n 16"
  have r: "16 dvd unat r" "unat n \<le> unat r"
    using round_up_16_request [OF assms(2)] by (simp_all add: r_def)
  have all: "heap_ok s' \<and> heap_free s' \<subseteq> heap_free s
    \<and> (a \<noteq> 0 \<longrightarrow> a = high_mem s \<and> region a (unat n) \<subseteq> heap_free s - heap_free s')
    \<and> (x \<notin> heap_free s \<longrightarrow> mem s' x = mem s x)"
  proof (cases "r < hdr_size (mem s) (high_mem s)")
    case True
    have eq: "a = high_mem s" "s' = snd (alloc_front r (high_mem s) s)"
      using assms(3) True by (auto simp: alloc_one_block [OF assms(1)] r_def [symmetric] alloc_front_def Let_def)
    note ok = alloc_front_ok [OF assms(1) True r(1), folded eq(2)]
    have "region a (unat n) \<subseteq> heap_free s - heap_free s'"
    proof
      fix y assume y: "y \<in> region a (unat n)"
      have lim: "unat a + unat n \<le> unat (high_mem s')" "unat (high_mem s') < 0xC0C00000"
        using ok r(2) eq(1) by (auto simp: heap_ok_def word_le_nat_alt)
      then show "y \<in> heap_free s - heap_free s'" using region_absoluteD [OF y] eq(1)
        by (auto simp: heap_free_def word_le_nat_alt word_less_nat_alt)
    qed
    moreover have "heap_free s' \<subseteq> heap_free s"
      using ok(2) by (auto simp: heap_free_def word_le_nat_alt)
    ultimately show ?thesis using ok(1) eq alloc_front_frame [OF assms(1) True r(1)] by blast
  next
    case False
    then show ?thesis using assms(1,3) by (auto simp: alloc_one_block [OF assms(1)] r_def [symmetric])
  qed
  then show "heap_ok s'" "heap_free s' \<subseteq> heap_free s"
    "a \<noteq> 0 \<Longrightarrow> a = high_mem s \<and> region a (unat n) \<subseteq> heap_free s - heap_free s'"
    "x \<notin> heap_free s \<Longrightarrow> mem s' x = mem s x" by blast+
qed

interpretation kheap: allocator "\<lambda>n. alloc n 1" heap_ok heap_free mem "\<lambda>m s. s\<lparr>mem := m\<rparr>" "0xFFFFFFF0"
proof
  fix s :: "'a heap_scheme" and n :: u32
  assume "heap_ok s" "n \<le> 0xFFFFFFF0"
  then show "alloc n 1 s \<noteq> None" by (simp add: alloc_one_block)
next
  fix s :: "'a heap_scheme" and m
  assume ok: "heap_ok s" and m: "\<And>x. x \<in> heap_free s \<Longrightarrow> m x = mem s x"
  show "heap_ok (s\<lparr>mem := m\<rparr>)" by (rule heap_ok_cong [OF ok]) (simp_all del: in_region add: m)
qed (erule (2) alloc_align1(1), erule (2) alloc_align1(2), drule (3) alloc_align1(3), erule conjunct2,
  erule (3) alloc_align1(4), simp add: heap_free_def)

section \<open>Properties\<close>

text \<open>C15: Whatever sequence of requests (with alignment 1 and a length of at most 0xFFFFFFF0, which
  rounding to 16 does not wrap) and of writes into blocks handed out before runs after
  \<^verbatim>\<open>init_mem\<close>, the blocks are pairwise disjoint and lie between the kernel's end and 0xC0C00000,
  and the next request returns.\<close>

theorem alloc_blocks_are_disjoint:
  assumes "0xC0100000 \<le> kernel_end" "kernel_end \<le> 0xC0BFFFF0"
    and "client (\<lambda>n. alloc n 1) mem (\<lambda>m s. s\<lparr>mem := m\<rparr>) 0xFFFFFFF0 (init_mem kernel_end s0) s bl"
  shows "blocks_disjoint bl
    \<and> (\<forall>b \<in> set bl. \<forall>x \<in> region (fst b) (unat (snd b)). kernel_end \<le> x \<and> x < 0xC0C00000)
    \<and> (\<forall>n \<le> 0xFFFFFFF0. alloc n 1 s \<noteq> None)"
proof -
  note ok = init_mem_ok [OF assms(1,2), of s0]
  note inv = kheap.client_invariant [OF ok(1) assms(3)]
  have "kernel_end \<le> x \<and> x < 0xC0C00000" if "x \<in> heap_free (init_mem kernel_end s0)" for x
    using that ok(2) by (auto simp: heap_free_def)
  then show ?thesis using inv kheap.alloc_total by blast
qed

text \<open>With alignment 1 a request of \<open>n\<close> bytes returns the start of the free area, 16-aligned, and
  advances it by \<open>n\<close> rounded up to 16 exactly when that is less than what is left; otherwise it
  returns the null pointer and changes nothing.\<close>

theorem alloc_takes_front:
  assumes "heap_ok s" "n \<le> 0xFFFFFFF0"
  shows "(let left = 0xC0C00000 - unat (high_mem s); r = (unat n + 15) div 16 * 16 in
     if r < left then \<exists>s'. alloc n 1 s = Some (high_mem s, s') \<and> heap_ok s'
         \<and> unat (high_mem s') = unat (high_mem s) + r \<and> 16 dvd unat (high_mem s)
         \<and> (\<forall>x. x \<notin> heap_free s \<longrightarrow> mem s' x = mem s x)
     else alloc n 1 s = Some (0, s))"
proof -
  define r where "r = round_up n 16"
  have r: "unat r = (unat n + 15) div 16 * 16" "16 dvd unat r"
    using round_up_16_request [OF assms(2)] by (simp_all add: r_def)
  have z: "r < hdr_size (mem s) (high_mem s) \<longleftrightarrow> unat r < 0xC0C00000 - unat (high_mem s)"
    using assms(1) by (auto simp: heap_ok_def word_less_nat_alt)
  show ?thesis
  proof (cases "r < hdr_size (mem s) (high_mem s)")
    case True
    have "fst (alloc_front r (high_mem s) s) = high_mem s" by (simp add: alloc_front_def Let_def)
    then have "alloc n 1 s = Some (high_mem s, snd (alloc_front r (high_mem s) s))"
      using True by (simp add: alloc_one_block [OF assms(1)] r_def [symmetric] prod_eq_iff)
    moreover have "16 dvd unat (high_mem s)" using assms(1) by (simp add: heap_ok_def)
    ultimately show ?thesis
      using True z r alloc_front_ok [OF assms(1) True r(2)] alloc_front_frame [OF assms(1) True r(2)]
      by (auto simp: Let_def simp del: in_region)
  next
    case False
    then show ?thesis using z r by (simp add: alloc_one_block [OF assms(1)] r_def [symmetric] Let_def)
  qed
qed

text \<open>A request above 0xFFFFFFF0 bytes wraps to 0 when it is rounded up: it gets the start of the free
  area, and nothing of the area is taken.\<close>

theorem alloc_huge_request_wraps:
  assumes "heap_ok s" "0xFFFFFFF0 < n"
  shows "\<exists>s'. alloc n 1 s = Some (high_mem s, s') \<and> high_mem s' = high_mem s \<and> high_mem s \<noteq> 0"
proof -
  have "0xFFFFFFF0 < unat n" "unat n < 2 ^ 32"
    using assms(2) unat_lt32 [of n] by (simp_all add: word_less_nat_alt)
  then have "(unat n + 15) mod 2 ^ 32 < 16" by (subst mod_if) simp
  then have "round_up n 16 = 0" using round_up_16 [of n] by (simp add: word_unat_eq_iff)
  then show ?thesis using assms(1)
    by (auto simp: alloc_one_block alloc_front_def Let_def heap_ok_def word_le_nat_alt word_less_nat_alt)
qed

text \<open>A heap right after the kernel image is set up, for the concrete runs.\<close>

definition boot_heap :: "addr \<Rightarrow> heap" where
  "boot_heap k = init_mem k \<lparr>mem = (\<lambda>_. 0), io = [], csr_x = 0, csr_y = 0, attrib = 7, high_mem = 0\<rparr>"

lemma boot_heap_ok: "0xC0100000 \<le> k \<Longrightarrow> k \<le> 0xC0BFFFF0 \<Longrightarrow> heap_ok (boot_heap k)"
  by (simp add: boot_heap_def init_mem_ok)

text \<open>C28: Once a request with a larger alignment has split the free block, a request that only fits into
  the second block is answered with the first: after 64 bytes at alignment 4096, 8192 bytes at
  alignment 1 contain the 64 bytes.\<close>

theorem alloc_aligned_then_overlap:
  "case alloc 64 4096 (boot_heap 0xC0110010) of None \<Rightarrow> False
   | Some (a, s1) \<Rightarrow> (case alloc 8192 1 s1 of None \<Rightarrow> False
     | Some (b, s2) \<Rightarrow> a = 0xC0111000 \<and> b = 0xC0110010 \<and> region a 64 \<subseteq> region b 8192)"
proof -
  have 1: "alloc 64 4096 (boot_heap 0xC0110010) = Some (alloc_split 64 0xFF0 0xC0110010 (boot_heap 0xC0110010))"
    by (simp add: alloc_def alloc_loop.simps [of _ _ "0xC0110010"] boot_heap_def init_mem_def Let_def round_up_def)
  define s1 where "s1 = snd (alloc_split 64 0xFF0 0xC0110010 (boot_heap 0xC0110010))"
  have hdrs: "hdr_size (mem s1) 0xC0110010 = 0xFF0" "hdr_next (mem s1) 0xC0110010 = 0xC0111040"
    "hdr_size (mem s1) 0xC0111040 = 0xAEEFC0" "high_mem s1 = 0xC0110010"
    by (simp_all add: s1_def alloc_split_def boot_heap_def init_mem_def Let_def round_up_def hdr_size_def
        hdr_next_def set_hdr_size_def set_hdr_next_def load32_def store32_apply)
  have 2: "alloc 8192 1 s1 = Some (alloc_front 8192 0xC0111040 s1)"
    by (simp add: alloc_def alloc_loop.simps [of _ _ "0xC0110010"] alloc_loop.simps [of _ _ "0xC0111040"]
        hdrs round_up_def [of 8192])
  have "alloc_split 64 0xFF0 0xC0110010 (boot_heap 0xC0110010) = (0xC0111000, s1)"
    by (simp add: s1_def alloc_split_def Let_def)
  moreover have "fst (alloc_front 8192 0xC0111040 s1) = 0xC0110010"
    by (simp add: alloc_front_def Let_def hdrs)
  moreover have "region 0xC0111000 64 \<subseteq> region 0xC0110010 8192"
    using region_shift [of "0xFF0" 64 _ "0xC0110010"] by auto
  ultimately show ?thesis by (auto simp: 1 2 simp del: in_region split: prod.splits)
qed

section \<open>Concrete instances\<close>

lemma boot_alloc:
  "\<exists>s. alloc 100 1 (boot_heap 0xC0110000) = Some (0xC0110000, s)"
  by (simp add: alloc_one_block boot_heap_ok)
    (simp add: boot_heap_def init_mem_def Let_def round_up_def alloc_front_def)

theorem alloc_blocks_are_disjoint_witness:
  "\<exists>s. client (\<lambda>n. alloc n 1) mem (\<lambda>m s. s\<lparr>mem := m\<rparr>) 0xFFFFFFF0 (boot_heap 0xC0110000) s [(0xC0110000, 100)]
     \<and> (\<forall>x \<in> region 0xC0110000 100. 0xC0110000 \<le> x \<and> x < 0xC0C00000) \<and> alloc 100 1 s \<noteq> None"
proof -
  obtain s where s: "alloc 100 1 (boot_heap 0xC0110000) = Some (0xC0110000, s)" using boot_alloc ..
  then have c: "client (\<lambda>n. alloc n 1) mem (\<lambda>m s. s\<lparr>mem := m\<rparr>) 0xFFFFFFF0 (boot_heap 0xC0110000) s [(0xC0110000, 100)]"
    using client.get [OF client.start, of 100 "0xFFFFFFF0" "\<lambda>n. alloc n 1" "boot_heap 0xC0110000" "0xC0110000" s] by simp
  moreover have "(\<forall>x \<in> region 0xC0110000 100. 0xC0110000 \<le> x \<and> x < 0xC0C00000) \<and> alloc 100 1 s \<noteq> None"
    using alloc_blocks_are_disjoint [OF _ _ c [unfolded boot_heap_def]] by simp
  ultimately show ?thesis by blast
qed

theorem alloc_takes_front_witness:
  "\<exists>s'. alloc 100 1 (boot_heap 0xC0110000) = Some (0xC0110000, s') \<and> heap_ok s' \<and> unat (high_mem s') = 0xC0110070"
proof -
  have h: "high_mem (boot_heap 0xC0110000) = 0xC0110000"
    by (simp add: boot_heap_def init_mem_def Let_def round_up_def)
  show ?thesis using alloc_takes_front [of "boot_heap 0xC0110000" 100] boot_heap_ok [of "0xC0110000"]
    by (auto simp: h Let_def)
qed

theorem alloc_huge_request_wraps_witness:
  "\<exists>s'. alloc 0xFFFFFFF8 1 (boot_heap 0xC0110000) = Some (high_mem (boot_heap 0xC0110000), s')"
  using alloc_huge_request_wraps [of "boot_heap 0xC0110000" "0xFFFFFFF8"] boot_heap_ok [of "0xC0110000"] by auto

end
