(* ===== verification/Frog_Paging.thy ===== *)
theory Frog_Paging
  imports Frog_Prelude
begin

text \<open>
  paging.c: \<^verbatim>\<open>get_physaddr\<close> reads the page tables through the recursive mapping that boot.S sets up in
  the last 4 MB. It is compared with the two-level page walk of the processor.
\<close>

section \<open>The operation\<close>

text \<open>The memory is the one the program sees. An index into \<^verbatim>\<open>unsigned long *\<close> counts in units of
  four bytes.\<close>

definition get_physaddr :: "byte_mem \<Rightarrow> addr \<Rightarrow> addr" where
  "get_physaddr m vaddr =
     (let pdidx = drop_bit 22 vaddr;
          ptidx = drop_bit 12 vaddr AND 0x3FF;
          pd = 0xFFFFF000;
          pt = 0xFFC00000 + 4 * (0x400 * pdidx)
      in if load32 m (pd + 4 * pdidx) AND 1 = 0 then 0
         else if load32 m (pt + 4 * ptidx) AND 1 = 0 then 0
         else (load32 m (pt + 4 * ptidx) AND NOT 0xFFF) + (vaddr AND 0xFFF))"

section \<open>The processor\<close>

definition page_walk :: "byte_mem \<Rightarrow> addr \<Rightarrow> addr \<Rightarrow> addr option" where
  "page_walk phys cr3 va =
     (let pde = load32 phys ((cr3 AND NOT 0xFFF) + 4 * drop_bit 22 va) in
      if pde AND 1 = 0 then None
      else let pte = load32 phys ((pde AND NOT 0xFFF) + 4 * (drop_bit 12 va AND 0x3FF)) in
        if pte AND 1 = 0 then None else Some ((pte AND NOT 0xFFF) + (va AND 0xFFF)))"

text \<open>What a program reads at a virtual address that is mapped.\<close>

definition virt :: "byte_mem \<Rightarrow> addr \<Rightarrow> byte_mem" where
  "virt phys cr3 va = (case page_walk phys cr3 va of Some p \<Rightarrow> phys p | None \<Rightarrow> 0)"

text \<open>The layout of boot.S: the last entry of the page directory refers to the table
  \<^verbatim>\<open>page_table_high\<close>, whose last entry refers to the page directory and whose other entries are
  those of the page directory.\<close>

definition recursive_map :: "byte_mem \<Rightarrow> addr \<Rightarrow> bool" where
  "recursive_map phys cr3 \<longleftrightarrow>
     (let pd = cr3 AND NOT 0xFFF; top = load32 phys (pd + 4 * 0x3FF); high = top AND NOT 0xFFF;
          self = load32 phys (high + 4 * 0x3FF)
      in top AND 1 = 1 \<and> self AND 1 = 1 \<and> self AND NOT 0xFFF = pd
         \<and> (\<forall>i < 0x3FF. load32 phys (high + 4 * i) = load32 phys (pd + 4 * i)))"

section \<open>Address arithmetic\<close>

lemma unat_and_masks:
  "unat ((v :: u32) AND 0x3FF) = unat v mod 0x400" "unat (v AND 0xFFF) = unat v mod 0x1000"
  "unat (v AND 3) = unat v mod 4"
proof -
  have "v AND 0x3FF = take_bit 10 v" "v AND 0xFFF = take_bit 12 v" "v AND 3 = take_bit 2 v"
    by (simp_all add: take_bit_eq_mask mask_eq_exp_minus_1)
  then show "unat (v AND 0x3FF) = unat v mod 0x400" "unat (v AND 0xFFF) = unat v mod 0x1000"
    "unat (v AND 3) = unat v mod 4"
    by (simp_all only: unat_take_bit) simp_all
qed

lemma unat_drops: "unat (drop_bit 22 (v :: u32)) = unat v div 0x400000"
  "unat (drop_bit 12 v) = unat v div 0x1000"
  by (simp_all add: drop_bit_eq_div unat_div)

lemma index_bounds: "unat (drop_bit 22 (v :: u32)) < 0x400" "unat (v AND 0x3FF) < 0x400"
  using unat_lt32 [of v] by (simp_all add: unat_drops unat_and_masks)

text \<open>The addresses of the recursive mapping: entry \<open>j\<close> of page table \<open>i\<close>.\<close>

lemma table_address:
  fixes i j :: u32
  assumes "unat i < 0x400" "unat j < 0x400"
  defines "a \<equiv> 0xFFC00000 + 4 * (0x400 * i) + 4 * j"
  shows "drop_bit 22 a = 0x3FF" "drop_bit 12 a AND 0x3FF = i" "a AND 0xFFF = 4 * j" "a AND 3 = 0"
proof -
  have a: "unat a = 0xFFC00000 + 0x1000 * unat i + 4 * unat j"
    unfolding a_def using assms by (simp add: unat_word_ariths)
  have j: "unat (4 * j) = 4 * unat j" using assms by (simp add: unat_word_ariths)
  have q: "(0xFFC00000 + 0x1000 * unat i + 4 * unat j) div 0x1000 = 0xFFC00 + unat i"
    using assms(2) by (simp add: div_add1_eq)
  show "drop_bit 22 a = 0x3FF" unfolding word_unat_eq_iff unat_drops a using assms by simp
  show "drop_bit 12 a AND 0x3FF = i" unfolding word_unat_eq_iff unat_drops unat_and_masks a q
    using assms by (simp add: mod_add_eq [symmetric])
  show "a AND 0xFFF = 4 * j" unfolding word_unat_eq_iff unat_and_masks a j
    using assms by (simp add: mod_add_eq [symmetric])
  show "a AND 3 = 0" unfolding word_unat_eq_iff unat_and_masks a by (simp add: mod_add_eq [symmetric])
qed

lemma directory_address:
  "0xFFFFF000 + 4 * i = 0xFFC00000 + 4 * (0x400 * 0x3FF) + 4 * (i :: u32)"
  by simp

lemma page_walk_in_word:
  fixes a k :: u32
  assumes "a AND 3 = 0" "k AND 3 = k" "page_walk phys cr3 a = Some p"
  shows "page_walk phys cr3 (a + k) = Some (p + k)"
proof -
  have a_bits: "\<not> bit a n" if "n < 2" for n
  proof -
    have "bit (a AND 3) n = bit a n" using that by (auto simp: bit_simps bit_numeral_rec less_Suc_eq numeral_2_eq_2)
    then show ?thesis using assms(1) by simp
  qed
  have k_bits: "\<not> bit k n" if "2 \<le> n" for n
  proof
    assume "bit k n"
    then have "bit (k AND 3) n" using assms(2) by simp
    then show False using that by (auto simp: bit_simps bit_numeral_rec le_Suc_eq numeral_2_eq_2 split: nat.splits)
  qed
  have "\<not> (bit a n \<and> bit k n)" for n using a_bits [of n] k_bits [of n] by (cases "n < 2") auto
  then have disj: "a AND k = 0" "(a AND 0xFFF) AND k = 0"
    by (auto intro!: bit_word_eqI simp: bit_simps)
  have k12: "drop_bit 22 k = 0" "drop_bit 12 k = 0" "k AND 0xFFF = k"
  proof -
    show "drop_bit 22 k = 0" "drop_bit 12 k = 0"
      using k_bits by (auto intro!: bit_word_eqI simp: bit_simps)
    have "k AND 0xFFF = (k AND 3) AND 0xFFF" using assms(2) by simp
    also have "\<dots> = k AND 3" by (simp add: and.assoc)
    finally show "k AND 0xFFF = k" using assms(2) by simp
  qed
  have "a + k = a OR k" by (rule disjunctive_add_eq_or [OF disj(1)])
  then have "drop_bit 22 (a + k) = drop_bit 22 a" "drop_bit 12 (a + k) = drop_bit 12 a"
    "(a + k) AND 0xFFF = (a AND 0xFFF) + k"
    using disj(2) k12 by (simp_all add: drop_bit_or bit.conj_disj_distrib2 disjunctive_add_eq_or)
  then show ?thesis using assms(3) by (auto simp: page_walk_def Let_def split: if_splits)
qed

lemma virt_load32:
  assumes "a AND 3 = 0" "page_walk phys cr3 a = Some p"
  shows "load32 (virt phys cr3) a = load32 phys p"
  using assms page_walk_in_word [OF assms(1) _ assms(2), of 1] page_walk_in_word [OF assms(1) _ assms(2), of 2]
    page_walk_in_word [OF assms(1) _ assms(2), of 3]
  by (simp add: load32_def virt_def)

section \<open>Reading the tables through the mapping\<close>

lemma table_walk:
  assumes "recursive_map phys cr3" "unat i < 0x400" "unat j < 0x400"
    and "i < 0x3FF \<Longrightarrow> load32 phys ((cr3 AND NOT 0xFFF) + 4 * i) AND 1 = 1"
  shows "page_walk phys cr3 (0xFFC00000 + 4 * (0x400 * i) + 4 * j) =
    Some ((if i < 0x3FF then load32 phys ((cr3 AND NOT 0xFFF) + 4 * i) AND NOT 0xFFF
           else cr3 AND NOT 0xFFF) + 4 * j)"
proof -
  define a where "a = 0xFFC00000 + 4 * (0x400 * i) + 4 * j"
  note at = table_address [OF assms(2,3), folded a_def]
  show ?thesis unfolding a_def [symmetric]
  proof (cases "i < 0x3FF")
    case True
    then show "page_walk phys cr3 a = Some ((if i < 0x3FF then load32 phys ((cr3 AND NOT 0xFFF) + 4 * i)
        AND NOT 0xFFF else cr3 AND NOT 0xFFF) + 4 * j)"
      using assms(1,4) by (simp add: page_walk_def at recursive_map_def Let_def)
  next
    case False
    then have "i = 0x3FF" using assms(2) by (simp add: word_less_nat_alt word_unat_eq_iff)
    then show "page_walk phys cr3 a = Some ((if i < 0x3FF then load32 phys ((cr3 AND NOT 0xFFF) + 4 * i)
        AND NOT 0xFFF else cr3 AND NOT 0xFFF) + 4 * j)"
      using assms(1) at by (simp add: page_walk_def recursive_map_def Let_def)
  qed
qed

text \<open>C16: Under the recursive mapping of boot.S, \<^verbatim>\<open>get_physaddr\<close> agrees with the processor's page
  walk on every virtual address below the last page, with 0 for an unmapped address; and the table
  entries it reads are themselves mapped.\<close>

theorem get_physaddr_is_page_walk:
  assumes "recursive_map phys cr3" "va < 0xFFFFF000"
  shows "get_physaddr (virt phys cr3) va = (case page_walk phys cr3 va of None \<Rightarrow> 0 | Some p \<Rightarrow> p)
    \<and> page_walk phys cr3 (0xFFFFF000 + 4 * drop_bit 22 va) \<noteq> None
    \<and> (load32 (virt phys cr3) (0xFFFFF000 + 4 * drop_bit 22 va) AND 1 = 1 \<longrightarrow>
       page_walk phys cr3 (0xFFC00000 + 4 * (0x400 * drop_bit 22 va) + 4 * (drop_bit 12 va AND 0x3FF)) \<noteq> None)"
proof -
  define i j where "i = drop_bit 22 va" and "j = drop_bit 12 va AND 0x3FF"
  have ij: "unat i < 0x400" "unat j < 0x400" by (simp_all add: i_def j_def index_bounds)
  have one: "x AND 1 = 0 \<or> x AND 1 = 1" for x :: u32 by (simp add: and_one_eq mod2_eq_if)
  have "page_walk phys cr3 (0xFFFFF000 + 4 * i) = Some ((cr3 AND NOT 0xFFF) + 4 * i)"
    unfolding directory_address using table_walk [OF assms(1) _ ij(1), of "0x3FF"] by simp
  moreover have "(0xFFFFF000 + 4 * i) AND 3 = 0"
    unfolding directory_address using table_address(4) [OF _ ij(1), of "0x3FF"] by simp
  ultimately have pd: "load32 (virt phys cr3) (0xFFFFF000 + 4 * i) = load32 phys ((cr3 AND NOT 0xFFF) + 4 * i)"
    and pdw: "page_walk phys cr3 (0xFFFFF000 + 4 * i) \<noteq> None"
    by (simp_all add: virt_load32)
  show ?thesis
  proof (cases "load32 phys ((cr3 AND NOT 0xFFF) + 4 * i) AND 1 = 0")
    case True
    then show ?thesis using pd pdw
      by (simp add: get_physaddr_def page_walk_def [of _ _ va] Let_def i_def)
  next
    case False
    define e where "e = (if i < 0x3FF then load32 phys ((cr3 AND NOT 0xFFF) + 4 * i) AND NOT 0xFFF
           else cr3 AND NOT 0xFFF) + 4 * j"
    have pt: "page_walk phys cr3 (0xFFC00000 + 4 * (0x400 * i) + 4 * j) = Some e"
      unfolding e_def using one [of "load32 phys ((cr3 AND NOT 0xFFF) + 4 * i)"] False
      by (intro table_walk [OF assms(1) ij]) simp
    then have ptl: "load32 (virt phys cr3) (0xFFC00000 + 4 * (0x400 * i) + 4 * j) = load32 phys e"
      by (rule virt_load32 [OF table_address(4) [OF ij]])
    have e: "load32 phys e = load32 phys ((load32 phys ((cr3 AND NOT 0xFFF) + 4 * i) AND NOT 0xFFF) + 4 * j)"
    proof (cases "i < 0x3FF")
      case False
      then have "i = 0x3FF" using ij by (simp add: word_less_nat_alt word_unat_eq_iff)
      have "unat va div 0x1000 div 0x400 = 0x3FF" "unat va < 0xFFFFF000"
        using \<open>i = 0x3FF\<close> assms(2) by (simp_all add: i_def word_unat_eq_iff unat_drops
            div_mult2_eq [symmetric] word_less_nat_alt)
      moreover from this have "unat va div 0x1000 < 0xFFFFF" by (intro less_mult_imp_div_less) simp
      ultimately have "unat va div 0x1000 mod 0x400 < 0x3FF"
        using div_mult_mod_eq [of "unat va div 0x1000" "0x400"] by linarith
      then have "j < 0x3FF" by (simp add: j_def word_less_nat_alt unat_and_masks unat_drops)
      then show ?thesis using \<open>i = 0x3FF\<close> assms(1) by (simp add: e_def recursive_map_def Let_def)
    qed (simp add: e_def)
    show ?thesis using False pd pdw pt ptl e
      by (simp add: get_physaddr_def page_walk_def [of _ _ va] Let_def i_def [symmetric] j_def [symmetric])
  qed
qed

text \<open>A physical memory with a page directory at 0x1000, \<^verbatim>\<open>page_table_high\<close> at 0x2000 and one page
  table, for 0xC0000000 on, at 0x3000, in which page 5 is mapped to the frame at 0x7000.\<close>

definition sample_tables :: byte_mem where
  "sample_tables a =
     (let b = (if 0x2000 \<le> a \<and> a < 0x2FFC then a - 0x1000 else a) in
      if b \<in> {0x1C00, 0x1FFC, 0x2FFC, 0x3014} then 3
      else if b = 0x1C01 then 0x30 else if b = 0x1FFD then 0x20 else if b = 0x2FFD then 0x10
      else if b = 0x3015 then 0x70 else 0)"

lemma sample_tables_recursive: "recursive_map sample_tables 0x1000"
proof -
  have "sample_tables (0x2000 + 4 * i + k) = sample_tables (0x1000 + 4 * i + k)"
    if i: "i < 0x3FF" and k: "unat k \<le> 3" for i k :: u32
  proof -
    have "unat i < 0x3FF" using i by (simp add: word_less_nat_alt)
    then have u: "unat (0x2000 + 4 * i + k) = 0x2000 + 4 * unat i + unat k"
      "unat (0x1000 + 4 * i + k) = 0x1000 + 4 * unat i + unat k"
      using k by (simp_all add: unat_word_ariths)
    have "0x2000 \<le> 0x2000 + 4 * i + k" "0x2000 + 4 * i + k < 0x2FFC" "\<not> 0x2000 \<le> 0x1000 + 4 * i + k"
      using \<open>unat i < 0x3FF\<close> k unfolding word_le_nat_alt word_less_nat_alt u by simp_all
    moreover have "0x2000 + 4 * i + k - 0x1000 = 0x1000 + 4 * i + k" by simp
    ultimately show ?thesis by (simp only: sample_tables_def Let_def simp_thms if_True if_False)
  qed
  from this [of _ 0] this [of _ 1] this [of _ 2] this [of _ 3]
  have "load32 sample_tables (0x2000 + 4 * i) = load32 sample_tables (0x1000 + 4 * i)" if "i < 0x3FF" for i
    using that by (simp add: load32_def)
  then show ?thesis by (simp add: recursive_map_def Let_def load32_def [of _ "0x1FFC"] load32_def [of _ "0x2FFC"] sample_tables_def)
qed

theorem get_physaddr_is_page_walk_witness:
  "get_physaddr (virt sample_tables 0x1000) 0xC0005123 = 0x7123"
proof -
  have "page_walk sample_tables 0x1000 0xC0005123 = Some 0x7123"
    by (simp add: page_walk_def Let_def load32_def sample_tables_def)
  then show ?thesis
    using get_physaddr_is_page_walk [OF sample_tables_recursive, of "0xC0005123"] by simp
qed

end
