(* ===== verification/Frog_Format.thy ===== *)
theory Frog_Format
  imports Frog_Conio
begin

text \<open>
  The output functions, the helpers and the integer conversions of lib/printf.c, and the characters that they
  print.
\<close>

text \<open>A string literal as the array of its bytes.\<close>

definition cbytes :: "string \<Rightarrow> u8 list" where
  "cbytes str = map of_char str @ [0]"

section \<open>Output functions\<close>

type_synonym 'a outf = "u8 \<Rightarrow> addr \<Rightarrow> u32 \<Rightarrow> u32 \<Rightarrow> 'a con_scheme \<Rightarrow> 'a con_scheme"

definition out_buffer :: "'a outf" where
  "out_buffer character buffer idx maxlen s =
     (if idx < maxlen then s\<lparr>mem := (mem s)(buffer + idx := character)\<rparr> else s)"

definition out_null :: "'a outf" where
  "out_null character buffer idx maxlen s = s"

definition out_char :: "'a outf" where
  "out_char character buffer idx maxlen s = (if character \<noteq> 0 then putch character s else s)"

text \<open>\<^verbatim>\<open>_out_fct\<close> finds the function and its argument behind the buffer pointer.\<close>

definition out_fct :: "(u8 \<Rightarrow> addr \<Rightarrow> 'a con_scheme \<Rightarrow> 'a con_scheme) \<Rightarrow> addr \<Rightarrow> 'a outf" where
  "out_fct fct arg character buffer idx maxlen s = (if character \<noteq> 0 then fct character arg s else s)"

section \<open>Flags\<close>

abbreviation (input) FLAGS_ZEROPAD :: u32 where "FLAGS_ZEROPAD \<equiv> 0x1"
abbreviation (input) FLAGS_LEFT :: u32 where "FLAGS_LEFT \<equiv> 0x2"
abbreviation (input) FLAGS_PLUS :: u32 where "FLAGS_PLUS \<equiv> 0x4"
abbreviation (input) FLAGS_SPACE :: u32 where "FLAGS_SPACE \<equiv> 0x8"
abbreviation (input) FLAGS_HASH :: u32 where "FLAGS_HASH \<equiv> 0x10"
abbreviation (input) FLAGS_UPPERCASE :: u32 where "FLAGS_UPPERCASE \<equiv> 0x20"
abbreviation (input) FLAGS_CHAR :: u32 where "FLAGS_CHAR \<equiv> 0x40"
abbreviation (input) FLAGS_SHORT :: u32 where "FLAGS_SHORT \<equiv> 0x80"
abbreviation (input) FLAGS_LONG :: u32 where "FLAGS_LONG \<equiv> 0x100"
abbreviation (input) FLAGS_LONG_LONG :: u32 where "FLAGS_LONG_LONG \<equiv> 0x200"
abbreviation (input) FLAGS_PRECISION :: u32 where "FLAGS_PRECISION \<equiv> 0x400"

definition flag :: "u32 \<Rightarrow> u32 \<Rightarrow> bool" where
  "flag flags f \<longleftrightarrow> flags AND f \<noteq> 0"

section \<open>Helpers\<close>

function strnlen_s :: "byte_mem \<Rightarrow> addr \<Rightarrow> u32 \<Rightarrow> u32" where
  "strnlen_s m p maxsize =
     (if m p \<noteq> 0 \<and> maxsize \<noteq> 0 then 1 + strnlen_s m (p + 1) (maxsize - 1) else 0)"
  by pat_completeness auto

termination
  by (relation "measure (\<lambda>(m, p, maxsize). unat maxsize)") (auto simp: unat_minus_one unat_gt_0)

definition is_digit :: "u8 \<Rightarrow> bool" where
  "is_digit ch \<longleftrightarrow> 0x30 \<le> ch \<and> ch \<le> 0x39"

text \<open>\<^verbatim>\<open>_atoi\<close> steps the format pointer over the digits; the value wraps at 32 bits.\<close>

fun atoi :: "u32 \<Rightarrow> u8 list \<Rightarrow> (u32 \<times> u8 list) option" where
  "atoi i [] = None"
| "atoi i (c # r) = (if is_digit c then atoi (i * 10 + ucast (c - 0x30)) r else Some (i, c # r))"

text \<open>The three padding loops: a counter runs up to the width, one space per step.\<close>

function out_pad :: "'a outf \<Rightarrow> addr \<Rightarrow> u32 \<Rightarrow> u32 \<Rightarrow> u32 \<Rightarrow> u32 \<Rightarrow> 'a con_scheme
    \<Rightarrow> u32 \<times> 'a con_scheme" where
  "out_pad out buffer maxlen i width idx s =
     (if i < width then out_pad out buffer maxlen (i + 1) width (idx + 1) (out 0x20 buffer idx maxlen s)
      else (idx, s))"
  by pat_completeness auto

termination
  by (relation "measure (\<lambda>(out, buffer, maxlen, i, width, idx, s). unat width - unat i)")
    (auto simp: unat_inc word_less_nat_alt)

text \<open>\<^verbatim>\<open>while (len) out(buf[--len], ...)\<close>: the characters in the order they are sent.\<close>

primrec out_list :: "'a outf \<Rightarrow> addr \<Rightarrow> u32 \<Rightarrow> u8 list \<Rightarrow> u32 \<Rightarrow> 'a con_scheme \<Rightarrow> u32 \<times> 'a con_scheme" where
  "out_list out buffer maxlen [] idx s = (idx, s)"
| "out_list out buffer maxlen (c # cs) idx s =
     out_list out buffer maxlen cs (idx + 1) (out c buffer idx maxlen s)"

definition out_rev :: "'a outf \<Rightarrow> addr \<Rightarrow> u32 \<Rightarrow> u32 \<Rightarrow> u8 list \<Rightarrow> u32 \<Rightarrow> u32 \<Rightarrow> 'a con_scheme
    \<Rightarrow> u32 \<times> 'a con_scheme" where
  "out_rev out buffer idx maxlen buf width flags s =
     (let start_idx = idx;
          (idx1, s1) = (if \<not> flag flags FLAGS_LEFT \<and> \<not> flag flags FLAGS_ZEROPAD
             then out_pad out buffer maxlen (of_nat (length buf)) width idx s else (idx, s));
          (idx2, s2) = out_list out buffer maxlen (rev buf) idx1 s1
      in if flag flags FLAGS_LEFT then out_pad out buffer maxlen (idx2 - start_idx) width idx2 s2
         else (idx2, s2))"

section \<open>Integers\<close>

text \<open>The conversion buffer: the bytes written so far, the least significant digit first. It has room for
  \<^verbatim>\<open>PRINTF_NTOA_BUFFER_SIZE\<close> bytes.\<close>

abbreviation (input) PRINTF_NTOA_BUFFER_SIZE :: nat where "PRINTF_NTOA_BUFFER_SIZE \<equiv> 32"

definition digit_char :: "u32 \<Rightarrow> u8 \<Rightarrow> u8" where
  "digit_char flags digit = (if digit < 10 then 0x30 + digit
     else (if flag flags FLAGS_UPPERCASE then 0x41 else 0x61) + digit - 10)"

function ntoa_digits :: "u32 \<Rightarrow> 'w::len word \<Rightarrow> 'w word \<Rightarrow> u8 list \<Rightarrow> u8 list" where
  "ntoa_digits flags base val buf =
     (let digit = ucast (val mod base);
          buf' = buf @ [digit_char flags digit];
          val' = val div base
      in if val' \<noteq> 0 \<and> length buf' < PRINTF_NTOA_BUFFER_SIZE then ntoa_digits flags base val' buf'
         else buf')"
  by pat_completeness auto

termination
  by (relation "measure (\<lambda>(flags, base, val, buf). PRINTF_NTOA_BUFFER_SIZE - length buf)") auto

text \<open>The loops that append zeros up to a limit.\<close>

function zero_fill :: "u32 \<Rightarrow> u8 list \<Rightarrow> u8 list" where
  "zero_fill limit buf =
     (if length buf < unat limit \<and> length buf < PRINTF_NTOA_BUFFER_SIZE
      then zero_fill limit (buf @ [0x30]) else buf)"
  by pat_completeness auto

termination
  by (relation "measure (\<lambda>(limit, buf). PRINTF_NTOA_BUFFER_SIZE - length buf)") auto

definition put_buf :: "u8 \<Rightarrow> u8 list \<Rightarrow> u8 list" where
  "put_buf c buf = (if length buf < PRINTF_NTOA_BUFFER_SIZE then buf @ [c] else buf)"

text \<open>The four stages of \<^verbatim>\<open>_ntoa_format\<close>: the reduced width, leading zeros, the prefix of the alternate
  form (which replaces padding zeros), and the sign.\<close>

definition ntoa_width :: "bool \<Rightarrow> u32 \<Rightarrow> u32 \<Rightarrow> u32" where
  "ntoa_width negative width flags =
     (if \<not> flag flags FLAGS_LEFT \<and> width \<noteq> 0 \<and> flag flags FLAGS_ZEROPAD
         \<and> (negative \<or> flag flags (FLAGS_PLUS OR FLAGS_SPACE)) then width - 1 else width)"

definition ntoa_zeros :: "u32 \<Rightarrow> u32 \<Rightarrow> u32 \<Rightarrow> u8 list \<Rightarrow> u8 list" where
  "ntoa_zeros prec width flags buf =
     (if flag flags FLAGS_LEFT then buf
      else let buf1 = zero_fill prec buf in
           if flag flags FLAGS_ZEROPAD then zero_fill width buf1 else buf1)"

definition ntoa_hash :: "u32 \<Rightarrow> u32 \<Rightarrow> u32 \<Rightarrow> u32 \<Rightarrow> u8 list \<Rightarrow> u8 list" where
  "ntoa_hash base prec width flags buf =
     (if \<not> flag flags FLAGS_HASH then buf
      else let buf1 = (if \<not> flag flags FLAGS_PRECISION \<and> buf \<noteq> []
                   \<and> (length buf = unat prec \<or> length buf = unat width)
                 then (let b = butlast buf in if b \<noteq> [] \<and> base = 16 then butlast b else b) else buf);
               buf2 = (if base = 16 \<and> \<not> flag flags FLAGS_UPPERCASE \<and> length buf1 < PRINTF_NTOA_BUFFER_SIZE
                       then buf1 @ [0x78]
                       else if base = 16 \<and> flag flags FLAGS_UPPERCASE \<and> length buf1 < PRINTF_NTOA_BUFFER_SIZE
                       then buf1 @ [0x58]
                       else if base = 2 \<and> length buf1 < PRINTF_NTOA_BUFFER_SIZE then buf1 @ [0x62]
                       else buf1)
           in put_buf 0x30 buf2)"

definition ntoa_sign :: "bool \<Rightarrow> u32 \<Rightarrow> u8 list \<Rightarrow> u8 list" where
  "ntoa_sign negative flags buf =
     (if negative then put_buf 0x2D buf
      else if flag flags FLAGS_PLUS then put_buf 0x2B buf
      else if flag flags FLAGS_SPACE then put_buf 0x20 buf
      else buf)"

definition ntoa_buf :: "u8 list \<Rightarrow> bool \<Rightarrow> u32 \<Rightarrow> u32 \<Rightarrow> u32 \<Rightarrow> u32 \<Rightarrow> u8 list" where
  "ntoa_buf buf negative base prec width flags =
     (let width' = ntoa_width negative width flags in
      ntoa_sign negative flags (ntoa_hash base prec width' flags (ntoa_zeros prec width' flags buf)))"

definition ntoa_format :: "'a outf \<Rightarrow> addr \<Rightarrow> u32 \<Rightarrow> u32 \<Rightarrow> u8 list \<Rightarrow> bool \<Rightarrow> u32 \<Rightarrow> u32 \<Rightarrow> u32 \<Rightarrow> u32
    \<Rightarrow> 'a con_scheme \<Rightarrow> u32 \<times> 'a con_scheme" where
  "ntoa_format out buffer idx maxlen buf negative base prec width flags s =
     out_rev out buffer idx maxlen (ntoa_buf buf negative base prec width flags)
       (ntoa_width negative width flags) flags s"

text \<open>What \<^verbatim>\<open>_ntoa_long\<close> and \<^verbatim>\<open>_ntoa_long_long\<close> do before they call \<^verbatim>\<open>_ntoa_format\<close>, at both widths of
  the value: the flags and the digits.\<close>

definition ntoa_flags :: "'w::len word \<Rightarrow> u32 \<Rightarrow> u32" where
  "ntoa_flags val flags = (if val = 0 then flags AND NOT FLAGS_HASH else flags)"

definition ntoa_value :: "'w::len word \<Rightarrow> 'w word \<Rightarrow> u32 \<Rightarrow> u8 list" where
  "ntoa_value val base flags =
     (if \<not> flag flags FLAGS_PRECISION \<or> val \<noteq> 0 then ntoa_digits flags base val [] else [])"

definition ntoa_long :: "'a outf \<Rightarrow> addr \<Rightarrow> u32 \<Rightarrow> u32 \<Rightarrow> u32 \<Rightarrow> bool \<Rightarrow> u32 \<Rightarrow> u32 \<Rightarrow> u32 \<Rightarrow> u32
    \<Rightarrow> 'a con_scheme \<Rightarrow> u32 \<times> 'a con_scheme" where
  "ntoa_long out buffer idx maxlen val negative base prec width flags s =
     (let flags' = ntoa_flags val flags in
      ntoa_format out buffer idx maxlen (ntoa_value val base flags') negative base prec width flags' s)"

definition ntoa_long_long :: "'a outf \<Rightarrow> addr \<Rightarrow> u32 \<Rightarrow> u32 \<Rightarrow> u64 \<Rightarrow> bool \<Rightarrow> u64 \<Rightarrow> u32 \<Rightarrow> u32 \<Rightarrow> u32
    \<Rightarrow> 'a con_scheme \<Rightarrow> u32 \<times> 'a con_scheme" where
  "ntoa_long_long out buffer idx maxlen val negative base prec width flags s =
     (let flags' = ntoa_flags val flags in
      ntoa_format out buffer idx maxlen (ntoa_value val base flags') negative (ucast base) prec width flags' s)"

section \<open>The characters of a conversion\<close>

text \<open>What a conversion prints as a list, without output functions, indices and states.\<close>

definition rev_chars :: "u8 list \<Rightarrow> u32 \<Rightarrow> u32 \<Rightarrow> u8 list" where
  "rev_chars buf width flags =
     (let pad = replicate (unat width - length buf) 0x20 in
      (if \<not> flag flags FLAGS_LEFT \<and> \<not> flag flags FLAGS_ZEROPAD then pad else [])
      @ rev buf @ (if flag flags FLAGS_LEFT then pad else []))"

definition ntoa_chars :: "'w::len word \<Rightarrow> bool \<Rightarrow> 'w word \<Rightarrow> u32 \<Rightarrow> u32 \<Rightarrow> u32 \<Rightarrow> u8 list" where
  "ntoa_chars val negative base prec width flags =
     (let f = ntoa_flags val flags in
      rev_chars (ntoa_buf (ntoa_value val base f) negative (ucast base) prec width f)
        (ntoa_width negative width f) f)"

section \<open>Lemmas on lists of output\<close>

declare out_pad.simps [simp del] ntoa_digits.simps [simp del] zero_fill.simps [simp del] strnlen_s.simps [simp del]

lemma out_list_idx [simp]: "fst (out_list out b ml cs idx s) = idx + of_nat (length cs)"
  by (induction cs arbitrary: idx s) (auto simp: add.assoc)

lemma case_out_list [simp]:
  "(case out_list out b ml cs idx s of (i, t) \<Rightarrow> f i t)
     = f (idx + of_nat (length cs)) (snd (out_list out b ml cs idx s))"
  by (simp add: case_prod_unfold)

lemma out_list_append [simp]:
  "out_list out b ml (xs @ ys) idx s =
     out_list out b ml ys (idx + of_nat (length xs)) (snd (out_list out b ml xs idx s))"
  by (induction xs arbitrary: idx s) (auto simp: add.assoc)

lemma out_pad_list:
  "out_pad out b ml i width idx s = out_list out b ml (replicate (unat width - unat i) 0x20) idx s"
proof (induction out b ml i width idx s rule: out_pad.induct)
  case (1 out b ml i width idx s)
  show ?case
  proof (cases "i < width")
    case True
    then have "unat width - unat i = Suc (unat width - unat (i + 1))"
      by (simp add: unat_inc word_less_nat_alt)
    then show ?thesis using 1 True by (subst out_pad.simps) simp
  next
    case False
    then show ?thesis by (subst out_pad.simps) (simp add: word_less_nat_alt)
  qed
qed

lemma out_rev_list:
  assumes "length buf < 2 ^ 32"
  shows "out_rev out b idx ml buf width flags s = out_list out b ml (rev_chars buf width flags) idx s"
proof -
  have "unat (of_nat (length buf) :: u32) = length buf" using assms by (simp add: unat_of_nat)
  then show ?thesis
    by (auto simp: out_rev_def rev_chars_def Let_def out_pad_list prod_eq_iff)
qed

lemma zero_fill_eq:
  "zero_fill limit buf = buf @ replicate (min (unat limit) 32 - length buf) 0x30"
proof (induction limit buf rule: zero_fill.induct)
  case (1 limit buf)
  show ?case
  proof (cases "length buf < unat limit \<and> length buf < 32")
    case True
    then have "min (unat limit) 32 - length buf = Suc (min (unat limit) 32 - length (buf @ [0x30]))"
      by (auto simp: min_def)
    then show ?thesis using 1 True by (subst zero_fill.simps) simp
  qed (subst zero_fill.simps, auto)
qed

lemma zero_fill_length: "length buf \<le> 32 \<Longrightarrow> length (zero_fill limit buf) \<le> 32"
  by (simp add: zero_fill_eq)

lemma ntoa_digits_length: "length buf < 32 \<Longrightarrow> length (ntoa_digits flags base val buf) \<le> 32"
proof (induction flags base val buf rule: ntoa_digits.induct)
  case (1 flags base val buf)
  then show ?case by (subst ntoa_digits.simps) (simp add: Let_def)
qed

lemma ntoa_value_length: "length (ntoa_value val base flags) \<le> 32"
  by (simp add: ntoa_value_def ntoa_digits_length)

lemma put_buf_length: "length buf \<le> 32 \<Longrightarrow> length (put_buf c buf) \<le> 32"
  by (simp add: put_buf_def)

lemma ntoa_buf_length: "length buf \<le> 32 \<Longrightarrow> length (ntoa_buf buf negative base prec width flags) \<le> 32"
proof -
  assume l: "length buf \<le> 32"
  have z: "length (ntoa_zeros prec w flags buf) \<le> 32" for w
    using l by (simp add: ntoa_zeros_def zero_fill_length Let_def)
  have "length (ntoa_hash base prec w flags b) \<le> 32" if "length b \<le> 32" for w b
    using that by (auto simp: ntoa_hash_def Let_def intro!: put_buf_length)
  then show ?thesis using z by (auto simp: ntoa_buf_def ntoa_sign_def Let_def intro!: put_buf_length)
qed

lemma ntoa_list:
  "ntoa_long out b idx ml val32 neg base prec width flags s =
     out_list out b ml (ntoa_chars val32 neg base prec width flags) idx s"
  "ntoa_long_long out b idx ml val64 neg base64 prec width flags s =
     out_list out b ml (ntoa_chars val64 neg base64 prec width flags) idx s"
  using ntoa_buf_length [OF ntoa_value_length [of val32 base "ntoa_flags val32 flags"]]
    ntoa_buf_length [OF ntoa_value_length [of val64 base64 "ntoa_flags val64 flags"]]
  by (simp_all add: ntoa_long_def ntoa_long_long_def ntoa_format_def ntoa_chars_def Let_def out_rev_list
      le_less_trans [of _ 32])

end
