(* ===== verification/Frog_Double.thy ===== *)
theory Frog_Double
  imports Frog_Prelude
begin

text \<open>
  The floating-point arithmetic that the C code of lib/printf.c uses on its target. The kernel is compiled
  for the 80387 with \<^verbatim>\<open>-std=c99\<close> (lib/Makefile): an expression is evaluated with the 64-bit significands of
  the extended format, and an assignment rounds to \<^verbatim>\<open>double\<close> (\<^verbatim>\<open>FLT_EVAL_METHOD\<close> is 2, include/float.h). A
  finite number is \<^verbatim>\<open>m * 2 ^ e\<close>; the sign of a zero is not represented, since the code never observes it.
\<close>

section \<open>Numbers and rounding\<close>

datatype fval = NaN | Inf bool | Fin int int

text \<open>A format: the bits of the significand, the least exponent and the exponent of the first power of two out of range.\<close>

datatype fformat = Format (digits: int) (min_exp: int) (max_exp: int)

definition double_format :: fformat where "double_format = Format 53 (- 1074) 1024"
definition ext_format :: fformat where "ext_format = Format 64 (- 16445) 16384"

text \<open>The fraction \<^verbatim>\<open>a / d\<close> times \<^verbatim>\<open>2 ^ k\<close>, as a fraction.\<close>

definition scale :: "int \<Rightarrow> int \<Rightarrow> int \<Rightarrow> int \<times> int" where
  "scale a d k = (if 0 \<le> k then (a * 2 ^ nat k, d) else (a, d * 2 ^ nat (- k)))"

text \<open>The number of binary digits.\<close>

function blen :: "int \<Rightarrow> int" where
  "blen a = (if a \<le> 0 then 0 else blen (a div 2) + 1)"
  by pat_completeness auto

termination
  by (relation "measure nat") auto

text \<open>The floor of the binary logarithm of \<^verbatim>\<open>a / d * 2 ^ e\<close>.\<close>

definition fexp :: "int \<Rightarrow> int \<Rightarrow> int \<Rightarrow> int" where
  "fexp a d e = (let t = blen a - blen d; (n, k) = scale a d (- t) in (if k \<le> n then t else t - 1) + e)"

text \<open>Division to the nearest integer, ties to even.\<close>

definition div_even :: "int \<Rightarrow> int \<Rightarrow> int" where
  "div_even n k = (let q = n div k; r = n mod k in if k < 2 * r \<or> 2 * r = k \<and> odd q then q + 1 else q)"

text \<open>The exponent of the last digit, and \<^verbatim>\<open>n / d * 2 ^ e\<close> rounded to a format (for positive \<^verbatim>\<open>d\<close>).\<close>

definition ulp_exp :: "fformat \<Rightarrow> int \<Rightarrow> int \<Rightarrow> int \<Rightarrow> int" where
  "ulp_exp f a d e = max (fexp a d e - (digits f - 1)) (min_exp f)"

definition rnd :: "fformat \<Rightarrow> int \<Rightarrow> int \<Rightarrow> int \<Rightarrow> fval" where
  "rnd f n d e = (if n = 0 then Fin 0 0 else
     let u = ulp_exp f \<bar>n\<bar> d e; (a, k) = scale \<bar>n\<bar> d (e - u); q = div_even a k
     in if max_exp f < blen q + u then Inf (n < 0) else Fin (sgn n * q) u)"

section \<open>Operations\<close>

fun fneg :: "fval \<Rightarrow> fval" where
  "fneg NaN = NaN"
| "fneg (Inf s) = Inf (\<not> s)"
| "fneg (Fin m e) = Fin (- m) e"

text \<open>Sum, product and quotient of two finite numbers, as a significand, a divisor and an exponent.\<close>

definition sum_exact :: "int \<Rightarrow> int \<Rightarrow> int \<Rightarrow> int \<Rightarrow> int" where
  "sum_exact m e m' e' = (let b = min e e' in m * 2 ^ nat (e - b) + m' * 2 ^ nat (e' - b))"

fun fadd :: "fval \<Rightarrow> fval \<Rightarrow> fval" where
  "fadd (Fin m e) (Fin m' e') = rnd ext_format (sum_exact m e m' e') 1 (min e e')"
| "fadd (Inf s) (Fin m e) = Inf s"
| "fadd (Fin m e) (Inf s) = Inf s"
| "fadd (Inf s) (Inf s') = (if s = s' then Inf s else NaN)"
| "fadd _ _ = NaN"

definition fsub :: "fval \<Rightarrow> fval \<Rightarrow> fval" where
  "fsub x y = fadd x (fneg y)"

fun fmul :: "fval \<Rightarrow> fval \<Rightarrow> fval" where
  "fmul (Fin m e) (Fin m' e') = rnd ext_format (m * m') 1 (e + e')"
| "fmul (Inf s) (Fin m e) = (if m = 0 then NaN else Inf (s \<noteq> (m < 0)))"
| "fmul (Fin m e) (Inf s) = (if m = 0 then NaN else Inf (s \<noteq> (m < 0)))"
| "fmul (Inf s) (Inf s') = Inf (s \<noteq> s')"
| "fmul _ _ = NaN"

fun fdiv :: "fval \<Rightarrow> fval \<Rightarrow> fval" where
  "fdiv (Fin m e) (Fin m' e') =
     (if m' = 0 then (if m = 0 then NaN else Inf (m < 0)) else rnd ext_format (sgn m' * m) \<bar>m'\<bar> (e - e'))"
| "fdiv (Inf s) (Fin m e) = Inf (s \<noteq> (m < 0))"
| "fdiv (Fin m e) (Inf s) = Fin 0 0"
| "fdiv _ _ = NaN"

text \<open>The assignment to a variable of type \<^verbatim>\<open>double\<close>.\<close>

fun to_double :: "fval \<Rightarrow> fval" where
  "to_double (Fin m e) = rnd double_format m 1 e"
| "to_double x = x"

text \<open>Comparisons are false on NaN.\<close>

fun fless :: "fval \<Rightarrow> fval \<Rightarrow> bool" where
  "fless (Fin m e) (Fin m' e') \<longleftrightarrow> sum_exact m e (- m') e' < 0"
| "fless (Fin m e) (Inf s) \<longleftrightarrow> \<not> s"
| "fless (Inf s) (Fin m e) \<longleftrightarrow> s"
| "fless (Inf s) (Inf s') \<longleftrightarrow> s \<and> \<not> s'"
| "fless _ _ \<longleftrightarrow> False"

fun fleq :: "fval \<Rightarrow> fval \<Rightarrow> bool" where
  "fleq NaN _ \<longleftrightarrow> False"
| "fleq _ NaN \<longleftrightarrow> False"
| "fleq x y \<longleftrightarrow> \<not> fless y x"

section \<open>Conversions\<close>

text \<open>A decimal constant \<^verbatim>\<open>n / d\<close> of the code, which is read with the precision of the evaluation, and an integer operand.\<close>

definition fconst :: "int \<Rightarrow> int \<Rightarrow> fval" where
  "fconst n d = rnd ext_format n d 0"

definition of_i :: "int \<Rightarrow> fval" where
  "of_i n = Fin n 0"

text \<open>The conversion to an integer type cuts the fraction off; out of the range \<^verbatim>\<open>lo\<close> to \<^verbatim>\<open>hi\<close> of the type it is undefined.\<close>

definition ftrunc :: "int \<Rightarrow> int \<Rightarrow> int" where
  "ftrunc m e = (if 0 \<le> e then m * 2 ^ nat e else sgn m * (\<bar>m\<bar> div 2 ^ nat (- e)))"

fun to_int :: "int \<Rightarrow> int \<Rightarrow> fval \<Rightarrow> int option" where
  "to_int lo hi (Fin m e) = (let n = ftrunc m e in if lo \<le> n \<and> n \<le> hi then Some n else None)"
| "to_int lo hi _ = None"

text \<open>The representation of a \<^verbatim>\<open>double\<close> in memory, read and written through the union \<^verbatim>\<open>conv\<close>.\<close>

definition of_bits :: "u64 \<Rightarrow> fval" where
  "of_bits w = (let x = uint (drop_bit 52 w AND 0x7FF); fr = uint (w AND 0xFFFFFFFFFFFFF); s = bit w 63 in
     if x = 0x7FF then (if fr = 0 then Inf s else NaN)
     else let (m, e) = (if x = 0 then (fr, - 1074) else (fr + 2 ^ 52, x - 1075)) in Fin (if s then - m else m) e)"

text \<open>The bits of a positive finite \<^verbatim>\<open>double\<close> or zero.\<close>

fun to_bits :: "fval \<Rightarrow> u64" where
  "to_bits (Fin m e) = (if m = 0 then 0 else
     let u = ulp_exp double_format m 1 e; (a, k) = scale m 1 (e - u); q = a div k
     in if q < 2 ^ 52 then word_of_int q else word_of_int (q - 2 ^ 52) OR push_bit 52 (word_of_int (u + 1075)))"
| "to_bits _ = 0"

end
