(* ===== verification/Frog_Float.thy ===== *)
theory Frog_Float
  imports Frog_Format Frog_Double
begin

text \<open>
  The floating-point conversions of lib/printf.c: \<^verbatim>\<open>_ftoa\<close> for \<^verbatim>\<open>%f\<close> and \<^verbatim>\<open>_etoa\<close> for \<^verbatim>\<open>%e\<close> and \<^verbatim>\<open>%g\<close>, which call each
  other. A conversion to an integer type that C leaves undefined and a read past the table of powers of ten
  have no result.
\<close>

section \<open>Fixed notation\<close>

abbreviation (input) FLAGS_ADAPT_EXP :: u32 where "FLAGS_ADAPT_EXP \<equiv> 0x800"
abbreviation (input) PRINTF_FTOA_BUFFER_SIZE :: nat where "PRINTF_FTOA_BUFFER_SIZE \<equiv> 32"
abbreviation (input) PRINTF_DEFAULT_FLOAT_PRECISION :: u32 where "PRINTF_DEFAULT_FLOAT_PRECISION \<equiv> 6"

definition DBL_MAX :: fval where "DBL_MAX = Fin (2 ^ 53 - 1) 971"
definition PRINTF_MAX_FLOAT :: fval where "PRINTF_MAX_FLOAT = of_i 1000000000"
definition half :: fval where "half = fconst 5 10"

definition pow10 :: "int list" where
  "pow10 = [1, 10, 100, 1000, 10000, 100000, 1000000, 10000000, 100000000, 1000000000]"

text \<open>The special values, as the string that \<^verbatim>\<open>_out_rev\<close> prints backwards.\<close>

definition ftoa_special :: "fval \<Rightarrow> u32 \<Rightarrow> u8 list option" where
  "ftoa_special value flags =
     (if value = NaN then Some (map of_char ''nan'')
      else if fless value (fneg DBL_MAX) then Some (map of_char ''fni-'')
      else if fless DBL_MAX value then
        Some (if flag flags FLAGS_PLUS then map of_char ''fni+'' else map of_char ''fni'')
      else None)"

text \<open>\<^verbatim>\<open>while (... prec > 9U) { buf[len++] = '0'; prec--; }\<close>\<close>

function ftoa_limit :: "u8 list \<Rightarrow> u32 \<Rightarrow> u8 list \<times> u32" where
  "ftoa_limit buf prec =
     (if length buf < PRINTF_FTOA_BUFFER_SIZE \<and> 9 < prec then ftoa_limit (buf @ [0x30]) (prec - 1) else (buf, prec))"
  by pat_completeness auto

termination
  by (relation "measure (\<lambda>(buf, prec). PRINTF_FTOA_BUFFER_SIZE - length buf)") auto

text \<open>The value split into \<^verbatim>\<open>whole\<close> and \<^verbatim>\<open>frac\<close> and rounded; \<^verbatim>\<open>value\<close> is not negative.\<close>

definition ftoa_round :: "fval \<Rightarrow> u32 \<Rightarrow> (int \<times> u32) option" where
  "ftoa_round value prec =
     (if 9 < prec then None
      else Option.bind (to_int (- (2 ^ 31)) (2 ^ 31 - 1) value) (\<lambda>whole.
        let tmp = to_double (fmul (fsub value (of_i whole)) (of_i (pow10 ! unat prec))) in
        Option.bind (to_int 0 (2 ^ 32 - 1) tmp) (\<lambda>t.
        let frac = word_of_int t :: u32;
            diff = to_double (fsub tmp (of_i t));
            (whole1, frac1) =
              (if fless half diff
               then (if fleq (of_i (pow10 ! unat prec)) (of_i (uint (frac + 1))) then (whole + 1, 0) else (whole, frac + 1))
               else if fless diff half then (whole, frac)
               else if frac = 0 \<or> frac AND 1 \<noteq> 0 then (whole, frac + 1) else (whole, frac))
        in if prec = 0
           then let diff' = to_double (fsub value (of_i whole1))
                in Some (if (\<not> fless diff' half \<or> fless half diff') \<and> odd whole1 then whole1 + 1 else whole1, frac1)
           else Some (whole1, frac1))))"

text \<open>The digits of the fraction, which are counted down from the precision, and the zeros that are missing then.\<close>

function ftoa_frac :: "u32 \<Rightarrow> u32 \<Rightarrow> u8 list \<Rightarrow> u32 \<times> u8 list" where
  "ftoa_frac count fr buf =
     (if length buf < PRINTF_FTOA_BUFFER_SIZE
      then let buf' = buf @ [0x30 + ucast (fr mod 10)]; fr' = fr div 10
           in if fr' = 0 then (count - 1, buf') else ftoa_frac (count - 1) fr' buf'
      else (count, buf))"
  by pat_completeness auto

termination
  by (relation "measure (\<lambda>(count, fr, buf). PRINTF_FTOA_BUFFER_SIZE - length buf)") auto

function ftoa_zeros :: "u32 \<Rightarrow> u8 list \<Rightarrow> u8 list" where
  "ftoa_zeros count buf =
     (if length buf < PRINTF_FTOA_BUFFER_SIZE \<and> 0 < count then ftoa_zeros (count - 1) (buf @ [0x30]) else buf)"
  by pat_completeness auto

termination
  by (relation "measure (\<lambda>(count, buf). PRINTF_FTOA_BUFFER_SIZE - length buf)") auto

function ftoa_whole :: "int \<Rightarrow> u8 list \<Rightarrow> u8 list" where
  "ftoa_whole whole buf =
     (if length buf < PRINTF_FTOA_BUFFER_SIZE
      then let buf' = buf @ [0x30 + word_of_int (whole mod 10)]; whole' = whole div 10
           in if whole' = 0 then buf' else ftoa_whole whole' buf'
      else buf)"
  by pat_completeness auto

termination
  by (relation "measure (\<lambda>(whole, buf). PRINTF_FTOA_BUFFER_SIZE - length buf)") auto

text \<open>The conversion buffer of a value that is not too large. The zero padding with its reduced width and the sign are
  the same code as in \<^verbatim>\<open>_ntoa_format\<close>.\<close>

definition ftoa_buf :: "fval \<Rightarrow> u32 \<Rightarrow> u32 \<Rightarrow> u32 \<Rightarrow> u8 list option" where
  "ftoa_buf value prec width flags =
     (let negative = fless value (of_i 0);
          value' = (if negative then to_double (fsub (of_i 0) value) else value);
          prec' = (if \<not> flag flags FLAGS_PRECISION then PRINTF_DEFAULT_FLOAT_PRECISION else prec);
          (buf0, prec1) = ftoa_limit [] prec'
      in map_option (\<lambda>(whole, frac).
           let buf1 = (if prec1 = 0 then buf0
                 else let (count, b) = ftoa_frac prec1 frac buf0 in put_buf 0x2E (ftoa_zeros count b));
               buf2 = ftoa_whole whole buf1;
               buf3 = (if \<not> flag flags FLAGS_LEFT \<and> flag flags FLAGS_ZEROPAD
                 then zero_fill (ntoa_width negative width flags) buf2 else buf2)
           in ntoa_sign negative flags buf3) (ftoa_round value' prec1))"

section \<open>Exponential notation\<close>

text \<open>The decimal exponent of a positive value and the power of ten \<^verbatim>\<open>conv.F\<close>.\<close>

definition exp_guess :: "fval \<Rightarrow> int option" where
  "exp_guess value =
     (let U = to_bits value;
          exp2 = uint (drop_bit 52 U AND 0x7FF) - 1023;
          F = of_bits ((U AND (push_bit 52 1 - 1)) OR push_bit 52 1023)
      in to_int (- (2 ^ 31)) (2 ^ 31 - 1)
           (fadd (fadd (fconst 1760912590558 (10 ^ 13)) (fmul (of_i exp2) (fconst 301029995663981 (10 ^ 15))))
             (fmul (fsub F (fconst 15 10)) (fconst 289529654602168 (10 ^ 15)))))"

definition exp_power :: "int \<Rightarrow> fval option" where
  "exp_power expval =
     map_option (\<lambda>exp2.
       let z = to_double (fsub (fmul (of_i expval) (fconst 2302585092994046 (10 ^ 15)))
                 (fmul (of_i exp2) (fconst 6931471805599453 (10 ^ 16))));
           z2 = to_double (fmul z z);
           F = of_bits (push_bit 52 (word_of_int (exp2 + 1023)))
       in to_double (fmul F (fadd (of_i 1) (fdiv (fmul (of_i 2) z)
            (fadd (fsub (of_i 2) z) (fdiv z2 (fadd (of_i 6) (fdiv z2 (fadd (of_i 10) (fdiv z2 (of_i 14))))))))))
     ) (to_int (- (2 ^ 31)) (2 ^ 31 - 1) (fadd (fmul (of_i expval) (fconst 3321928094887362 (10 ^ 15))) half))"

definition etoa_exponent :: "fval \<Rightarrow> (int \<times> fval) option" where
  "etoa_exponent value =
     Option.bind (exp_guess value) (\<lambda>expval.
     map_option (\<lambda>F. if fless value F then (expval - 1, to_double (fdiv F (of_i 10))) else (expval, F))
       (exp_power expval))"

text \<open>What \<^verbatim>\<open>_etoa\<close> hands to \<^verbatim>\<open>_ftoa\<close>, and the exponent that it prints after it.\<close>

record etoa_parts =
  e_value :: fval
  e_prec :: u32
  e_width :: u32
  e_flags :: u32
  e_minwidth :: u32
  e_expval :: int

definition etoa_parts :: "fval \<Rightarrow> u32 \<Rightarrow> u32 \<Rightarrow> u32 \<Rightarrow> etoa_parts option" where
  "etoa_parts value0 prec0 width flags0 =
     (let negative = fless value0 (of_i 0);
          value = (if negative then fneg value0 else value0);
          prec1 = (if \<not> flag flags0 FLAGS_PRECISION then PRINTF_DEFAULT_FLOAT_PRECISION else prec0)
      in map_option (\<lambda>(expval, F).
           let minwidth = (if expval < 100 \<and> - 100 < expval then 4 else 5);
               fixed = flag flags0 FLAGS_ADAPT_EXP \<and> fleq (fconst 1 10000) value \<and> fless value (fconst 1000000 1);
               prec2 = (if fixed then (if expval < sint prec1 then prec1 - word_of_int expval - 1 else 0)
                 else if flag flags0 FLAGS_ADAPT_EXP \<and> 0 < prec1 \<and> flag flags0 FLAGS_PRECISION then prec1 - 1 else prec1);
               flags = (if fixed then flags0 OR FLAGS_PRECISION else flags0);
               minwidth' = (if fixed then 0 else minwidth);
               expval' = (if fixed then 0 else expval);
               fwidth = (if minwidth' < width then width - minwidth' else 0);
               fwidth' = (if flag flags FLAGS_LEFT \<and> minwidth' \<noteq> 0 then 0 else fwidth);
               value' = (if expval' \<noteq> 0 then to_double (fdiv value F) else value)
           in \<lparr>e_value = (if negative then fneg value' else value'), e_prec = prec2, e_width = fwidth',
                e_flags = flags AND NOT FLAGS_ADAPT_EXP, e_minwidth = minwidth', e_expval = expval'\<rparr>)
         (etoa_exponent value))"

definition etoa_finish :: "'a outf \<Rightarrow> addr \<Rightarrow> u32 \<Rightarrow> u32 \<Rightarrow> u32 \<Rightarrow> u32 \<Rightarrow> etoa_parts \<Rightarrow> u32 \<Rightarrow> 'a con_scheme
    \<Rightarrow> u32 \<times> 'a con_scheme" where
  "etoa_finish out buffer start_idx maxlen width flags p idx s =
     (if e_minwidth p = 0 then (idx, s)
      else let s1 = out (if flag flags FLAGS_UPPERCASE then 0x45 else 0x65) buffer idx maxlen s;
               (idx2, s2) = ntoa_long out buffer (idx + 1) maxlen (word_of_int \<bar>e_expval p\<bar>) (e_expval p < 0) 10 0
                 (e_minwidth p - 1) (FLAGS_ZEROPAD OR FLAGS_PLUS) s1
           in if flag flags FLAGS_LEFT then out_pad out buffer maxlen (idx2 - start_idx) width idx2 s2 else (idx2, s2))"

text \<open>\<^verbatim>\<open>_ftoa\<close> calls \<^verbatim>\<open>_etoa\<close> on large finite values, where the first test of \<^verbatim>\<open>_etoa\<close> fails and the rest of it is
  written out here; it calls \<^verbatim>\<open>_ftoa\<close> on the significand.\<close>

partial_function (option) ftoa :: "'a outf \<Rightarrow> addr \<Rightarrow> u32 \<Rightarrow> u32 \<Rightarrow> fval \<Rightarrow> u32 \<Rightarrow> u32 \<Rightarrow> u32 \<Rightarrow> 'a con_scheme
    \<Rightarrow> (u32 \<times> 'a con_scheme) option" where
  "ftoa out buffer idx maxlen value prec width flags s =
     (case ftoa_special value flags of Some buf \<Rightarrow> Some (out_rev out buffer idx maxlen buf width flags s)
      | None \<Rightarrow>
        if fless PRINTF_MAX_FLOAT value \<or> fless value (fneg PRINTF_MAX_FLOAT)
        then Option.bind (etoa_parts value prec width flags) (\<lambda>p.
             Option.bind (ftoa out buffer idx maxlen (e_value p) (e_prec p) (e_width p) (e_flags p) s) (\<lambda>(idx', s').
             Some (etoa_finish out buffer idx maxlen width flags p idx' s')))
        else map_option (\<lambda>buf. out_rev out buffer idx maxlen buf (ntoa_width (fless value (of_i 0)) width flags) flags s)
               (ftoa_buf value prec width flags))"

definition etoa :: "'a outf \<Rightarrow> addr \<Rightarrow> u32 \<Rightarrow> u32 \<Rightarrow> fval \<Rightarrow> u32 \<Rightarrow> u32 \<Rightarrow> u32 \<Rightarrow> 'a con_scheme
    \<Rightarrow> (u32 \<times> 'a con_scheme) option" where
  "etoa out buffer idx maxlen value prec width flags s =
     (if value = NaN \<or> fless DBL_MAX value \<or> fless value (fneg DBL_MAX)
      then ftoa out buffer idx maxlen value prec width flags s
      else Option.bind (etoa_parts value prec width flags) (\<lambda>p.
           Option.bind (ftoa out buffer idx maxlen (e_value p) (e_prec p) (e_width p) (e_flags p) s) (\<lambda>(idx', s').
           Some (etoa_finish out buffer idx maxlen width flags p idx' s'))))"

section \<open>The characters of a conversion\<close>

definition exp_chars :: "u32 \<Rightarrow> u32 \<Rightarrow> etoa_parts \<Rightarrow> u8 list \<Rightarrow> u8 list" where
  "exp_chars width flags p cs =
     (if e_minwidth p = 0 then cs
      else let cs1 = cs @ (if flag flags FLAGS_UPPERCASE then 0x45 else 0x65)
             # ntoa_chars (word_of_int \<bar>e_expval p\<bar> :: u32) (e_expval p < 0) 10 0 (e_minwidth p - 1) (FLAGS_ZEROPAD OR FLAGS_PLUS)
           in if flag flags FLAGS_LEFT
              then cs1 @ replicate (unat width - unat (of_nat (length cs1) :: u32)) 0x20 else cs1)"

partial_function (option) ftoa_chars :: "fval \<Rightarrow> u32 \<Rightarrow> u32 \<Rightarrow> u32 \<Rightarrow> u8 list option" where
  "ftoa_chars value prec width flags =
     (case ftoa_special value flags of Some buf \<Rightarrow> Some (rev_chars buf width flags)
      | None \<Rightarrow>
        if fless PRINTF_MAX_FLOAT value \<or> fless value (fneg PRINTF_MAX_FLOAT)
        then Option.bind (etoa_parts value prec width flags) (\<lambda>p.
             Option.bind (ftoa_chars (e_value p) (e_prec p) (e_width p) (e_flags p)) (\<lambda>cs. Some (exp_chars width flags p cs)))
        else map_option (\<lambda>buf. rev_chars buf (ntoa_width (fless value (of_i 0)) width flags) flags)
               (ftoa_buf value prec width flags))"

definition etoa_chars :: "fval \<Rightarrow> u32 \<Rightarrow> u32 \<Rightarrow> u32 \<Rightarrow> u8 list option" where
  "etoa_chars value prec width flags =
     (if value = NaN \<or> fless DBL_MAX value \<or> fless value (fneg DBL_MAX) then ftoa_chars value prec width flags
      else Option.bind (etoa_parts value prec width flags) (\<lambda>p.
           Option.bind (ftoa_chars (e_value p) (e_prec p) (e_width p) (e_flags p)) (\<lambda>cs. Some (exp_chars width flags p cs))))"

section \<open>The buffer\<close>

declare ftoa_limit.simps [simp del] ftoa_frac.simps [simp del] ftoa_zeros.simps [simp del] ftoa_whole.simps [simp del]

lemma ftoa_limit_length: "length buf \<le> 32 \<Longrightarrow> length (fst (ftoa_limit buf prec)) \<le> 32"
  by (induction buf prec rule: ftoa_limit.induct) (subst ftoa_limit.simps, simp)

lemma ftoa_frac_length: "length buf \<le> 32 \<Longrightarrow> length (snd (ftoa_frac c fr buf)) \<le> 32"
  by (induction c fr buf rule: ftoa_frac.induct) (subst ftoa_frac.simps, simp add: Let_def)

lemma ftoa_zeros_length: "length buf \<le> 32 \<Longrightarrow> length (ftoa_zeros c buf) \<le> 32"
  by (induction c buf rule: ftoa_zeros.induct) (subst ftoa_zeros.simps, simp)

lemma ftoa_whole_length: "length buf \<le> 32 \<Longrightarrow> length (ftoa_whole n buf) \<le> 32"
  by (induction n buf rule: ftoa_whole.induct) (subst ftoa_whole.simps, simp add: Let_def)

lemma ftoa_buf_length: "ftoa_buf value prec width flags = Some buf \<Longrightarrow> length buf \<le> 32"
  using ftoa_limit_length [of "[]"]
  by (auto simp: ftoa_buf_def Let_def ntoa_sign_def case_prod_unfold
      intro!: put_buf_length zero_fill_length ftoa_whole_length ftoa_zeros_length ftoa_frac_length)

lemma ftoa_special_length: "ftoa_special value flags = Some buf \<Longrightarrow> length buf \<le> 4"
  by (auto simp: ftoa_special_def split: if_splits)

lemma etoa_finish_list:
  "etoa_finish out b i0 ml width flags p (i0 + of_nat (length cs)) (snd (out_list out b ml cs i0 s))
     = out_list out b ml (exp_chars width flags p cs) i0 s"
  by (auto simp: etoa_finish_def exp_chars_def Let_def ntoa_list out_pad_list prod_eq_iff algebra_simps)

lemma ftoa_list:
  assumes "ftoa_chars value prec width flags = Some cs"
  shows "ftoa out b idx ml value prec width flags s = Some (out_list out b ml cs idx s)"
proof -
  have "\<forall>s. ftoa out b idx ml value prec width flags s = Some (out_list out b ml cs idx s)"
  proof (rule ftoa_chars.raw_induct [OF _ assms])
    fix ch v p w f cs
    assume IH: "\<And>v p w f cs. ch v p w f = Some cs \<Longrightarrow> \<forall>s. ftoa out b idx ml v p w f s = Some (out_list out b ml cs idx s)"
      and ch: "(case ftoa_special v f of None \<Rightarrow>
             if fless PRINTF_MAX_FLOAT v \<or> fless v (fneg PRINTF_MAX_FLOAT)
             then Option.bind (etoa_parts v p w f) (\<lambda>pa. Option.bind (ch (e_value pa) (e_prec pa) (e_width pa) (e_flags pa)) (\<lambda>cs. Some (exp_chars w f pa cs)))
             else map_option (\<lambda>buf. rev_chars buf (ntoa_width (fless v (of_i 0)) w f) f) (ftoa_buf v p w f)
         | Some buf \<Rightarrow> Some (rev_chars buf w f)) = Some cs"
    show "\<forall>s. ftoa out b idx ml v p w f s = Some (out_list out b ml cs idx s)"
    proof (cases "ftoa_special v f")
      case (Some buf)
      then show ?thesis using ch ftoa_special_length [OF Some]
        by (subst ftoa.simps) (simp add: out_rev_list)
    next
      case sp: None
      show ?thesis
      proof (cases "fless PRINTF_MAX_FLOAT v \<or> fless v (fneg PRINTF_MAX_FLOAT)")
        case True
        then obtain pa cs' where pa: "etoa_parts v p w f = Some pa" "ch (e_value pa) (e_prec pa) (e_width pa) (e_flags pa) = Some cs'"
          "cs = exp_chars w f pa cs'" using ch sp by (auto simp: bind_eq_Some_conv)
        then show ?thesis using sp True IH [OF pa(2)] by (subst ftoa.simps) (simp add: etoa_finish_list)
      next
        case False
        then obtain buf where buf: "ftoa_buf v p w f = Some buf" "cs = rev_chars buf (ntoa_width (fless v (of_i 0)) w f) f"
          using ch sp by auto
        then show ?thesis using sp False ftoa_buf_length [OF buf(1)] by (subst ftoa.simps) (simp add: out_rev_list)
      qed
    qed
  qed
  then show ?thesis by blast
qed

lemma etoa_list:
  assumes "etoa_chars value prec width flags = Some cs"
  shows "etoa out b idx ml value prec width flags s = Some (out_list out b ml cs idx s)"
proof (cases "value = NaN \<or> fless DBL_MAX value \<or> fless value (fneg DBL_MAX)")
  case True
  then show ?thesis using assms by (simp add: etoa_chars_def etoa_def ftoa_list)
next
  case False
  then obtain p cs' where p: "etoa_parts value prec width flags = Some p"
    "ftoa_chars (e_value p) (e_prec p) (e_width p) (e_flags p) = Some cs'" "cs = exp_chars width flags p cs'"
    using assms by (auto simp: etoa_chars_def bind_eq_Some_conv)
  show ?thesis unfolding etoa_def if_not_P [OF False] p(1,3) by (simp add: ftoa_list [OF p(2)] etoa_finish_list)
qed

end
