(* ===== verification/Frog_Printf.thy ===== *)
theory Frog_Printf
  imports Frog_Float
begin

text \<open>
  The formats of lib/printf.c. The format is the array of bytes from the format pointer on, so that a read past
  the array is visible as an empty list; the variable arguments are the 32-bit words of the stack. A format
  that runs past its end or its arguments has no result.
\<close>

section \<open>Format specifiers\<close>

text \<open>The variable arguments: \<^verbatim>\<open>int\<close>, \<^verbatim>\<open>long\<close> and pointers take one word of the stack, \<^verbatim>\<open>long long\<close>
  takes two, the low one first.\<close>

fun va_arg32 :: "u32 list \<Rightarrow> (u32 \<times> u32 list) option" where
  "va_arg32 (w # va) = Some (w, va)"
| "va_arg32 [] = None"

fun va_arg64 :: "u32 list \<Rightarrow> (u64 \<times> u32 list) option" where
  "va_arg64 (lo # hi # va) = Some (ucast lo OR push_bit 32 (ucast hi), va)"
| "va_arg64 _ = None"

fun parse_flags :: "u32 \<Rightarrow> u8 list \<Rightarrow> (u32 \<times> u8 list) option" where
  "parse_flags flags [] = None"
| "parse_flags flags (c # r) =
     (if c = 0x30 then parse_flags (flags OR FLAGS_ZEROPAD) r
      else if c = 0x2D then parse_flags (flags OR FLAGS_LEFT) r
      else if c = 0x2B then parse_flags (flags OR FLAGS_PLUS) r
      else if c = 0x20 then parse_flags (flags OR FLAGS_SPACE) r
      else if c = 0x23 then parse_flags (flags OR FLAGS_HASH) r
      else Some (flags, c # r))"

fun parse_width :: "u32 \<Rightarrow> u8 list \<Rightarrow> u32 list \<Rightarrow> (u32 \<times> u32 \<times> u8 list \<times> u32 list) option" where
  "parse_width flags [] va = None"
| "parse_width flags (c # r) va =
     (if is_digit c then map_option (\<lambda>(w, r'). (flags, w, r', va)) (atoi 0 (c # r))
      else if c = 0x2A then map_option (\<lambda>(w, va').
        if w <s 0 then (flags OR FLAGS_LEFT, - w, r, va') else (flags, w, r, va')) (va_arg32 va)
      else Some (flags, 0, c # r, va))"

fun parse_precision :: "u32 \<Rightarrow> u8 list \<Rightarrow> u32 list \<Rightarrow> (u32 \<times> u32 \<times> u8 list \<times> u32 list) option" where
  "parse_precision flags [] va = None"
| "parse_precision flags (c # r) va =
     (if c = 0x2E then
        let flags' = flags OR FLAGS_PRECISION in
        (case r of [] \<Rightarrow> None
         | d # r' \<Rightarrow>
             if is_digit d then map_option (\<lambda>(p, r''). (flags', p, r'', va)) (atoi 0 r)
             else if d = 0x2A then map_option (\<lambda>(p, va'). (flags', if 0 <s p then p else 0, r', va')) (va_arg32 va)
             else Some (flags', 0, r, va))
      else Some (flags, 0, c # r, va))"

text \<open>On this target \<^verbatim>\<open>ptrdiff_t\<close> and \<^verbatim>\<open>size_t\<close> have the size of \<^verbatim>\<open>long\<close>, \<^verbatim>\<open>intmax_t\<close> has not.\<close>

fun parse_length :: "u32 \<Rightarrow> u8 list \<Rightarrow> (u32 \<times> u8 list) option" where
  "parse_length flags [] = None"
| "parse_length flags (c # r) =
     (if c = 0x6C then (case r of [] \<Rightarrow> None
        | d # r' \<Rightarrow> if d = 0x6C then Some (flags OR FLAGS_LONG OR FLAGS_LONG_LONG, r')
                   else Some (flags OR FLAGS_LONG, r))
      else if c = 0x68 then (case r of [] \<Rightarrow> None
        | d # r' \<Rightarrow> if d = 0x68 then Some (flags OR FLAGS_SHORT OR FLAGS_CHAR, r')
                   else Some (flags OR FLAGS_SHORT, r))
      else if c = 0x74 \<or> c = 0x7A then Some (flags OR FLAGS_LONG, r)
      else if c = 0x6A then Some (flags OR FLAGS_LONG_LONG, r)
      else Some (flags, c # r))"

text \<open>\<^verbatim>\<open>%[flags][width][.precision][length]\<close>, up to the specifier.\<close>

definition parse_spec :: "u8 list \<Rightarrow> u32 list \<Rightarrow> (u32 \<times> u32 \<times> u32 \<times> u8 list \<times> u32 list) option" where
  "parse_spec r va =
     Option.bind (parse_flags 0 r) (\<lambda>(flags1, r1).
     Option.bind (parse_width flags1 r1 va) (\<lambda>(flags2, width, r2, va2).
     Option.bind (parse_precision flags2 r2 va2) (\<lambda>(flags3, precision, r3, va3).
     Option.bind (parse_length flags3 r3) (\<lambda>(flags4, r4).
       Some (flags4, width, precision, r4, va3)))))"

text \<open>The integer specifiers \<^verbatim>\<open>d i u x X o b\<close>: base, flags and value.\<close>

definition int_base :: "u8 \<Rightarrow> u32" where
  "int_base c = (if c = 0x78 \<or> c = 0x58 then 16 else if c = 0x6F then 8 else if c = 0x62 then 2 else 10)"

definition int_flags :: "u8 \<Rightarrow> u32 \<Rightarrow> u32" where
  "int_flags c flags =
     (let f1 = (if int_base c = 10 then flags AND NOT FLAGS_HASH else flags);
          f2 = (if c = 0x58 then f1 OR FLAGS_UPPERCASE else f1);
          f3 = (if c \<noteq> 0x69 \<and> c \<noteq> 0x64 then f2 AND NOT (FLAGS_PLUS OR FLAGS_SPACE) else f2)
      in if flag f3 FLAGS_PRECISION then f3 AND NOT FLAGS_ZEROPAD else f3)"

text \<open>\<^verbatim>\<open>value > 0 ? value : 0 - value\<close>, in two's complement.\<close>

definition magnitude :: "'w::len word \<Rightarrow> 'w word" where
  "magnitude v = (if 0 <s v then v else 0 - v)"

definition narrow_signed :: "u32 \<Rightarrow> u32 \<Rightarrow> u32" where
  "narrow_signed flags w = (if flag flags FLAGS_CHAR then scast (ucast w :: u8)
     else if flag flags FLAGS_SHORT then scast (ucast w :: u16) else w)"

definition narrow_unsigned :: "u32 \<Rightarrow> u32 \<Rightarrow> u32" where
  "narrow_unsigned flags w = (if flag flags FLAGS_CHAR then ucast (ucast w :: u8)
     else if flag flags FLAGS_SHORT then ucast (ucast w :: u16) else w)"

definition conv_int :: "'a outf \<Rightarrow> addr \<Rightarrow> u32 \<Rightarrow> u8 \<Rightarrow> u32 \<Rightarrow> u32 \<Rightarrow> u32 \<Rightarrow> u32 list \<Rightarrow> u32
    \<Rightarrow> 'a con_scheme \<Rightarrow> (u32 \<times> u32 list \<times> 'a con_scheme) option" where
  "conv_int out buffer maxlen c flags0 width precision va idx s =
     (let base = int_base c; flags = int_flags c flags0 in
      if c = 0x69 \<or> c = 0x64 then
        if flag flags FLAGS_LONG_LONG then
          map_option (\<lambda>(v, va'). let (i, s') = ntoa_long_long out buffer idx maxlen (magnitude v) (v <s 0)
            (ucast base) precision width flags s in (i, va', s')) (va_arg64 va)
        else if flag flags FLAGS_LONG then
          map_option (\<lambda>(v, va'). let (i, s') = ntoa_long out buffer idx maxlen (magnitude v) (v <s 0)
            base precision width flags s in (i, va', s')) (va_arg32 va)
        else
          map_option (\<lambda>(w, va'). let v = narrow_signed flags w;
            (i, s') = ntoa_long out buffer idx maxlen (magnitude v) (v <s 0)
              base precision width flags s in (i, va', s')) (va_arg32 va)
      else
        if flag flags FLAGS_LONG_LONG then
          map_option (\<lambda>(v, va'). let (i, s') = ntoa_long_long out buffer idx maxlen v False
            (ucast base) precision width flags s in (i, va', s')) (va_arg64 va)
        else if flag flags FLAGS_LONG then
          map_option (\<lambda>(v, va'). let (i, s') = ntoa_long out buffer idx maxlen v False
            base precision width flags s in (i, va', s')) (va_arg32 va)
        else
          map_option (\<lambda>(w, va'). let (i, s') = ntoa_long out buffer idx maxlen (narrow_unsigned flags w) False
            base precision width flags s in (i, va', s')) (va_arg32 va))"

definition conv_char :: "'a outf \<Rightarrow> addr \<Rightarrow> u32 \<Rightarrow> u32 \<Rightarrow> u32 \<Rightarrow> u32 list \<Rightarrow> u32
    \<Rightarrow> 'a con_scheme \<Rightarrow> (u32 \<times> u32 list \<times> 'a con_scheme) option" where
  "conv_char out buffer maxlen flags width va idx s =
     map_option (\<lambda>(w, va').
       let (i1, s1) = (if \<not> flag flags FLAGS_LEFT then out_pad out buffer maxlen 1 width idx s else (idx, s));
           s2 = out (ucast w) buffer i1 maxlen s1;
           (i3, s3) = (if flag flags FLAGS_LEFT then out_pad out buffer maxlen 1 width (i1 + 1) s2 else (i1 + 1, s2))
       in (i3, va', s3)) (va_arg32 va)"

text \<open>The output loop of \<^verbatim>\<open>%s\<close>: without a precision it only ends at a NUL.\<close>

partial_function (option) str_loop :: "'a outf \<Rightarrow> addr \<Rightarrow> u32 \<Rightarrow> u32 \<Rightarrow> addr \<Rightarrow> u32 \<Rightarrow> u32 \<Rightarrow> 'a con_scheme
    \<Rightarrow> (u32 \<times> 'a con_scheme) option" where
  "str_loop out buffer maxlen flags p precision idx s =
     (if mem s p \<noteq> 0 \<and> (\<not> flag flags FLAGS_PRECISION \<or> precision \<noteq> 0)
      then str_loop out buffer maxlen flags (p + 1)
             (if flag flags FLAGS_PRECISION then precision - 1 else precision)
             (idx + 1) (out (mem s p) buffer idx maxlen s)
      else Some (idx, s))"

definition conv_str :: "'a outf \<Rightarrow> addr \<Rightarrow> u32 \<Rightarrow> u32 \<Rightarrow> u32 \<Rightarrow> u32 \<Rightarrow> u32 list \<Rightarrow> u32
    \<Rightarrow> 'a con_scheme \<Rightarrow> (u32 \<times> u32 list \<times> 'a con_scheme) option" where
  "conv_str out buffer maxlen flags width precision va idx s =
     Option.bind (va_arg32 va) (\<lambda>(p, va').
       let l0 = strnlen_s (mem s) p (if precision \<noteq> 0 then precision else - 1);
           l = (if flag flags FLAGS_PRECISION then (if l0 < precision then l0 else precision) else l0);
           (i1, s1) = (if \<not> flag flags FLAGS_LEFT then out_pad out buffer maxlen l width idx s else (idx, s))
       in map_option (\<lambda>(i2, s2).
            let (i3, s3) = (if flag flags FLAGS_LEFT then out_pad out buffer maxlen l width i2 s2 else (i2, s2))
            in (i3, va', s3)) (str_loop out buffer maxlen flags p precision i1 s1))"

definition conv_ptr :: "'a outf \<Rightarrow> addr \<Rightarrow> u32 \<Rightarrow> u32 \<Rightarrow> u32 \<Rightarrow> u32 list \<Rightarrow> u32
    \<Rightarrow> 'a con_scheme \<Rightarrow> (u32 \<times> u32 list \<times> 'a con_scheme) option" where
  "conv_ptr out buffer maxlen flags precision va idx s =
     map_option (\<lambda>(w, va'). let (i, s') = ntoa_long out buffer idx maxlen w False 16 precision 8
       (flags OR FLAGS_ZEROPAD OR FLAGS_UPPERCASE) s in (i, va', s')) (va_arg32 va)"

text \<open>The specifiers \<^verbatim>\<open>f F e E g G\<close>; the argument takes two words.\<close>

definition float_flags :: "u8 \<Rightarrow> u32 \<Rightarrow> u32" where
  "float_flags c flags =
     (let f1 = (if c = 0x67 \<or> c = 0x47 then flags OR FLAGS_ADAPT_EXP else flags)
      in if c = 0x46 \<or> c = 0x45 \<or> c = 0x47 then f1 OR FLAGS_UPPERCASE else f1)"

definition conv_float :: "'a outf \<Rightarrow> addr \<Rightarrow> u32 \<Rightarrow> u8 \<Rightarrow> u32 \<Rightarrow> u32 \<Rightarrow> u32 \<Rightarrow> u32 list \<Rightarrow> u32
    \<Rightarrow> 'a con_scheme \<Rightarrow> (u32 \<times> u32 list \<times> 'a con_scheme) option" where
  "conv_float out buffer maxlen c flags width precision va idx s =
     Option.bind (va_arg64 va) (\<lambda>(w, va').
       map_option (\<lambda>(i, s'). (i, va', s'))
         (if c = 0x66 \<or> c = 0x46 then ftoa out buffer idx maxlen (of_bits w) precision width (float_flags c flags) s
          else etoa out buffer idx maxlen (of_bits w) precision width (float_flags c flags) s))"

text \<open>The specifier switch. \<^verbatim>\<open>%%\<close> and an unknown specifier print the character itself.\<close>

definition convert :: "'a outf \<Rightarrow> addr \<Rightarrow> u32 \<Rightarrow> u8 \<Rightarrow> u32 \<Rightarrow> u32 \<Rightarrow> u32 \<Rightarrow> u32 list \<Rightarrow> u32
    \<Rightarrow> 'a con_scheme \<Rightarrow> (u32 \<times> u32 list \<times> 'a con_scheme) option" where
  "convert out buffer maxlen c flags width precision va idx s =
     (if c \<in> {0x64, 0x69, 0x75, 0x78, 0x58, 0x6F, 0x62}
      then conv_int out buffer maxlen c flags width precision va idx s
      else if c \<in> {0x66, 0x46, 0x65, 0x45, 0x67, 0x47}
      then conv_float out buffer maxlen c flags width precision va idx s
      else if c = 0x63 then conv_char out buffer maxlen flags width va idx s
      else if c = 0x73 then conv_str out buffer maxlen flags width precision va idx s
      else if c = 0x70 then conv_ptr out buffer maxlen flags precision va idx s
      else Some (idx + 1, va, out c buffer idx maxlen s))"

lemma parse_lengths:
  "atoi i r = Some (w, r') \<Longrightarrow> length r' \<le> length r"
  "parse_flags f r = Some (f', r') \<Longrightarrow> length r' \<le> length r"
  "parse_width f r va = Some (f', w, r', va') \<Longrightarrow> length r' \<le> length r"
  "parse_precision f r va = Some (f', w, r', va') \<Longrightarrow> length r' \<le> length r"
  "parse_length f r = Some (f', r') \<Longrightarrow> length r' \<le> length r"
proof -
  show a: "length r' \<le> length r" if "atoi i r = Some (w, r')" for i r w r'
    using that by (induction i r rule: atoi.induct) (fastforce split: if_splits)+
  show "parse_flags f r = Some (f', r') \<Longrightarrow> length r' \<le> length r"
  proof (induction r arbitrary: f)
    case (Cons c r)
    have "length r' \<le> length (c # r)" if "parse_flags g r = Some (f', r')" for g
      using Cons.IH [OF that] by simp
    then show ?case using Cons.prems by (simp only: parse_flags.simps split: if_splits) auto
  qed simp
  show "length r' \<le> length r" if "parse_width f r va = Some (f', w, r', va')"
  proof (cases r)
    case (Cons c r1)
    then show ?thesis using that a [of 0 r w r']
      by (cases va) (auto split: if_splits simp del: atoi.simps)
  qed (use that in simp)
  show "length r' \<le> length r" if "parse_precision f r va = Some (f', w, r', va')"
  proof (cases r)
    case (Cons c r1)
    show ?thesis
    proof (cases r1)
      case (Cons d r2)
      then show ?thesis using that \<open>r = c # r1\<close> a [of 0 r1 w r']
        by (cases va) (auto simp: Let_def split: if_splits simp del: atoi.simps)
    qed (use that \<open>r = c # r1\<close> in \<open>auto simp: Let_def split: if_splits\<close>)
  qed (use that in simp)
  show "parse_length f r = Some (f', r') \<Longrightarrow> length r' \<le> length r"
    by (cases r) (auto split: if_splits list.splits)
qed

lemma parse_spec_length: "parse_spec r va = Some (f, w, p, r', va') \<Longrightarrow> length r' \<le> length r"
  by (fastforce simp: parse_spec_def bind_eq_Some_conv dest!: parse_lengths(2-5))

function vsnprintf_loop :: "'a outf \<Rightarrow> addr \<Rightarrow> u32 \<Rightarrow> u8 list \<Rightarrow> u32 list \<Rightarrow> u32
    \<Rightarrow> 'a con_scheme \<Rightarrow> (u32 \<times> 'a con_scheme) option" where
  "vsnprintf_loop out buffer maxlen [] va idx s = None"
| "vsnprintf_loop out buffer maxlen (c # r) va idx s =
     (if c = 0 then Some (idx, s)
      else if c \<noteq> 0x25 then vsnprintf_loop out buffer maxlen r va (idx + 1) (out c buffer idx maxlen s)
      else case parse_spec r va of None \<Rightarrow> None
        | Some (flags, width, precision, [], va1) \<Rightarrow> None
        | Some (flags, width, precision, d # r', va1) \<Rightarrow>
            (case convert out buffer maxlen d flags width precision va1 idx s of None \<Rightarrow> None
             | Some (idx', va2, s') \<Rightarrow> vsnprintf_loop out buffer maxlen r' va2 idx' s'))"
  by pat_completeness auto

termination
  by (relation "measure (\<lambda>(out, buffer, maxlen, fmt, va, idx, s). length fmt)")
    (auto dest!: parse_spec_length)

definition vsnprintf :: "'a outf \<Rightarrow> addr \<Rightarrow> u32 \<Rightarrow> u8 list \<Rightarrow> u32 list
    \<Rightarrow> 'a con_scheme \<Rightarrow> (u32 \<times> 'a con_scheme) option" where
  "vsnprintf out0 buffer maxlen format va s =
     (let out = (if buffer = 0 then out_null else out0) in
      map_option (\<lambda>(idx, s'). (idx, out 0 buffer (if idx < maxlen then idx else maxlen - 1) maxlen s'))
        (vsnprintf_loop out buffer maxlen format va 0 s))"

text \<open>The entry points. \<^verbatim>\<open>printf_\<close> and \<^verbatim>\<open>vprintf_\<close> pass the address of a local byte that
  \<^verbatim>\<open>_out_char\<close> never uses.\<close>

definition printf :: "addr \<Rightarrow> u8 list \<Rightarrow> u32 list \<Rightarrow> 'a con_scheme \<Rightarrow> (u32 \<times> 'a con_scheme) option" where
  "printf buffer format va s = vsnprintf out_char buffer (- 1) format va s"

definition vprintf :: "addr \<Rightarrow> u8 list \<Rightarrow> u32 list \<Rightarrow> 'a con_scheme \<Rightarrow> (u32 \<times> 'a con_scheme) option" where
  "vprintf buffer format va s = vsnprintf out_char buffer (- 1) format va s"

definition sprintf :: "addr \<Rightarrow> u8 list \<Rightarrow> u32 list \<Rightarrow> 'a con_scheme \<Rightarrow> (u32 \<times> 'a con_scheme) option" where
  "sprintf buffer format va s = vsnprintf out_buffer buffer (- 1) format va s"

definition snprintf :: "addr \<Rightarrow> u32 \<Rightarrow> u8 list \<Rightarrow> u32 list \<Rightarrow> 'a con_scheme \<Rightarrow> (u32 \<times> 'a con_scheme) option" where
  "snprintf buffer count format va s = vsnprintf out_buffer buffer count format va s"

definition fctprintf :: "(u8 \<Rightarrow> addr \<Rightarrow> 'a con_scheme \<Rightarrow> 'a con_scheme) \<Rightarrow> addr \<Rightarrow> addr \<Rightarrow> u8 list \<Rightarrow> u32 list
    \<Rightarrow> 'a con_scheme \<Rightarrow> (u32 \<times> 'a con_scheme) option" where
  "fctprintf fct arg wrap format va s = vsnprintf (out_fct fct arg) wrap (- 1) format va s"

section \<open>What a format renders to\<close>

text \<open>The characters of a conversion as a list, without output functions, indices and states. An argument
  of \<^verbatim>\<open>%s\<close> has to be a string whose bytes, the terminator included, lie in the area \<open>safe\<close> that the
  output does not write.\<close>

definition int_chars :: "u8 \<Rightarrow> u32 \<Rightarrow> u32 \<Rightarrow> u32 \<Rightarrow> u32 list \<Rightarrow> (u8 list \<times> u32 list) option" where
  "int_chars c flags0 width prec va =
     (let base = int_base c; flags = int_flags c flags0; signed = c = 0x69 \<or> c = 0x64 in
      if flag flags FLAGS_LONG_LONG then map_option (\<lambda>(v, va').
        (if signed then ntoa_chars (magnitude v) (v <s 0) (ucast base) prec width flags
         else ntoa_chars v False (ucast base) prec width flags, va')) (va_arg64 va)
      else map_option (\<lambda>(w, va').
        (if signed then let v = (if flag flags FLAGS_LONG then w else narrow_signed flags w) in
           ntoa_chars (magnitude v) (v <s 0) base prec width flags
         else ntoa_chars (if flag flags FLAGS_LONG then w else narrow_unsigned flags w) False base prec width flags,
         va')) (va_arg32 va))"

definition float_chars :: "u8 \<Rightarrow> u32 \<Rightarrow> u32 \<Rightarrow> u32 \<Rightarrow> u32 list \<Rightarrow> (u8 list \<times> u32 list) option" where
  "float_chars c flags width prec va =
     Option.bind (va_arg64 va) (\<lambda>(w, va').
       map_option (\<lambda>cs. (cs, va'))
         (if c = 0x66 \<or> c = 0x46 then ftoa_chars (of_bits w) prec width (float_flags c flags)
          else etoa_chars (of_bits w) prec width (float_flags c flags)))"

definition pad_chars :: "nat \<Rightarrow> u32 \<Rightarrow> u32 \<Rightarrow> u8 list \<Rightarrow> u8 list" where
  "pad_chars l width flags cs =
     (let pad = replicate (unat width - l) 0x20 in
      if flag flags FLAGS_LEFT then cs @ pad else pad @ cs)"

definition str_bytes :: "byte_mem \<Rightarrow> addr \<Rightarrow> nat \<Rightarrow> u8 list" where
  "str_bytes m p n = map (\<lambda>i. m (p + of_nat i)) [0..<n]"

definition str_chars :: "(addr \<Rightarrow> bool) \<Rightarrow> byte_mem \<Rightarrow> addr \<Rightarrow> u32 \<Rightarrow> u32 \<Rightarrow> u32 \<Rightarrow> u8 list option" where
  "str_chars safe m p flags width prec =
     (let n = unat (strnlen_s m p (if prec \<noteq> 0 then prec else - 1));
          l = (if flag flags FLAGS_PRECISION then min n (unat prec) else n) in
      if \<not> flag flags FLAGS_PRECISION \<and> m (p + of_nat n) \<noteq> 0 then None
      else if \<not> list_all (\<lambda>i. safe (p + of_nat i)) [0..<Suc n] then None
      else Some (pad_chars l width flags (str_bytes m p l)))"

definition conv_chars :: "(addr \<Rightarrow> bool) \<Rightarrow> byte_mem \<Rightarrow> u8 \<Rightarrow> u32 \<Rightarrow> u32 \<Rightarrow> u32 \<Rightarrow> u32 list
    \<Rightarrow> (u8 list \<times> u32 list) option" where
  "conv_chars safe m c flags width prec va =
     (if c \<in> {0x64, 0x69, 0x75, 0x78, 0x58, 0x6F, 0x62} then int_chars c flags width prec va
      else if c \<in> {0x66, 0x46, 0x65, 0x45, 0x67, 0x47} then float_chars c flags width prec va
      else if c = 0x63 then map_option (\<lambda>(w, va'). (pad_chars 1 width flags [ucast w], va')) (va_arg32 va)
      else if c = 0x73 then Option.bind (va_arg32 va) (\<lambda>(p, va').
        map_option (\<lambda>cs. (cs, va')) (str_chars safe m p flags width prec))
      else if c = 0x70 then map_option (\<lambda>(w, va').
        (ntoa_chars w False 16 prec 8 (flags OR FLAGS_ZEROPAD OR FLAGS_UPPERCASE), va')) (va_arg32 va)
      else Some ([c], va))"

function render :: "(addr \<Rightarrow> bool) \<Rightarrow> byte_mem \<Rightarrow> u8 list \<Rightarrow> u32 list \<Rightarrow> u8 list option" where
  "render safe m [] va = None"
| "render safe m (c # r) va =
     (if c = 0 then Some []
      else if c \<noteq> 0x25 then map_option (Cons c) (render safe m r va)
      else case parse_spec r va of None \<Rightarrow> None
        | Some (flags, width, precision, [], va1) \<Rightarrow> None
        | Some (flags, width, precision, d # r', va1) \<Rightarrow>
            (case conv_chars safe m d flags width precision va1 of None \<Rightarrow> None
             | Some (cs, va2) \<Rightarrow> map_option (append cs) (render safe m r' va2)))"
  by pat_completeness auto

termination
  by (relation "measure (\<lambda>(safe, m, fmt, va). length fmt)") (auto dest!: parse_spec_length)

section \<open>Strings\<close>

lemma strnlen_s_spec:
  defines "n m p lim \<equiv> unat (strnlen_s m p lim)"
  shows "n m p lim \<le> unat lim \<and> (\<forall>i < n m p lim. m (p + of_nat i) \<noteq> 0)
    \<and> (n m p lim < unat lim \<longrightarrow> m (p + of_nat (n m p lim)) = 0)"
proof (induction m p lim rule: strnlen_s.induct)
  case (1 m p lim)
  show ?case
  proof (cases "m p \<noteq> 0 \<and> lim \<noteq> 0")
    case True
    then have lim: "unat (lim - 1) = unat lim - 1" "0 < unat lim"
      by (simp_all add: unat_minus_one unat_gt_0)
    let ?k = "n m (p + 1) (lim - 1)"
    have IH: "?k \<le> unat (lim - 1)" "\<forall>i < ?k. m (p + 1 + of_nat i) \<noteq> 0"
      "?k < unat (lim - 1) \<longrightarrow> m (p + 1 + of_nat ?k) = 0" using 1 True by auto
    have "unat lim < 2 ^ 32" by (rule unat_lt32)
    then have n: "n m p lim = Suc ?k" using True IH(1) lim
      by (simp add: n_def strnlen_s.simps [of m p lim] unat_word_ariths)
    have "m (p + of_nat i) \<noteq> 0" if "i < Suc ?k" for i
      using that IH(2) True by (cases i) (auto simp: add.assoc)
    then show ?thesis using IH lim by (auto simp: n add.assoc)
  next
    case False
    then show ?thesis by (subst (1 2 3 4) n_def, subst (1 2 3 4) strnlen_s.simps) auto
  qed
qed

lemma strnlen_s_cong:
  "(\<And>i. i \<le> unat (strnlen_s m p lim) \<Longrightarrow> m' (p + of_nat i) = m (p + of_nat i)) \<Longrightarrow> strnlen_s m' p lim = strnlen_s m p lim"
proof (induction m p lim rule: strnlen_s.induct)
  case (1 m p lim)
  have p: "m' p = m p" using "1.prems" [of 0] by simp
  show ?case
  proof (cases "m p \<noteq> 0 \<and> lim \<noteq> 0")
    case True
    have "unat (strnlen_s m (p + 1) (lim - 1)) \<le> unat (lim - 1)" using strnlen_s_spec by blast
    also have "\<dots> = unat lim - 1" using True by (simp add: unat_minus_one)
    finally have n: "unat (strnlen_s m p lim) = Suc (unat (strnlen_s m (p + 1) (lim - 1)))"
      using True unat_lt32 [of lim] by (simp add: strnlen_s.simps [of m p lim] unat_word_ariths)
    have "m' (p + 1 + of_nat i) = m (p + 1 + of_nat i)"
      if "i \<le> unat (strnlen_s m (p + 1) (lim - 1))" for i
      using "1.prems" [of "Suc i"] that n by (simp add: add.assoc)
    then have "strnlen_s m' (p + 1) (lim - 1) = strnlen_s m (p + 1) (lim - 1)"
      by (rule "1.IH" [OF True])
    then show ?thesis using True p by (simp add: strnlen_s.simps [of _ p lim])
  qed (auto simp: p strnlen_s.simps [of _ p lim])
qed

lemma str_bytes_Suc: "str_bytes m p (Suc n) = m p # str_bytes m (p + 1) n"
  by (simp add: str_bytes_def upt_conv_Cons add.assoc del: upt_Suc flip: map_Suc_upt)


section \<open>The conversions without strings\<close>

lemma conv_int_list:
  "conv_int out b ml c flags width prec va idx s =
     map_option (\<lambda>(cs, va'). (idx + of_nat (length cs), va', snd (out_list out b ml cs idx s)))
       (int_chars c flags width prec va)"
  unfolding conv_int_def int_chars_def Let_def ntoa_list
  by (cases "va_arg64 va"; cases "va_arg32 va") auto

lemma conv_char_list:
  "conv_char out b ml flags width va idx s =
     map_option (\<lambda>(w, va'). let cs = pad_chars 1 width flags [ucast w] in
       (idx + of_nat (length cs), va', snd (out_list out b ml cs idx s))) (va_arg32 va)"
  unfolding conv_char_def pad_chars_def Let_def out_pad_list
  by (cases "va_arg32 va") (auto simp: add.assoc add.commute [of 1])

lemma conv_float_list:
  assumes "float_chars c flags width prec va = Some (cs, va')"
  shows "conv_float out b ml c flags width prec va idx s =
    Some (idx + of_nat (length cs), va', snd (out_list out b ml cs idx s))"
proof -
  obtain w where w: "va_arg64 va = Some (w, va')"
    "(if c = 0x66 \<or> c = 0x46 then ftoa_chars (of_bits w) prec width (float_flags c flags)
      else etoa_chars (of_bits w) prec width (float_flags c flags)) = Some cs"
    using assms by (auto simp: float_chars_def bind_eq_Some_conv)
  show ?thesis
  proof (cases "c = 0x66 \<or> c = 0x46")
    case True
    then have "ftoa_chars (of_bits w) prec width (float_flags c flags) = Some cs" using w(2) by simp
    then show ?thesis unfolding conv_float_def if_P [OF True] by (simp add: w(1) ftoa_list)
  next
    case False
    then have "etoa_chars (of_bits w) prec width (float_flags c flags) = Some cs" using w(2) by simp
    then show ?thesis unfolding conv_float_def if_not_P [OF False] by (simp add: w(1) etoa_list)
  qed
qed

section \<open>Any output function that leaves the strings alone\<close>

locale printf_sink =
  fixes out :: "'a outf" and b :: addr and ml :: u32 and safe :: "addr \<Rightarrow> bool"
    and ok :: "'a con_scheme \<Rightarrow> bool"
  assumes out_ok: "ok s \<Longrightarrow> ok (out c b idx ml s)"
    and out_safe: "ok s \<Longrightarrow> safe x \<Longrightarrow> mem (out c b idx ml s) x = mem s x"
begin

lemma out_list_ok: "ok s \<Longrightarrow> ok (snd (out_list out b ml cs idx s))"
  by (induction cs arbitrary: idx s) (simp_all add: out_ok)

lemma out_list_safe: "ok s \<Longrightarrow> safe x \<Longrightarrow> mem (snd (out_list out b ml cs idx s)) x = mem s x"
  by (induction cs arbitrary: idx s) (simp_all add: out_safe out_ok)

lemma str_loop_list:
  assumes "ok s" "\<And>x. safe x \<Longrightarrow> mem s x = m x" "\<And>i. i \<le> l \<Longrightarrow> safe (p + of_nat i)"
    "\<And>i. i < l \<Longrightarrow> m (p + of_nat i) \<noteq> 0"
    "if flag flags FLAGS_PRECISION then l \<le> unat prec \<and> (l < unat prec \<longrightarrow> m (p + of_nat l) = 0)
     else m (p + of_nat l) = 0"
  shows "str_loop out b ml flags p prec idx s = Some (out_list out b ml (str_bytes m p l) idx s)"
  using assms
proof (induction l arbitrary: p prec idx s)
  case 0
  then have "mem s p = m p" by force
  with 0 show ?case
    by (subst str_loop.simps) (auto simp: str_bytes_def unat_gt_0 split: if_splits)
next
  case (Suc l)
  have p: "mem s p = m p" "m p \<noteq> 0" using Suc.prems(2) Suc.prems(3,4) [of 0] by simp_all
  have "prec \<noteq> 0" if "flag flags FLAGS_PRECISION" using that Suc.prems(5) by auto
  then have prec: "0 < unat prec \<and> prec \<noteq> 0 \<and> unat (prec - 1) = unat prec - 1" if "flag flags FLAGS_PRECISION"
    using that by (simp add: unat_minus_one unat_gt_0)
  have "str_loop out b ml flags (p + 1) (if flag flags FLAGS_PRECISION then prec - 1 else prec) (idx + 1)
      (out (m p) b idx ml s)
    = Some (out_list out b ml (str_bytes m (p + 1) l) (idx + 1) (out (m p) b idx ml s))"
  proof (rule Suc.IH)
    show "ok (out (m p) b idx ml s)" using Suc.prems(1) by (rule out_ok)
    show "mem (out (m p) b idx ml s) x = m x" if "safe x" for x
      using Suc.prems(1,2) that by (simp add: out_safe)
    show "safe (p + 1 + of_nat i)" if "i \<le> l" for i
      using Suc.prems(3) [of "Suc i"] that by (simp add: add.assoc)
    show "m (p + 1 + of_nat i) \<noteq> 0" if "i < l" for i
      using Suc.prems(4) [of "Suc i"] that by (simp add: add.assoc)
    show "if flag flags FLAGS_PRECISION
      then l \<le> unat (if flag flags FLAGS_PRECISION then prec - 1 else prec)
        \<and> (l < unat (if flag flags FLAGS_PRECISION then prec - 1 else prec) \<longrightarrow> m (p + 1 + of_nat l) = 0)
      else m (p + 1 + of_nat l) = 0"
      using Suc.prems(5) prec by (auto simp: add.assoc)
  qed
  then show ?case using p prec
    by (subst str_loop.simps) (auto simp: str_bytes_Suc)
qed

lemma conv_str_list:
  assumes "ok s" "\<And>x. safe x \<Longrightarrow> mem s x = m x" "str_chars safe m p flags width prec = Some cs"
  shows "conv_str out b ml flags width prec (p # va) idx s =
    Some (idx + of_nat (length cs), va, snd (out_list out b ml cs idx s))"
proof -
  define lim where "lim = (if prec \<noteq> 0 then prec else - 1)"
  define n where "n = unat (strnlen_s m p lim)"
  define l where "l = (if flag flags FLAGS_PRECISION then min n (unat prec) else n)"
  have safe: "safe (p + of_nat i)" if "i \<le> n" for i
    using assms(3) that
    by (fastforce simp: str_chars_def Let_def lim_def [symmetric] n_def [symmetric] list_all_iff split: if_splits)
  have len: "strnlen_s (mem s) p lim = strnlen_s m p lim"
    using assms(2) safe by (intro strnlen_s_cong) (simp add: n_def)
  have stop: "\<not> flag flags FLAGS_PRECISION \<Longrightarrow> m (p + of_nat n) = 0"
    and cs: "cs = pad_chars l width flags (str_bytes m p l)"
    using assms(3) by (auto simp: str_chars_def Let_def lim_def [symmetric] n_def [symmetric] l_def split: if_splits)
  have nz: "m (p + of_nat i) \<noteq> 0" if "i < n" for i using strnlen_s_spec [of m p lim] that n_def by blast
  have fits: "l \<le> unat prec \<and> (l < unat prec \<longrightarrow> m (p + of_nat l) = 0)" if "flag flags FLAGS_PRECISION"
  proof (cases "prec = 0")
    case False
    then show ?thesis using strnlen_s_spec [of m p lim] that by (auto simp: l_def n_def lim_def min_def)
  qed (simp add: l_def that)
  have loop: "str_loop out b ml flags p prec i t = Some (out_list out b ml (str_bytes m p l) i t)"
    if "ok t" "\<And>x. safe x \<Longrightarrow> mem t x = m x" for i t
  proof (rule str_loop_list)
    have "l \<le> n" by (simp add: l_def)
    then show "safe (p + of_nat j)" if "j \<le> l" for j using safe that by simp
    show "m (p + of_nat j) \<noteq> 0" if "j < l" for j using nz that \<open>l \<le> n\<close> by simp
    show "if flag flags FLAGS_PRECISION then l \<le> unat prec \<and> (l < unat prec \<longrightarrow> m (p + of_nat l) = 0)
      else m (p + of_nat l) = 0" using fits stop by (simp add: l_def)
  qed (rule that)+
  define l32 where "l32 = (if flag flags FLAGS_PRECISION
    then (if strnlen_s m p lim < prec then strnlen_s m p lim else prec) else strnlen_s m p lim)"
  have l: "unat l32 = l"
    by (auto simp: l_def n_def l32_def min_def word_less_nat_alt)
  have t: "mem (snd (out_list out b ml xs idx s)) x = m x" if "safe x" for x xs
    using assms(1,2) that by (simp add: out_list_safe)
  show ?thesis
    unfolding conv_str_def va_arg32.simps bind.simps prod.case Let_def lim_def [symmetric] len
      l32_def [symmetric] out_pad_list l cs
    using loop [OF assms(1,2)] loop [OF out_list_ok [OF assms(1)] t] by (simp add: pad_chars_def)
qed

lemma convert_list:
  assumes "ok s" "\<And>x. safe x \<Longrightarrow> mem s x = m x" "conv_chars safe m d flags width prec va = Some (cs, va')"
  shows "convert out b ml d flags width prec va idx s =
    Some (idx + of_nat (length cs), va', snd (out_list out b ml cs idx s))"
proof -
  consider (int) "d \<in> {0x64, 0x69, 0x75, 0x78, 0x58, 0x6F, 0x62}" | (char) "d = 0x63" | (str) "d = 0x73"
    | (ptr) "d = 0x70" | (float) "d \<in> {0x66, 0x46, 0x65, 0x45, 0x67, 0x47}"
    | (other) "d \<notin> {0x64, 0x69, 0x75, 0x78, 0x58, 0x6F, 0x62}" "d \<notin> {0x66, 0x46, 0x65, 0x45, 0x67, 0x47}" "d \<noteq> 0x63" "d \<noteq> 0x73" "d \<noteq> 0x70"
    by blast
  then show ?thesis
  proof cases
    case int
    then show ?thesis using assms(3) by (simp add: convert_def conv_chars_def conv_int_list)
  next
    case char
    then show ?thesis using assms(3) by (auto simp: convert_def conv_chars_def conv_char_list Let_def)
  next
    case str
    then obtain p where "va = p # va'" "str_chars safe m p flags width prec = Some cs"
      using assms(3) by (cases va) (auto simp: conv_chars_def)
    then show ?thesis using str conv_str_list [OF assms(1,2)] by (simp add: convert_def)
  next
    case ptr
    then show ?thesis using assms(3)
      by (auto simp: convert_def conv_chars_def conv_ptr_def Let_def ntoa_list)
  next
    case float
    then have "convert out b ml d flags width prec va idx s = conv_float out b ml d flags width prec va idx s"
      "float_chars d flags width prec va = Some (cs, va')"
      using assms(3) by (auto simp: convert_def conv_chars_def)
    then show ?thesis by (simp add: conv_float_list)
  next
    case other
    then show ?thesis using assms(3) by (auto simp: convert_def conv_chars_def split: if_splits)
  qed
qed

lemma vsnprintf_loop_list:
  assumes "ok s" "\<And>x. safe x \<Longrightarrow> mem s x = m x" "render safe m fmt va = Some cs"
  shows "vsnprintf_loop out b ml fmt va idx s = Some (out_list out b ml cs idx s)"
  using assms
proof (induction fmt arbitrary: va cs idx s rule: measure_induct_rule [where f = length])
  case (less fmt)
  show ?case
  proof (cases fmt)
    case (Cons c r)
    show ?thesis
    proof (cases "c = 0 \<or> c \<noteq> 0x25")
      case True
      then consider "c = 0" | (char) "c \<noteq> 0" "c \<noteq> 0x25" by blast
      then show ?thesis
      proof cases
        case char
        then obtain cs' where cs: "render safe m r va = Some cs'" "cs = c # cs'"
          using less.prems(3) Cons by auto
        have "vsnprintf_loop out b ml r va (idx + 1) (out c b idx ml s)
            = Some (out_list out b ml cs' (idx + 1) (out c b idx ml s))"
          using less.prems(1,2) Cons cs(1) by (intro less.IH) (simp_all add: out_safe out_ok)
        then show ?thesis using Cons char cs by simp
      qed (use less.prems(3) Cons in simp)
    next
      case False
      then obtain flags width prec d r' va1 cs1 va2 cs2 where
        p: "parse_spec r va = Some (flags, width, prec, d # r', va1)"
        "conv_chars safe m d flags width prec va1 = Some (cs1, va2)"
        "render safe m r' va2 = Some cs2" "cs = cs1 @ cs2"
        using less.prems(3) Cons by (auto split: option.splits list.splits prod.splits)
      let ?s = "snd (out_list out b ml cs1 idx s)"
      have "vsnprintf_loop out b ml r' va2 (idx + of_nat (length cs1)) ?s
          = Some (out_list out b ml cs2 (idx + of_nat (length cs1)) ?s)"
        using less.prems(1,2) Cons p(3) parse_spec_length [OF p(1)]
        by (intro less.IH) (simp_all add: out_list_safe out_list_ok)
      then show ?thesis
        using False Cons p convert_list [OF less.prems(1,2) p(2)] by simp
    qed
  qed (use less.prems(3) in simp)
qed

end

section \<open>The output functions of the library\<close>

interpretation buffer_sink: printf_sink out_buffer b ml "\<lambda>x. x \<notin> region b (unat ml)" "\<lambda>_. True"
proof
  fix x c idx and s :: "'a con_scheme"
  assume x: "x \<notin> region b (unat ml)"
  show "mem (out_buffer c b idx ml s) x = mem s x"
    using x by (auto simp: out_buffer_def word_less_nat_alt)
qed simp

interpretation char_sink: printf_sink out_char b ml "\<lambda>x. x \<notin> region video 4000" con_ok
  by unfold_locales (simp_all add: out_char_def putch_frame putch_ok_abs del: in_region)

interpretation null_sink: printf_sink out_null b ml "\<lambda>x. True" "\<lambda>_. True"
  by unfold_locales (simp_all add: out_null_def)

lemma vsnprintf_list:
  assumes "printf_sink out b ml safe ok" "ok s" "b \<noteq> 0" "render safe (mem s) fmt va = Some cs"
  shows "vsnprintf out b ml fmt va s = Some (of_nat (length cs),
    out 0 b (if of_nat (length cs) < ml then of_nat (length cs) else ml - 1) ml (snd (out_list out b ml cs 0 s)))"
  using printf_sink.vsnprintf_loop_list [OF assms(1,2) refl assms(4)] assms(3)
  by (simp add: vsnprintf_def case_prod_unfold)

lemma out_list_char:
  assumes "con_ok s"
  shows "con_ok (snd (out_list out_char b ml cs idx s))"
    and "con_abs (snd (out_list out_char b ml cs idx s)) =
      fold (con_putch (attrib s)) (filter (\<lambda>c. c \<noteq> 0) cs) (con_abs s)"
  using assms
  by (induction cs arbitrary: idx s) (auto simp: out_char_def putch_ok_abs)

text \<open>C17: \<^verbatim>\<open>printf\<close> returns for every format and argument list that the rendering accepts: it puts the rendered
  characters (NUL characters of \<^verbatim>\<open>%c\<close> left out) on the console in order and returns their number.\<close>

theorem printf_prints_rendering:
  assumes "con_ok s" "buffer \<noteq> 0" "render (\<lambda>x. x \<notin> region video 4000) (mem s) fmt va = Some cs"
  shows "\<exists>s'. printf buffer fmt va s = Some (of_nat (length cs), s') \<and> con_ok s'
    \<and> con_abs s' = fold (con_putch (attrib s)) (filter (\<lambda>c. c \<noteq> 0) cs) (con_abs s)"
proof -
  have "printf buffer fmt va s = Some (of_nat (length cs), snd (out_list out_char buffer (- 1) cs 0 s))"
    unfolding printf_def
    using vsnprintf_list [OF char_sink.printf_sink_axioms assms(1,2,3)] by (simp add: out_char_def)
  then show ?thesis using out_list_char [OF assms(1)] by blast
qed

lemma out_list_buffer:
  assumes "length cs + unat idx < 2 ^ 32"
  shows "mem (snd (out_list out_buffer b ml cs idx s)) x =
    (let k = unat (x - b) in if unat idx \<le> k \<and> k < unat idx + length cs \<and> k < unat ml
     then cs ! (k - unat idx) else mem s x)"
  using assms
proof (induction cs arbitrary: idx s)
  case (Cons c cs)
  have idx: "unat (idx + 1) = Suc (unat idx)" using Cons.prems by (simp add: unat_word_ariths)
  have eq: "x = b + idx \<longleftrightarrow> unat (x - b) = unat idx" by (auto simp: word_unat_eq_iff [symmetric] algebra_simps)
  show ?case using Cons.IH [of "idx + 1" "out_buffer c b idx ml s"] Cons.prems
    by (auto simp: Let_def idx eq out_buffer_def word_less_nat_alt nth_Cons' Suc_le_eq)
qed (auto simp: Let_def)

text \<open>C20: \<^verbatim>\<open>snprintf\<close> with a non-zero count writes the first \<open>count - 1\<close> rendered characters and a NUL after
  what it wrote, touches no other byte, and returns the full number of rendered characters.\<close>

theorem snprintf_writes_bounded:
  assumes "buffer \<noteq> 0" "count \<noteq> 0" "length cs < 2 ^ 32"
    and "render (\<lambda>x. x \<notin> region buffer (unat count)) (mem s) fmt va = Some cs"
  shows "\<exists>s'. snprintf buffer count fmt va s = Some (of_nat (length cs), s')
    \<and> (\<forall>x. mem s' x = (let k = unat (x - buffer); n = min (length cs) (unat count - 1) in
         if k < n then cs ! k else if k = n then 0 else mem s x))"
proof -
  define t where "t = snd (out_list out_buffer buffer count cs 0 s)"
  define e :: u32 where "e = (if of_nat (length cs) < count then of_nat (length cs) else count - 1)"
  have c: "0 < unat count" using assms(2) by (simp add: unat_gt_0)
  have e: "unat e = min (length cs) (unat count - 1)"
    using assms(2,3) c by (auto simp: e_def unat_of_nat word_less_nat_alt unat_minus_one min_def)
  then have "e < count" using c by (auto simp: word_less_nat_alt)
  then have "snprintf buffer count fmt va s = Some (of_nat (length cs), t\<lparr>mem := (mem t)(buffer + e := 0)\<rparr>)"
    unfolding snprintf_def using vsnprintf_list [OF buffer_sink.printf_sink_axioms TrueI assms(1,4)]
    by (simp add: e_def [symmetric] t_def [symmetric] out_buffer_def)
  moreover have "((mem t)(buffer + e := 0)) x = (let k = unat (x - buffer); n = min (length cs) (unat count - 1) in
         if k < n then cs ! k else if k = n then 0 else mem s x)" for x
  proof -
    have "x = buffer + e \<longleftrightarrow> unat (x - buffer) = unat e" by (auto simp: word_unat_eq_iff [symmetric] algebra_simps)
    moreover have "mem t x = (let k = unat (x - buffer) in if k < length cs \<and> k < unat count then cs ! k else mem s x)"
      using out_list_buffer [of cs 0 buffer count s x] assms(3) by (simp add: t_def Let_def)
    ultimately show ?thesis by (auto simp: Let_def e)
  qed
  ultimately show ?thesis by auto
qed

text \<open>C26: The conversions never write past the 32 bytes of their buffer, whatever value, base, precision, width and
  flags they are given: the integer conversions at both widths, and the fixed-point conversion of a \<^verbatim>\<open>double\<close>
  where it gets as far as filling its buffer.\<close>

theorem ntoa_buffer_bound:
  "length (ntoa_value (v :: 'w::len word) base flags) \<le> PRINTF_NTOA_BUFFER_SIZE
   \<and> length (ntoa_buf (ntoa_value v base flags) negative base' prec width flags') \<le> PRINTF_NTOA_BUFFER_SIZE
   \<and> (case ftoa_buf d fprec width flags of None \<Rightarrow> True | Some buf \<Rightarrow> length buf \<le> PRINTF_FTOA_BUFFER_SIZE)"
  using ftoa_buf_length [of d fprec width flags]
  by (simp add: ntoa_value_length ntoa_buf_length split: option.split)

section \<open>Numerals\<close>

text \<open>Reading digits back.\<close>

definition digit_value :: "u8 \<Rightarrow> nat" where
  "digit_value c = (if c < 0x3A then unat c - 0x30 else if c < 0x5B then unat c - 0x41 + 10 else unat c - 0x61 + 10)"

definition numeral_value :: "nat \<Rightarrow> u8 list \<Rightarrow> nat" where
  "numeral_value b cs = foldl (\<lambda>n c. n * b + digit_value c) 0 cs"

lemma digit_value_char: "unat d < 16 \<Longrightarrow> digit_value (digit_char flags d) = unat d"
proof -
  assume "unat d < 16"
  then have "d \<in> set (map word_of_nat [0..<16])" by (rule byte_enum)
  moreover have "\<forall>d \<in> set (map word_of_nat [0..<16]). (0x30 + d < 0x3A \<longleftrightarrow> d < (10 :: u8))" by code_simp
  moreover have "\<forall>d \<in> set (map word_of_nat [0..<16]). d < (10 :: u8) \<longrightarrow> unat (0x30 + d) - 0x30 = unat d" by code_simp
  moreover have "\<forall>d \<in> set (map word_of_nat [0..<16]). \<not> d < (10 :: u8) \<longrightarrow>
      \<not> 0x41 + d - 10 < 0x3A \<and> 0x41 + d - 10 < 0x5B \<and> unat (0x41 + d - 10) - 0x41 + 10 = unat d
      \<and> \<not> 0x61 + d - 10 < 0x3A \<and> \<not> 0x61 + d - 10 < 0x5B \<and> unat (0x61 + d - 10) - 0x61 + 10 = unat d" by code_simp
  ultimately show ?thesis unfolding digit_value_def digit_char_def by fastforce
qed

lemma numeral_value_snoc: "numeral_value b (xs @ [c]) = numeral_value b xs * b + digit_value c"
  by (simp add: numeral_value_def)

lemma unat_mod_ucast:
  fixes v base :: "'w::len word"
  assumes "2 \<le> unat base" "unat base \<le> 16"
  shows "unat (ucast (v mod base) :: u8) = unat v mod unat base"
proof -
  have "unat v mod unat base < unat base" using assms by simp
  then have "unat v mod unat base < 256" using assms by linarith
  then show ?thesis by (simp add: unsigned_ucast_eq unat_mod take_bit_eq_mod)
qed

lemma ntoa_digits_numeral:
  fixes v base :: "'w::len word"
  assumes "2 \<le> unat base" "unat base \<le> 16" "length buf < 32" "unat v < unat base ^ (32 - length buf)"
  shows "\<exists>ds. ntoa_digits flags base v buf = buf @ ds \<and> ds \<noteq> [] \<and> numeral_value (unat base) (rev ds) = unat v
    \<and> (last ds = 0x30 \<longrightarrow> v = 0 \<and> ds = [0x30]) \<and> (v \<noteq> 0 \<longrightarrow> unat base ^ (length ds - 1) \<le> unat v)"
  using assms
proof (induction flags base v buf rule: ntoa_digits.induct)
  case (1 flags base v buf)
  let ?d = "digit_char flags (ucast (v mod base))"
  have d: "digit_value ?d = unat v mod unat base"
    using 1(2,3) mod_less_divisor [of "unat base" "unat v"]
    by (subst digit_value_char) (simp_all add: unat_mod_ucast del: mod_less_divisor)
  have q: "unat (v div base) = unat v div unat base" by (simp add: unat_div)
  show ?case
  proof (cases "v div base \<noteq> 0 \<and> length (buf @ [?d]) < 32")
    case True
    have "32 - length buf = Suc (32 - length (buf @ [?d]))" using 1(4) by simp
    then have "unat v < unat base * unat base ^ (32 - length (buf @ [?d]))"
      using 1(5) by (simp only: power_Suc)
    then have "unat (v div base) < unat base ^ (32 - length (buf @ [?d]))"
      unfolding q using 1(2) by (simp add: less_mult_imp_div_less mult.commute)
    then obtain ds where ds: "ntoa_digits flags base (v div base) (buf @ [?d]) = (buf @ [?d]) @ ds" "ds \<noteq> []"
      "numeral_value (unat base) (rev ds) = unat v div unat base" "last ds = 0x30 \<longrightarrow> v div base = 0" "unat base ^ (length ds - 1) \<le> unat v div unat base"
      using 1(1) [OF refl refl refl True] 1(2,3) True q by auto
    have "unat base ^ length ds = unat base ^ (length ds - 1) * unat base"
      using ds(2) by (cases ds) (simp_all add: mult.commute)
    also have "\<dots> \<le> unat v div unat base * unat base" using ds(5) by simp
    also have "\<dots> \<le> unat v" by simp
    finally have "unat base ^ length ds \<le> unat v" .
    then show ?thesis using True d ds
      by (intro exI [of _ "?d # ds"]) (auto simp: ntoa_digits.simps [of flags base v buf] Let_def numeral_value_snoc)
  next
    case False
    have "v div base = 0"
    proof (rule ccontr)
      assume nz: "v div base \<noteq> 0"
      with False 1(4) have "length buf = 31" by simp
      with 1(5) have "unat v < unat base" by simp
      then have "unat (v div base) = 0" by (simp add: q)
      with nz show False by (simp add: word_unat_eq_iff)
    qed
    then have "unat v div unat base = 0" using q by (metis unsigned_0)
    then have v: "unat v mod unat base = unat v" using 1(2) by (auto simp: div_eq_0_iff)
    have "v = 0" if "?d = 0x30"
    proof -
      have "unat v = 0" using d v that by (simp add: digit_value_def)
      then show ?thesis by (simp add: word_unat_eq_iff)
    qed
    moreover have "1 \<le> unat v" if "v \<noteq> 0" using that by (simp add: unat_gt_0 Suc_le_eq)
    ultimately show ?thesis using \<open>v div base = 0\<close> d v
      by (intro exI [of _ "[?d]"]) (auto simp: ntoa_digits.simps [of flags base v buf] Let_def numeral_value_def)
  qed
qed

text \<open>The digits of a value below \<open>base ^ 32\<close> (every 32-bit value; every 64-bit value but in base 2) are its
  numeral in that base, without leading zeros.\<close>

theorem ntoa_value_is_numeral:
  fixes v base :: "'w::len word"
  assumes "2 \<le> unat base" "unat base \<le> 16" "unat v < unat base ^ 32" "\<not> flag flags FLAGS_PRECISION"
  shows "numeral_value (unat base) (rev (ntoa_value v base flags)) = unat v
    \<and> (hd (rev (ntoa_value v base flags)) = 0x30 \<longrightarrow> v = 0 \<and> ntoa_value v base flags = [0x30])"
  using ntoa_digits_numeral [OF assms(1,2), of "[]" v flags] assms(3,4)
  by (auto simp: ntoa_value_def hd_rev)

lemma unat_magnitude: "unat (magnitude v) = nat \<bar>sint (v :: u32)\<bar>"
proof -
  have u: "uint v = sint v mod 2 ^ 32" by (simp add: uint_sint take_bit_eq_mod)
  have r: "- (2 ^ 31) \<le> sint v" "sint v < 2 ^ 31"
    using sint_greater_eq [of v] sint_lt [of v] by simp_all
  have "uint (magnitude v) = \<bar>sint v\<bar>"
  proof (cases "0 <s v")
    case True
    then have "0 < sint v" by (simp add: word_sless_alt)
    then show ?thesis using True r u by (simp add: magnitude_def)
  next
    case False
    then have "sint v \<le> 0" by (simp add: word_sless_alt)
    moreover have "uint (- v) = (- sint v) mod 2 ^ 32"
      by (simp add: uint_word_ariths(4) u mod_minus_eq)
    ultimately show ?thesis using False r by (simp add: magnitude_def)
  qed
  then show ?thesis by (simp add: nat_uint_eq [symmetric] del: nat_uint_eq)
qed

text \<open>The decimal numeral of a number: its digits without leading zeros, and a single zero for 0.\<close>

fun decimal :: "nat \<Rightarrow> u8 list" where
  "decimal n = (if n < 10 then [] else decimal (n div 10)) @ [0x30 + word_of_nat (n mod 10)]"

declare decimal.simps [simp del]

lemma decimal_char:
  assumes "k < 10"
  shows "digit_char 0 (word_of_nat k) = 0x30 + word_of_nat k" "(0x30 + word_of_nat k :: u8) \<noteq> 0"
proof -
  have "unat (0x30 + word_of_nat k :: u8) = 0x30 + k" using assms by (simp add: unat_word_ariths unat_of_nat)
  then show "(0x30 + word_of_nat k :: u8) \<noteq> 0" by auto
  show "digit_char 0 (word_of_nat k) = 0x30 + word_of_nat k" using assms by (simp add: digit_char_def word_less_nat_alt unat_of_nat)
qed

lemma decimal_no_nul: "0 \<notin> set (decimal n)"
  by (induction n rule: decimal.induct) (subst decimal.simps, use decimal_char(2) in \<open>auto simp: eq_commute [of 0]\<close>)

lemma ntoa_digits_decimal:
  fixes v :: u32
  assumes "length buf < 32" "unat v < 10 ^ (32 - length buf)"
  shows "ntoa_digits 0 10 v buf = buf @ rev (decimal (unat v))"
  using assms
proof (induction "unat v" arbitrary: v buf rule: less_induct)
  case less
  have d: "digit_char 0 (ucast (v mod 10)) = 0x30 + word_of_nat (unat v mod 10)"
  proof -
    have "unat v mod 10 = unat (v mod 10)" by (simp add: unat_mod)
    moreover have "(word_of_nat (unat (v mod 10)) :: u8) = ucast (v mod 10)" by (simp only: of_nat_unat)
    ultimately show ?thesis using decimal_char(1) [of "unat v mod 10"] by simp
  qed
  have q: "unat (v div 10) = unat v div 10" by (simp add: unat_div)
  show ?case
  proof (cases "unat v < 10")
    case True
    then have "v div 10 = 0" using q by (simp add: word_unat_eq_iff)
    then show ?thesis using True d by (simp add: ntoa_digits.simps [of 0 10 v buf] decimal.simps [of "unat v"])
  next
    case False
    have len: "length buf < 31"
    proof (rule ccontr)
      assume "\<not> length buf < 31"
      then have "32 - length buf = 1" using less.prems(1) by linarith
      then show False using less.prems(2) False by simp
    qed
    then have "32 - length buf = Suc (32 - length (buf @ [digit_char 0 (ucast (v mod 10))]))" by simp
    then have "unat v < 10 * 10 ^ (32 - length (buf @ [digit_char 0 (ucast (v mod 10))]))" using less.prems(2) by (simp only: power_Suc)
    then have "unat (v div 10) < 10 ^ (32 - length (buf @ [digit_char 0 (ucast (v mod 10))]))"
      unfolding q by (simp only: less_mult_imp_div_less mult.commute)
    moreover have "unat (v div 10) < unat v" "v div 10 \<noteq> 0" using False q by (auto simp: word_unat_eq_iff)
    ultimately have "ntoa_digits 0 10 (v div 10) (buf @ [digit_char 0 (ucast (v mod 10))])
        = (buf @ [digit_char 0 (ucast (v mod 10))]) @ rev (decimal (unat v div 10))" using less.hyps len q by simp
    then show ?thesis using False d len \<open>v div 10 \<noteq> 0\<close>
      by (simp add: ntoa_digits.simps [of 0 10 v buf] decimal.simps [of "unat v"])
  qed
qed

lemma render_signed_decimal:
  "render safe m (cbytes ''%d'') [w] = Some ((if sint w < 0 then [0x2D] else []) @ decimal (nat \<bar>sint w\<bar>))"
proof -
  define v where "v = magnitude w"
  have v: "unat v = nat \<bar>sint w\<bar>" by (simp add: v_def unat_magnitude)
  have "unat v < 10 ^ 32" by (rule less_le_trans [OF unat_lt32]) simp
  then obtain ds where ds: "ntoa_digits 0 10 v [] = ds" "v \<noteq> 0 \<longrightarrow> 10 ^ (length ds - 1) \<le> unat v"
    using ntoa_digits_numeral [of "10 :: u32" "[]" v 0] by auto
  have dec: "rev ds = decimal (nat \<bar>sint w\<bar>)" using ntoa_digits_decimal [of "[]" v] \<open>unat v < 10 ^ 32\<close> ds(1) v by auto
  have len: "length ds < 32" if "v \<noteq> 0"
  proof (rule ccontr)
    assume "\<not> length ds < 32"
    then have "(10::nat) ^ 31 \<le> 10 ^ (length ds - 1)" by (intro power_increasing) auto
    also have "\<dots> \<le> unat v" using ds(2) that by simp
    finally show False using unat_lt32 [of v] by simp
  qed
  have neg: "w <s 0 \<longleftrightarrow> sint w < 0" by (simp add: word_sless_alt)
  have nz: "v \<noteq> 0" if "sint w < 0" using v that by (auto simp: word_unat_eq_iff)
  have f: "ntoa_flags v 0 = 0" "ntoa_value v 10 0 = ds"
    by (simp_all add: ntoa_flags_def ntoa_value_def flag_def ds(1))
  have "ntoa_chars v (w <s 0) 10 0 0 0 = (if sint w < 0 then [0x2D] else []) @ rev ds"
    using len nz by (simp add: ntoa_chars_def f flag_def ntoa_buf_def ntoa_width_def
      ntoa_zeros_def zero_fill_eq ntoa_hash_def ntoa_sign_def put_buf_def rev_chars_def Let_def neg)
  then show ?thesis unfolding dec [symmetric]
    by (simp add: cbytes_def parse_spec_def is_digit_def conv_chars_def int_chars_def int_base_def int_flags_def
        flag_def narrow_signed_def Let_def v_def)
qed

text \<open>A format that ends in a lone \<^verbatim>\<open>%\<close> makes \<^verbatim>\<open>printf\<close> step over the terminator and read past the format.\<close>

theorem printf_trailing_percent:
  assumes "\<forall>c \<in> set cs. c \<noteq> 0 \<and> c \<noteq> 0x25"
  shows "printf buffer (cs @ [0x25, 0]) va s = None"
proof -
  have "vsnprintf_loop out buffer maxlen (cs @ [0x25, 0]) va idx s = None"
    for out :: "'a outf" and maxlen idx and s :: "'a con_scheme"
    using assms by (induction cs arbitrary: idx s)
      (simp_all add: parse_spec_def is_digit_def convert_def)
  then show ?thesis by (simp add: printf_def vsnprintf_def)
qed

section \<open>Concrete instances\<close>

definition sample_con :: con where
  "sample_con = \<lparr>mem = (\<lambda>_. 0)(16 := 72, 17 := 105), io = [], csr_x = 0, csr_y = 0, attrib = 7\<rparr>"

text \<open>\<^verbatim>\<open>printf("%s=%02x", "Hi", 10)\<close>.\<close>

lemma sample_render:
  "safe 16 \<Longrightarrow> safe 17 \<Longrightarrow> safe 18 \<Longrightarrow> render safe (mem sample_con) [0x25, 0x73, 0x3D, 0x25, 0x30, 0x32, 0x78, 0] [16, 10] =
     Some [72, 105, 0x3D, 0x30, 0x61]"
proof -
  assume safe: "safe 16" "safe 17" "safe 18"
  have ms: "mem sample_con 16 = 72" "mem sample_con 17 = 105" "mem sample_con 18 = 0"
    by (simp_all add: sample_con_def)
  have us: "[0..<3] = [0, 1, 2 :: nat]" "[0..<2] = [0, 1 :: nat]" by (simp_all add: upt_rec)
  have n: "strnlen_s (mem sample_con) 16 (- 1) = 2"
    by (simp add: strnlen_s.simps [of _ 16] strnlen_s.simps [of _ 17] strnlen_s.simps [of _ 18] ms)
  have "str_chars safe (mem sample_con) 16 0 0 0 = Some [72, 105]"
    by (simp add: safe str_chars_def n ms flag_def Let_def pad_chars_def str_bytes_def us)
  moreover have "ntoa_chars (10 :: u32) False 16 0 2 1 = [0x30, 0x61]"
    by (simp add: ntoa_chars_def ntoa_flags_def ntoa_value_def flag_def ntoa_digits.simps [of _ _ "10 :: u32" "[]"]
      digit_char_def ntoa_buf_def ntoa_width_def
      ntoa_zeros_def zero_fill_eq ntoa_hash_def ntoa_sign_def put_buf_def rev_chars_def Let_def)
  ultimately show ?thesis
    by (simp add: parse_spec_def is_digit_def conv_chars_def int_chars_def int_base_def int_flags_def
        flag_def narrow_unsigned_def Let_def)
qed

theorem printf_prints_rendering_witness:
  "\<exists>s'. printf 1 [0x25, 0x73, 0x3D, 0x25, 0x30, 0x32, 0x78, 0] [16, 10] sample_con = Some (5, s')
     \<and> con_abs s' = fold (con_putch 7) [72, 105, 0x3D, 0x30, 0x61] (con_abs sample_con)"
proof -
  have "con_ok sample_con" "attrib sample_con = 7" by (simp_all add: con_ok_def sample_con_def)
  then show ?thesis
    using printf_prints_rendering [OF _ _ sample_render, of 1] by (auto simp: video_def)
qed

theorem snprintf_writes_bounded_witness:
  "\<exists>s'. snprintf 100 4 [0x25, 0x73, 0x3D, 0x25, 0x30, 0x32, 0x78, 0] [16, 10] sample_con = Some (5, s')
     \<and> mem s' 100 = 72 \<and> mem s' 102 = 0x3D \<and> mem s' 103 = 0 \<and> mem s' 104 = mem sample_con 104"
proof -
  have r: "render (\<lambda>x. x \<notin> region 100 (unat (4 :: u32))) (mem sample_con)
      [0x25, 0x73, 0x3D, 0x25, 0x30, 0x32, 0x78, 0] [16, 10] = Some [72, 105, 0x3D, 0x30, 0x61]"
    by (rule sample_render) simp_all
  obtain s' where s': "snprintf 100 4 [0x25, 0x73, 0x3D, 0x25, 0x30, 0x32, 0x78, 0] [16, 10] sample_con = Some (5, s')"
    "\<And>x. mem s' x = (let k = unat (x - 100); n = 3 in
         if k < n then [72, 105, 0x3D, 0x30, 0x61] ! k else if k = n then 0 else mem sample_con x)"
    using snprintf_writes_bounded [OF _ _ _ r] by (auto simp: numeral_3_eq_3)
  from s'(1) show ?thesis by (intro exI [of _ s']) (simp add: s'(2))
qed

theorem ntoa_value_is_numeral_witness:
  "numeral_value 16 (rev (ntoa_value (0xBEEF :: u64) 16 0)) = 0xBEEF"
  using ntoa_value_is_numeral [of "16 :: u64" "0xBEEF" 0] by (simp add: flag_def)

theorem printf_trailing_percent_witness: "printf 1 [0x35, 0x30, 0x25, 0] [] sample_con = None"
  using printf_trailing_percent [of "[0x35, 0x30]"] by simp

end
