(* ===== verification/Frog_Text.thy ===== *)
theory Frog_Text
  imports Frog_Printf
begin

text \<open>
  What the callers of \<^verbatim>\<open>printf\<close> need of it: printing a text as a relation between states, and the
  characters of the conversions with a fixed number of digits.
\<close>

section \<open>Printing a text\<close>

text \<open>The characters of \<open>cs\<close> appear on the console in order; outside the video memory, the console and
  the cursor registers nothing changes.\<close>

fun cursor_event :: "io_event \<Rightarrow> bool" where
  "cursor_event (OutB p b) \<longleftrightarrow> p = 0x3D4 \<or> p = 0x3D5"
| "cursor_event _ \<longleftrightarrow> False"

definition prints :: "u8 list \<Rightarrow> 'a con_scheme \<Rightarrow> 'a con_scheme \<Rightarrow> bool" where
  "prints cs s s' \<longleftrightarrow> con_ok s' \<and> con_abs s' = fold (con_putch (attrib s)) cs (con_abs s) \<and> attrib s' = attrib s
     \<and> con.more s' = con.more s \<and> (\<forall>x. x \<notin> region video 4000 \<longrightarrow> mem s' x = mem s x)
     \<and> (\<exists>es. io s' = io s @ es \<and> list_all cursor_event es)"

lemma prints_nil: "con_ok s \<Longrightarrow> prints [] s s"
  by (simp add: prints_def)

lemma prints_trans: "prints xs s t \<Longrightarrow> prints ys t u \<Longrightarrow> prints (xs @ ys) s u"
  by (auto simp: prints_def)

lemma prints_con_ok: "prints cs s s' \<Longrightarrow> con_ok s'"
  by (simp add: prints_def)

lemma prints_mem: "prints cs s s' \<Longrightarrow> x \<notin> region video 4000 \<Longrightarrow> mem s' x = mem s x"
  by (simp add: prints_def)

lemma out_list_char_rest:
  "attrib (snd (out_list out_char b ml cs idx s)) = attrib s"
  "con.more (snd (out_list out_char b ml cs idx s)) = con.more s"
  by (induction cs arbitrary: idx s) (simp_all add: out_char_def)

lemma out_list_char_io: "\<exists>es. io (snd (out_list out_char b ml cs idx s)) = io s @ es \<and> list_all cursor_event es"
proof (induction cs arbitrary: idx s)
  case (Cons c cs)
  obtain es1 where "io (out_char c b idx ml s) = io s @ es1" "list_all cursor_event es1"
    using putch_io [of c s] by (cases "c = 0") (fastforce simp: out_char_def)+
  moreover obtain es2 where "io (snd (out_list out_char b ml cs (idx + 1) (out_char c b idx ml s))) = io (out_char c b idx ml s) @ es2"
    "list_all cursor_event es2" using Cons.IH by blast
  ultimately show ?case by (intro exI [of _ "es1 @ es2"]) simp
qed simp

lemma printf_text:
  assumes "con_ok s" "b \<noteq> 0" "render (\<lambda>x. x \<notin> region video 4000) (mem s) fmt va = Some cs" "0 \<notin> set cs"
  shows "\<exists>s'. printf b fmt va s = Some (of_nat (length cs), s') \<and> prints cs s s'"
proof -
  have "printf b fmt va s = Some (of_nat (length cs), snd (out_list out_char b (- 1) cs 0 s))"
    unfolding printf_def
    using vsnprintf_list [OF char_sink.printf_sink_axioms assms(1,2,3)] by (simp add: out_char_def)
  moreover have "filter (\<lambda>c. c \<noteq> 0) cs = cs" using assms(4) by (intro filter_True) metis
  then have "prints cs s (snd (out_list out_char b (- 1) cs 0 s))"
    using out_list_char [OF assms(1), of b "- 1" cs 0]
    by (simp add: prints_def out_list_char_rest out_list_char_io char_sink.out_list_safe [OF assms(1)] del: in_region)
  ultimately show ?thesis by blast
qed

lemma prints_putch:
  assumes "con_ok s"
  shows "prints [c] s (putch c s)"
proof -
  have "\<exists>es. io (putch c s) = io s @ es \<and> list_all cursor_event es" using putch_io [of c s] by fastforce
  then show ?thesis using putch_ok_abs [OF assms] putch_frame [OF assms] by (simp add: prints_def del: in_region)
qed

lemma prints_putchs: "con_ok s \<Longrightarrow> prints cs s (foldl (\<lambda>s c. putch c s) s cs)"
proof (induction cs arbitrary: s)
  case (Cons c cs)
  have "prints [c] s (putch c s)" using Cons.prems by (rule prints_putch)
  then show ?case using Cons.IH [OF prints_con_ok] prints_trans by fastforce
qed (simp add: prints_nil)

lemma puts_text:
  assumes "con_ok s" "cstr (mem s) p bs" "length bs < 2 ^ 32" "\<forall>k \<le> length bs. p + of_nat k \<notin> region video 4000"
  shows "\<exists>s'. puts p s = Some s' \<and> prints bs s s'"
  using puts_loop_string [of s p bs 0] assms prints_putchs [OF assms(1), of bs] by (auto simp: puts_def simp del: in_region)

text \<open>Clearing the screen.\<close>

lemma cls_frame:
  "con_ok (cls s) \<and> attrib (cls s) = attrib s \<and> con.more (cls s) = con.more s \<and> (\<forall>x. x \<notin> region video 4000 \<longrightarrow> mem (cls s) x = mem s x)"
proof -
  have "mem (cls s) x = mem s x" if "x \<notin> region video 4000" for x
    using that by (simp add: cls_def memsetw_apply del: in_region)
  then show ?thesis by (simp add: cls_def con_ok_def move_csr_def outportb_def Let_def)
qed

section \<open>Decimal numbers\<close>

text \<open>C25: \<^verbatim>\<open>%d\<close> prints the signed value of its argument in decimal, for every argument: a minus sign if it is negative, then
  the digits of its magnitude without leading zeros (one zero for 0), and nothing else; the result is the number of characters.\<close>

theorem printf_signed_decimal:
  fixes w :: u32
  assumes "con_ok s" "b \<noteq> 0"
  shows "\<exists>s'. let cs = (if sint w < 0 then [0x2D] else []) @ decimal (nat \<bar>sint w\<bar>)
    in printf b (cbytes ''%d'') [w] s = Some (of_nat (length cs), s') \<and> prints cs s s'"
  using printf_text [OF assms render_signed_decimal] decimal_no_nul by (simp add: Let_def)

theorem printf_signed_decimal_witness:
  "\<exists>s'. printf 1 (cbytes ''%d'') [- 120] sample_con = Some (4, s') \<and> prints [0x2D, 0x31, 0x32, 0x30] sample_con s'"
proof -
  have "con_ok sample_con" by (simp add: con_ok_def sample_con_def)
  from printf_signed_decimal [OF this, of 1 "- 120"] show ?thesis by (simp add: decimal.simps)
qed

section \<open>Hexadecimal digits\<close>

text \<open>The \<open>n\<close> lowest hexadecimal digits of a value, the most significant first.\<close>

definition hex_text :: "u32 \<Rightarrow> nat \<Rightarrow> 'w::len word \<Rightarrow> u8 list" where
  "hex_text flags n v = rev (map (\<lambda>i. digit_char flags (of_nat (unat v div 16 ^ i mod 16))) [0..<n])"

lemma digit_char_0: "digit_char flags 0 = 0x30"
  by (simp add: digit_char_def)

lemma hex_digits_pad:
  fixes v :: "'w::len word"
  assumes "unat (16 :: 'w word) = 16" "0 < n" "unat v < 16 ^ n" "length buf + n \<le> 32"
  shows "\<exists>k \<le> n. ntoa_digits flags 16 v buf @ replicate (n - k) 0x30 =
      buf @ map (\<lambda>i. digit_char flags (of_nat (unat v div 16 ^ i mod 16))) [0..<n]
    \<and> length (ntoa_digits flags 16 v buf) = length buf + k"
  using assms(2-)
proof (induction n arbitrary: v buf)
  case (Suc n)
  let ?d = "digit_char flags (ucast (v mod 16))"
  have d: "?d = digit_char flags (of_nat (unat v div 16 ^ 0 mod 16))"
  proof -
    have "ucast (v mod 16) = (of_nat (unat (v mod 16)) :: u8)" by (simp only: of_nat_unat)
    then show ?thesis by (simp only: unat_mod assms(1) power_0 div_by_1)
  qed
  have q: "unat (v div 16) = unat v div 16" by (simp only: unat_div assms(1))
  have list: "map (\<lambda>i. digit_char flags (of_nat (unat v div 16 ^ i mod 16))) [0..<Suc n]
    = ?d # map (\<lambda>i. digit_char flags (of_nat (unat (v div 16) div 16 ^ i mod 16))) [0..<n]"
    unfolding d q by (simp add: upt_conv_Cons div_mult2_eq flip: map_Suc_upt del: upt_Suc)
  show ?case
  proof (cases "v div 16 \<noteq> 0 \<and> length (buf @ [?d]) < 32")
    case True
    then have "unat v div 16 \<noteq> 0" using q by (metis unat_eq_zero)
    then have "0 < n" using Suc.prems(2) by (cases n) auto
    moreover have "unat (v div 16) < 16 ^ n" using Suc.prems(2) q by (simp add: less_mult_imp_div_less mult.commute)
    ultimately obtain k where "k \<le> n" "ntoa_digits flags 16 (v div 16) (buf @ [?d]) @ replicate (n - k) 0x30 =
        (buf @ [?d]) @ map (\<lambda>i. digit_char flags (of_nat (unat (v div 16) div 16 ^ i mod 16))) [0..<n]"
      "length (ntoa_digits flags 16 (v div 16) (buf @ [?d])) = length (buf @ [?d]) + k"
      using Suc.IH [of "v div 16" "buf @ [?d]"] Suc.prems(3) by auto
    then show ?thesis unfolding list using True
      by (intro exI [of _ "Suc k"]) (simp add: ntoa_digits.simps [of flags 16 v buf] Let_def)
  next
    case False
    have "map (\<lambda>i. digit_char flags (of_nat (unat (v div 16) div 16 ^ i mod 16))) [0..<n] = replicate n 0x30"
    proof (cases "v div 16 = 0")
      case True
      then show ?thesis by (simp add: map_replicate_const digit_char_0)
    next
      case nz: False
      then have "n = 0" using False Suc.prems(3) by simp
      then show ?thesis by simp
    qed
    then show ?thesis unfolding list using False
      by (intro exI [of _ 1]) (auto simp: ntoa_digits.simps [of flags 16 v buf] Let_def)
  qed
qed simp

lemma hex_text_no_nul: "0 \<notin> set (hex_text flags n v)"
proof -
  have "digit_char flags (of_nat k) \<noteq> 0" if "k < 16" for k
  proof
    assume "digit_char flags (of_nat k) = 0"
    moreover have "unat (of_nat k :: u8) = k" using that by (simp add: unat_of_nat)
    ultimately show False using digit_value_char [of "of_nat k" flags] that
      by (auto simp: digit_value_def digit_char_def word_less_nat_alt split: if_splits)
  qed
  then show ?thesis by (auto simp: hex_text_def)
qed


lemma ntoa_chars_hex:
  fixes v :: "'w::len word"
  assumes "unat (16 :: 'w word) = 16" "f \<in> {0x1, 0x21}" "0 < n" "n \<le> 32" "unat v < 16 ^ n"
  shows "ntoa_chars v False 16 0 (of_nat n) f = hex_text f n v"
proof -
  have n: "unat (of_nat n :: u32) = n" using assms(4) by (simp add: unat_of_nat)
  have f: "ntoa_flags v f = f" "\<not> flag f FLAGS_LEFT" "\<not> flag f FLAGS_HASH" "\<not> flag f FLAGS_PRECISION" "\<not> flag f FLAGS_PLUS"
    "\<not> flag f FLAGS_SPACE" "\<not> flag f 12" "flag f FLAGS_ZEROPAD"
    using assms(2) by (auto simp: ntoa_flags_def flag_def)
  obtain k where k: "k \<le> n" "ntoa_digits f 16 v [] @ replicate (n - k) 0x30 =
      map (\<lambda>i. digit_char f (of_nat (unat v div 16 ^ i mod 16))) [0..<n]" "length (ntoa_digits f 16 v []) = k"
    using hex_digits_pad [OF assms(1,3,5), of "[]" f] assms(4) by auto
  have "ntoa_buf (ntoa_value v 16 f) False (ucast (16 :: 'w word)) 0 (of_nat n) f = ntoa_digits f 16 v [] @ replicate (n - k) 0x30"
    using assms(4) k n by (simp add: ntoa_buf_def ntoa_sign_def ntoa_hash_def ntoa_zeros_def ntoa_width_def ntoa_value_def f zero_fill_eq)
  then show ?thesis using f n
    by (simp add: ntoa_chars_def Let_def ntoa_width_def rev_chars_def hex_text_def k)
qed

lemma ntoa_chars_p: "ntoa_chars (w :: u32) False 16 0 8 0x21 = hex_text 0x21 8 w"
  using ntoa_chars_hex [of "0x21" 8 w] unat_lt32 [of w] by simp

lemma ntoa_chars_02x: "ntoa_chars (ucast (w :: u8) :: u32) False 16 0 2 0x1 = hex_text 0x1 2 w"
proof -
  have "unat (ucast w :: u32) = unat w" by (simp add: unsigned_ucast_eq)
  moreover have "unat w < 2 ^ LENGTH(8)" by (rule unsigned_less)
  ultimately show ?thesis using ntoa_chars_hex [of "0x1" 2 "ucast w :: u32"] by (simp add: hex_text_def)
qed

section \<open>Formats\<close>

definition chars :: "string \<Rightarrow> u8 list" where
  "chars str = map of_char str"

lemmas render_defs = cbytes_def chars_def parse_spec_def is_digit_def conv_chars_def int_chars_def int_base_def int_flags_def
  flag_def narrow_unsigned_def ntoa_chars_p ntoa_chars_02x


lemma digit_char_not_0: "unat d < 16 \<Longrightarrow> digit_char flags d \<noteq> 0"
proof
  assume d: "unat d < 16" "digit_char flags d = 0"
  then have "unat d = 0" using digit_value_char [OF d(1), of flags] by (simp add: digit_value_def)
  then have "d = 0" by (simp add: word_unat_eq_iff)
  then show False using d(2) by (simp add: digit_char_def)
qed

lemma ntoa_digits_no_nul:
  fixes base :: "'w::len word"
  shows "2 \<le> unat base \<Longrightarrow> unat base \<le> 16 \<Longrightarrow> 0 \<notin> set buf \<Longrightarrow> 0 \<notin> set (ntoa_digits flags base v buf)"
proof (induction flags base v buf rule: ntoa_digits.induct)
  case (1 flags base v buf)
  have "unat (ucast (v mod base) :: u8) = unat v mod unat base" using 1(2,3) by (rule unat_mod_ucast)
  also have "\<dots> < unat base" using 1(2) by simp
  finally have "digit_char flags (ucast (v mod base)) \<noteq> 0" using 1(3) by (intro digit_char_not_0) simp
  then show ?case using 1 by (subst ntoa_digits.simps) (auto simp: Let_def)
qed

lemma ntoa_chars_no_nul:
  fixes base :: "'w::len word"
  assumes "2 \<le> unat base" "unat base \<le> 16"
  shows "0 \<notin> set (ntoa_chars v neg base prec width flags)"
proof -
  have put: "0 \<notin> set buf \<Longrightarrow> c \<noteq> 0 \<Longrightarrow> 0 \<notin> set (put_buf c buf)" for buf c by (simp add: put_buf_def)
  have "0 \<notin> set (ntoa_value v base f)" for f using assms by (simp add: ntoa_value_def ntoa_digits_no_nul)
  moreover have "0 \<notin> set buf \<Longrightarrow> 0 \<notin> set (ntoa_zeros prec w f buf)" for w f buf by (simp add: ntoa_zeros_def zero_fill_eq Let_def)
  moreover have "0 \<notin> set (ntoa_hash bs prec w f buf)" if b: "0 \<notin> set buf" for bs w f buf
  proof -
    have bl: "0 \<notin> set (butlast xs)" if "0 \<notin> set xs" for xs :: "u8 list" using that by (meson in_set_butlastD)
    have tail: "0 \<notin> set (put_buf 0x30 (if A then b1 @ [0x78] else if B then b1 @ [0x58] else if C then b1 @ [0x62] else b1))"
      if "0 \<notin> set b1" for A B C b1 using that by (intro put) simp_all
    have "0 \<notin> set (if A then if B then butlast (butlast buf) else butlast buf else buf)" for A B using b by (simp add: bl)
    note b1 = this
    show ?thesis
    proof (cases "flag f FLAGS_HASH")
      case True
      then show ?thesis unfolding ntoa_hash_def Let_def by (simp only: not_True_eq_False if_False) (rule tail [OF b1])
    next
      case False
      then show ?thesis using b by (simp add: ntoa_hash_def)
    qed
  qed
  moreover have "0 \<notin> set buf \<Longrightarrow> 0 \<notin> set (ntoa_sign neg f buf)" for f buf by (simp add: ntoa_sign_def put)
  ultimately show ?thesis by (simp add: ntoa_chars_def ntoa_buf_def rev_chars_def Let_def)
qed

end
