(* ===== verification/Frog_Rounding.thy ===== *)
theory Frog_Rounding
  imports Frog_Double Complex_Main
begin

text \<open>
  What the floating-point operations compute, in real numbers: rounding to a format errs by at most half a unit of
  the last digit and is exact on the numbers of the format.
\<close>

section \<open>The value of a finite number\<close>

definition rval :: "int \<Rightarrow> int \<Rightarrow> real" where
  "rval m e = of_int m * 2 powi e"

lemma powi_nonneg_nat: "0 \<le> k \<Longrightarrow> (2::real) powi k = of_int (2 ^ nat k)"
  by (simp add: power_int_def)

lemma powi_neg_nat: "k < 0 \<Longrightarrow> (2::real) powi k = 1 / of_int (2 ^ nat (- k))"
  by (simp add: power_int_def field_simps)

lemma scale_ratio:
  assumes "0 < d" "scale a d k = (n, c)"
  shows "0 < c" "of_int n / of_int c = of_int a / of_int d * (2::real) powi k" "0 \<le> a \<Longrightarrow> 0 \<le> n"
  using assms by (auto simp: scale_def powi_nonneg_nat powi_neg_nat split: if_splits)

lemma rval_shift: "e' \<le> e \<Longrightarrow> rval (m * 2 ^ nat (e - e')) e' = rval m e"
  using power_int_add [of "2::real" "e - e'" e'] by (simp add: rval_def powi_nonneg_nat)

lemma rval_sum: "rval (sum_exact m e m' e') (min e e') = rval m e + rval m' e'"
proof -
  have "rval (sum_exact m e m' e') (min e e')
      = rval (m * 2 ^ nat (e - min e e')) (min e e') + rval (m' * 2 ^ nat (e' - min e e')) (min e e')"
    by (simp add: rval_def sum_exact_def Let_def distrib_right)
  then show ?thesis using rval_shift [OF min.cobounded1, of m e e'] rval_shift [OF min.cobounded2, of m' e' e] by simp
qed

section \<open>The binary exponent\<close>

declare blen.simps [simp del]

lemma blen_pos: "0 < a \<Longrightarrow> 0 < blen a"
proof (induction a rule: blen.induct)
  case (1 a)
  have "0 \<le> blen (a div 2)" by (cases "0 < a div 2") (use 1 in \<open>auto simp: blen.simps [of 0]\<close>)
  then show ?case using 1(2) by (subst blen.simps) simp
qed

lemma blen_bounds:
  assumes "0 < a"
  shows "2 powi (blen a - 1) \<le> real_of_int a" "real_of_int a < 2 powi blen a"
proof -
  have "2 ^ nat (blen a - 1) \<le> a \<and> a < 2 ^ nat (blen a)" using assms
  proof (induction a rule: blen.induct)
    case (1 a)
    show ?case
    proof (cases "a = 1")
      case True
      then show ?thesis by (simp add: blen.simps)
    next
      case False
      then have h: "0 < a div 2" "\<not> a \<le> 0" using 1(2) by auto
      have b: "blen a = blen (a div 2) + 1" using h(2) by (subst blen.simps) simp
      have n: "nat (blen a - 1) = Suc (nat (blen (a div 2) - 1))" "nat (blen a) = Suc (nat (blen (a div 2)))"
        using blen_pos [OF h(1)] by (simp_all add: b)
      have "2 ^ nat (blen (a div 2) - 1) \<le> a div 2" "a div 2 < 2 ^ nat (blen (a div 2))" using 1(1) [OF h(2,1)] by simp_all
      then show ?thesis unfolding n power_Suc by linarith
    qed
  qed
  then show "2 powi (blen a - 1) \<le> real_of_int a" "real_of_int a < 2 powi blen a"
    using blen_pos [OF assms] by (simp_all add: powi_nonneg_nat del: of_int_power)
qed

lemma blen_le:
  assumes "0 < a" "real_of_int a < 2 powi k"
  shows "blen a \<le> k"
proof (rule ccontr)
  assume "\<not> blen a \<le> k"
  then have "(2::real) powi k \<le> 2 powi (blen a - 1)" by (intro power_int_increasing) auto
  then show False using blen_bounds(1) [OF assms(1)] assms(2) by linarith
qed

lemma fexp_bounds:
  fixes a d e :: int
  assumes "0 < a" "0 < d"
  defines "x \<equiv> of_int a / of_int d * (2::real) powi e"
  shows "2 powi fexp a d e \<le> x" "x < 2 powi (fexp a d e + 1)"
proof -
  define t where "t = blen a - blen d"
  obtain n c where s: "scale a d (- t) = (n, c)" by fastforce
  note r = scale_ratio [OF assms(2) s]
  have fe: "fexp a d e = (if c \<le> n then t else t - 1) + e" using s by (simp add: fexp_def t_def Let_def)
  let ?y = "of_int a / of_int d :: real"
  have y0: "0 < ?y" using assms by simp
  have up: "?y < 2 powi (t + 1)" and low: "2 powi (t - 1) \<le> ?y"
  proof -
    have d: "2 powi (blen d - 1) \<le> real_of_int d" "real_of_int d < 2 powi blen d" and
      a: "2 powi (blen a - 1) \<le> real_of_int a" "real_of_int a < 2 powi blen a"
      using blen_bounds assms by blast+
    have "?y < 2 powi blen a / 2 powi (blen d - 1)" using a(2) d(1) assms by (intro frac_less) auto
    also have "\<dots> = 2 powi (t + 1)" using power_int_diff [of "2::real" "blen a" "blen d - 1"] by (simp add: t_def algebra_simps)
    finally show "?y < 2 powi (t + 1)" .
    have "2 powi (t - 1) = 2 powi (blen a - 1) / (2::real) powi blen d"
      using power_int_diff [of "2::real" "blen a - 1" "blen d"] by (simp add: t_def algebra_simps)
    also have "\<dots> \<le> ?y" using a(1) d(2) assms by (intro frac_le) auto
    finally show "2 powi (t - 1) \<le> ?y" .
  qed
  have nc: "c \<le> n \<longleftrightarrow> 2 powi t \<le> ?y"
  proof -
    have "c \<le> n \<longleftrightarrow> 1 \<le> real_of_int n / real_of_int c" using r(1) by (simp add: le_divide_eq)
    also have "\<dots> \<longleftrightarrow> 2 powi t \<le> ?y" using pos_le_divide_eq [of "(2::real) powi t" 1 ?y] unfolding r(2) power_int_minus by (simp add: divide_inverse)
    finally show ?thesis .
  qed
  have p: "(2::real) powi (k + e) = 2 powi k * 2 powi e" for k by (simp add: power_int_add)
  have pos: "0 < (2::real) powi e" by simp
  have "2 powi (if c \<le> n then t else t - 1) \<le> ?y \<and> ?y < 2 powi ((if c \<le> n then t else t - 1) + 1)"
    using nc up low by simp
  then have "2 powi (if c \<le> n then t else t - 1) * 2 powi e \<le> ?y * 2 powi e"
    "?y * 2 powi e < 2 powi ((if c \<le> n then t else t - 1) + 1) * 2 powi e"
    using pos by (blast intro: mult_right_mono mult_strict_right_mono less_imp_le)+
  then show "2 powi fexp a d e \<le> x" "x < 2 powi (fexp a d e + 1)"
    unfolding x_def fe p [symmetric] by (simp_all add: algebra_simps)
qed

section \<open>Rounding\<close>

lemma div_even_error:
  assumes "0 < k"
  shows "\<bar>of_int (div_even n k) - of_int n / of_int k\<bar> \<le> (1/2 :: real)"
proof -
  have e: "of_int n / of_int k = of_int (n div k) + of_int (n mod k) / (of_int k :: real)"
    
  proof -
    have "of_int n = of_int (n div k) * of_int k + (of_int (n mod k) :: real)" by (metis div_mult_mod_eq of_int_add of_int_mult)
    then show ?thesis using assms by (simp add: field_simps)
  qed
  have r: "0 \<le> n mod k" "n mod k < k" using assms by simp_all
  show ?thesis
  proof (cases "k < 2 * (n mod k) \<or> 2 * (n mod k) = k \<and> odd (n div k)")
    case True
    then have "k \<le> 2 * (n mod k)" by auto
    then have "real_of_int k \<le> 2 * of_int (n mod k)" by linarith
    then have "1/2 \<le> of_int (n mod k) / (of_int k :: real)" using assms by (simp add: field_simps)
    moreover have "of_int (n mod k) / (of_int k :: real) < 1" using r assms by simp
    ultimately show ?thesis unfolding e using True by (simp add: div_even_def Let_def)
  next
    case False
    then have "2 * (n mod k) \<le> k" by auto
    then have "2 * real_of_int (n mod k) \<le> of_int k" by linarith
    then have "of_int (n mod k) / (of_int k :: real) \<le> 1/2" using assms by (simp add: field_simps)
    moreover have "0 \<le> of_int (n mod k) / (of_int k :: real)" using r assms by simp
    ultimately show ?thesis unfolding e using False by (auto simp: div_even_def Let_def)
  qed
qed

lemma div_even_exact: "0 < k \<Longrightarrow> n = q * k \<Longrightarrow> div_even n k = q"
  by (simp add: div_even_def Let_def)

lemma rval_abs: "\<bar>rval m e\<bar> = rval \<bar>m\<bar> e"
  by (simp add: rval_def abs_mult)

text \<open>The value of a number that is rounded, and the result of the rounding of a positive one.\<close>

lemma powi_not_neg [simp]: "\<not> (2::real) powi e < 0"
  by (simp add: not_less)

lemma sgn_ratio: "0 < d \<Longrightarrow> sgn (of_int n / of_int d * (2::real) powi e) = of_int (sgn n)"
proof -
  assume "0 < d"
  then show ?thesis by (auto simp: sgn_mult sgn_divide sgn_if zero_less_divide_iff zero_less_mult_iff)
qed

lemma rnd_cases:
  fixes n d e :: int and f :: fformat
  assumes "n \<noteq> 0" "0 < d"
  defines "x \<equiv> of_int \<bar>n\<bar> / of_int d * (2::real) powi e" and "u \<equiv> ulp_exp f \<bar>n\<bar> d e"
  obtains q where "rnd f n d e = (if max_exp f < blen q + u then Inf (n < 0) else Fin (sgn n * q) u)"
    "\<bar>rval q u - x\<bar> \<le> 2 powi (u - 1)" "0 \<le> q"
    "\<And>k. x = rval k u \<Longrightarrow> q = k"
proof -
  obtain a c where s: "scale \<bar>n\<bar> d (e - u) = (a, c)" by fastforce
  note r = scale_ratio [OF assms(2) s]
  define q where "q = div_even a c"
  have p: "(2::real) powi (e - u) * 2 powi u = 2 powi e" by (simp flip: power_int_add)
  have x: "of_int a / of_int c * 2 powi u = x" unfolding r(2) x_def by (simp add: p)
  have "rval q u - x = (of_int q - of_int a / of_int c) * 2 powi u" unfolding rval_def x [symmetric] by (simp add: algebra_simps)
  then have "\<bar>rval q u - x\<bar> = \<bar>of_int q - of_int a / of_int c\<bar> * 2 powi u" by (simp add: abs_mult)
  also have "\<dots> \<le> 1/2 * 2 powi u" using div_even_error [OF r(1), of a] by (intro mult_right_mono) (simp_all add: q_def)
  also have "\<dots> = 2 powi (u - 1)" by (simp add: power_int_diff)
  finally have err: "\<bar>rval q u - x\<bar> \<le> 2 powi (u - 1)" .
  have q0: "0 \<le> q" using r(1,3) by (simp add: q_def div_even_def Let_def pos_imp_zdiv_nonneg_iff)
  have ex: "q = k" if "x = rval k u" for k
  proof -
    have "of_int a / of_int c * 2 powi u = of_int k * (2::real) powi u" using that x by (simp add: rval_def)
    then have "of_int a / (of_int c :: real) = of_int k" by (metis mult_right_cancel power_int_not_zero zero_neq_numeral)
    then have "real_of_int a = of_int (k * c)" using r(1) by (simp add: field_simps)
    then have "a = k * c" by linarith
    then show ?thesis using r(1) by (simp add: q_def div_even_exact)
  qed
  have "rnd f n d e = (if max_exp f < blen q + u then Inf (n < 0) else Fin (sgn n * q) u)"
    using assms(1) s by (simp add: rnd_def Let_def q_def u_def)
  then show ?thesis using that err q0 ex by blast
qed


lemma rval_pow: "u \<le> k \<Longrightarrow> rval (2 ^ nat (k - u)) u = 2 powi k"
  using power_int_add [of "2::real" "k - u" u] by (simp add: rval_def powi_nonneg_nat)

lemma rval_le_iff: "rval m u \<le> rval k u \<longleftrightarrow> m \<le> k"
  by (simp add: rval_def)

lemma rval_half_le:
  assumes "rval q u \<le> y + 2 powi (u - 1)" "y \<le> rval k u"
  shows "q \<le> k"
proof -
  have h: "(2::real) powi (u - 1) = 1/2 * 2 powi u" by (simp add: power_int_diff)
  have "real_of_int q * 2 powi u \<le> (of_int k + 1/2) * 2 powi u" using assms by (simp add: rval_def h distrib_right)
  then have "real_of_int q \<le> of_int k + 1/2" by (simp only: mult_le_cancel_right_pos zero_less_power_int zero_less_numeral)
  then show ?thesis by linarith
qed

text \<open>A finite result is off by at most half a unit of its last digit, and is the number itself when the format has it.\<close>

definition in_format :: "fformat \<Rightarrow> int \<Rightarrow> int \<Rightarrow> bool" where
  "in_format f m e \<longleftrightarrow> \<bar>m\<bar> \<le> 2 ^ nat (digits f) \<and> min_exp f \<le> e"

lemma rval_sgn: "rval (sgn n * q) u = of_int (sgn n) * rval q u"
  by (simp add: rval_def)

lemma rnd_error:
  fixes n d e :: int
  assumes "0 < d"
  defines "x \<equiv> of_int n / of_int d * (2::real) powi e"
  assumes "\<bar>x\<bar> < 2 powi k" "k + 1 \<le> max_exp f" "1 \<le> digits f" "min_exp f \<le> k - digits f" "min_exp f \<le> 0"
  obtains m u where "rnd f n d e = Fin m u" "\<bar>rval m u - x\<bar> \<le> 2 powi (k - digits f - 1)" "\<bar>rval m u\<bar> \<le> 2 powi k"
    "in_format f m u" "0 \<le> n \<Longrightarrow> 0 \<le> m"
proof (cases "n = 0")
  case True
  then show ?thesis using that [of 0 0] assms(7) by (simp add: rnd_def x_def rval_def in_format_def)
next
  case False
  define u where "u = ulp_exp f \<bar>n\<bar> d e"
  have x: "\<bar>x\<bar> = of_int \<bar>n\<bar> / of_int d * 2 powi e" using assms(1) by (simp add: x_def abs_mult)
  have "sgn x = of_int (sgn n)" unfolding x_def by (rule sgn_ratio [OF assms(1)])
  then have sx: "x = of_int (sgn n) * \<bar>x\<bar>" using sgn_mult_abs [of x] by simp
  obtain q where q: "rnd f n d e = (if max_exp f < blen q + u then Inf (n < 0) else Fin (sgn n * q) u)"
    "\<bar>rval q u - \<bar>x\<bar>\<bar> \<le> 2 powi (u - 1)" "0 \<le> q" "\<And>k. \<bar>x\<bar> = rval k u \<Longrightarrow> q = k"
    using rnd_cases [OF False assms(1), of f e] unfolding x u_def by blast
  have fb: "2 powi fexp \<bar>n\<bar> d e \<le> \<bar>x\<bar>" "\<bar>x\<bar> < 2 powi (fexp \<bar>n\<bar> d e + 1)"
    using fexp_bounds [of "\<bar>n\<bar>" d e] False assms(1) by (simp_all add: x)
  have fk: "fexp \<bar>n\<bar> d e < k"
  proof (rule ccontr)
    assume "\<not> fexp \<bar>n\<bar> d e < k"
    then have "(2::real) powi k \<le> 2 powi fexp \<bar>n\<bar> d e" by (intro power_int_increasing) auto
    then show False using fb(1) assms(3) by linarith
  qed
  have uk: "u \<le> k - digits f" using fk assms(6) by (simp add: u_def ulp_exp_def)
  have up: "rval q u \<le> \<bar>x\<bar> + 2 powi (u - 1)" using q(2) by linarith
  have le: "rval q u \<le> 2 powi k"
  proof -
    have pk: "2 powi k = rval (2 ^ nat (k - u)) u" by (rule rval_pow [symmetric]) (use uk assms(5) in simp)
    have "q \<le> 2 ^ nat (k - u)" by (rule rval_half_le [OF up]) (use assms(3) pk in simp)
    then show ?thesis unfolding pk by (simp only: rval_le_iff)
  qed
  have q53: "q \<le> 2 ^ nat (digits f)"
  proof (rule rval_half_le [OF up])
    have "fexp \<bar>n\<bar> d e - (digits f - 1) \<le> u" unfolding u_def ulp_exp_def by (rule max.cobounded1)
    then have "(2::real) powi (fexp \<bar>n\<bar> d e + 1) \<le> 2 powi (digits f + u)" by (intro power_int_increasing) auto
    then have "\<bar>x\<bar> \<le> 2 powi (digits f + u)" using fb(2) by linarith
    also have "\<dots> = rval (2 ^ nat (digits f)) u" using rval_pow [of u "digits f + u"] assms(5) by simp
    finally show "\<bar>x\<bar> \<le> rval (2 ^ nat (digits f)) u" .
  qed
  have bl: "blen q + u \<le> max_exp f"
  proof (cases "0 < q")
    case True
    have "real_of_int q * 2 powi u < 2 powi (k + 1)" using le power_int_strict_increasing [of k "k + 1" "2::real"] by (simp add: rval_def)
    then have "real_of_int q < 2 powi (k + 1) / 2 powi u" by (simp add: pos_less_divide_eq)
    then have "real_of_int q < 2 powi (k + 1 - u)" by (simp add: power_int_diff)
    then show ?thesis using blen_le [OF True] assms(4) by fastforce
  next
    case False
    then show ?thesis using q(3) uk assms(4,5) by (simp add: blen.simps)
  qed
  have "\<bar>of_int (sgn n) * rval q u - of_int (sgn n) * \<bar>x\<bar>\<bar> = \<bar>rval q u - \<bar>x\<bar>\<bar>" using False
    by (auto simp: sgn_if abs_minus_commute)
  then have "\<bar>rval (sgn n * q) u - x\<bar> = \<bar>rval q u - \<bar>x\<bar>\<bar>" using sx rval_sgn by simp
  also have "\<dots> \<le> 2 powi (u - 1)" by (rule q(2))
  also have "\<dots> \<le> 2 powi (k - digits f - 1)" using uk by (intro power_int_increasing) auto
  finally have "\<bar>rval (sgn n * q) u - x\<bar> \<le> 2 powi (k - digits f - 1)" .
  moreover have "\<bar>rval (sgn n * q) u\<bar> \<le> 2 powi k" using le q(3) by (auto simp: rval_def abs_mult sgn_if)
  moreover have "in_format f (sgn n * q) u" using q53 q(3) by (auto simp: in_format_def u_def ulp_exp_def abs_mult sgn_if)
  moreover have "0 \<le> n \<Longrightarrow> 0 \<le> sgn n * q" using q(3) by (simp add: sgn_if)
  ultimately show ?thesis using that q(1) bl by simp
qed

lemma rnd_exact:
  fixes n d e :: int
  assumes "0 < d" "of_int n / of_int d * (2::real) powi e = rval m v" "in_format f m v"
    and "\<bar>rval m v\<bar> < 2 powi k" "k + 1 \<le> max_exp f" "1 \<le> digits f" "min_exp f \<le> k - digits f" "min_exp f \<le> 0"
  obtains m' u where "rnd f n d e = Fin m' u" "rval m' u = rval m v" "in_format f m' u"
proof (cases "n = 0")
  case True
  then show ?thesis using that [of 0 0] assms(2,8) by (simp add: rnd_def rval_def in_format_def)
next
  case False
  define u where "u = ulp_exp f \<bar>n\<bar> d e"
  have x: "of_int \<bar>n\<bar> / of_int d * 2 powi e = rval \<bar>m\<bar> v"
    using arg_cong [OF assms(2), of abs] assms(1) by (simp add: abs_mult rval_abs)
  obtain m1 u1 where r: "rnd f n d e = Fin m1 u1" "in_format f m1 u1"
    using rnd_error [OF assms(1), of n e k f] assms(2,4-8) by metis
  obtain q where q: "rnd f n d e = (if max_exp f < blen q + u then Inf (n < 0) else Fin (sgn n * q) u)"
    "\<And>k. rval \<bar>m\<bar> v = rval k u \<Longrightarrow> q = k"
    using rnd_cases [OF False assms(1), of f e] unfolding x u_def by metis
  have "\<exists>j. rval \<bar>m\<bar> v = rval j u"
  proof (cases "u \<le> v")
    case True
    then show ?thesis by (metis rval_shift)
  next
    case False
    have fe: "2 powi fexp \<bar>n\<bar> d e \<le> rval \<bar>m\<bar> v"
      unfolding x [symmetric] using \<open>n \<noteq> 0\<close> assms(1) by (intro fexp_bounds(1)) auto
    have pw: "2 powi (digits f + v) = rval (2 ^ nat (digits f)) v" using rval_pow [of v "digits f + v"] assms(6) by simp
    have mle: "\<bar>m\<bar> \<le> 2 ^ nat (digits f)" using assms(3) by (simp add: in_format_def)
    have lt: "v < u" "u = fexp \<bar>n\<bar> d e - (digits f - 1)" using False assms(3) by (auto simp: u_def ulp_exp_def in_format_def)
    then have "rval (2 ^ nat (digits f)) v \<le> rval \<bar>m\<bar> v"
      using fe pw power_int_increasing [of "digits f + v" "fexp \<bar>n\<bar> d e" "2::real"] by simp
    then have m: "\<bar>m\<bar> = 2 ^ nat (digits f)" using mle by (simp add: rval_le_iff)
    have "2 powi fexp \<bar>n\<bar> d e \<le> (2::real) powi (digits f + v)" using fe unfolding m pw .
    then have "fexp \<bar>n\<bar> d e \<le> digits f + v" using power_int_strict_increasing [of "digits f + v" "fexp \<bar>n\<bar> d e" "2::real"] by force
    then have "u \<le> digits f + v" using lt(2) assms(6) by simp
    from rval_pow [OF this] show ?thesis unfolding m pw [symmetric] by metis
  qed
  then obtain j where j: "rval \<bar>m\<bar> v = rval j u" by blast
  have "rval q u = rval \<bar>m\<bar> v" using q(2) [OF j] j by simp
  moreover have "sgn n = sgn m"
  proof -
    have "sgn (rval m v) = of_int (sgn n)" unfolding assms(2) [symmetric] by (rule sgn_ratio [OF assms(1)])
    moreover have "sgn (rval m v) = of_int (sgn m)" using sgn_ratio [of 1 m v] by (simp add: rval_def)
    ultimately show ?thesis by simp
  qed
  ultimately have "rval (sgn n * q) u = rval m v" unfolding rval_sgn by (simp add: rval_def sgn_if abs_if)
  then show ?thesis using that q(1) r by (simp split: if_splits)
qed

section \<open>The operations\<close>

lemma fless_rval: "fless (Fin m e) (Fin m' e') \<longleftrightarrow> rval m e < rval m' e'"
proof -
  have "sum_exact m e (- m') e' < 0 \<longleftrightarrow> rval (sum_exact m e (- m') e') (min e e') < 0"
    by (simp add: rval_def mult_less_0_iff not_less)
  also have "\<dots> \<longleftrightarrow> rval m e < rval m' e'" unfolding rval_sum by (simp add: rval_def)
  finally show ?thesis by simp
qed

lemma fleq_rval: "fleq (Fin m e) (Fin m' e') \<longleftrightarrow> rval m e \<le> rval m' e'"
  unfolding fleq.simps fless_rval by auto

lemma rval_0 [simp]: "rval n 0 = of_int n"
  by (simp add: rval_def)

lemma ftrunc_floor: "0 \<le> m \<Longrightarrow> ftrunc m e = \<lfloor>rval m e\<rfloor>"
proof (cases "0 \<le> e")
  case True
  then have "rval m e = of_int (m * 2 ^ nat e)" by (simp add: rval_def powi_nonneg_nat)
  then show ?thesis using True by (simp only: ftrunc_def floor_of_int if_True)
next
  case False
  assume "0 \<le> m"
  have "rval m e = of_int m / of_int (2 ^ nat (- e))" using False by (simp add: rval_def powi_neg_nat)
  then have "\<lfloor>rval m e\<rfloor> = m div 2 ^ nat (- e)" by (simp only: floor_divide_of_int_eq)
  then show ?thesis using False \<open>0 \<le> m\<close> by (cases "m = 0") (simp_all add: ftrunc_def)
qed

end
