(* ===== verification/Frog_Decimal.thy ===== *)
theory Frog_Decimal
  imports Frog_Rounding Frog_Text
begin

text \<open>
  What \<^verbatim>\<open>_ftoa\<close> prints: the value rounded to the precision, digit by digit.
\<close>

section \<open>The operations on finite numbers\<close>

lemmas formats = double_format_def ext_format_def in_format_def

lemma rval_1: "of_int m / of_int 1 * 2 powi e = rval m e"
  by (simp add: rval_def)

lemma rval_nonneg: "0 \<le> rval m e \<longleftrightarrow> 0 \<le> m"
  using rval_le_iff [of 0 e m] by (simp add: rval_def)

lemma to_double_error:
  assumes "\<bar>rval m e\<bar> < 2 powi k" "- 1021 \<le> k" "k \<le> 1023"
  obtains m' u where "to_double (Fin m e) = Fin m' u" "\<bar>rval m' u - rval m e\<bar> \<le> 2 powi (k - 54)"
    "in_format double_format m' u" "0 \<le> m \<Longrightarrow> 0 \<le> m'"
  by (rule rnd_error [of 1 m e k double_format, unfolded rval_1])
    (use assms that in \<open>simp_all add: double_format_def\<close>)

lemma to_double_exact:
  assumes "rval m e = rval n v" "in_format double_format n v" "\<bar>rval m e\<bar> < 2 powi k" "- 1021 \<le> k" "k \<le> 1023"
  obtains m' u where "to_double (Fin m e) = Fin m' u" "rval m' u = rval m e" "in_format double_format m' u"
  by (rule rnd_exact [of 1 m e n v double_format k, unfolded rval_1])
    (use assms that in \<open>simp_all add: double_format_def\<close>)

lemma fsub_exact:
  assumes "rval m e - rval m' e' = rval n v" "in_format ext_format n v" "\<bar>rval n v\<bar> < 2 powi k" "- 16381 \<le> k" "k \<le> 16383"
  obtains d u where "fsub (Fin m e) (Fin m' e') = Fin d u" "rval d u = rval n v" "in_format ext_format d u"
proof -
  have "rval (sum_exact m e (- m') e') (min e e') = rval n v" using assms(1) unfolding rval_sum by (simp add: rval_def)
  note r = this
  show ?thesis
    by (rule rnd_exact [of 1 "sum_exact m e (- m') e'" "min e e'" n v ext_format k, unfolded rval_1])
      (use r assms(2-5) that in \<open>simp_all add: fsub_def ext_format_def\<close>)
qed

lemma fmul_error:
  assumes "\<bar>rval m e * rval m' e'\<bar> < 2 powi k" "- 16381 \<le> k" "k \<le> 16383"
  obtains d u where "fmul (Fin m e) (Fin m' e') = Fin d u" "\<bar>rval d u - rval m e * rval m' e'\<bar> \<le> 2 powi (k - 65)"
    "0 \<le> m \<Longrightarrow> 0 \<le> m' \<Longrightarrow> 0 \<le> d"
proof -
  have "rval (m * m') (e + e') = rval m e * rval m' e'" by (simp add: rval_def power_int_add)
  note r = this
  show ?thesis
    by (rule rnd_error [of 1 "m * m'" "e + e'" k ext_format, unfolded rval_1])
      (use r assms that in \<open>simp_all add: ext_format_def\<close>)
qed

lemma fmul_exact:
  assumes "rval m e * rval m' e' = rval n v" "in_format ext_format n v" "\<bar>rval n v\<bar> < 2 powi k" "- 16381 \<le> k" "k \<le> 16383"
  obtains d u where "fmul (Fin m e) (Fin m' e') = Fin d u" "rval d u = rval n v"
proof -
  have "rval (m * m') (e + e') = rval m e * rval m' e'" by (simp add: rval_def power_int_add)
  note r = this
  show ?thesis
    by (rule rnd_exact [of 1 "m * m'" "e + e'" n v ext_format k, unfolded rval_1])
      (use r assms that in \<open>simp_all add: ext_format_def\<close>)
qed

lemma half_Fin: "half = Fin (2 ^ 63) (- 64)"
  by code_simp

lemma fless_half: "fless half (Fin m e) \<longleftrightarrow> 1/2 < rval m e" "fless (Fin m e) half \<longleftrightarrow> rval m e < 1/2"
proof -
  have h: "rval (2 ^ 63) (- 64) = 1/2" by (simp add: rval_def power_int_minus)
  show "fless half (Fin m e) \<longleftrightarrow> 1/2 < rval m e" "fless (Fin m e) half \<longleftrightarrow> rval m e < 1/2"
    unfolding half_Fin fless_rval h by (rule refl)+
qed

lemma fless_of_i: "fless (Fin m e) (of_i n) \<longleftrightarrow> rval m e < of_int n" "fless (of_i n) (Fin m e) \<longleftrightarrow> of_int n < rval m e"
  "fleq (of_i k) (of_i n) \<longleftrightarrow> k \<le> n"
  by (simp_all add: of_i_def fless_rval fleq_rval del: fless.simps fleq.simps)

text \<open>The fraction of a double, which the subtraction of its whole part computes without error.\<close>

lemma frac_rval:
  assumes "0 \<le> m"
  obtains n where "rval m e - of_int \<lfloor>rval m e\<rfloor> = rval n e" "0 \<le> n" "n \<le> m" "n < 2 ^ nat (- e)"
proof (cases "0 \<le> e")
  case True
  then have "rval m e = of_int (m * 2 ^ nat e)" by (simp add: rval_def powi_nonneg_nat)
  then have "rval m e - of_int \<lfloor>rval m e\<rfloor> = 0" by (simp only: floor_of_int diff_self)
  then show ?thesis using that [of 0] assms by (simp add: rval_def)
next
  case False
  let ?d = "2 ^ nat (- e) :: int"
  have r: "rval k e = of_int k / of_int ?d" for k using False by (simp add: rval_def powi_neg_nat)
  have "\<lfloor>rval m e\<rfloor> = m div ?d" unfolding r by (simp only: floor_divide_of_int_eq)
  moreover have "rval m e = of_int (m div ?d) + rval (m mod ?d) e"
  proof -
    have "real_of_int m = of_int (m div ?d) * of_int ?d + of_int (m mod ?d)" by (metis div_mult_mod_eq of_int_add of_int_mult)
    then show ?thesis unfolding r by (simp add: field_simps del: of_int_power)
  qed
  ultimately have "rval m e - of_int \<lfloor>rval m e\<rfloor> = rval (m mod ?d) e" by simp
  then show ?thesis using that [of "m mod ?d"] assms by (simp add: zmod_le_nonneg_dividend)
qed

lemma fsub_floor:
  assumes "in_format double_format m e" "0 \<le> m"
  obtains d u where "fsub (Fin m e) (of_i \<lfloor>rval m e\<rfloor>) = Fin d u" "rval d u = rval m e - of_int \<lfloor>rval m e\<rfloor>"
    "0 \<le> d" "rval d u \<le> 1 - 2 powi (- 53)" "\<exists>n. rval d u = rval n e \<and> in_format double_format n e"
proof -
  obtain n where n: "rval m e - of_int \<lfloor>rval m e\<rfloor> = rval n e" "0 \<le> n" "n \<le> m" "n < 2 ^ nat (- e)"
    by (rule frac_rval [OF assms(2)])
  have f: "in_format ext_format n e" "in_format double_format n e" using n assms(1) by (simp_all add: formats)
  have le: "rval n e \<le> 1 - 2 powi (- 53)"
  proof (cases "- 53 \<le> e")
    case True
    have "real_of_int (n + 1) \<le> of_int (2 ^ nat (- e))" using n(4) by (simp only: of_int_le_iff)
    then have "rval n e + 2 powi e \<le> 2 powi (- e) * 2 powi e" if "e \<le> 0"
      using that mult_right_mono [of "real_of_int (n + 1)" "of_int (2 ^ nat (- e))" "2 powi e"]
      by (simp add: rval_def powi_nonneg_nat distrib_right)
    moreover have "n = 0" if "0 < e" using n(2,4) that by simp
    ultimately show ?thesis using True power_int_increasing [of "- 53" e "2::real"]
      by (cases "e \<le> 0") (auto simp: rval_def simp flip: power_int_add)
  next
    case False
    have "real_of_int n \<le> 2 ^ 53" using n(3) assms by (simp add: formats)
    then have "rval n e \<le> 2 ^ 53 * 2 powi e" by (simp add: rval_def)
    also have "\<dots> \<le> 2 ^ 53 * 2 powi (- 54)" using False by (intro mult_left_mono power_int_increasing) auto
    also have "\<dots> \<le> 1 - 2 powi (- 53)" by (simp add: power_int_minus)
    finally show ?thesis .
  qed
  have lt: "\<bar>rval n e\<bar> < 2 powi 0" using le n(2) by (simp add: rval_def powi_neg_nat)
  obtain d u where d: "fsub (Fin m e) (Fin \<lfloor>rval m e\<rfloor> 0) = Fin d u" "rval d u = rval n e"
    by (rule fsub_exact [of m e "\<lfloor>rval m e\<rfloor>" 0 n e 0]) (use n(1) f lt in simp_all)
  have "0 \<le> d" using d(2) n(2) rval_nonneg [of d u] rval_nonneg [of n e] by simp
  then show ?thesis using that [of d u] d le n(1) f(2) by (auto simp: of_i_def)
qed


section \<open>Splitting and rounding\<close>

lemma pow10_value: "p \<le> 9 \<Longrightarrow> pow10 ! unat p = 10 ^ unat (p :: u32)"
proof -
  assume "p \<le> 9"
  then have "unat p \<in> {0..9}" by (simp add: word_le_nat_alt)
  then have "unat p \<in> set [0,1,2,3,4,5,6,7,8,9]" by (auto simp add: numeral_eq_Suc atLeastAtMostSuc_conv)
  then show ?thesis by (auto simp: pow10_def)
qed

text \<open>A power of two above each power of ten, which is not much more than half of it.\<close>

lemma pow10_bits:
  assumes "1 \<le> (n::nat)" "n \<le> 9"
  obtains k where "(10::real) ^ n < 2 powi k" "2 powi (k - 1) + 2 powi (k - 12) < (10::real) ^ n" "k \<le> 30" "4 \<le> k"
proof -
  have "n \<in> {1..9}" using assms by simp
  then have n: "n \<in> set [1,2,3,4,5,6,7,8,9]" by (auto simp add: numeral_eq_Suc atLeastAtMostSuc_conv)
  let ?k = "\<lambda>n. [4,7,10,14,17,20,24,27,30] ! (n - 1) :: int"
  have "(10::real) ^ n < 2 powi (?k n) \<and> 2 powi (?k n - 1) + 2 powi (?k n - 12) < (10::real) ^ n \<and> ?k n \<le> 30 \<and> 4 \<le> ?k n"
    using n by (auto simp: power_int_def power_divide)
  then show ?thesis using that by blast
qed

lemma ftoa_tmp:
  assumes "in_format double_format m e" "0 \<le> m" "1 \<le> n" "n \<le> (9::nat)"
  defines "x \<equiv> rval m e - of_int \<lfloor>rval m e\<rfloor>"
  obtains tm te where "to_double (fmul (fsub (Fin m e) (of_i \<lfloor>rval m e\<rfloor>)) (of_i (10 ^ n))) = Fin tm te"
    "\<bar>rval tm te - x * 10 ^ n\<bar> \<le> 2 powi (- 23)" "0 \<le> tm" "in_format double_format tm te" "rval tm te < 10 ^ n"
proof -
  obtain k where k: "(10::real) ^ n < 2 powi k" "2 powi (k - 1) + 2 powi (k - 12) < (10::real) ^ n" "k \<le> 30" "4 \<le> k"
    by (rule pow10_bits [OF assms(3,4)])
  obtain d u where d: "fsub (Fin m e) (of_i \<lfloor>rval m e\<rfloor>) = Fin d u" "rval d u = x" "0 \<le> d" "x \<le> 1 - 2 powi (- 53)"
    unfolding x_def by (rule fsub_floor [OF assms(1,2)]) (auto simp del: of_int_floor)
  have x0: "0 \<le> x" by (simp add: x_def)
  let ?y = "x * 10 ^ n"
  have y: "0 \<le> ?y" "?y \<le> 10 ^ n - 2 powi (- 53) * 10 ^ n" using x0 d(4) mult_right_mono [OF d(4), of "10 ^ n"] by (simp_all add: left_diff_distrib)
  have s: "2 powi (- 53) * ((2::real) powi (k - 1) + 2 powi (k - 12)) = 2 powi (k - 54) + 2 powi (k - 65)"
    using power_int_add [of "2::real" "- 53" "k - 1"] power_int_add [of "2::real" "- 53" "k - 12"] by (simp add: distrib_left)
  have "2 powi (- 53) * ((2::real) powi (k - 1) + 2 powi (k - 12)) < 2 powi (- 53) * 10 ^ n"
    by (rule mult_strict_left_mono [OF k(2)]) simp
  then have gap: "2 powi (k - 54) + 2 powi (k - 65) < 2 powi (- 53) * (10::real) ^ n" unfolding s .
  have pos: "0 < (2::real) powi (k - 54)" "0 < (2::real) powi (k - 65)" by simp_all
  have "?y < 2 powi k" using y(2) gap pos k(1) by linarith
  then have yk: "\<bar>rval d u * rval (10 ^ n) 0\<bar> < 2 powi k" using y(1) d(2) by simp
  obtain r v where r: "fmul (Fin d u) (Fin (10 ^ n) 0) = Fin r v" "\<bar>rval r v - ?y\<bar> \<le> 2 powi (k - 65)" "0 \<le> r"
    by (rule fmul_error [OF yk]) (use d(2,3) k(3,4) in simp_all)
  have rb: "\<bar>rval r v\<bar> < 2 powi k" 
  proof -
    have "rval r v < 2 powi k" using r(2) y(2) gap pos k(1) by linarith
    then show ?thesis using r(3) rval_nonneg [of r v] by simp
  qed
  obtain tm te where t: "to_double (Fin r v) = Fin tm te" "\<bar>rval tm te - rval r v\<bar> \<le> 2 powi (k - 54)"
    "in_format double_format tm te" "0 \<le> tm"
    by (rule to_double_error [OF rb]) (use k(3,4) r(3) in auto)
  have m: "(2::real) powi (k - 65) \<le> 2 powi (- 35)" "(2::real) powi (k - 54) \<le> 2 powi (- 24)"
    by (rule power_int_increasing; use k(3) in simp)+
  have "(2::real) powi (- 35) + 2 powi (- 24) \<le> 2 powi (- 23)" by (simp add: power_int_minus)
  then have "\<bar>rval tm te - ?y\<bar> \<le> 2 powi (- 23)" using t(2) r(2) m by linarith
  moreover have "rval tm te < 10 ^ n" using t(2) r(2) y(2) gap by linarith
  moreover have "to_double (fmul (fsub (Fin m e) (of_i \<lfloor>rval m e\<rfloor>)) (of_i (10 ^ n))) = Fin tm te"
    using d(1) r(1) t(1) by (simp add: of_i_def)
  ultimately show ?thesis using that t(3,4) by blast
qed


lemma to_int_floor: "0 \<le> m \<Longrightarrow> lo \<le> 0 \<Longrightarrow> rval m e < of_int hi \<Longrightarrow> to_int lo hi (Fin m e) = Some \<lfloor>rval m e\<rfloor>"
  using rval_nonneg [of m e] by (simp add: ftrunc_floor floor_le_iff order_trans)

lemma diff_floor:
  assumes "in_format double_format m e" "0 \<le> m"
  obtains d u where "to_double (fsub (Fin m e) (of_i \<lfloor>rval m e\<rfloor>)) = Fin d u" "rval d u = rval m e - of_int \<lfloor>rval m e\<rfloor>"
proof -
  obtain d u n where d: "fsub (Fin m e) (of_i \<lfloor>rval m e\<rfloor>) = Fin d u" "rval d u = rval m e - of_int \<lfloor>rval m e\<rfloor>"
    "0 \<le> d" "rval d u \<le> 1 - 2 powi (- 53)" "rval d u = rval n e" "in_format double_format n e"
    by (rule fsub_floor [OF assms]) blast
  have "\<bar>rval d u\<bar> < 2 powi 0" using d(3,4) rval_nonneg [of d u] by (simp add: power_int_minus)
  from to_double_exact [OF d(5,6) this] d(1,2) that show ?thesis by auto
qed

text \<open>The rounded fraction: at least one digit, and the value is not in the middle below the next whole number.\<close>

lemma ftoa_round_nearest:
  assumes "in_format double_format m e" "0 \<le> m" "rval m e \<le> 10 ^ 9" "1 \<le> p" "p \<le> (9 :: u32)"
  defines "v \<equiv> rval m e" and "w \<equiv> \<lfloor>rval m e\<rfloor>"
  assumes "\<bar>(v - of_int w) * 10 ^ unat p - (10 ^ unat p - 1/2)\<bar> > 2 powi (- 23)"
  obtains w' fr where "ftoa_round (Fin m e) p = Some (w', fr)" "0 \<le> w'" "w' \<le> 10 ^ 9" "unat fr < 10 ^ unat p"
    "\<bar>of_int w' + real (unat fr) / 10 ^ unat p - v\<bar> \<le> (1/2 + 2 powi (- 23)) / 10 ^ unat p"
proof -
  have n: "1 \<le> unat p" "unat p \<le> 9" using assms(4,5) by (simp_all add: word_le_nat_alt)
  let ?P = "10 ^ unat p :: int"
  have P9: "?P \<le> 10 ^ 9" "(10::real) ^ unat p \<le> 10 ^ 9" by (rule power_increasing; use n(2) in simp)+
  obtain tm te where t: "to_double (fmul (fsub (Fin m e) (of_i w)) (of_i ?P)) = Fin tm te"
    "\<bar>rval tm te - (v - of_int w) * 10 ^ unat p\<bar> \<le> 2 powi (- 23)" "0 \<le> tm" "in_format double_format tm te" "rval tm te < 10 ^ unat p"
    unfolding v_def w_def by (rule ftoa_tmp [OF assms(1,2) n])
  define T where "T = rval tm te"
  define k where "k = \<lfloor>T\<rfloor>"
  have T: "0 \<le> T" "T < of_int ?P" using t(3,5) rval_nonneg [of tm te] by (simp_all add: T_def)
  have k: "0 \<le> k" "k < ?P" "of_int k \<le> T" "T < of_int k + 1" using T by (simp_all add: k_def floor_less_iff del: of_int_power)
  obtain d u where d: "to_double (fsub (Fin tm te) (of_i k)) = Fin d u" "rval d u = T - of_int k"
    unfolding k_def T_def by (rule diff_floor [OF t(4,3)])
  have w: "to_int (- 2147483648) 2147483647 (Fin m e) = Some w" unfolding w_def
    by (rule to_int_floor [OF assms(2)]) (use assms(3) in simp_all)
  have tk: "to_int 0 4294967295 (Fin tm te) = Some k" unfolding k_def T_def
    by (rule to_int_floor [OF t(3)]) (use T(2) P9 in \<open>simp_all add: T_def\<close>)
  let ?k = "word_of_int k :: u32"
  have u: "uint ?k = k" "uint (?k + 1) = k + 1"
  proof -
    have "uint (word_of_int i :: u32) = i" if "0 \<le> i" "i \<le> 10 ^ 9" for i
      using that by (simp add: uint_word_of_int)
    from this [of k] this [of "k + 1"] show "uint ?k = k" "uint (?k + 1) = k + 1" using k(1,2) P9(1) by (simp_all add: wi_hom_syms)
  qed
  have un: "real (unat ?k) = of_int k" "real (unat (?k + 1)) = of_int k + 1" "int (unat ?k) = k" "int (unat (?k + 1)) = k + 1"
    using k(1) by (simp_all add: unat_eq_nat_uint u)
  have p0: "p \<noteq> 0" "\<not> 9 < p" using assms(4,5) by auto
  define res where "res = (if 1/2 < T - of_int k then (if ?P \<le> k + 1 then (w + 1, 0) else (w, ?k + 1))
      else if T - of_int k < 1/2 then (w, ?k) else if ?k = 0 \<or> ?k AND 1 \<noteq> 0 then (w, ?k + 1) else (w, ?k))"
  have r: "ftoa_round (Fin m e) p = Some res"
    using p0 by (simp add: ftoa_round_def w pow10_value [OF assms(5)] t(1) tk d(1) fless_half d(2) Let_def u fless_of_i res_def del: to_int.simps)
  have top: "k + 1 < ?P" if "T = of_int k + 1/2"
  proof (rule ccontr)
    assume "\<not> k + 1 < ?P"
    then have "k = ?P - 1" using k(2) by simp
    then have "T = 10 ^ unat p - 1/2" using that by simp
    then show False using t(2) assms(8) unfolding T_def by (simp add: abs_minus_commute)
  qed
  have bound: "\<bar>real (unat fr) - T\<bar> \<le> 1/2 \<and> unat fr < 10 ^ unat p" if "fr = ?k \<and> T - of_int k \<le> 1/2 \<or> fr = ?k + 1 \<and> 1/2 \<le> T - of_int k \<and> k + 1 < ?P" for fr
  proof -
    have "\<bar>real (unat fr) - T\<bar> \<le> 1/2" using that k(3,4) un(1,2) by auto
    moreover have "int (unat fr) < ?P" using that k(2) un(3,4) by auto
    then have "unat fr < 10 ^ unat p" by (intro of_nat_less_imp_less [where 'a = int]) simp
    ultimately show ?thesis by blast
  qed
  obtain w' fr where res: "res = (w', fr)" "unat fr < 10 ^ unat p" "w' = w \<and> \<bar>real (unat fr) - T\<bar> \<le> 1/2 \<or> w' = w + 1 \<and> fr = 0 \<and> k + 1 = ?P \<and> 1/2 < T - of_int k"
  proof (cases "1/2 < T - of_int k")
    case True
    then show ?thesis using that [of "w + 1" 0] that [of w "?k + 1"] bound [of "?k + 1"] k(2) by (cases "?P \<le> k + 1") (auto simp: res_def)
  next
    case False
    then show ?thesis
      using that [of w ?k] that [of w "?k + 1"] bound [of ?k] bound [of "?k + 1"] top
      by (cases "T - of_int k < 1/2"; cases "?k = 0 \<or> ?k AND 1 \<noteq> 0") (auto simp: res_def)
  qed
  have v: "of_int w \<le> v" "v < of_int w + 1" "0 \<le> w" using rval_nonneg [of m e] assms(2) by (simp_all add: v_def w_def)
  have "\<bar>(of_int w' - v) * 10 ^ unat p + real (unat fr)\<bar> \<le> 1/2 + 2 powi (- 23)"
  proof -
    have "\<bar>(of_int w' - of_int w) * 10 ^ unat p + real (unat fr) - T\<bar> \<le> 1/2"
    proof (cases "w' = w")
      case False
      then have w1: "w' = w + 1" "fr = 0" "k + 1 = ?P" "1/2 < T - of_int k" using res(3) by auto
      have "(10::real) ^ unat p = of_int k + 1" using arg_cong [OF w1(3), of real_of_int] by simp
      then show ?thesis using w1 T(2) k(4) by simp
    qed (use res(3) in auto)
    then show ?thesis using t(2) unfolding T_def [symmetric] left_diff_distrib by arith
  qed
  then have "\<bar>((of_int w' - v) * 10 ^ unat p + real (unat fr)) / 10 ^ unat p\<bar> \<le> (1/2 + 2 powi (- 23)) / 10 ^ unat p"
    unfolding abs_divide power_abs abs_numeral by (intro divide_right_mono) auto
  moreover have "((of_int w' - v) * 10 ^ unat p + real (unat fr)) / 10 ^ unat p = of_int w' + real (unat fr) / 10 ^ unat p - v"
    by (simp add: add_divide_distrib)
  moreover have "0 \<le> w'" using v(3) res(3) by auto
  moreover have "w' \<le> 10 ^ 9"
  proof -
    have "w < 10 ^ 9" if "w' = w + 1"
    proof -
      have "1/2 < T" using that res(3) k(1) by auto
      moreover have small: "(2::real) powi (- 23) < 1/2" by (simp add: power_int_minus)
      ultimately have "0 < (v - of_int w) * 10 ^ unat p" using t(2) small unfolding T_def [symmetric] by arith
      then have "of_int w < v" by (simp add: zero_less_mult_iff)
      then show ?thesis using assms(3) by (simp add: v_def)
    qed
    moreover have "w \<le> 10 ^ 9" using v(1) assms(3) by (simp add: v_def)
    ultimately show ?thesis using res(3) by auto
  qed
  ultimately show ?thesis using that [of w' fr] r res(1,2) by (simp only:)
qed

section \<open>Digits\<close>

lemma numeral_value_append: "numeral_value b (xs @ ys) = numeral_value b xs * b ^ length ys + numeral_value b ys"
proof (induction ys rule: rev_induct)
  case (snoc y ys)
  then show ?case using numeral_value_snoc [of b "xs @ ys" y] by (simp add: numeral_value_snoc algebra_simps)
qed (simp add: numeral_value_def)

lemma decimal_digit:
  assumes "d < 10"
  shows "is_digit (0x30 + word_of_nat d)" "digit_value (0x30 + word_of_nat d) = d" "0x30 + word_of_nat d = (0x30 :: u8) \<longleftrightarrow> d = 0"
proof -
  have "d \<in> set [0..<10]" using assms by simp
  moreover have "\<forall>d \<in> set [0..<10]. is_digit (0x30 + word_of_nat d) \<and> digit_value (0x30 + word_of_nat d) = d
     \<and> (0x30 + word_of_nat d = (0x30 :: u8) \<longleftrightarrow> d = 0)" by code_simp
  ultimately show "is_digit (0x30 + word_of_nat d)" "digit_value (0x30 + word_of_nat d) = d"
    "0x30 + word_of_nat d = (0x30 :: u8) \<longleftrightarrow> d = 0" by blast+
qed

lemma ftoa_zeros_eq: "length buf + unat c \<le> 32 \<Longrightarrow> ftoa_zeros c buf = buf @ replicate (unat c) 0x30"
proof (induction c buf rule: ftoa_zeros.induct)
  case (1 c buf)
  show ?case
  proof (cases "c = 0")
    case False
    then have "unat c = Suc (unat (c - 1))" by (simp add: unat_minus_one unat_gt_0)
    then show ?thesis using 1 False by (subst ftoa_zeros.simps) (simp add: word_neq_0_conv)
  qed (simp add: ftoa_zeros.simps)
qed

lemma numeral_value_zeros [simp]: "numeral_value b (replicate n 0x30) = 0"
  by (induction n) (simp_all add: numeral_value_def digit_value_def)

lemma ftoa_frac_digits:
  assumes "unat fr < 10 ^ unat c" "1 \<le> unat c" "length buf + unat c \<le> 32"
  obtains ds where "(case ftoa_frac c fr buf of (c', b) \<Rightarrow> ftoa_zeros c' b) = buf @ ds" "length ds = unat c"
    "numeral_value 10 (rev ds) = unat fr" "list_all is_digit ds"
proof -
  have "\<exists>ds. (case ftoa_frac c fr buf of (c', b) \<Rightarrow> ftoa_zeros c' b) = buf @ ds \<and> length ds = unat c
    \<and> numeral_value 10 (rev ds) = unat fr \<and> list_all is_digit ds" using assms
  proof (induction c fr buf rule: ftoa_frac.induct)
    case (1 c fr buf)
    let ?d = "0x30 + ucast (fr mod 10) :: u8" and ?n = "unat fr mod 10"
    have d: "?d = 0x30 + word_of_nat ?n" using of_nat_unat [of "fr mod 10", where 'a = "8 word"] by (simp add: unat_mod)
    note dd = decimal_digit [of ?n, folded d]
    have c1: "unat c = Suc (unat (c - 1))" 
    proof -
      have "c \<noteq> 0" using 1(3) by auto
      then show ?thesis by (simp add: unat_minus_one unat_gt_0)
    qed
    have l: "length buf < 32" using 1(3,4) by simp
    have div: "unat (fr div 10) = unat fr div 10" by (simp add: unat_div)
    show ?case
    proof (cases "fr div 10 = 0")
      case True
      then have f: "unat fr = ?n" using div by simp
      have "ftoa_frac c fr buf = (c - 1, buf @ [?d])" using True l by (subst ftoa_frac.simps) simp
      moreover have "ftoa_zeros (c - 1) (buf @ [?d]) = (buf @ [?d]) @ replicate (unat (c - 1)) 0x30"
        by (rule ftoa_zeros_eq) (use 1(4) c1 in simp)
      ultimately show ?thesis using dd f c1
        by (intro exI [of _ "?d # replicate (unat (c - 1)) 0x30"]) (auto simp: numeral_value_snoc list_all_iff is_digit_def)
    next
      case False
      have big: "10 \<le> unat fr" using False div by (metis div_less linorder_not_le unat_eq_zero)
      have "1 \<le> unat (c - 1)" using big 1(2) c1 by (cases "unat (c - 1)") auto
      moreover have "unat (fr div 10) < 10 ^ unat (c - 1)" using 1(2) unfolding div c1 by (simp add: less_mult_imp_div_less)
      moreover have "length (buf @ [?d]) + unat (c - 1) \<le> 32" using 1(4) c1 by simp
      ultimately obtain ds where ds: "(case ftoa_frac (c - 1) (fr div 10) (buf @ [?d]) of (c', b) \<Rightarrow> ftoa_zeros c' b) = (buf @ [?d]) @ ds"
        "length ds = unat (c - 1)" "numeral_value 10 (rev ds) = unat (fr div 10)" "list_all is_digit ds"
        using 1(1) [OF l refl refl False] by blast
      have "ftoa_frac c fr buf = ftoa_frac (c - 1) (fr div 10) (buf @ [?d])" using False l by (subst ftoa_frac.simps) (simp add: Let_def)
      then show ?thesis using ds dd c1 div by (intro exI [of _ "?d # ds"]) (auto simp: numeral_value_snoc)
    qed
  qed
  then show ?thesis using that by blast
qed

lemma ftoa_whole_digits:
  assumes "0 \<le> n" "n < 10 ^ k" "1 \<le> k" "length buf + k \<le> 32"
  obtains ds where "ftoa_whole n buf = buf @ ds" "ds \<noteq> []" "length ds \<le> k" "numeral_value 10 (rev ds) = nat n"
    "list_all is_digit ds" "last ds = 0x30 \<longrightarrow> n = 0 \<and> length ds = 1"
proof -
  have "\<exists>ds. ftoa_whole n buf = buf @ ds \<and> ds \<noteq> [] \<and> length ds \<le> k \<and> numeral_value 10 (rev ds) = nat n
    \<and> list_all is_digit ds \<and> (last ds = 0x30 \<longrightarrow> n = 0 \<and> length ds = 1)" using assms
  proof (induction n buf arbitrary: k rule: ftoa_whole.induct)
    case (1 n buf)
    let ?d = "0x30 + word_of_int (n mod 10) :: u8" and ?n = "nat (n mod 10)"
    have d: "?d = 0x30 + word_of_nat ?n" using of_nat_nat [of "n mod 10", where 'a = "8 word"] by simp
    have n10: "?n < 10" by simp
    note dd = decimal_digit [OF n10, folded d]
    have l: "length buf < 32" using 1(4,5) by simp
    show ?case
    proof (cases "n div 10 = 0")
      case True
      then have f: "?n = nat n" using mult_div_mod_eq [of 10 n] by simp
      have "ftoa_whole n buf = buf @ [?d]" using True l by (subst ftoa_whole.simps) simp
      then show ?thesis using dd [unfolded f] 1(2,4) by (intro exI [of _ "[?d]"]) (simp add: numeral_value_def del: ftoa_whole.simps)
    next
      case False
      obtain j where j0: "k = Suc j" using 1(4) by (cases k) auto
      have "j \<noteq> 0"
      proof
        assume "j = 0"
        then have "n div 10 = 0" using 1(2,3) j0 by simp
        then show False using False by contradiction
      qed
      then have j: "k = Suc j" "1 \<le> j" using j0 by simp_all
      have ten: "n < 10 * y \<Longrightarrow> n div 10 < y" for y using pos_mod_sign [of 10 n] mult_div_mod_eq [of 10 n] by linarith
      have "0 \<le> n div 10" using 1(2) by simp
      moreover have "n div 10 < 10 ^ j" using 1(3) ten [of "10 ^ j"] unfolding j(1) power_Suc by blast
      ultimately obtain ds where ds: "ftoa_whole (n div 10) (buf @ [?d]) = (buf @ [?d]) @ ds" "ds \<noteq> []" "length ds \<le> j"
        "numeral_value 10 (rev ds) = nat (n div 10)" "list_all is_digit ds" "last ds = 0x30 \<longrightarrow> n div 10 = 0 \<and> length ds = 1"
        using 1(1) [OF l refl refl False, of j] 1(5) j by auto
      have "ftoa_whole n buf = ftoa_whole (n div 10) (buf @ [?d])" using False l by (subst ftoa_whole.simps) (simp add: Let_def)
      moreover have "nat n = nat (n div 10) * 10 + ?n" using 1(2) by (simp add: nat_div_distrib nat_mod_distrib)
      ultimately show ?thesis using ds dd j False by (intro exI [of _ "?d # ds"]) (auto simp: numeral_value_snoc)
    qed
  qed
  then show ?thesis using that by blast
qed

section \<open>The text of a value\<close>

lemma of_bits_format: "of_bits x = Fin m e \<Longrightarrow> in_format double_format m e"
proof -
  assume b: "of_bits x = Fin m e"
  have fr: "uint (x AND 0xFFFFFFFFFFFFF) < 2 ^ 52" "0 \<le> uint (x AND 0xFFFFFFFFFFFFF)"
  proof -
    have "x AND 0xFFFFFFFFFFFFF \<le> 0xFFFFFFFFFFFFF" by (rule word_and_le1)
    then show "uint (x AND 0xFFFFFFFFFFFFF) < 2 ^ 52" by (simp add: word_le_def)
  qed simp
  have "in_format double_format m e" if "0 \<le> A" "A < 2 ^ 52" "0 \<le> X"
    "(let (m, e) = if X = 0 then (A, - 1074) else (A + 2 ^ 52, X - 1075) in Fin (if s then - m else m) e) = Fin m e" for A X :: int and s
    using that by (auto simp: formats Let_def split: if_splits)
  note step = this
  let ?X = "uint (drop_bit 52 x AND 0x7FF)" and ?A = "uint (x AND 0xFFFFFFFFFFFFF)"
  have "?X \<noteq> 0x7FF" using b by (auto simp: of_bits_def Let_def split: if_splits)
  then have "(let (m, e) = if ?X = 0 then (?A, - 1074) else (?A + 2 ^ 52, ?X - 1075) in Fin (if bit x 63 then - m else m) e) = Fin m e"
    using b unfolding of_bits_def Let_def by (simp only: if_False)
  from step [OF fr(2,1) uint_ge_0 this] show ?thesis .
qed

lemma fsub_zero_neg:
  assumes "in_format double_format m e" "m < 0" "\<bar>rval m e\<bar> \<le> 10 ^ 9"
  obtains m' u where "to_double (fsub (of_i 0) (Fin m e)) = Fin m' u" "rval m' u = \<bar>rval m e\<bar>" "in_format double_format m' u" "0 \<le> m'"
proof -
  have r: "rval (- m) e = \<bar>rval m e\<bar>" using assms(2) by (simp add: rval_abs)
  have f: "in_format double_format (- m) e" "in_format ext_format (- m) e" using assms(1) by (simp_all add: formats)
  have b: "\<bar>rval (- m) e\<bar> < 2 powi 30" using assms(3) r by (simp add: power_int_def)
  obtain d u where d: "fsub (Fin 0 0) (Fin m e) = Fin d u" "rval d u = rval (- m) e"
    by (rule fsub_exact [of 0 0 m e "- m" e 30]) (use f b in \<open>simp_all add: rval_def\<close>)
  obtain m' v where m: "to_double (Fin d u) = Fin m' v" "rval m' v = rval d u" "in_format double_format m' v"
    by (rule to_double_exact [OF d(2) f(1), of 30]) (use b d(2) in simp_all)
  have "0 \<le> m'" using m(2) d(2) rval_nonneg [of m' v] rval_nonneg [of "- m" e] assms(2) by simp
  then show ?thesis using that m d r by (simp add: of_i_def)
qed

text \<open>The text for the precision \<^verbatim>\<open>p\<close> of a value that has to be close to \<open>v\<close>: sign, whole part, point and \<^verbatim>\<open>p\<close> digits.\<close>

definition decimal_text :: "real \<Rightarrow> nat \<Rightarrow> u8 list \<Rightarrow> bool" where
  "decimal_text v p cs \<longleftrightarrow> (\<exists>ws ds. cs = (if v < 0 then [0x2D] else []) @ ws @ 0x2E # ds
     \<and> ws \<noteq> [] \<and> (hd ws = 0x30 \<longrightarrow> length ws = 1) \<and> length ds = p \<and> list_all is_digit ws \<and> list_all is_digit ds
     \<and> \<bar>real (numeral_value 10 ws) + real (numeral_value 10 ds) / 10 ^ p - \<bar>v\<bar>\<bar> \<le> (1/2 + 2 powi (- 23)) / 10 ^ p)"

definition round_gap :: "real \<Rightarrow> nat \<Rightarrow> bool" where
  "round_gap v p \<longleftrightarrow> \<bar>(\<bar>v\<bar> - of_int \<lfloor>\<bar>v\<bar>\<rfloor>) * 10 ^ p - (10 ^ p - 1/2)\<bar> > 2 powi (- 23)"

lemma ftoa_buf_text:
  assumes "in_format double_format m e" "\<bar>rval m e\<bar> \<le> 10 ^ 9" "1 \<le> p" "p \<le> (9 :: u32)" "round_gap (rval m e) (unat p)"
  obtains buf where "ftoa_buf (Fin m e) p 0 0x400 = Some buf" "decimal_text (rval m e) (unat p) (rev buf)"
proof -
  let ?neg = "rval m e < 0"
  have neg: "fless (Fin m e) (of_i 0) \<longleftrightarrow> ?neg" by (simp add: fless_of_i del: fless.simps)
  have nm: "?neg \<longleftrightarrow> m < 0" using rval_nonneg [of m e] by linarith
  obtain m' e' where v: "(if ?neg then to_double (fsub (of_i 0) (Fin m e)) else Fin m e) = Fin m' e'"
    "rval m' e' = \<bar>rval m e\<bar>" "in_format double_format m' e'" "0 \<le> m'"
  proof (cases ?neg)
    case True
    then have "m < 0" using nm by simp
    from fsub_zero_neg [OF assms(1) this assms(2)] show ?thesis using that True by metis
  next
    case False
    then show ?thesis using that [of m e] nm assms(1) by simp
  qed
  obtain w fr where r: "ftoa_round (Fin m' e') p = Some (w, fr)" "0 \<le> w" "w \<le> 10 ^ 9" "unat fr < 10 ^ unat p"
    "\<bar>of_int w + real (unat fr) / 10 ^ unat p - \<bar>rval m e\<bar>\<bar> \<le> (1/2 + 2 powi (- 23)) / 10 ^ unat p"
    using ftoa_round_nearest [OF v(3,4) _ assms(3,4)] assms(2,5) unfolding v(2) round_gap_def by blast
  have up: "1 \<le> unat p" "unat p \<le> 9" using assms(3,4) by (simp_all add: word_le_nat_alt)
  obtain ds where ds: "(case ftoa_frac p fr [] of (c', b) \<Rightarrow> ftoa_zeros c' b) = [] @ ds" "length ds = unat p"
    "numeral_value 10 (rev ds) = unat fr" "list_all is_digit ds"
    by (rule ftoa_frac_digits [OF r(4) up(1), of "[]"]) (use up in simp)
  have w10: "w < 10 ^ 10" using r(3) by simp
  obtain ws where ws: "ftoa_whole w (ds @ [0x2E]) = (ds @ [0x2E]) @ ws" "ws \<noteq> []" "length ws \<le> 10"
    "numeral_value 10 (rev ws) = nat w" "list_all is_digit ws" "last ws = 0x30 \<longrightarrow> w = 0 \<and> length ws = 1"
    by (rule ftoa_whole_digits [OF r(2) w10, of "ds @ [0x2E]"]) (use up ds(2) in simp_all)
  let ?buf = "ds @ [0x2E] @ ws @ (if ?neg then [0x2D] else [])"
  have lim: "ftoa_limit [] p = ([], p)" using assms(4) by (subst ftoa_limit.simps) auto
  have p0: "p \<noteq> 0" using assms(3) by auto
  have buf: "ftoa_buf (Fin m e) p 0 0x400 = Some ?buf"
    unfolding ftoa_buf_def neg Let_def flag_def v(1) using p0 ds(1) ws(1) ds(2) up ws(3)
    by (auto simp: lim r(1) put_buf_def ntoa_sign_def flag_def case_prod_unfold)
  have "rev ?buf = (if ?neg then [0x2D] else []) @ rev ws @ 0x2E # rev ds" by simp
  moreover have "rev ws \<noteq> []" "list_all is_digit (rev ws)" "list_all is_digit (rev ds)" "length (rev ds) = unat p"
    "hd (rev ws) = 0x30 \<longrightarrow> length (rev ws) = 1"
    using ws ds by (simp_all add: hd_rev)
  moreover have "real (numeral_value 10 (rev ws)) = of_int w" using ws(4) r(2) by simp
  ultimately have "decimal_text (rval m e) (unat p) (rev ?buf)"
    unfolding decimal_text_def using r(5) ds(3) by (intro exI [of _ "rev ws"] exI [of _ "rev ds"]) simp
  then show ?thesis using that buf by blast
qed


lemma small_finite:
  assumes "\<bar>rval m e\<bar> \<le> 10 ^ 9"
  shows "ftoa_special (Fin m e) flags = None" "\<not> fless PRINTF_MAX_FLOAT (Fin m e)" "\<not> fless (Fin m e) (fneg PRINTF_MAX_FLOAT)"
proof -
  have neg: "rval (- n) u = - rval n u" for n u by (simp add: rval_def)
  have max: "rval (2 ^ 53 - 1) 971 > 10 ^ 9" by (simp add: rval_def power_int_def)
  have "\<not> fless (Fin m e) (fneg DBL_MAX)" "\<not> fless DBL_MAX (Fin m e)"
    unfolding DBL_MAX_def fneg.simps fless_rval neg using max assms by linarith+
  then show "ftoa_special (Fin m e) flags = None" by (simp add: ftoa_special_def)
  show "\<not> fless PRINTF_MAX_FLOAT (Fin m e)" "\<not> fless (Fin m e) (fneg PRINTF_MAX_FLOAT)"
    using assms by (simp_all add: PRINTF_MAX_FLOAT_def of_i_def fless_rval del: fless.simps)
qed

lemma ftoa_chars_small:
  assumes "\<bar>rval m e\<bar> \<le> 10 ^ 9"
  shows "ftoa_chars (Fin m e) p w f = map_option (\<lambda>buf. rev_chars buf (ntoa_width (fless (Fin m e) (of_i 0)) w f) f) (ftoa_buf (Fin m e) p w f)"
  by (subst ftoa_chars.simps) (simp add: small_finite [OF assms] del: fless.simps)

lemma ftoa_chars_plain:
  assumes "\<bar>rval m e\<bar> \<le> 10 ^ 9"
  shows "ftoa_chars (Fin m e) p 0 0x400 = map_option rev (ftoa_buf (Fin m e) p 0 0x400)"
  unfolding ftoa_chars_small [OF assms] by (simp add: ntoa_width_def rev_chars_def flag_def)

lemma va_arg64_split: "va_arg64 [ucast x, ucast (drop_bit 32 x)] = Some (x, [])"
proof -
  have "(ucast (ucast x :: u32) :: u64) OR push_bit 32 (ucast (ucast (drop_bit 32 x) :: u32)) = x"
    by (rule bit_word_eqI) (auto simp: bit_simps)
  then show ?thesis by simp
qed

lemma digit_not_nul: "list_all is_digit cs \<Longrightarrow> 0 \<notin> set cs"
  by (auto simp: list_all_iff is_digit_def)

lemma decimal_text_no_nul: "decimal_text v p cs \<Longrightarrow> 0 \<notin> set cs"
  by (auto simp: decimal_text_def dest!: digit_not_nul)

lemma render_star_f:
  assumes "0 <s p"
  shows "render safe m (cbytes ''%.*f'') [p, ucast x, ucast (drop_bit 32 x)] = ftoa_chars (of_bits x) p 0 0x400"
  using assms va_arg64_split [of x]
  by (cases "ftoa_chars (of_bits x) p 0 0x400") (simp_all add: render_defs float_chars_def float_flags_def)

lemma small_positive: "1 \<le> p \<Longrightarrow> p \<le> 100 \<Longrightarrow> 0 <s (p :: u32)"
  by (simp add: word_sless_alt word_le_def sint_uint signed_take_bit_int_eq_self)

text \<open>C18: \<^verbatim>\<open>%.*f\<close> prints the decimal number nearest to the argument: for a precision of 1 to 9 and a finite argument of at
  most \<open>10 ^ 9\<close> it prints a minus sign if the argument is negative, the whole part without leading zeros, a point and
  exactly as many digits as the precision says, and the number so printed is off by at most half a unit of its last digit
  (and \<open>2 ^ -23\<close> units for the rounding of the product with the power of ten). Left out are arguments whose fraction is within
  \<open>2 ^ -23\<close> units of half a unit below the next whole number, for which see below.\<close>

theorem printf_fixed_point:
  assumes "con_ok s" "b \<noteq> 0" "of_bits x = Fin m e" "\<bar>rval m e\<bar> \<le> 10 ^ 9" "1 \<le> p" "p \<le> (9 :: u32)" "round_gap (rval m e) (unat p)"
  shows "\<exists>cs s'. printf b (cbytes ''%.*f'') [p, ucast x, ucast (drop_bit 32 x)] s = Some (of_nat (length cs), s')
    \<and> prints cs s s' \<and> decimal_text (rval m e) (unat p) cs"
proof -
  obtain buf where b: "ftoa_buf (Fin m e) p 0 0x400 = Some buf" "decimal_text (rval m e) (unat p) (rev buf)"
    by (rule ftoa_buf_text [OF of_bits_format [OF assms(3)] assms(4-7)])
  have "p \<le> 100" by (rule order_trans [OF assms(6)]) simp
  then have sp: "0 <s p" by (rule small_positive [OF assms(5)])
  have "render (\<lambda>x. x \<notin> region video 4000) (mem s) (cbytes ''%.*f'') [p, ucast x, ucast (drop_bit 32 x)] = Some (rev buf)"
    unfolding render_star_f [OF sp] assms(3) ftoa_chars_plain [OF assms(4)] b(1) by simp
  from printf_text [OF assms(1,2) this decimal_text_no_nul [OF b(2)]] b(2) show ?thesis by blast
qed

section \<open>Where the text is wrong\<close>

lemma tie_buf:
  "ftoa_buf (of_bits 0x3FEE666666666666) 1 0 0x400 = Some (0x30 # 0x31 # replicate 30 0x30)"
  "ftoa_buf (of_bits 0x3FEFD70A3D70A3D7) 2 0 0x400 = Some (0x30 # 0x30 # 0x31 # replicate 29 0x30)"
  by code_simp+

lemma long_buf:
  "ftoa_buf (of_bits 0x3FF8000000000000) 31 0 0x400 = Some (replicate 30 0x30 @ [0x35, 0x2E])"
  "ftoa_buf (of_bits 0x3FF8000000000000) 42 0 0x400 = None"
  by code_simp+

lemma error_values: "of_bits 0x3FEE666666666666 = Fin 0x1E666666666666 (- 53)" "of_bits 0x3FEFD70A3D70A3D7 = Fin 0x1FD70A3D70A3D7 (- 53)"
  "of_bits 0x3FF8000000000000 = Fin 0x18000000000000 (- 52)"
  by code_simp+


lemma printf_star_f:
  assumes "con_ok s" "b \<noteq> 0" "1 \<le> p" "p \<le> 100" "of_bits x = Fin m e" "\<bar>rval m e\<bar> \<le> 10 ^ 9" "ftoa_buf (of_bits x) p 0 0x400 = Some buf" "0 \<notin> set buf"
  shows "\<exists>s'. printf b (cbytes ''%.*f'') [p, ucast x, ucast (drop_bit 32 x)] s = Some (of_nat (length buf), s') \<and> prints (rev buf) s s'"
proof -
  have "render (\<lambda>x. x \<notin> region video 4000) (mem s) (cbytes ''%.*f'') [p, ucast x, ucast (drop_bit 32 x)] = Some (rev buf)"
    using assms(7) unfolding render_star_f [OF small_positive [OF assms(3,4)]] assms(5) ftoa_chars_plain [OF assms(6)] by simp
  from printf_text [OF assms(1,2) this] assms(8) show ?thesis by simp
qed

lemma printf_star_f_None:
  assumes "b \<noteq> 0" "1 \<le> p" "p \<le> 100" "of_bits x = Fin m e" "\<bar>rval m e\<bar> \<le> 10 ^ 9" "ftoa_buf (of_bits x) p 0 0x400 = None"
  shows "printf b (cbytes ''%.*f'') [p, ucast x, ucast (drop_bit 32 x)] s = None"
proof -
  have "ftoa out_char b 0 (- 1) (Fin m e) p 0 0x400 s = None"
    using assms(6) unfolding assms(4) by (subst ftoa.simps) (simp add: small_finite [OF assms(5)] del: fless.simps)
  then show ?thesis using va_arg64_split [of x] small_positive [OF assms(2,3)] assms(1)
    by (simp add: printf_def vsnprintf_def render_defs convert_def conv_float_def float_flags_def assms(4))
qed

lemma fixed_point_errors:
  assumes "con_ok s" "b \<noteq> 0"
  shows "(\<exists>s'. printf b (cbytes ''%.*f'') [1, 0x66666666, 0x3FEE6666] s = Some (32, s') \<and> prints (replicate 30 0x30 @ chars ''10'') s s')
    \<and> (\<exists>s'. printf b (cbytes ''%.*f'') [31, 0, 0x3FF80000] s = Some (32, s') \<and> prints (chars ''.5'' @ replicate 30 0x30) s s')
    \<and> printf b (cbytes ''%.*f'') [42, 0, 0x3FF80000] s = None"
proof (intro conjI)
  have low_word: "(0x3FEE666666666666 :: u32) = 0x66666666" "(0x3FF8000000000000 :: u32) = 0" by simp_all
  have r: "\<bar>rval 0x1E666666666666 (- 53)\<bar> \<le> 10 ^ 9" "\<bar>rval 0x18000000000000 (- 52)\<bar> \<le> 10 ^ 9" by (simp_all add: rval_def power_int_def power_divide)
  show "\<exists>s'. printf b (cbytes ''%.*f'') [1, 0x66666666, 0x3FEE6666] s = Some (32, s') \<and> prints (replicate 30 0x30 @ chars ''10'') s s'"
    using printf_star_f [OF assms _ _ error_values(1) r(1) tie_buf(1)] low_word by (simp add: chars_def)
  show "\<exists>s'. printf b (cbytes ''%.*f'') [31, 0, 0x3FF80000] s = Some (32, s') \<and> prints (chars ''.5'' @ replicate 30 0x30) s s'"
    using printf_star_f [OF assms _ _ error_values(3) r(2) long_buf(1)] low_word by (simp add: chars_def)
  show "printf b (cbytes ''%.*f'') [42, 0, 0x3FF80000] s = None"
    using printf_star_f_None [OF assms(2) _ _ error_values(3) r(2) long_buf(2)] low_word by simp
qed

theorem printf_fixed_point_witness:
  "\<exists>cs s'. printf 1 (cbytes ''%.*f'') [2, 0x54442D18, 0x400921FB] sample_con = Some (of_nat (length cs), s')
    \<and> prints cs sample_con s' \<and> decimal_text (rval 0x1921FB54442D18 (- 51)) 2 cs"
proof -
  have ok: "con_ok sample_con" by (simp add: con_ok_def sample_con_def)
  have low_word: "(0x400921FB54442D18 :: u32) = 0x54442D18" by simp
  have x: "of_bits 0x400921FB54442D18 = Fin 0x1921FB54442D18 (- 51)" by code_simp
  have r: "\<bar>rval 0x1921FB54442D18 (- 51)\<bar> \<le> 10 ^ 9" by (simp add: rval_def power_int_def power_divide)
  have "\<lfloor>\<bar>rval 0x1921FB54442D18 (- 51)\<bar>\<rfloor> = 3" by (simp add: floor_eq_iff rval_def power_int_def power_divide)
  then have "round_gap (rval 0x1921FB54442D18 (- 51)) (unat 2)"
    by (simp add: round_gap_def) (simp add: rval_def power_int_def power_divide)
  from printf_fixed_point [OF ok _ x r _ _ this, of 1] low_word show ?thesis by simp
qed

end
