(* ===== verification/Frog_Exponent.thy ===== *)
theory Frog_Exponent
  imports Frog_Decimal
begin

text \<open>
  \<^verbatim>\<open>_etoa\<close>: the power of ten that it computes is close enough to the value that the significand it hands to \<^verbatim>\<open>_ftoa\<close> is
  small, so that the two functions do not call each other a third time.
\<close>

section \<open>Computing with an error\<close>

definition near :: "fval \<Rightarrow> real \<Rightarrow> real \<Rightarrow> bool" where
  "near f x d \<longleftrightarrow> (\<exists>m e. f = Fin m e \<and> \<bar>rval m e - x\<bar> \<le> d)"

lemma nearE: "near f x d \<Longrightarrow> (\<And>m e. f = Fin m e \<Longrightarrow> \<bar>rval m e - x\<bar> \<le> d \<Longrightarrow> P) \<Longrightarrow> P"
  by (auto simp: near_def)

lemma near_of_i: "near (of_i n) (of_int n) 0"
  by (simp add: near_def of_i_def)

lemma near_mono: "near f x d \<Longrightarrow> d \<le> d' \<Longrightarrow> near f x d'"
  by (force simp: near_def)

lemma error_trans: "\<bar>a - b\<bar> \<le> c \<Longrightarrow> \<bar>b - x\<bar> \<le> d \<Longrightarrow> \<bar>a - x\<bar> \<le> d + (c :: real)"
  by linarith

lemma near_rnd:
  assumes "0 < d" "\<bar>of_int n / of_int d * (2::real) powi e - x\<bar> \<le> a" "\<bar>x\<bar> + a < 2 powi k" "- 16381 \<le> k" "k \<le> 16383"
  shows "near (rnd ext_format n d e) x (a + 2 powi (k - 65))"
proof -
  have b: "\<bar>of_int n / of_int d * (2::real) powi e\<bar> < 2 powi k" using assms(2,3) by linarith
  obtain m u where r: "rnd ext_format n d e = Fin m u" "\<bar>rval m u - of_int n / of_int d * 2 powi e\<bar> \<le> 2 powi (k - 65)"
    by (rule rnd_error [OF assms(1) b, of ext_format]) (use assms(4,5) in \<open>auto simp: ext_format_def\<close>)
  have "\<bar>rval m u - x\<bar> \<le> a + 2 powi (k - 65)" using r(2) assms(2) by (rule error_trans)
  then show ?thesis using r(1) by (simp add: near_def)
qed

lemma near_add:
  assumes "near f x a" "near g y b" "\<bar>x + y\<bar> + (a + b) < 2 powi k" "- 16381 \<le> k" "k \<le> 16383"
  shows "near (fadd f g) (x + y) (a + b + 2 powi (k - 65))"
proof -
  obtain m e m' e' where f: "f = Fin m e" "\<bar>rval m e - x\<bar> \<le> a" "g = Fin m' e'" "\<bar>rval m' e' - y\<bar> \<le> b"
    using assms(1,2) by (auto simp: near_def)
  have "\<bar>of_int (sum_exact m e m' e') / of_int 1 * 2 powi min e e' - (x + y)\<bar> \<le> a + b"
    unfolding rval_1 rval_sum using f(2,4) by linarith
  from near_rnd [OF _ this assms(3-5)] show ?thesis by (simp add: f)
qed

lemma near_neg: "near g y b \<Longrightarrow> near (fneg g) (- y) b"
  by (erule nearE) (simp add: near_def rval_def abs_minus_commute)

lemma near_sub:
  "near f x a \<Longrightarrow> near g y b \<Longrightarrow> \<bar>x - y\<bar> + (a + b) < 2 powi k \<Longrightarrow> - 16381 \<le> k \<Longrightarrow> k \<le> 16383
    \<Longrightarrow> near (fsub f g) (x - y) (a + b + 2 powi (k - 65))"
  using near_add [of f x a "fneg g" "- y" b k] near_neg [of g y b] by (simp add: fsub_def)

lemma near_mul:
  assumes "near f x a" "near g y b" "\<bar>x\<bar> * b + \<bar>y\<bar> * a + a * b \<le> c" "\<bar>x * y\<bar> + c < 2 powi k" "- 16381 \<le> k" "k \<le> 16383"
  shows "near (fmul f g) (x * y) (c + 2 powi (k - 65))"
proof -
  obtain m e m' e' where f: "f = Fin m e" "\<bar>rval m e - x\<bar> \<le> a" "g = Fin m' e'" "\<bar>rval m' e' - y\<bar> \<le> b"
    using assms(1,2) by (auto simp: near_def)
  have r: "of_int (m * m') / of_int 1 * 2 powi (e + e') = rval m e * rval m' e'" by (simp add: rval_def power_int_add)
  let ?p = "rval m e - x" and ?q = "rval m' e' - y"
  have "rval m e * rval m' e' - x * y = x * ?q + ?p * y + ?p * ?q" by (simp add: algebra_simps)
  also have "\<bar>\<dots>\<bar> \<le> \<bar>x * ?q\<bar> + \<bar>?p * y\<bar> + \<bar>?p * ?q\<bar>" by linarith
  also have "\<dots> \<le> \<bar>x\<bar> * b + \<bar>y\<bar> * a + a * b"
  proof -
    have "\<bar>x * ?q\<bar> \<le> \<bar>x\<bar> * b" "\<bar>?p * y\<bar> \<le> \<bar>y\<bar> * a" "\<bar>?p * ?q\<bar> \<le> a * b"
      using f(2,4) by (simp_all add: abs_mult mult_left_mono mult_mono mult.commute [of "\<bar>y\<bar>"] mult_right_mono)
    then show ?thesis by linarith
  qed
  finally have "\<bar>of_int (m * m') / of_int 1 * 2 powi (e + e') - x * y\<bar> \<le> c" unfolding r using assms(3) by linarith
  from near_rnd [OF _ this assms(4-6)] show ?thesis by (simp add: f)
qed

lemma near_div:
  assumes "near f x a" "near g y b" "1 \<le> y - b" "\<bar>x\<bar> + a \<le> c" "a + \<bar>x\<bar> * b \<le> d" "\<bar>x / y\<bar> + d < 2 powi k" "- 16381 \<le> k" "k \<le> 16383"
  shows "near (fdiv f g) (x / y) (d + 2 powi (k - 65))"
proof -
  obtain m e m' e' where f: "f = Fin m e" "\<bar>rval m e - x\<bar> \<le> a" "g = Fin m' e'" "\<bar>rval m' e' - y\<bar> \<le> b"
    using assms(1,2) by (auto simp: near_def)
  let ?p = "rval m e" and ?q = "rval m' e'"
  have q: "1 \<le> ?q" "1 \<le> y" using f(4) assms(3) by linarith+
  then have m': "0 < m'" using rval_nonneg [of m' e'] by (cases "m' = 0") (auto simp: rval_def)
  have r: "of_int (sgn m' * m) / of_int \<bar>m'\<bar> * 2 powi (e - e') = ?p / ?q"
    using m' by (simp add: rval_def power_int_diff)
  have "?p / ?q - x / y = (?p - x) / ?q + x / y * ((y - ?q) / ?q)" using q by (simp add: field_simps)
  also have "\<bar>\<dots>\<bar> \<le> \<bar>(?p - x) / ?q\<bar> + \<bar>x / y * ((y - ?q) / ?q)\<bar>" by linarith
  also have "\<dots> \<le> a + \<bar>x\<bar> * b"
  proof -
    have "\<bar>(?p - x) / ?q\<bar> \<le> a / 1" unfolding abs_divide using f(2) q by (intro frac_le) auto
    moreover have "\<bar>x / y * ((y - ?q) / ?q)\<bar> \<le> \<bar>x\<bar> / 1 * (b / 1)"
      unfolding abs_mult abs_divide using f(4) q by (intro mult_mono frac_le) auto
    ultimately show ?thesis by simp
  qed
  finally have "\<bar>of_int (sgn m' * m) / of_int \<bar>m'\<bar> * 2 powi (e - e') - x / y\<bar> \<le> d" unfolding r using assms(5) by linarith
  from near_rnd [OF _ this assms(6-8)] show ?thesis using m' by (simp add: f)
qed

lemma near_double:
  assumes "near f x a" "\<bar>x\<bar> + a < 2 powi k" "- 1021 \<le> k" "k \<le> 1023"
  shows "near (to_double f) x (a + 2 powi (k - 54))"
proof -
  obtain m e where f: "f = Fin m e" "\<bar>rval m e - x\<bar> \<le> a" using assms(1) by (auto simp: near_def)
  have "\<bar>rval m e\<bar> < 2 powi k" using f(2) assms(2) by linarith
  from to_double_error [OF this assms(3,4)]
  obtain m' u where "to_double (Fin m e) = Fin m' u" "\<bar>rval m' u - rval m e\<bar> \<le> 2 powi (k - 54)" by metis
  moreover from this(2) have "\<bar>rval m' u - x\<bar> \<le> a + 2 powi (k - 54)" using f(2) by linarith
  ultimately show ?thesis by (simp add: near_def f(1))
qed

lemma near_const:
  assumes "0 < d" "\<bar>of_int n / of_int d\<bar> < (2::real) powi k" "- 16381 \<le> k" "k \<le> 16383"
  shows "near (fconst n d) (of_int n / of_int d) (2 powi (k - 65))"
  using near_rnd [of d n 0 "of_int n / of_int d" 0 k] assms by (simp add: fconst_def)

lemma ftrunc_bounds:
  "\<bar>of_int (ftrunc m e) - rval m e\<bar> < 1" "rval m e \<le> 0 \<Longrightarrow> rval m e \<le> of_int (ftrunc m e)" "0 \<le> rval m e \<Longrightarrow> of_int (ftrunc m e) \<le> rval m e"
proof -
  have r: "rval (- m) e = - rval m e" by (simp add: rval_def)
  have n: "ftrunc (- m) e = - ftrunc m e" by (simp add: ftrunc_def sgn_minus)
  have pos: "of_int (ftrunc k e) \<le> rval k e \<and> rval k e < of_int (ftrunc k e) + 1" if "0 \<le> k" for k
    using that by (simp add: ftrunc_floor)
  consider "0 \<le> m" | "0 \<le> - m" "rval m e \<le> 0" using rval_nonneg [of "- m" e] r by linarith
  then have "\<bar>of_int (ftrunc m e) - rval m e\<bar> < 1 \<and> (rval m e \<le> 0 \<longrightarrow> rval m e \<le> of_int (ftrunc m e))
    \<and> (0 \<le> rval m e \<longrightarrow> of_int (ftrunc m e) \<le> rval m e)"
  proof cases
    case 1
    then show ?thesis using pos [of m] rval_nonneg [of m e] by auto
  next
    case 2
    then show ?thesis using pos [OF 2(1)] unfolding r n of_int_minus by auto
  qed
  then show "\<bar>of_int (ftrunc m e) - rval m e\<bar> < 1" "rval m e \<le> 0 \<Longrightarrow> rval m e \<le> of_int (ftrunc m e)"
    "0 \<le> rval m e \<Longrightarrow> of_int (ftrunc m e) \<le> rval m e" by blast+
qed

lemma to_int_near:
  assumes "near g x d" "\<bar>x\<bar> + d < 10 ^ 9"
  obtains n where "to_int (- (2 ^ 31)) (2 ^ 31 - 1) g = Some n" "x - d - 1 < of_int n" "of_int n < x + d + 1"
    "x + d < 0 \<Longrightarrow> x - d \<le> of_int n" "0 < x - d \<Longrightarrow> of_int n \<le> x + d"
proof -
  obtain m e where g: "g = Fin m e" "\<bar>rval m e - x\<bar> \<le> d" using assms(1) by (auto simp: near_def)
  note b = ftrunc_bounds [of m e]
  have n: "\<bar>of_int (ftrunc m e)\<bar> < (10 ^ 9 + 1 :: real)" using b(1) g(2) assms(2) by linarith
  then have "real_of_int \<bar>ftrunc m e\<bar> < of_int (10 ^ 9 + 1)" by simp
  then have "\<bar>ftrunc m e\<bar> < 10 ^ 9 + 1" by (simp only: of_int_less_iff)
  then have "to_int (- (2 ^ 31)) (2 ^ 31 - 1) g = Some (ftrunc m e)" by (auto simp: g(1) Let_def abs_less_iff)
  moreover have "x - d - 1 < of_int (ftrunc m e)" "of_int (ftrunc m e) < x + d + 1"
    "x + d < 0 \<Longrightarrow> x - d \<le> of_int (ftrunc m e)" "0 < x - d \<Longrightarrow> of_int (ftrunc m e) \<le> x + d"
    using b g(2) by linarith+
  ultimately show ?thesis using that by blast
qed

section \<open>The fields of a double\<close>

lemma uint_lt_bits: "uint (U AND 0xFFFFFFFFFFFFF :: u64) < 2 ^ 52"
proof -
  have "U AND 0xFFFFFFFFFFFFF \<le> 0xFFFFFFFFFFFFF" by (rule word_and_le1)
  then show ?thesis by (simp add: word_le_def)
qed

lemma mantissa_value:
  obtains A where "of_bits ((U AND (push_bit 52 1 - 1)) OR push_bit 52 1023) = Fin A (- 52)" "1 \<le> rval A (- 52)" "rval A (- 52) < 2"
proof -
  let ?w = "(U AND 0xFFFFFFFFFFFFF) OR push_bit 52 1023 :: u64"
  have b: "?w = (U AND (push_bit 52 1 - 1)) OR push_bit 52 1023" by simp
  have d: "drop_bit 52 ?w AND 0x7FF = 0x3FF" by (simp add: drop_bit_or drop_bit_and)
  have a: "?w AND 0xFFFFFFFFFFFFF = U AND 0xFFFFFFFFFFFFF" by (simp add: and.assoc word_ao_dist)
  have s: "\<not> bit ?w 63" by (simp add: bit_simps)
  have "of_bits ?w = Fin (uint (U AND 0xFFFFFFFFFFFFF) + 2 ^ 52) (- 52)"
    unfolding of_bits_def d a using s by simp
  moreover have "1 \<le> rval (A + 2 ^ 52) (- 52) \<and> rval (A + 2 ^ 52) (- 52) < 2" if "0 \<le> A" "A < 2 ^ 52" for A
  proof -
    have "0 \<le> real_of_int A" "real_of_int A < 2 ^ 52" using that by simp_all
    then show ?thesis by (simp add: rval_def power_int_minus)
  qed
  ultimately show ?thesis using that uint_lt_bits [of U] uint_ge_0 unfolding b by blast
qed

lemma field_of_bits:
  assumes "0 \<le> A" "A < 2 ^ 52" "0 \<le> B" "B < 2 ^ 11"
  shows "uint (drop_bit 52 (word_of_int A OR push_bit 52 (word_of_int B)) AND 0x7FF :: u64) = B"
proof -
  have m: "(0x7FF :: u64) = mask 11" by (simp add: mask_eq_exp_minus_1)
  have "uint (drop_bit 52 (word_of_int A :: u64)) = 0"
    using assms(1,2) by (simp add: drop_bit_eq_div uint_div_distrib uint_word_of_int)
  then have a: "drop_bit 52 (word_of_int A :: u64) = 0" by (simp add: uint_0_iff)
  have "drop_bit 52 (push_bit 52 w) AND mask 11 = w AND mask 11" for w :: u64
    by (rule bit_word_eqI) (auto simp: bit_simps)
  then have "drop_bit 52 (word_of_int A OR push_bit 52 (word_of_int B)) AND 0x7FF = (word_of_int B AND mask 11 :: u64)"
    by (simp add: m drop_bit_or a)
  then show ?thesis using assms(3,4) by (simp add: take_bit_eq_mask [symmetric] unsigned_take_bit_eq take_bit_int_eq_self uint_word_of_int)
qed

lemma exponent_field:
  assumes "0 \<le> m" "rval m e < 2 powi 1024"
  defines "x \<equiv> uint (drop_bit 52 (to_bits (Fin m e)) AND 0x7FF) - 1023"
  shows "rval m e < 2 powi (x + 1)" "- 1023 \<le> x" "x \<le> 1023"
proof -
  have "rval m e < 2 powi (x + 1) \<and> - 1023 \<le> x \<and> x \<le> 1023"
  proof (cases "m = 0")
    case True
    then show ?thesis by (simp add: x_def rval_def)
  next
    case False
    then have m: "0 < m" using assms(1) by simp
    define u where "u = ulp_exp double_format m 1 e"
    obtain a c where s: "scale m 1 (e - u) = (a, c)" by fastforce
    note r = scale_ratio [OF zero_less_one s]
    define q where "q = a div c"
    have v: "rval m e = of_int a / of_int c * 2 powi u" using r(2) power_int_add [of "2::real" "e - u" u] by (simp add: rval_def)
    have "of_int a / of_int c < of_int q + (1::real)" using r(1) unfolding q_def by (metis floor_divide_of_int_eq floor_less_iff less_add_one of_int_1 of_int_add)
    then have vq: "rval m e < (of_int q + 1) * 2 powi u" unfolding v by (rule mult_strict_right_mono) simp
    have fe: "2 powi fexp m 1 e \<le> rval m e" "rval m e < 2 powi (fexp m 1 e + 1)"
      using fexp_bounds [OF m zero_less_one, of e] by (simp_all add: rval_def)
    have e1023: "fexp m 1 e \<le> 1023"
    proof (rule ccontr)
      assume "\<not> fexp m 1 e \<le> 1023"
      then have "(2::real) powi 1024 \<le> 2 powi fexp m 1 e" by (intro power_int_increasing) auto
      then show False using fe(1) assms(2) by linarith
    qed
    have u: "u = max (fexp m 1 e - 52) (- 1074)" by (simp add: u_def ulp_exp_def double_format_def)
    have pw: "(2::real) powi (k + u) = of_int (2 ^ nat k) * 2 powi u" if "0 \<le> k" for k
      using that by (simp add: power_int_add powi_nonneg_nat)
    have q: "0 \<le> q" "of_int q \<le> of_int a / (of_int c :: real)"
      using r(1,3) m by (simp_all add: q_def pos_imp_zdiv_nonneg_iff real_of_int_div4)
    have q53: "q < 2 ^ 53"
    proof -
      have "(2::real) powi (fexp m 1 e + 1) \<le> 2 powi (53 + u)" by (intro power_int_increasing) (simp_all add: u)
      then have "of_int a / of_int c * 2 powi u < of_int (2 ^ 53) * (2::real) powi u" using fe(2) pw [of 53] by (simp add: v)
      then have "of_int a / of_int c < (of_int (2 ^ 53) :: real)" by (simp only: mult_less_cancel_right_pos zero_less_power_int zero_less_numeral)
      then have "of_int q < (of_int (2 ^ 53) :: real)" using q(2) by linarith
      then show ?thesis by (simp only: of_int_less_iff)
    qed
    show ?thesis
    proof (cases "q < 2 ^ 52")
      case True
      have "u = - 1074"
      proof (rule ccontr)
        assume "u \<noteq> - 1074"
        then have "fexp m 1 e = 52 + u" by (simp add: u max_def split: if_splits)
        then have "of_int (2 ^ 52) * (2::real) powi u \<le> of_int a / of_int c * 2 powi u" using fe(1) pw [of 52] by (simp add: v)
        then have "of_int (2 ^ 52) \<le> (of_int a / of_int c :: real)" by (simp only: mult_le_cancel_right_pos zero_less_power_int zero_less_numeral)
        then have "2 ^ 52 \<le> q" unfolding q_def floor_divide_of_int_eq [symmetric, where 'a = real] le_floor_iff by simp
        then show False using True by simp
      qed
      moreover have "to_bits (Fin m e) = word_of_int q" using m True s by (simp add: u_def [symmetric] q_def Let_def)
      then have "x = - 1023" using field_of_bits [OF q(1) True, of 0] by (simp add: x_def)
      moreover have "(of_int q + 1) * 2 powi u \<le> of_int (2 ^ 52) * (2::real) powi u" using True
        by (intro mult_right_mono) (simp_all flip: of_int_less_iff)
      ultimately show ?thesis using vq pw [of 52] by simp
    next
      case False
      have ur: "0 \<le> u + 1075" "u + 1075 < 2 ^ 11" using e1023 by (simp_all add: u)
      have "to_bits (Fin m e) = word_of_int (q - 2 ^ 52) OR push_bit 52 (word_of_int (u + 1075))"
        using m False s by (simp add: u_def [symmetric] q_def Let_def)
      then have x: "x = u + 52" using field_of_bits [of "q - 2 ^ 52" "u + 1075"] ur False q53 by (simp add: x_def)
      have "of_int q + 1 \<le> (of_int (2 ^ 53) :: real)" using q53 by linarith
      then have top: "(of_int q + 1) * 2 powi u \<le> of_int (2 ^ 53) * (2::real) powi u" by (rule mult_right_mono) simp
      have "rval m e < 2 powi (x + 1)" using order_less_le_trans [OF vq top] pw [of 53] by (simp add: x add.commute)
      then show ?thesis using e1023 by (simp add: x u)
    qed
  qed
  then show "rval m e < 2 powi (x + 1)" "- 1023 \<le> x" "x \<le> 1023" by blast+
qed

section \<open>The decimal exponent\<close>

text \<open>Errors are measured against a ten-thousand-millionth, far above what the operations commit.\<close>

abbreviation (input) tiny :: real where "tiny \<equiv> 1 / 10 ^ 12"

lemma float_consts:
  "near (fconst 1760912590558 (10 ^ 13)) (1760912590558 / 10 ^ 13) (1 / 10 ^ 15)"
  "near (fconst 301029995663981 (10 ^ 15)) (301029995663981 / 10 ^ 15) (1 / 10 ^ 15)"
  "near (fconst 289529654602168 (10 ^ 15)) (289529654602168 / 10 ^ 15) (1 / 10 ^ 15)"
  "near (fconst 15 10) (15 / 10) (1 / 10 ^ 15)"
  "near (fconst 2302585092994046 (10 ^ 15)) (2302585092994046 / 10 ^ 15) (1 / 10 ^ 15)"
  "near (fconst 6931471805599453 (10 ^ 16)) (6931471805599453 / 10 ^ 16) (1 / 10 ^ 15)"
  "near (fconst 3321928094887362 (10 ^ 15)) (3321928094887362 / 10 ^ 15) (1 / 10 ^ 15)"
  "near half (1 / 2) 0"
proof -
  have c: "near (fconst n d) x (1 / 10 ^ 15)" if "0 < d" "x = of_int n / of_int d" "\<bar>x\<bar> < 4" for n d x
    using near_mono [OF near_const [of d n 2]] that by (simp add: power_int_minus)
  show "near (fconst 1760912590558 (10 ^ 13)) (1760912590558 / 10 ^ 13) (1 / 10 ^ 15)"
    "near (fconst 301029995663981 (10 ^ 15)) (301029995663981 / 10 ^ 15) (1 / 10 ^ 15)"
    "near (fconst 289529654602168 (10 ^ 15)) (289529654602168 / 10 ^ 15) (1 / 10 ^ 15)"
    "near (fconst 15 10) (15 / 10) (1 / 10 ^ 15)"
    "near (fconst 2302585092994046 (10 ^ 15)) (2302585092994046 / 10 ^ 15) (1 / 10 ^ 15)"
    "near (fconst 6931471805599453 (10 ^ 16)) (6931471805599453 / 10 ^ 16) (1 / 10 ^ 15)"
    "near (fconst 3321928094887362 (10 ^ 15)) (3321928094887362 / 10 ^ 15) (1 / 10 ^ 15)" by (rule c; simp)+
  show "near half (1 / 2) 0" by (simp add: near_def half_Fin rval_def power_int_minus)
qed

lemma near_mul_i:
  assumes "near g y (1 / 10 ^ 15)" "\<bar>of_int n\<bar> \<le> (1100 :: real)" "\<bar>of_int n * y\<bar> \<le> 4000"
  shows "near (fmul (of_i n) g) (of_int n * y) (3 * tiny)"
proof (rule near_mono [OF near_mul [OF near_of_i assms(1), where c = "2 * tiny" and k = 12]])
  show "\<bar>of_int n\<bar> * (1 / 10 ^ 15) + \<bar>y\<bar> * 0 + 0 * (1 / 10 ^ 15) \<le> 2 * tiny" using assms(2) by simp
  show "\<bar>of_int n * y\<bar> + 2 * tiny < 2 powi 12" using assms(3) by (simp add: power_int_def)
qed (simp_all add: power_int_minus)

lemma exp_guess_bounds:
  assumes "0 \<le> m" "rval m e < 2 powi 1024"
  obtains k x where "exp_guess (Fin m e) = Some k" "rval m e < 2 powi (x + 1)" "- 1023 \<le> x" "x \<le> 1023"
    "301029995663981 / 10 ^ 15 * of_int x - 97 / 100 < real_of_int k" "- 307 \<le> k" "k \<le> 308"
proof -
  define x where "x = uint (drop_bit 52 (to_bits (Fin m e)) AND 0x7FF) - 1023"
  note x = exponent_field [OF assms, folded x_def]
  obtain A where f: "of_bits ((to_bits (Fin m e) AND (push_bit 52 1 - 1)) OR push_bit 52 1023) = Fin A (- 52)"
    "1 \<le> rval A (- 52)" "rval A (- 52) < 2" by (rule mantissa_value)
  let ?f = "rval A (- 52)"
  let ?a = "1760912590558 / 10 ^ 13 :: real" and ?b = "of_int x * (301029995663981 / 10 ^ 15) :: real" and ?c = "(?f - 15 / 10) * (289529654602168 / 10 ^ 15)"
  have xr: "- 1023 \<le> real_of_int x" "real_of_int x \<le> 1023" using x(2,3) by simp_all
  have bb: "near (fmul (of_i x) (fconst 301029995663981 (10 ^ 15))) ?b (3 * tiny)"
    by (rule near_mul_i [OF float_consts(2)]) (use xr in \<open>auto simp: abs_le_iff\<close>)
  have ab: "near (fadd (fconst 1760912590558 (10 ^ 13)) (fmul (of_i x) (fconst 301029995663981 (10 ^ 15)))) (?a + ?b) (5 * tiny)"
    by (rule near_mono [OF near_add [OF float_consts(1) bb, where k = 10]]) (use xr in \<open>auto simp: power_int_def power_divide abs_less_iff\<close>)
  have s: "near (fsub (Fin A (- 52)) (fconst 15 10)) (?f - 15 / 10) (1 / 10 ^ 14)"
    by (rule near_mono [OF near_sub [OF _ float_consts(4), of _ _ 0 1]]) (use f in \<open>auto simp: near_def power_int_def power_divide\<close>)
  have cr: "- (14476482730108400 / 10 ^ 17) \<le> ?c" "?c \<le> 14476482730108400 / 10 ^ 17" using f by simp_all
  have c: "near (fmul (fsub (Fin A (- 52)) (fconst 15 10)) (fconst 289529654602168 (10 ^ 15))) ?c tiny"
  proof (rule near_mono [OF near_mul [OF s float_consts(3), where c = "1 / 10 ^ 13" and k = 1]])
    have "\<bar>?f - 15 / 10\<bar> \<le> 1" using f by (simp add: abs_le_iff)
    then show "\<bar>?f - 15 / 10\<bar> * (1 / 10 ^ 15) + \<bar>289529654602168 / 10 ^ 15\<bar> * (1 / 10 ^ 14) + 1 / 10 ^ 14 * (1 / 10 ^ 15) \<le> (1 / 10 ^ 13 :: real)"
 by (simp add: abs_mult)
    have "\<bar>?c\<bar> \<le> 14476482730108400 / 10 ^ 17" using cr(2) cr(1) [THEN minus_le_iff [THEN iffD1]] by (rule abs_leI)
    also have "\<dots> \<le> (1 :: real)" by simp
    finally have "\<bar>?c\<bar> \<le> 1" .
    then show "\<bar>?c\<bar> + 1 / 10 ^ 13 < 2 powi 1" by (simp only: power_int_def) simp
  qed (simp_all add: power_int_minus)
  have g0: "\<bar>?a + ?b + ?c\<bar> \<le> 310"
  proof -
    have sum: "\<bar>a + b + c\<bar> \<le> 310" if "0 \<le> a" "a \<le> 1" "- 308 \<le> b" "b \<le> 308" "- 1 \<le> c" "c \<le> 1" for a b c :: real
      using that by linarith
    have "- 1 \<le> ?c" by (rule order_trans [OF _ cr(1)]) simp
    moreover have "?c \<le> 1" by (rule order_trans [OF cr(2)]) simp
    moreover have "- 308 \<le> ?b" "?b \<le> 308" using xr by simp_all
    ultimately show ?thesis by (intro sum) simp_all
  qed
  have g: "near (fadd (fadd (fconst 1760912590558 (10 ^ 13)) (fmul (of_i x) (fconst 301029995663981 (10 ^ 15))))
      (fmul (fsub (Fin A (- 52)) (fconst 15 10)) (fconst 289529654602168 (10 ^ 15)))) (?a + ?b + ?c) (7 * tiny)"
    
  proof (rule near_mono [OF near_add [OF ab c, where k = 10]])
    show "\<bar>?a + ?b + ?c\<bar> + (5 * tiny + tiny) < 2 powi 10" using g0 by (simp add: power_int_def)
  qed (simp_all add: power_int_minus)
  have gr: "\<bar>?a + ?b + ?c\<bar> + 7 * tiny < 10 ^ 9" using g0 by simp
  obtain k where k: "to_int (- (2 ^ 31)) (2 ^ 31 - 1) (fadd (fadd (fconst 1760912590558 (10 ^ 13)) (fmul (of_i x) (fconst 301029995663981 (10 ^ 15))))
      (fmul (fsub (Fin A (- 52)) (fconst 15 10)) (fconst 289529654602168 (10 ^ 15)))) = Some k"
    "?a + ?b + ?c - 7 * tiny - 1 < of_int k" "of_int k < ?a + ?b + ?c + 7 * tiny + 1"
    "?a + ?b + ?c + 7 * tiny < 0 \<Longrightarrow> ?a + ?b + ?c - 7 * tiny \<le> of_int k" "0 < ?a + ?b + ?c - 7 * tiny \<Longrightarrow> of_int k \<le> ?a + ?b + ?c + 7 * tiny"
    by (rule to_int_near [OF g gr]) blast
  have "exp_guess (Fin m e) = Some k" using k(1) by (simp only: exp_guess_def Let_def x_def f(1))
  moreover have "301029995663981 / 10 ^ 15 * of_int x - 97 / 100 < real_of_int k"
  proof -
    have "b - 97 / 100 < r" if "?a + b + c - 7 * tiny - 1 < r" "- (14476482730108400 / 10 ^ 17) \<le> c" for b c r :: real
      using that by simp
    from this [OF k(2) cr(1)] show ?thesis by (simp only: mult.commute)
  qed
  moreover have "- 308 < real_of_int k"
  proof (cases "?a + ?b + ?c + 7 * tiny < 0")
    case True
    have "- 308 < r" if "?a + b + c - 7 * tiny \<le> r" "- 1023 * (301029995663981 / 10 ^ 15) \<le> b" "- (14476482730108400 / 10 ^ 17) \<le> c" for b c r :: real
      using that by simp
    from this [OF k(4) [OF True] _ cr(1)] show ?thesis using mult_right_mono [OF xr(1), of "301029995663981 / 10 ^ 15"] by simp
  qed (use k(2) in simp)
  then have "- 307 \<le> k" by linarith
  moreover have "real_of_int k < 309"
  proof (cases "0 < ?a + ?b + ?c - 7 * tiny")
    case True
    have "r < 309" if "r \<le> ?a + b + c + 7 * tiny" "b \<le> 1023 * (301029995663981 / 10 ^ 15)" "c \<le> 14476482730108400 / 10 ^ 17" for b c r :: real
      using that by simp
    from this [OF k(5) [OF True] _ cr(2)] show ?thesis using mult_right_mono [OF xr(2), of "301029995663981 / 10 ^ 15"] by simp
  qed (use k(3) in simp)
  then have "k \<le> 308" by linarith
  ultimately show ?thesis using that x by blast
qed

lemma power_of_two_bits:
  assumes "1 \<le> B" "B \<le> 2046"
  shows "of_bits (push_bit 52 (word_of_int B)) = Fin (2 ^ 52) (B - 1075)"
proof -
  let ?w = "push_bit 52 (word_of_int B) :: u64"
  have f: "uint (drop_bit 52 ?w AND 0x7FF) = B" using field_of_bits [of 0 B] assms by simp
  have m: "?w AND 0xFFFFFFFFFFFFF = 0"
  proof -
    have k: "(0xFFFFFFFFFFFFF :: u64) = mask 52" by (simp add: mask_eq_exp_minus_1)
    show ?thesis unfolding k by (rule bit_word_eqI) (simp add: bit_simps)
  qed
  have "B div 2 ^ 11 = 0" using assms by simp
  then have "\<not> bit B 11" by (simp add: bit_iff_odd)
  then have s: "\<not> bit ?w 63" by (simp add: bit_simps)
  show ?thesis unfolding of_bits_def f m using s assms by simp
qed

lemma exp_power_308: "exp_power 308 = Some (Fin 5010420900022968 971)"
  by code_simp

lemma power_argument:
  fixes k e2 z :: real
  assumes "\<bar>k\<bar> \<le> 308" "k * (3321928094887362 / 10 ^ 15) + 1/2 - 5 * tiny - 1 < e2" "e2 < k * (3321928094887362 / 10 ^ 15) + 1/2 + 5 * tiny + 1"
  defines "z \<equiv> k * (2302585092994046 / 10 ^ 15) - e2 * (6931471805599453 / 10 ^ 16)"
  shows "- 105 / 100 \<le> z" "z \<le> 35 / 100"
  using assms(1-3) unfolding z_def by (simp_all add: abs_le_iff)

lemma power_quotient:
  fixes z w :: real
  assumes "- 105 / 100 \<le> z" "z \<le> 35 / 100" "0 \<le> w" "w \<le> 1"
  shows "3 / 10 \<le> 1 + 2 * z / (2 - z + w)" "1 + 2 * z / (2 - z + w) \<le> 2" "\<bar>2 * z / (2 - z + w)\<bar> \<le> 1"
proof -
  have d: "0 < 2 - z + w" using assms by linarith
  have "- (7 / 10) * (2 - z + w) \<le> 2 * z" using assms by (simp add: left_diff_distrib right_diff_distrib distrib_left)
  then have "- (7 / 10) \<le> 2 * z / (2 - z + w)" by (simp only: pos_le_divide_eq [OF d])
  moreover have "2 * z / (2 - z + w) \<le> 1" using assms d by (simp add: pos_divide_le_eq)
  ultimately show "3 / 10 \<le> 1 + 2 * z / (2 - z + w)" "1 + 2 * z / (2 - z + w) \<le> 2" "\<bar>2 * z / (2 - z + w)\<bar> \<le> 1" by linarith+
qed


text \<open>The continued fraction for the exponential function, on an argument known up to \<^verbatim>\<open>8 * tiny\<close>.\<close>

lemma near_fraction:
  assumes "near Z z (8 * tiny)" "- 105 / 100 \<le> z" "z \<le> 35 / 100"
  defines "z2 \<equiv> to_double (fmul Z Z)" and "w \<equiv> z * z / (6 + z * z / (10 + z * z / 14))"
  shows "near (fadd (of_i 1) (fdiv (fmul (of_i 2) Z) (fadd (fsub (of_i 2) Z) (fdiv z2 (fadd (of_i 6) (fdiv z2 (fadd (of_i 10) (fdiv z2 (of_i 14)))))))))
    (1 + 2 * z / (2 - z + w)) (1000 * tiny)" "0 \<le> w" "w \<le> 1"
proof -
  have az: "\<bar>z\<bar> \<le> 105 / 100" using assms(2,3) by (simp add: abs_le_iff)
  have zz: "0 \<le> z * z" "z * z \<le> 5 / 4"
  proof -
    have "\<bar>z\<bar> * \<bar>z\<bar> \<le> 105 / 100 * (105 / 100)" using az by (intro mult_mono) auto
    then show "z * z \<le> 5 / 4" by simp
  qed simp
  have i: "near (of_i 14) 14 0" "near (of_i 10) 10 0" "near (of_i 6) 6 0" "near (of_i 2) 2 0" "near (of_i 1) 1 0"
    using near_of_i [of 14] near_of_i [of 10] near_of_i [of 6] near_of_i [of 2] near_of_i [of 1] by simp_all
  have m: "near (fmul Z Z) (z * z) (21 * tiny)"
  proof (rule near_mono [OF near_mul [OF assms(1,1), where c = "20 * tiny" and k = 2]])
    show "\<bar>z\<bar> * (8 * tiny) + \<bar>z\<bar> * (8 * tiny) + 8 * tiny * (8 * tiny) \<le> 20 * tiny" using az by simp
    show "\<bar>z * z\<bar> + 20 * tiny < 2 powi 2" using zz by simp
  qed (simp_all add: power_int_minus)
  have z2: "near z2 (z * z) (22 * tiny)" unfolding z2_def
    by (rule near_mono [OF near_double [OF m, where k = 2]]) (use zz in \<open>simp_all add: power_int_minus\<close>)
  have q1: "near (fdiv z2 (of_i 14)) (z * z / 14) (30 * tiny)"
    by (rule near_mono [OF near_div [OF z2 i(1), where c = 2 and d = "22 * tiny" and k = 1]]) (use zz in \<open>simp_all add: power_int_minus\<close>)
  have s1: "near (fadd (of_i 10) (fdiv z2 (of_i 14))) (10 + z * z / 14) (40 * tiny)"
    by (rule near_mono [OF near_add [OF i(2) q1, where k = 4]]) (use zz in \<open>simp_all add: power_int_minus\<close>)
  let ?y1 = "10 + z * z / 14"
  have y1: "10 \<le> ?y1" using zz by simp
  have small: "0 < y" "z * z \<le> 1 * y" if "6 \<le> y" for y using zz(2) that by linarith+
  have off: "1 \<le> y - 40 * tiny" "1 \<le> y - 100 * tiny" if "6 \<le> y" for y using that by simp_all
  have y1': "6 \<le> ?y1" using y1 by linarith
  have p1: "0 < ?y1" "z * z \<le> 1 * ?y1" by (rule small; use y1 in linarith)+
  have r1: "0 \<le> z * z / ?y1" "z * z / ?y1 \<le> 1" 
    by (rule divide_nonneg_pos [OF zz(1) p1(1)], rule iffD2 [OF pos_divide_le_eq [OF p1(1)] p1(2)])
  have q2: "near (fdiv z2 (fadd (of_i 10) (fdiv z2 (of_i 14)))) (z * z / ?y1) (90 * tiny)"
    by (rule near_mono [OF near_div [OF z2 s1 off(1) [OF y1'], where c = 2 and d = "80 * tiny" and k = 1]])
      (use zz y1 r1 in \<open>simp_all add: power_int_minus abs_of_nonneg\<close>)
  have s2: "near (fadd (of_i 6) (fdiv z2 (fadd (of_i 10) (fdiv z2 (of_i 14))))) (6 + z * z / ?y1) (100 * tiny)"
    by (rule near_mono [OF near_add [OF i(3) q2, where k = 4]]) (use r1 in \<open>simp_all add: power_int_minus abs_of_nonneg\<close>)
  let ?y2 = "6 + z * z / ?y1"
  have y2: "6 \<le> ?y2" using r1 by simp
  have p2: "0 < ?y2" "z * z \<le> 1 * ?y2" by (rule small [OF y2])+
  show w: "0 \<le> w" "w \<le> 1" 
    unfolding w_def by (rule divide_nonneg_pos [OF zz(1) p2(1)], rule iffD2 [OF pos_divide_le_eq [OF p2(1)] p2(2)])
  have q3: "near (fdiv z2 (fadd (of_i 6) (fdiv z2 (fadd (of_i 10) (fdiv z2 (of_i 14)))))) w (170 * tiny)" unfolding w_def
    by (rule near_mono [OF near_div [OF z2 s2 off(2) [OF y2], where c = 2 and d = "160 * tiny" and k = 1]])
      (use zz y2 w [unfolded w_def] in \<open>simp_all add: power_int_minus abs_of_nonneg\<close>)
  have d1: "near (fsub (of_i 2) Z) (2 - z) (9 * tiny)"
    by (rule near_mono [OF near_sub [OF i(4) assms(1), where k = 2]]) (use az in \<open>auto simp: power_int_minus abs_le_iff\<close>)
  let ?D = "2 - z + w"
  have D: "\<bar>?D\<bar> \<le> 41 / 10" "165 / 100 \<le> ?D" using assms(2,3) w by (auto simp: abs_le_iff)
  have d2: "near (fadd (fsub (of_i 2) Z) (fdiv z2 (fadd (of_i 6) (fdiv z2 (fadd (of_i 10) (fdiv z2 (of_i 14))))))) ?D (180 * tiny)"
    by (rule near_mono [OF near_add [OF d1 q3, where k = 3]]) (use D in \<open>simp_all add: power_int_minus\<close>)
  have n: "near (fmul (of_i 2) Z) (2 * z) (17 * tiny)"
    by (rule near_mono [OF near_mul [OF i(4) assms(1), where c = "16 * tiny" and k = 2]]) (use az in \<open>simp_all add: power_int_minus abs_mult\<close>)
  note Q = power_quotient [OF assms(2,3) w]
  have r: "near (fdiv (fmul (of_i 2) Z) (fadd (fsub (of_i 2) Z) (fdiv z2 (fadd (of_i 6) (fdiv z2 (fadd (of_i 10) (fdiv z2 (of_i 14))))))))
      (2 * z / ?D) (900 * tiny)"
    
  proof (rule near_mono [OF near_div [OF n d2, where c = 4 and d = "800 * tiny" and k = 2]])
    have "x + 800 * tiny < 2 powi 2" if "x \<le> 1" for x :: real using that by (simp add: power_int_def)
    from this [OF Q(3)] show "\<bar>2 * z / ?D\<bar> + 800 * tiny < 2 powi 2" .
  qed (use D az in \<open>simp_all add: power_int_minus abs_mult\<close>)
  show "near (fadd (of_i 1) (fdiv (fmul (of_i 2) Z) (fadd (fsub (of_i 2) Z) (fdiv z2 (fadd (of_i 6) (fdiv z2 (fadd (of_i 10) (fdiv z2 (of_i 14)))))))))
    (1 + 2 * z / ?D) (1000 * tiny)"
    by (rule near_mono [OF near_add [OF i(5) r, where k = 3]]) (use Q(1,2) in \<open>simp_all add: power_int_minus abs_of_nonneg\<close>)
qed

lemma exp_power_small:
  assumes "- 307 \<le> k" "k \<le> 307"
  obtains e2 F e where "exp_power k = Some (Fin F e)" "1 / 4 * 2 powi e2 \<le> rval F e" "rval F e \<le> 4 * 2 powi e2"
    "real_of_int k * (3321928094887362 / 10 ^ 15) - 51 / 100 < of_int e2" "- 1019 \<le> e2" "e2 \<le> 1021"
proof -
  have kr: "- 307 \<le> real_of_int k" "real_of_int k \<le> 307" using assms by simp_all
  let ?p = "real_of_int k * (3321928094887362 / 10 ^ 15)"
  have b: "\<bar>?p\<bar> \<le> 1025" "- 102033 / 100 \<le> ?p" "?p \<le> 102033 / 100" using kr by (auto simp: abs_le_iff)
  have p: "near (fmul (of_i k) (fconst 3321928094887362 (10 ^ 15))) ?p (3 * tiny)"
    by (rule near_mul_i [OF float_consts(7)]) (use kr b in \<open>auto simp: abs_le_iff\<close>)
  have y: "near (fadd (fmul (of_i k) (fconst 3321928094887362 (10 ^ 15))) half) (?p + 1 / 2) (5 * tiny)"
  proof (rule near_mono [OF near_add [OF p float_consts(8), where k = 12]])
    have "\<bar>x + 1 / 2\<bar> + (3 * tiny + 0) < 2 powi 12" if "\<bar>x\<bar> \<le> 1025" for x :: real
      using that by (simp add: power_int_def)
    from this [OF b(1)] show "\<bar>?p + 1 / 2\<bar> + (3 * tiny + 0) < 2 powi 12" .
  qed (simp_all add: power_int_minus)
  have yr: "\<bar>?p + 1 / 2\<bar> + 5 * tiny < 10 ^ 9"
  proof -
    have "\<bar>x + 1 / 2\<bar> + 5 * tiny < 10 ^ 9" if "\<bar>x\<bar> \<le> 1025" for x :: real using that by simp
    from this [OF b(1)] show ?thesis .
  qed
  obtain e2 where e2: "to_int (- (2 ^ 31)) (2 ^ 31 - 1) (fadd (fmul (of_i k) (fconst 3321928094887362 (10 ^ 15))) half) = Some e2"
    "?p + 1 / 2 - 5 * tiny - 1 < of_int e2" "of_int e2 < ?p + 1 / 2 + 5 * tiny + 1"
    "?p + 1 / 2 + 5 * tiny < 0 \<Longrightarrow> ?p + 1 / 2 - 5 * tiny \<le> of_int e2"
    by (rule to_int_near [OF y yr]) blast
  have lin: "x - 51 / 100 < r" if "x + 1 / 2 - 5 * tiny - 1 < r" for x r :: real using that by simp
  have low: "- 1020 < real_of_int e2"
  proof (cases "?p + 1 / 2 + 5 * tiny < 0")
    case True
    have "- 1020 < r" if "x + 1 / 2 - 5 * tiny \<le> r" "- 102033 / 100 \<le> x" for x r :: real using that by simp
    from this [OF e2(4) [OF True] b(2)] show ?thesis .
  next
    case False
    have "- 1020 < r" if "x + 1 / 2 - 5 * tiny - 1 < r" "\<not> x + 1 / 2 + 5 * tiny < 0" for x r :: real using that by simp
    from this [OF e2(2) False] show ?thesis .
  qed
  have high: "real_of_int e2 < 1022"
  proof -
    have "r < 1022" if "r < x + 1 / 2 + 5 * tiny + 1" "x \<le> 102033 / 100" for x r :: real using that by simp
    from this [OF e2(3) b(3)] show ?thesis .
  qed
  have er: "- 1019 \<le> e2" "e2 \<le> 1021" using low high by linarith+
  let ?z = "real_of_int k * (2302585092994046 / 10 ^ 15) - of_int e2 * (6931471805599453 / 10 ^ 16)"
  have zb: "- 105 / 100 \<le> ?z" "?z \<le> 35 / 100"
    by (rule power_argument [OF _ e2(2,3)]; use kr in \<open>simp add: abs_le_iff\<close>)+
  have z1: "near (fmul (of_i k) (fconst 2302585092994046 (10 ^ 15))) (real_of_int k * (2302585092994046 / 10 ^ 15)) (3 * tiny)"
    by (rule near_mul_i [OF float_consts(5)]) (use kr in \<open>auto simp: abs_le_iff\<close>)
  have z2: "near (fmul (of_i e2) (fconst 6931471805599453 (10 ^ 16))) (real_of_int e2 * (6931471805599453 / 10 ^ 16)) (3 * tiny)"
    by (rule near_mul_i [OF float_consts(6)]) (use er in \<open>auto simp: abs_le_iff\<close>)
  let ?Z = "to_double (fsub (fmul (of_i k) (fconst 2302585092994046 (10 ^ 15))) (fmul (of_i e2) (fconst 6931471805599453 (10 ^ 16))))"
  have az: "\<bar>?z\<bar> + d < 2 powi 1" if "d \<le> 1 / 2" for d
  proof -
    have "\<bar>x\<bar> + d < 2 powi 1" if "- 105 / 100 \<le> x" "x \<le> 35 / 100" for x :: real using that \<open>d \<le> 1 / 2\<close> by (simp add: power_int_def)
    from this [OF zb] show ?thesis .
  qed
  have z3: "near (fsub (fmul (of_i k) (fconst 2302585092994046 (10 ^ 15))) (fmul (of_i e2) (fconst 6931471805599453 (10 ^ 16)))) ?z (7 * tiny)"
    by (rule near_mono [OF near_sub [OF z1 z2 az]]) (simp_all add: power_int_minus)
  have Z: "near ?Z ?z (8 * tiny)"
    by (rule near_mono [OF near_double [OF z3 az]]) (simp_all add: power_int_minus)
  let ?w = "?z * ?z / (6 + ?z * ?z / (10 + ?z * ?z / 14))"
  note fr = near_fraction [OF Z zb]
  note Q = power_quotient [OF zb fr(2,3)]
  let ?E = "1 + 2 * ?z / (2 - ?z + ?w)"
  let ?P = "2 powi e2 :: real"
  have P: "near (of_bits (push_bit 52 (word_of_int (e2 + 1023)))) ?P 0"

  proof -
    have "of_bits (push_bit 52 (word_of_int (e2 + 1023))) = Fin (2 ^ 52) (e2 + 1023 - 1075)"
      by (rule power_of_two_bits) (use er in simp_all)
    moreover have "rval (2 ^ 52) (e2 + 1023 - 1075) = ?P" using rval_pow [of "e2 - 52" e2] by simp
    ultimately show ?thesis by (simp only: near_def fval.inject) simp
  qed
  have P0: "0 < ?P" by simp
  have pk: "2 powi (e2 + 2) = 4 * ?P" "2 powi (e2 + 2 - 65) = ?P / 2 ^ 63" "2 powi (e2 + 2 - 54) = ?P / 2 ^ 52"
    using power_int_add [of "2::real" e2 2] power_int_add [of "2::real" e2 "- 63"] power_int_add [of "2::real" e2 "- 52"]
    by (simp_all add: power_int_minus)
  have PE: "3 / 10 * ?P \<le> ?P * ?E" "?P * ?E \<le> 2 * ?P"
    using mult_left_mono [OF Q(1), of ?P] mult_left_mono [OF Q(2), of ?P] by (simp_all only: mult.commute [of ?P] P0 less_imp_le)
  have q1: "near (fmul (of_bits (push_bit 52 (word_of_int (e2 + 1023)))) f) (?P * ?E) (1 / 10 ^ 8 * ?P)" if "near f ?E (1000 * tiny)" for f
  proof (rule near_mono [OF near_mul [OF P that, where c = "1 / 10 ^ 9 * ?P" and k = "e2 + 2"]])
    show "\<bar>?P\<bar> * (1000 * tiny) + \<bar>?E\<bar> * 0 + 0 * (1000 * tiny) \<le> 1 / 10 ^ 9 * ?P" using P0 by simp
    have "\<bar>y\<bar> + 1 / 10 ^ 9 * x < 4 * x" if "3 / 10 * x \<le> y" "y \<le> 2 * x" "0 < x" for x y :: real using that by simp
    from this [OF PE P0] show "\<bar>?P * ?E\<bar> + 1 / 10 ^ 9 * ?P < 2 powi (e2 + 2)" unfolding pk(1) .
    show "1 / 10 ^ 9 * ?P + 2 powi (e2 + 2 - 65) \<le> 1 / 10 ^ 8 * ?P" unfolding pk(2) using P0 by simp
  qed (use er in simp_all)
  have q2: "near (to_double (fmul (of_bits (push_bit 52 (word_of_int (e2 + 1023)))) f)) (?P * ?E) (1 / 50 * ?P)" if "near f ?E (1000 * tiny)" for f
  proof (rule near_mono [OF near_double [OF q1 [OF that], where k = "e2 + 2"]])
    have "\<bar>y\<bar> + 1 / 10 ^ 8 * x < 4 * x" if "3 / 10 * x \<le> y" "y \<le> 2 * x" "0 < x" for x y :: real using that by simp
    from this [OF PE P0] show "\<bar>?P * ?E\<bar> + 1 / 10 ^ 8 * ?P < 2 powi (e2 + 2)" unfolding pk(1) .
    show "1 / 10 ^ 8 * ?P + 2 powi (e2 + 2 - 54) \<le> 1 / 50 * ?P" unfolding pk(3) using P0 by simp
  qed (use er in simp_all)
  obtain F e where F: "to_double (fmul (of_bits (push_bit 52 (word_of_int (e2 + 1023))))
      (fadd (of_i 1) (fdiv (fmul (of_i 2) ?Z) (fadd (fsub (of_i 2) ?Z) (fdiv (to_double (fmul ?Z ?Z)) (fadd (of_i 6)
        (fdiv (to_double (fmul ?Z ?Z)) (fadd (of_i 10) (fdiv (to_double (fmul ?Z ?Z)) (of_i 14)))))))))) = Fin F e"
    "\<bar>rval F e - ?P * ?E\<bar> \<le> 1 / 50 * ?P"
    using q2 [OF fr(1)] by (auto simp: near_def)
  have "exp_power k = Some (Fin F e)" unfolding exp_power_def e2(1) by (simp only: option.map Let_def F(1))
  moreover have "1 / 4 * x \<le> r \<and> r \<le> 4 * x" if "3 / 10 * x \<le> y" "y \<le> 2 * x" "0 < x" "\<bar>r - y\<bar> \<le> 1 / 50 * x" for x y r :: real
    using that by linarith
  then have "1 / 4 * ?P \<le> rval F e" "rval F e \<le> 4 * ?P" using PE P0 F(2) by blast+
  ultimately show ?thesis using that lin [OF e2(2)] er by blast
qed

lemma exp_power_bounds:
  assumes "- 307 \<le> k" "k \<le> 308"
  obtains e2 F e where "exp_power k = Some (Fin F e)" "1 / 4 * 2 powi e2 \<le> rval F e" "rval F e \<le> 4 * 2 powi e2"
    "real_of_int k * (3321928094887362 / 10 ^ 15) - 51 / 100 < of_int e2" "- 1019 \<le> e2" "e2 \<le> 1023"
proof (cases "k = 308")
  case True
  have p: "(2::real) powi 1023 = of_int (2 ^ 52) * 2 powi 971" by (simp add: power_int_def)
  have "1 / 4 * 2 powi 1023 \<le> rval 5010420900022968 971" "rval 5010420900022968 971 \<le> 4 * 2 powi 1023"
    unfolding rval_def p mult.assoc [symmetric] by (intro mult_right_mono; simp)+
  then show ?thesis using that [OF exp_power_308 [folded True], of 1023] True by simp
next
  case False
  then have "k \<le> 307" using assms(2) by simp
  obtain e2 F e where F: "exp_power k = Some (Fin F e)" "1 / 4 * 2 powi e2 \<le> rval F e" "rval F e \<le> 4 * 2 powi e2"
    "real_of_int k * (3321928094887362 / 10 ^ 15) - 51 / 100 < of_int e2" "- 1019 \<le> e2" "e2 \<le> 1021"
    by (rule exp_power_small [OF assms(1) \<open>k \<le> 307\<close>])
  have "e2 \<le> 1023" using F(6) by simp
  from that [OF F(1-5) this] show ?thesis .
qed

lemma near_fdiv:
  assumes "0 < m'" "\<bar>rval m e / rval m' e'\<bar> < 2 powi k" "- 16381 \<le> k" "k \<le> 16383"
  shows "near (fdiv (Fin m e) (Fin m' e')) (rval m e / rval m' e') (2 powi (k - 65))"
proof -
  have "of_int (sgn m' * m) / of_int \<bar>m'\<bar> * 2 powi (e - e') = rval m e / rval m' e'"
    using assms(1) by (simp add: rval_def power_int_diff)
  then have "\<bar>of_int (sgn m' * m) / of_int \<bar>m'\<bar> * 2 powi (e - e') - rval m e / rval m' e'\<bar> \<le> 0" by simp
  from near_rnd [OF _ this, of k] show ?thesis using assms by simp
qed

lemma etoa_exponent_bounds:
  assumes "0 \<le> m" "rval m e < 2 powi 1024"
  obtains k n u x where "etoa_exponent (Fin m e) = Some (k, Fin n u)" "0 < n" "rval m e \<le> 800 * rval n u"
    "rval m e < 2 powi (x + 1)" "301029995663981 / 10 ^ 15 * of_int x - 97 / 100 < real_of_int k + 1" "k \<le> 308"
proof -
  obtain k x where k: "exp_guess (Fin m e) = Some k" "rval m e < 2 powi (x + 1)" "- 1023 \<le> x" "x \<le> 1023"
    "301029995663981 / 10 ^ 15 * of_int x - 97 / 100 < real_of_int k" "- 307 \<le> k" "k \<le> 308"
    by (rule exp_guess_bounds [OF assms])
  obtain e2 F u where F: "exp_power k = Some (Fin F u)" "1 / 4 * 2 powi e2 \<le> rval F u" "rval F u \<le> 4 * 2 powi e2"
    "real_of_int k * (3321928094887362 / 10 ^ 15) - 51 / 100 < of_int e2" "- 1019 \<le> e2" "e2 \<le> 1023"
    by (rule exp_power_bounds [OF k(6,7)])
  let ?P = "2 powi e2 :: real"
  have P0: "0 < ?P" by simp
  have "real_of_int x - 4 < of_int e2"
  proof -
    have "x - 4 < y" if "301029995663981 / 10 ^ 15 * x - 97 / 100 < k" "k * (3321928094887362 / 10 ^ 15) - 51 / 100 < y" "- 1023 \<le> x" "x \<le> 1023" for x k y :: real
      using that by simp
    from this [OF k(5) F(4)] show ?thesis using k(3,4) by simp
  qed
  then have "x + 1 \<le> e2 + 4" by linarith
  then have "(2::real) powi (x + 1) \<le> 2 powi (e2 + 4)" by (intro power_int_increasing) auto
  then have v: "rval m e < 16 * ?P" using k(2) power_int_add [of "2::real" e2 4] by simp
  have pos: "0 < n" if "1 / 50 * ?P \<le> rval n u" for n u
  proof -
    have "0 < rval n u" using that P0 by linarith
    then show ?thesis by (simp add: rval_def zero_less_mult_iff)
  qed
  have le: "rval m e \<le> 800 * r" if "1 / 50 * ?P \<le> r" for r using that v by linarith
  show ?thesis
  proof (cases "fless (Fin m e) (Fin F u)")
    case False
    have "1 / 50 * ?P \<le> rval F u" using F(2) P0 by linarith
    moreover have "etoa_exponent (Fin m e) = Some (k, Fin F u)" using False by (simp add: etoa_exponent_def k(1) F(1) del: fless.simps)
    moreover have "301029995663981 / 10 ^ 15 * of_int x - 97 / 100 < real_of_int k + 1" using k(5) by linarith
    ultimately show ?thesis using that [of k F u x, OF _ pos le k(2) _ k(7)] by blast
  next
    case True
    have q: "near (Fin F u) (rval F u) 0" by (simp add: near_def)
    have i: "near (of_i 10) 10 0" using near_of_i [of 10] by simp
    have pk: "2 powi (e2 - 65) = ?P / 2 ^ 65" "2 powi (e2 - 54) = ?P / 2 ^ 54"
      using power_int_add [of "2::real" e2 "- 65"] power_int_add [of "2::real" e2 "- 54"] by (simp_all add: power_int_minus)
    have d: "near (fdiv (Fin F u) (of_i 10)) (rval F u / 10) (1 / 10 ^ 6 * ?P)"
    proof (rule near_mono [OF near_div [OF q i, where c = "4 * ?P" and d = 0 and k = e2]])
      have "\<bar>r\<bar> + 0 \<le> 4 * x \<and> \<bar>r / 10\<bar> + 0 < x" if "1 / 4 * x \<le> r" "r \<le> 4 * x" "0 < x" for r x :: real using that by simp
      from this [OF F(2,3) P0] show "\<bar>rval F u\<bar> + 0 \<le> 4 * ?P" "\<bar>rval F u / 10\<bar> + 0 < 2 powi e2" by blast+
      show "0 + 2 powi (e2 - 65) \<le> 1 / 10 ^ 6 * ?P" unfolding pk using P0 by simp
    qed (use F(5,6) in simp_all)
    have "near (to_double (fdiv (Fin F u) (of_i 10))) (rval F u / 10) (1 / 10 ^ 5 * ?P)"
    proof (rule near_mono [OF near_double [OF d, where k = e2]])
      have "\<bar>r / 10\<bar> + 1 / 10 ^ 6 * x < x" if "1 / 4 * x \<le> r" "r \<le> 4 * x" "0 < x" for r x :: real using that by simp
      from this [OF F(2,3) P0] show "\<bar>rval F u / 10\<bar> + 1 / 10 ^ 6 * ?P < 2 powi e2" .
      show "1 / 10 ^ 6 * ?P + 2 powi (e2 - 54) \<le> 1 / 10 ^ 5 * ?P" unfolding pk using P0 by simp
    qed (use F(5,6) in simp_all)
    then obtain n w where n: "to_double (fdiv (Fin F u) (of_i 10)) = Fin n w" "\<bar>rval n w - rval F u / 10\<bar> \<le> 1 / 10 ^ 5 * ?P"
      by (auto simp: near_def)
    have "1 / 50 * x \<le> y" if "1 / 4 * x \<le> r" "\<bar>y - r / 10\<bar> \<le> 1 / 10 ^ 5 * x" "0 < x" for x r y :: real
      using that(1,3) abs_le_D2 [OF that(2)] by simp
    from this [OF F(2) n(2) P0] have l: "1 / 50 * ?P \<le> rval n w" .
    have "etoa_exponent (Fin m e) = Some (k - 1, Fin n w)" using True by (simp add: etoa_exponent_def k(1) F(1) n(1) del: fless.simps)
    from that [OF this pos [OF l] le [OF l] k(2)] show ?thesis using k(5,7) by simp
  qed
qed

end
