(* ===== verification/Frog_Etoa.thy ===== *)
theory Frog_Etoa
  imports Frog_Exponent
begin

text \<open>
  The two floating-point conversions return for every double, and what \<^verbatim>\<open>%f\<close> and \<^verbatim>\<open>%e\<close> print wrong.
\<close>

section \<open>The two functions return\<close>

lemma of_bits_less: "of_bits x = Fin m e \<Longrightarrow> \<bar>rval m e\<bar> < 2 powi 1024"
proof -
  assume b: "of_bits x = Fin m e"
  let ?X = "uint (drop_bit 52 x AND 0x7FF)" and ?A = "uint (x AND 0xFFFFFFFFFFFFF)"
  have X: "?X < 0x7FF"
  proof -
    have "drop_bit 52 x AND 0x7FF \<le> 0x7FF" by (rule word_and_le1)
    then have "?X \<le> 0x7FF" by (simp add: word_le_def)
    moreover have "?X \<noteq> 0x7FF" using b by (auto simp: of_bits_def Let_def split: if_splits)
    ultimately show ?thesis by simp
  qed
  have step: "\<bar>m\<bar> < 2 ^ 53 \<and> e \<le> 971" if "0 \<le> A" "A < 2 ^ 52" "X < 0x7FF"
    "(let (m, e) = if X = 0 then (A, - 1074) else (A + 2 ^ 52, X - 1075) in Fin (if s then - m else m) e) = Fin m e" for A X :: int and s
    using that by (auto simp: Let_def split: if_splits)
  have "(let (m, e) = if ?X = 0 then (?A, - 1074) else (?A + 2 ^ 52, ?X - 1075) in Fin (if bit x 63 then - m else m) e) = Fin m e"
    using b X unfolding of_bits_def Let_def by auto
  from step [OF uint_ge_0 uint_lt_bits X this] have m: "\<bar>m\<bar> < 2 ^ 53" "e \<le> 971" by blast+
  have "real_of_int \<bar>m\<bar> < of_int (2 ^ 53)" using m(1) by (simp only: of_int_less_iff)
  then have "rval \<bar>m\<bar> e < of_int (2 ^ 53) * 2 powi e" unfolding rval_def by (rule mult_strict_right_mono) simp
  then have "\<bar>rval m e\<bar> < of_int (2 ^ 53) * 2 powi e" unfolding rval_abs .
  also have "\<dots> \<le> of_int (2 ^ 53) * 2 powi 971" using m(2) by (intro mult_left_mono power_int_increasing) simp_all
  also have "\<dots> = 2 powi 1024" by (simp add: power_int_def)
  finally show ?thesis .
qed

lemma ftoa_round_returns:
  assumes "in_format double_format m e" "0 \<le> m" "rval m e \<le> 10 ^ 9" "p \<le> (9 :: u32)"
  shows "ftoa_round (Fin m e) p \<noteq> None"
proof -
  let ?x = "rval m e - of_int \<lfloor>rval m e\<rfloor>"
  have up: "unat p \<le> 9" using assms(4) by (simp add: word_le_nat_alt)
  have P9: "(10::real) ^ unat p \<le> 10 ^ 9" by (rule power_increasing) (use up in simp_all)
  obtain tm te where t: "to_double (fmul (fsub (Fin m e) (of_i \<lfloor>rval m e\<rfloor>)) (of_i (10 ^ unat p))) = Fin tm te" "0 \<le> tm" "rval tm te < 2 ^ 31"
  proof (cases "1 \<le> unat p")
    case True
    obtain tm te where t: "to_double (fmul (fsub (Fin m e) (of_i \<lfloor>rval m e\<rfloor>)) (of_i (10 ^ unat p))) = Fin tm te"
      "0 \<le> tm" "rval tm te < 10 ^ unat p" by (rule ftoa_tmp [OF assms(1,2) True up])
    have "rval tm te < 2 ^ 31" using t(3) P9 by simp
    from that [OF t(1,2) this] show ?thesis .
  next
    case False
    then have p: "unat p = 0" by simp
    obtain d u n where d: "fsub (Fin m e) (of_i \<lfloor>rval m e\<rfloor>) = Fin d u" "0 \<le> d" "rval d u \<le> 1 - 2 powi (- 53)" "rval d u = rval n e"
      "in_format double_format n e" by (rule fsub_floor [OF assms(1,2)]) blast
    have lt: "\<bar>rval n e\<bar> < 2 powi 0" using d(2-4) rval_nonneg [of d u] by (simp add: power_int_minus)
    have f: "in_format ext_format n e" using d(5) by (simp add: formats)
    obtain r v where r: "fmul (Fin d u) (Fin 1 0) = Fin r v" "rval r v = rval n e"
      by (rule fmul_exact [of d u 1 0 n e 0]) (use d(4) f lt in simp_all)
    obtain tm te where t: "to_double (Fin r v) = Fin tm te" "rval tm te = rval r v"
      by (rule to_double_exact [OF r(2) d(5), of 0]) (use r(2) lt in simp_all)
    have "0 \<le> tm" using rval_nonneg [of tm te] rval_nonneg [of d u] t(2) r(2) d(2,4) by simp
    moreover have "rval tm te < 2 ^ 31" using lt t(2) r(2) by simp
    ultimately show ?thesis using that d(1) r(1) t(1) p by (simp add: of_i_def)
  qed
  have w: "to_int (- 2147483648) 2147483647 (Fin m e) = Some \<lfloor>rval m e\<rfloor>"
    by (rule to_int_floor [OF assms(2)]) (use assms(3) in simp_all)
  have tk: "to_int 0 4294967295 (Fin tm te) = Some \<lfloor>rval tm te\<rfloor>"
    by (rule to_int_floor [OF t(2)]) (use t(3) in simp_all)
  show ?thesis using assms(4)
    by (simp add: ftoa_round_def w pow10_value [OF assms(4)] t(1) tk Let_def not_less case_prod_unfold del: to_int.simps)
qed

lemma ftoa_limit_le: "length buf + (unat p - 9) \<le> 32 \<Longrightarrow> snd (ftoa_limit buf p) \<le> 9"
proof (induction buf p rule: ftoa_limit.induct)
  case (1 buf p)
  show ?case
  proof (cases "9 < p")
    case True
    then have u: "unat p = Suc (unat (p - 1))" "9 < unat p"
      using unat_minus_one [of p] unat_gt_0 [of p] by (auto simp: word_less_nat_alt)
    then show ?thesis using 1 True by (subst ftoa_limit.simps) auto
  next
    case False
    then show ?thesis by (subst ftoa_limit.simps) simp
  qed
qed

lemma ftoa_buf_returns:
  assumes "in_format double_format m e" "\<bar>rval m e\<bar> \<le> 10 ^ 9" "flag flags FLAGS_PRECISION \<longrightarrow> p \<le> (41 :: u32)"
  shows "ftoa_buf (Fin m e) p width flags \<noteq> None"
proof -
  let ?p = "if \<not> flag flags FLAGS_PRECISION then PRINTF_DEFAULT_FLOAT_PRECISION else p"
  obtain buf p1 where l: "ftoa_limit [] ?p = (buf, p1)" by fastforce
  have "unat ?p \<le> 41" using assms(3) by (auto simp: word_le_nat_alt)
  then have p1: "p1 \<le> 9" using ftoa_limit_le [of "[]" ?p] l by simp
  obtain m' e' where v: "(if fless (Fin m e) (of_i 0) then to_double (fsub (of_i 0) (Fin m e)) else Fin m e) = Fin m' e'"
    "in_format double_format m' e'" "0 \<le> m'" "rval m' e' \<le> 10 ^ 9"
  proof (cases "rval m e < 0")
    case True
    then have "m < 0" using rval_nonneg [of m e] by linarith
    from fsub_zero_neg [OF assms(1) this assms(2)] obtain m' u where "to_double (fsub (of_i 0) (Fin m e)) = Fin m' u"
      "rval m' u = \<bar>rval m e\<bar>" "in_format double_format m' u" "0 \<le> m'" by blast
    then show ?thesis using that True assms(2) by (simp add: fless_of_i del: fless.simps)
  next
    case False
    then show ?thesis using that [of m e] assms(1,2) rval_nonneg [of m e] by (simp add: fless_of_i del: fless.simps)
  qed
  obtain w where "ftoa_round (Fin m' e') p1 = Some w" using ftoa_round_returns [OF v(2,3,4) p1] by blast
  then show ?thesis unfolding ftoa_buf_def Let_def v(1) l by (simp add: l del: fless.simps)
qed

lemma ftoa_chars_small_returns:
  assumes "in_format double_format m e" "\<bar>rval m e\<bar> \<le> 10 ^ 9" "flag flags FLAGS_PRECISION \<longrightarrow> p \<le> (41 :: u32)"
  shows "ftoa_chars (Fin m e) p width flags \<noteq> None"
  unfolding ftoa_chars_small [OF assms(2)] using ftoa_buf_returns [OF assms] by simp

lemma etoa_quotient:
  assumes "0 \<le> m" "0 < n" "rval m e \<le> 800 * rval n u"
  obtains d v where "to_double (fdiv (Fin m e) (Fin n u)) = Fin d v" "in_format double_format d v" "\<bar>rval d v\<bar> \<le> 10 ^ 9"
proof -
  have p: "0 < rval n u" using assms(2) by (simp add: rval_def)
  have q: "0 \<le> rval m e / rval n u" "rval m e / rval n u \<le> 800"
    using assms(1,3) p rval_nonneg [of m e] by (simp_all add: pos_divide_le_eq)
  have "near (fdiv (Fin m e) (Fin n u)) (rval m e / rval n u) (2 powi (10 - 65))"
    by (rule near_fdiv [OF assms(2)]) (use q in \<open>simp_all add: power_int_def abs_of_nonneg\<close>)
  then obtain r w where r: "fdiv (Fin m e) (Fin n u) = Fin r w" "\<bar>rval r w - rval m e / rval n u\<bar> \<le> 2 powi (10 - 65)"
    by (auto simp: near_def)
  have one: "(2::real) powi (10 - 65) \<le> 1" "(2::real) powi (11 - 54) \<le> 1" "(2::real) powi 11 = 2048" "(10::real) ^ 9 = 1000000000" by (simp_all add: power_int_def power_divide)
  have "\<bar>y\<bar> < 2 powi 11" if "\<bar>y - x\<bar> \<le> 2 powi (10 - 65)" "0 \<le> x" "x \<le> 800" for x y :: real
    using that one by linarith
  from this [OF r(2) q] have b: "\<bar>rval r w\<bar> < 2 powi 11" .
  obtain d v where d: "to_double (Fin r w) = Fin d v" "\<bar>rval d v - rval r w\<bar> \<le> 2 powi (11 - 54)" "in_format double_format d v"
    by (rule to_double_error [OF b]) simp_all
  have "\<bar>y\<bar> \<le> 10 ^ 9" if "\<bar>y - x\<bar> \<le> 2 powi (11 - 54)" "\<bar>x\<bar> < 2 powi 11" for x y :: real
    using that one by linarith
  from this [OF d(2) b] that d r(1) show ?thesis by simp
qed

lemma small_prec:
  assumes "p \<le> (36 :: u32)" "- 6 \<le> k" "k < sint p"
  shows "p - word_of_int k - 1 \<le> 41"
proof -
  have u: "uint p \<le> 36" "0 \<le> uint p" using assms(1) by (simp_all add: word_le_def)
  have "signed_take_bit 31 i = i" if "i \<le> 36" "0 \<le> i" for i :: int using that by (simp add: signed_take_bit_int_eq_self)
  from this [OF u] have "sint p = uint p" by (simp add: sint_uint)
  then have r: "0 \<le> uint p - k - 1" "uint p - k - 1 \<le> 41" using u assms(2,3) by simp_all
  have "p - word_of_int k - 1 = word_of_int (uint p - k - 1)" by (simp add: wi_hom_syms)
  moreover have "uint (word_of_int i :: u32) = i" if "0 \<le> i" "i \<le> 41" for i using that by (simp add: uint_word_of_int)
  from this [OF r] have "uint (word_of_int (uint p - k - 1) :: u32) = uint p - k - 1" .
  ultimately show ?thesis using r(2) by (simp only: word_le_def) simp
qed

lemma etoa_parts_small:
  assumes "in_format double_format m e" "\<bar>rval m e\<bar> < 2 powi 1024" "prec \<le> 36"
  obtains p n u where "etoa_parts (Fin m e) prec width flags = Some p" "e_value p = Fin n u" "in_format double_format n u"
    "\<bar>rval n u\<bar> \<le> 10 ^ 9" "e_prec p \<le> 41"
proof -
  let ?neg = "fless (Fin m e) (of_i 0)"
  have v: "(if ?neg then fneg (Fin m e) else Fin m e) = Fin \<bar>m\<bar> e"
    using rval_nonneg [of m e] by (cases "m < 0") (auto simp: fless_of_i not_less simp del: fless.simps)
  have b: "0 \<le> \<bar>m\<bar>" "rval \<bar>m\<bar> e < 2 powi 1024" using assms(2) by (simp_all add: rval_abs [symmetric])
  obtain k F w x where k: "etoa_exponent (Fin \<bar>m\<bar> e) = Some (k, Fin F w)" "0 < F" "rval \<bar>m\<bar> e \<le> 800 * rval F w"
    "rval \<bar>m\<bar> e < 2 powi (x + 1)" "301029995663981 / 10 ^ 15 * of_int x - 97 / 100 < real_of_int k + 1" "k \<le> 308"
    by (rule etoa_exponent_bounds [OF b])
  have f: "in_format double_format \<bar>m\<bar> e" using assms(1) by (simp add: in_format_def)
  let ?fixed = "flag flags FLAGS_ADAPT_EXP \<and> fleq (fconst 1 10000) (Fin \<bar>m\<bar> e) \<and> fless (Fin \<bar>m\<bar> e) (fconst 1000000 1)"
  define k' where "k' = (if ?fixed then 0 else k)"
  define v' where "v' = (if k' \<noteq> 0 then to_double (fdiv (Fin \<bar>m\<bar> e) (Fin F w)) else Fin \<bar>m\<bar> e)"
  obtain n u where n: "v' = Fin n u" "in_format double_format n u" "\<bar>rval n u\<bar> \<le> 10 ^ 9"
  proof (cases "k' = 0")
    case False
    from etoa_quotient [OF b(1) k(2,3)] show ?thesis using that False unfolding v'_def by metis
  next
    case True
    have "rval \<bar>m\<bar> e \<le> 10 ^ 9"
    proof (cases ?fixed)
      case fixed: True
      have "near (fconst 1000000 1) (of_int 1000000 / of_int 1) (2 powi (20 - 65))"
        by (rule near_const) (simp_all add: power_int_def)
      then obtain c d where c: "fconst 1000000 1 = Fin c d" "\<bar>rval c d - 1000000\<bar> \<le> 2 powi (20 - 65)" by (auto simp: near_def)
      have "rval \<bar>m\<bar> e < rval c d" using fixed unfolding c(1) fless_rval by blast
      moreover have "y \<le> 10 ^ 9" if "\<bar>y - 1000000\<bar> \<le> 2 powi (20 - 65)" for y :: real using abs_le_D1 [OF that] by (simp add: power_int_def power_divide)
      from this [OF c(2)] have "rval c d \<le> 10 ^ 9" .
      ultimately show ?thesis by linarith
    next
      case False
      have "k = 0" using True unfolding k'_def if_not_P [OF False] .
      have "x < 7" if "301029995663981 / 10 ^ 15 * x - 97 / 100 < 0 + 1" for x :: real using that by simp
      from this [of "of_int x"] have "real_of_int x < 7" using k(5) \<open>k = 0\<close> by simp
      then have "x + 1 \<le> 7" by linarith
      then have "(2::real) powi (x + 1) \<le> 2 powi 7" by (intro power_int_increasing) auto
      also have "\<dots> \<le> 10 ^ 9" by (simp add: power_int_def)
      finally show ?thesis using k(4) by linarith
    qed
    then show ?thesis using that [of "\<bar>m\<bar>" e] True f by (simp add: v'_def rval_abs)
  qed
  let ?p1 = "if \<not> flag flags FLAGS_PRECISION then 6 else prec"
  have p1: "?p1 \<le> 36" using assms(3) by simp
  have pr: "?p1 - word_of_int k - 1 \<le> 41" if ?fixed "k < sint ?p1"
  proof (rule small_prec [OF p1 _ that(2)])
    have "near (fconst 1 10000) (of_int 1 / of_int 10000) (2 powi (- 10 - 65))"
      by (rule near_const) (simp_all add: power_int_def power_divide)
    then obtain c d where c: "fconst 1 10000 = Fin c d" "\<bar>rval c d - 1 / 10000\<bar> \<le> 2 powi (- 10 - 65)" by (auto simp: near_def)
    have "rval c d \<le> rval \<bar>m\<bar> e" using that(1) unfolding c(1) fleq_rval by blast
    moreover have "2 powi (- 14) < y" if "\<bar>y - 1 / 10000\<bar> \<le> 2 powi (- 10 - 65)" for y :: real
      using abs_le_D2 [OF that] by (simp add: power_int_def power_divide)
    from this [OF c(2)] have "2 powi (- 14) < rval c d" .
    ultimately have lt: "(2::real) powi (- 14) < 2 powi (x + 1)" using k(4) by linarith
    have "- 14 < x + 1"
    proof (rule ccontr)
      assume "\<not> - 14 < x + 1"
      then have "(2::real) powi (x + 1) \<le> 2 powi (- 14)" by (intro power_int_increasing) auto
      then show False using lt by linarith
    qed
    then have "- 14 \<le> real_of_int x" by linarith
    moreover have "- 7 < y" if "301029995663981 / 10 ^ 15 * x - 97 / 100 < y + 1" "- 14 \<le> x" for x y :: real using that by simp
    ultimately have "- 7 < real_of_int k" using k(5) by blast
    then show "- 6 \<le> k" by linarith
  qed
  have le: "y - 1 \<le> 41" "y \<le> 41" if "y \<le> 36" "0 < y" for y :: u32
  proof -
    show "y \<le> 41" using that(1) by (rule order_trans) simp
    have "y - 1 \<le> y" using that(2) by (simp add: word_le_nat_alt unat_minus_one word_neq_0_conv [symmetric])
    then show "y - 1 \<le> 41" using \<open>y \<le> 41\<close> by (rule order_trans)
  qed
  have "\<exists>p. etoa_parts (Fin m e) prec width flags = Some p \<and> e_value p = (if ?neg then fneg v' else v')
    \<and> e_prec p = (if ?fixed then (if k < sint ?p1 then ?p1 - word_of_int k - 1 else 0)
       else if flag flags FLAGS_ADAPT_EXP \<and> 0 < ?p1 \<and> flag flags FLAGS_PRECISION then ?p1 - 1 else ?p1)"
    unfolding etoa_parts_def Let_def v k(1) option.map case_prod_conv k'_def v'_def
    by (intro exI conjI, rule refl) (simp_all only: etoa_parts.select_convs)
  then obtain p where p: "etoa_parts (Fin m e) prec width flags = Some p" "e_value p = (if ?neg then fneg v' else v')"
    "e_prec p = (if ?fixed then (if k < sint ?p1 then ?p1 - word_of_int k - 1 else 0)
       else if flag flags FLAGS_ADAPT_EXP \<and> 0 < ?p1 \<and> flag flags FLAGS_PRECISION then ?p1 - 1 else ?p1)"
    by (elim exE conjE)
  have "e_prec p \<le> 41"
  proof (cases ?fixed)
    case True
    then show ?thesis unfolding p(3) using pr by simp
  next
    case False
    have "?p1 - 1 \<le> 41" if "0 < ?p1" using le(1) [OF p1 that] .
    moreover have "?p1 \<le> 41" using p1 by (rule order_trans) simp
    ultimately show ?thesis unfolding p(3) if_not_P [OF False] by auto
  qed
  moreover obtain n' where "e_value p = Fin n' u" "in_format double_format n' u" "\<bar>rval n' u\<bar> \<le> 10 ^ 9"
    using n unfolding p(2) by (cases ?neg) (auto simp: in_format_def rval_abs)
  ultimately show ?thesis using that p(1) by blast
qed

lemma etoa_step:
  assumes "in_format double_format m e" "\<bar>rval m e\<bar> < 2 powi 1024" "prec \<le> 36"
  obtains cs where "Option.bind (etoa_parts (Fin m e) prec width flags) (\<lambda>p.
     Option.bind (ftoa_chars (e_value p) (e_prec p) (e_width p) (e_flags p)) (\<lambda>cs. Some (exp_chars width flags p cs))) = Some cs"
proof -
  obtain p n u where p: "etoa_parts (Fin m e) prec width flags = Some p" "e_value p = Fin n u" "in_format double_format n u"
    "\<bar>rval n u\<bar> \<le> 10 ^ 9" "e_prec p \<le> 41" by (rule etoa_parts_small [OF assms])
  obtain cs where "ftoa_chars (e_value p) (e_prec p) (e_width p) (e_flags p) = Some cs"
    using ftoa_chars_small_returns [OF p(3,4), of "e_flags p" "e_prec p" "e_width p"] p(2,5) by auto
  then show ?thesis using that p(1) by simp
qed

lemma float_chars_return:
  assumes "prec \<le> (36 :: u32)"
  obtains cs ds where "ftoa_chars (of_bits x) prec width flags = Some cs" "etoa_chars (of_bits x) prec width flags = Some ds"
proof -
  have sp: "value = NaN \<or> fless DBL_MAX value \<or> fless value (fneg DBL_MAX) \<longleftrightarrow> ftoa_special value flags \<noteq> None" for "value"
    by (auto simp: ftoa_special_def)
  show ?thesis
  proof (cases "ftoa_special (of_bits x) flags")
    case (Some buf)
    have "ftoa_chars (of_bits x) prec width flags = Some (rev_chars buf width flags)" using Some by (subst ftoa_chars.simps) simp
    then show ?thesis using that Some unfolding etoa_chars_def sp by simp
  next
    case None
    then obtain m e where v: "of_bits x = Fin m e"
      by (cases "of_bits x") (auto simp: ftoa_special_def DBL_MAX_def split: if_splits)
    note f = of_bits_format [OF v] and l = of_bits_less [OF v]
    obtain ds where ds: "Option.bind (etoa_parts (Fin m e) prec width flags) (\<lambda>p.
     Option.bind (ftoa_chars (e_value p) (e_prec p) (e_width p) (e_flags p)) (\<lambda>cs. Some (exp_chars width flags p cs))) = Some ds"
      by (rule etoa_step [OF f l assms])
    have "etoa_chars (Fin m e) prec width flags = Some ds" using None ds unfolding etoa_chars_def sp v by simp
    moreover have "ftoa_chars (Fin m e) prec width flags \<noteq> None"
    proof (cases "fless PRINTF_MAX_FLOAT (Fin m e) \<or> fless (Fin m e) (fneg PRINTF_MAX_FLOAT)")
      case True
      then show ?thesis using None ds unfolding v by (subst ftoa_chars.simps) (simp del: fless.simps)
    next
      case False
      have "prec \<le> 41" using assms by (rule order_trans) simp
      moreover have "\<bar>rval m e\<bar> \<le> 10 ^ 9" using False
        by (auto simp: PRINTF_MAX_FLOAT_def of_i_def fless_rval simp del: fless.simps)
      ultimately show ?thesis using ftoa_chars_small_returns [OF f] by blast
    qed
    ultimately show ?thesis using that v by auto
  qed
qed

text \<open>C19: \<^verbatim>\<open>printf\<close> returns for every value of type \<^verbatim>\<open>double\<close>, infinities and NaNs included, under each of the six
  floating-point formats and every precision up to 36. \<^verbatim>\<open>_ftoa\<close> and \<^verbatim>\<open>_etoa\<close> call each other (large arguments of \<^verbatim>\<open>%f\<close> are printed
  with an exponent, and the significand of \<^verbatim>\<open>%e\<close> as a fixed-point number), and nothing but the values of the argument ends that
  recursion: the power of ten that \<^verbatim>\<open>_etoa\<close> divides by has to be right within one digit for all of the exponents.\<close>

theorem printf_float_returns:
  fixes x :: u64
  assumes "con_ok s" "b \<noteq> 0" "c \<in> set ''fFeEgG''" "p \<le> 36"
  shows "\<exists>n s'. printf b (cbytes (''%.*'' @ [c])) [p, ucast x, ucast (drop_bit 32 x)] s = Some (n, s') \<and> con_ok s'"
proof -
  obtain cs where cs: "float_chars (of_char c) 0x400 0 p [ucast x, ucast (drop_bit 32 x)] = Some (cs, [])"
  proof -
    obtain cs ds where "ftoa_chars (of_bits x) p 0 (float_flags (of_char c) 0x400) = Some cs"
      "etoa_chars (of_bits x) p 0 (float_flags (of_char c) 0x400) = Some ds" by (rule float_chars_return [OF assms(4)])
    then have "\<exists>cs. float_chars (of_char c) 0x400 0 p [ucast x, ucast (drop_bit 32 x)] = Some (cs, [])"
      unfolding float_chars_def va_arg64_split by simp
    then show ?thesis using that by blast
  qed
  have p: "(if 0 <s p then p else 0) = p"
  proof (cases "p = 0")
    case False
    then have "1 \<le> p" "p \<le> 100" using assms(4) order_trans [OF assms(4), of 100] by (simp_all add: word_le_nat_alt unat_gt_0 Suc_le_eq)
    then show ?thesis using small_positive by simp
  qed simp
  have "render (\<lambda>x. x \<notin> region video 4000) (mem s) (cbytes (''%.*'' @ [c])) [p, ucast x, ucast (drop_bit 32 x)] = Some cs"
    using assms(3) cs p by (auto simp: render_defs simp del: region_def)
  from vsnprintf_list [OF char_sink.printf_sink_axioms assms(1,2) this]
  have "printf b (cbytes (''%.*'' @ [c])) [p, ucast x, ucast (drop_bit 32 x)] s
      = Some (of_nat (length cs), snd (out_list out_char b (- 1) cs 0 s))"
    unfolding printf_def by (simp add: out_char_def)
  then show ?thesis using out_list_char [OF assms(1)] by blast
qed

theorem printf_float_returns_witness:
  "\<exists>n s'. printf 1 (cbytes ''%.*g'') [3, 0, 0x7FE00000] sample_con = Some (n, s') \<and> con_ok s'"
proof -
  have ok: "con_ok sample_con" by (simp add: con_ok_def sample_con_def)
  have low_word: "ucast (0x7FE0000000000000 :: u64) = (0 :: u32)" "ucast (drop_bit 32 0x7FE0000000000000 :: u64) = (0x7FE00000 :: u32)" by code_simp+
  show ?thesis
    using printf_float_returns [where s = sample_con and b = 1 and c = "CHR ''g''" and p = 3 and x = "0x7FE0000000000000", unfolded low_word] ok by simp
qed

section \<open>Where the text is wrong\<close>

lemma etoa_wrong_parts:
  "etoa_parts (of_bits 0) 0 0 0 = Some \<lparr>e_value = Fin 0 0, e_prec = 6, e_width = 0, e_flags = 0, e_minwidth = 5, e_expval = - 308\<rparr>"
  "etoa_parts (of_bits 0x3F50385C67DFE32A) 0 0 0
     = Some \<lparr>e_value = Fin 8917127261945606 (- 53), e_prec = 6, e_width = 0, e_flags = 0, e_minwidth = 4, e_expval = - 3\<rparr>"
  by code_simp+

lemma etoa_wrong_chars:
  "etoa_chars (of_bits 0) 0 0 0 = Some (chars ''0.000000e-308'')"
  "etoa_chars (of_bits 0x3F50385C67DFE32A) 0 0 0 = Some (chars ''0.990000e-03'')"
proof -
  have v: "of_bits 0 = Fin 0 (- 1074)" "of_bits 0x3F50385C67DFE32A = Fin 0x10385C67DFE32A (- 62)" by code_simp+
  have s: "ftoa_special (of_bits 0) 0 = None" "ftoa_special (of_bits 0x3F50385C67DFE32A) 0 = None"
    unfolding v by (rule small_finite, simp add: rval_def power_int_def power_divide)+
  have sp: "\<not> (value = NaN \<or> fless DBL_MAX value \<or> fless value (fneg DBL_MAX))" if "ftoa_special value 0 = None" for "value"
    using that by (auto simp: ftoa_special_def split: if_splits)
  have b: "ftoa_buf (Fin 0 0) 6 0 0 = Some (rev (chars ''0.000000''))" "ftoa_buf (Fin 8917127261945606 (- 53)) 6 0 0 = Some (rev (chars ''0.990000''))"
    by code_simp+
  have r: "\<bar>rval 0 0\<bar> \<le> 10 ^ 9" "\<bar>rval 8917127261945606 (- 53)\<bar> \<le> 10 ^ 9" by (simp_all add: rval_def power_int_def power_divide)
  have f: "ftoa_chars (Fin 0 0) 6 0 0 = Some (chars ''0.000000'')" "ftoa_chars (Fin 8917127261945606 (- 53)) 6 0 0 = Some (chars ''0.990000'')"
    unfolding ftoa_chars_small [OF r(1)] ftoa_chars_small [OF r(2)] b by (simp_all add: ntoa_width_def rev_chars_def flag_def del: fless.simps)
  have "exp_chars 0 0 \<lparr>e_value = Fin 0 0, e_prec = 6, e_width = 0, e_flags = 0, e_minwidth = 5, e_expval = - 308\<rparr> (chars ''0.000000'')
      = chars ''0.000000e-308''"
    "exp_chars 0 0 \<lparr>e_value = Fin 8917127261945606 (- 53), e_prec = 6, e_width = 0, e_flags = 0, e_minwidth = 4, e_expval = - 3\<rparr> (chars ''0.990000'')
      = chars ''0.990000e-03''"
    by code_simp+
  then show "etoa_chars (of_bits 0) 0 0 0 = Some (chars ''0.000000e-308'')"
    "etoa_chars (of_bits 0x3F50385C67DFE32A) 0 0 0 = Some (chars ''0.990000e-03'')"
    unfolding etoa_chars_def if_not_P [OF sp [OF s(1)]] if_not_P [OF sp [OF s(2)]] etoa_wrong_parts by (simp_all add: f)
qed

text \<open>C27: Where \<^verbatim>\<open>%f\<close> and \<^verbatim>\<open>%e\<close> go wrong. With one decimal, 0.95 prints 32 characters that end in 10, since the fraction is in the middle
  below the next whole number and is rounded up to 10 without a carry; with 31 decimals the whole part of 1.5 is lost, since the
  buffer is full; with 42 decimals the code reads past the table of powers of ten; the exponent of zero is printed as -308; and 0.00099 is
  printed with a significand below 1.\<close>

theorem printf_float_errors:
  assumes "con_ok s" "b \<noteq> 0"
  shows "(\<exists>s'. printf b (cbytes ''%.*f'') [1, 0x66666666, 0x3FEE6666] s = Some (32, s') \<and> prints (replicate 30 0x30 @ chars ''10'') s s')
    \<and> (\<exists>s'. printf b (cbytes ''%.*f'') [31, 0, 0x3FF80000] s = Some (32, s') \<and> prints (chars ''.5'' @ replicate 30 0x30) s s')
    \<and> printf b (cbytes ''%.*f'') [42, 0, 0x3FF80000] s = None
    \<and> (\<exists>s'. printf b (cbytes ''%e'') [0, 0] s = Some (13, s') \<and> prints (chars ''0.000000e-308'') s s')
    \<and> (\<exists>s'. printf b (cbytes ''%e'') [0x67DFE32A, 0x3F50385C] s = Some (12, s') \<and> prints (chars ''0.990000e-03'') s s')"
proof -
  have e: "render (\<lambda>x. x \<notin> region video 4000) (mem s) (cbytes ''%e'') [ucast x, ucast (drop_bit 32 x)] = etoa_chars (of_bits x) 0 0 0" for x
    using va_arg64_split [of x] by (cases "etoa_chars (of_bits x) 0 0 0") (simp_all add: render_defs float_chars_def float_flags_def)
  have w: "ucast (0x3F50385C67DFE32A :: u64) = (0x67DFE32A :: u32)" "ucast (drop_bit 32 0x3F50385C67DFE32A :: u64) = (0x3F50385C :: u32)"
    "ucast (0 :: u64) = (0 :: u32)" "ucast (drop_bit 32 0 :: u64) = (0 :: u32)" by code_simp+
  have "\<exists>s'. printf b (cbytes ''%e'') [0, 0] s = Some (of_nat (length (chars ''0.000000e-308'')), s') \<and> prints (chars ''0.000000e-308'') s s'"
    by (rule printf_text [OF assms]) (use e [of 0] etoa_wrong_chars(1) in \<open>simp_all add: w chars_def\<close>)
  moreover have "\<exists>s'. printf b (cbytes ''%e'') [0x67DFE32A, 0x3F50385C] s = Some (of_nat (length (chars ''0.990000e-03'')), s') \<and> prints (chars ''0.990000e-03'') s s'"
    by (rule printf_text [OF assms]) (use e [of "0x3F50385C67DFE32A", unfolded w] etoa_wrong_chars(2) in \<open>simp_all add: chars_def\<close>)
  ultimately show ?thesis using fixed_point_errors [OF assms] by (simp add: chars_def)
qed

theorem printf_float_errors_witness:
  "printf 1 (cbytes ''%.*f'') [42, 0, 0x3FF80000] sample_con = None
    \<and> (\<exists>s'. printf 1 (cbytes ''%e'') [0, 0] sample_con = Some (13, s') \<and> prints (chars ''0.000000e-308'') sample_con s')"
proof -
  have "con_ok sample_con" by (simp add: con_ok_def sample_con_def)
  then show ?thesis using printf_float_errors [of sample_con 1] by simp
qed

end
