(* ===== verification/Frog_Info.thy ===== *)
theory Frog_Info
  imports Frog_Text Frog_Memory
begin

text \<open>
  The routines that only report: lib/dump.c, \<^verbatim>\<open>print_mem\<close> of memory.c and \<^verbatim>\<open>print_info\<close>, which
  walks over the tags that the multiboot2 loader has left in memory. \<open>b\<close> is the address of
  \<^verbatim>\<open>printf\<close>'s local byte.
\<close>

section \<open>lib/dump.c\<close>

function dump_row :: "addr \<Rightarrow> addr \<Rightarrow> u32 \<Rightarrow> u32 \<Rightarrow> nat \<Rightarrow> 'a con_scheme \<Rightarrow> 'a con_scheme option" where
  "dump_row b a n idx i s =
     (if i < 0x10 \<and> idx + of_nat i < n
      then Option.bind (printf b (cbytes '' %02x'') [ucast (mem s (a + idx + of_nat i))] s)
        (\<lambda>(_, s1). dump_row b a n idx (i + 1) s1)
      else Some s)"
  by pat_completeness auto

termination
  by (relation "measure (\<lambda>(b, a, n, idx, i, s). 16 - i)") auto

text \<open>The index wraps around when fewer than 16 values are left above it.\<close>

partial_function (option) dump_loop :: "addr \<Rightarrow> addr \<Rightarrow> u32 \<Rightarrow> u32 \<Rightarrow> 'a con_scheme \<Rightarrow> 'a con_scheme option" where
  "dump_loop b a n idx s =
     (if idx < n then
        Option.bind (printf b (cbytes ''0x%p: '') [idx] s) (\<lambda>r1.
        Option.bind (dump_row b a n idx 0 (snd r1)) (\<lambda>s2.
        Option.bind (printf b (cbytes ''\<newline>'') [] s2) (\<lambda>r3. dump_loop b a n (idx + 0x10) (snd r3))))
      else Some s)"

definition dump :: "addr \<Rightarrow> addr \<Rightarrow> u32 \<Rightarrow> 'a con_scheme \<Rightarrow> 'a con_scheme option" where
  "dump b a n s = dump_loop b a n 0 s"

section \<open>print_mem\<close>

partial_function (option) print_mem_loop :: "addr \<Rightarrow> addr \<Rightarrow> u32 \<Rightarrow> 'a heap_scheme \<Rightarrow> (u32 \<times> 'a heap_scheme) option" where
  "print_mem_loop b p total_mem s =
     (if p = 0 then Some (total_mem, s)
      else Option.bind (printf b (cbytes ''mem: %p %p %p\<newline>'') [p, hdr_size (mem s) p, hdr_next (mem s) p] s) (\<lambda>r1.
        print_mem_loop b (hdr_next (mem (snd r1)) p) (total_mem + hdr_size (mem (snd r1)) p) (snd r1)))"

definition print_mem :: "addr \<Rightarrow> 'a heap_scheme \<Rightarrow> 'a heap_scheme option" where
  "print_mem b s =
     Option.bind (print_mem_loop b (high_mem s) 0 s) (\<lambda>(total_mem, s1).
       map_option snd (printf b (cbytes ''mem: total: %p\<newline>'') [total_mem] s1))"

section \<open>print\_info.c\<close>

text \<open>The fields of a tag: \<^verbatim>\<open>type\<close> 0, \<^verbatim>\<open>size\<close> 4; of a memory map: \<^verbatim>\<open>entry_size\<close> 8, entries from 16 on; of an entry: \<^verbatim>\<open>addr\<close> 0,
  \<^verbatim>\<open>len\<close> 8, \<^verbatim>\<open>type\<close> 16.\<close>

abbreviation (input) MULTIBOOT_TAG_TYPE_MMAP :: u32 where "MULTIBOOT_TAG_TYPE_MMAP \<equiv> 6"

definition tag_type :: "byte_mem \<Rightarrow> addr \<Rightarrow> u32" where
  "tag_type m p = load32 m p"

definition tag_size :: "byte_mem \<Rightarrow> addr \<Rightarrow> u32" where
  "tag_size m p = load32 m (p + 4)"

definition mmap_entry_size :: "byte_mem \<Rightarrow> addr \<Rightarrow> u32" where
  "mmap_entry_size m p = load32 m (p + 8)"

definition mmap_entry_args :: "byte_mem \<Rightarrow> addr \<Rightarrow> u32 list" where
  "mmap_entry_args m p = [load32 m p, load32 m (p + 4), load32 m (p + 8), load32 m (p + 12), load32 m (p + 16)]"

partial_function (option) mmap_loop :: "addr \<Rightarrow> addr \<Rightarrow> u32 \<Rightarrow> 'a con_scheme \<Rightarrow> 'a con_scheme option" where
  "mmap_loop b tag i s =
     (if i < tag_size (mem s) tag then
        Option.bind (printf b (cbytes ''0x%llx 0x%llx %ld\<newline>'') (mmap_entry_args (mem s) (tag + i)) s) (\<lambda>r1.
          mmap_loop b tag (i + mmap_entry_size (mem (snd r1)) tag) (snd r1))
      else Some s)"

partial_function (option) tags_loop :: "addr \<Rightarrow> addr \<Rightarrow> u32 \<Rightarrow> u32 \<Rightarrow> 'a con_scheme \<Rightarrow> 'a con_scheme option" where
  "tags_loop b mi info_size idx s =
     (if idx < info_size then
        let ty = tag_type (mem s) (mi + idx); sz = tag_size (mem s) (mi + idx)
        in Option.bind (printf b (cbytes ''idx: 0x%lx type: %ld, size: 0x%lx\<newline>'') [idx, ty, sz] s) (\<lambda>r1.
           Option.bind (if ty = MULTIBOOT_TAG_TYPE_MMAP then mmap_loop b (mi + idx) 16 (snd r1) else Some (snd r1)) (\<lambda>s2.
             tags_loop b mi info_size (idx + ((sz + 7) AND NOT 7)) s2))
      else Some s)"

definition print_info :: "addr \<Rightarrow> addr \<Rightarrow> addr \<Rightarrow> addr \<Rightarrow> 'a con_scheme \<Rightarrow> 'a con_scheme option" where
  "print_info b kernel_start kernel_end mi s =
     Option.bind (printf b (cbytes ''0x%p - 0x%p\<newline>'') [kernel_start, kernel_end] s) (\<lambda>r1.
     Option.bind (printf b (cbytes ''0x%p\<newline>'') [mi] (snd r1)) (\<lambda>r2.
       tags_loop b mi (load32 (mem (snd r2)) mi) 8 (snd r2)))"

section \<open>Rows\<close>

lemma load32_prints:
  assumes "prints cs s s'" "region p 4 \<inter> region video 4000 = {}"
  shows "load32 (mem s') p = load32 (mem s) p"
proof -
  have "mem s' (p + k) = mem s (p + k)" if "unat k < 4" for k
  proof (rule prints_mem [OF assms(1)])
    have "p + k \<in> region p 4" using that by simp
    then show "p + k \<notin> region video 4000" using assms(2) by blast
  qed
  from this [of 0] this [of 1] this [of 2] this [of 3] show ?thesis by (simp add: load32_def)
qed

definition dump_line :: "u32 \<Rightarrow> u8 list \<Rightarrow> u8 list" where
  "dump_line idx bs = chars ''0x'' @ hex_text 0x21 8 idx @ chars '': '' @ concat (map (\<lambda>x. chars '' '' @ hex_text 0x1 2 x) bs) @ [10]"

lemma render_rows:
  "render safe m (cbytes ''0x%p: '') [idx] = Some (chars ''0x'' @ hex_text 0x21 8 idx @ chars '': '')"
  "render safe m (cbytes '' %02x'') [ucast (x :: u8)] = Some (chars '' '' @ hex_text 0x1 2 x)"
  "render safe m (cbytes ''\<newline>'') [] = Some [10]"
  "render safe m (cbytes ''mem: %p %p %p\<newline>'') [p, sz, nx] =
     Some (chars ''mem: '' @ hex_text 0x21 8 p @ chars '' '' @ hex_text 0x21 8 sz @ chars '' '' @ hex_text 0x21 8 nx @ [10])"
  "render safe m (cbytes ''mem: total: %p\<newline>'') [p] = Some (chars ''mem: total: '' @ hex_text 0x21 8 p @ [10])"
  by (simp_all add: render_defs)


lemma printf_row:
  assumes "con_ok s" "b \<noteq> 0" "render (\<lambda>x. x \<notin> region video 4000) (mem s) fmt va = Some cs" "0 \<notin> set cs"
  obtains k s' where "printf b fmt va s = Some (k, s')" "prints cs s s'" "con_ok s'"
  using printf_text [OF assms] prints_con_ok by blast

lemma text_no_nul: "0 \<notin> set (chars ''0x'')" "0 \<notin> set (chars '': '')" "0 \<notin> set (chars '' '')" "0 \<notin> set (chars ''mem: '')"
  "0 \<notin> set (chars ''mem: total: '')"
  by (simp_all add: chars_def)

section \<open>Dumps\<close>

function dump_text :: "u32 \<Rightarrow> u8 list \<Rightarrow> u8 list" where
  "dump_text idx bs = (if bs = [] then [] else dump_line idx (take 16 bs) @ dump_text (idx + 16) (drop 16 bs))"
  by pat_completeness auto

termination
  by (relation "measure (\<lambda>(idx, bs). length bs)") auto

declare dump_row.simps [simp del] dump_text.simps [simp del]

lemma dump_row_text:
  assumes "con_ok s" "b \<noteq> 0" "\<And>j. j < k \<Longrightarrow> mem s (a + idx + of_nat j) = M j" "\<And>j. j < k \<Longrightarrow> a + idx + of_nat j \<notin> region video 4000"
    and "\<And>j. j < 16 \<Longrightarrow> idx + of_nat j < n \<longleftrightarrow> j < k" "i \<le> k" "k \<le> 16"
  shows "\<exists>s'. dump_row b a n idx i s = Some s' \<and> prints (concat (map (\<lambda>j. chars '' '' @ hex_text 0x1 2 (M j)) [i..<k])) s s'"
  using assms(1,3,6)
proof (induction "k - i" arbitrary: i s)
  case 0
  then have "i = k" by simp
  then show ?case using 0 assms(5) [of i] by (subst dump_row.simps) (auto simp: prints_nil)
next
  case (Suc d)
  then have i: "i < k" "i < 16" using assms(7) by simp_all
  then have m: "mem s (a + idx + of_nat i) = M i" using Suc.prems(2) by blast
  obtain r s1 where 1: "printf b (cbytes '' %02x'') [ucast (M i)] s = Some (r, s1)" "prints (chars '' '' @ hex_text 0x1 2 (M i)) s s1" "con_ok s1"
    using printf_row [OF Suc.prems(1) assms(2) render_rows(2)] text_no_nul hex_text_no_nul by (metis UnE set_append)
  have "mem s1 (a + idx + of_nat j) = M j" if "j < k" for j
    using prints_mem [OF 1(2) assms(4) [OF that]] Suc.prems(2) [OF that] by simp
  moreover have "d = k - (i + 1)" "i + 1 \<le> k" using Suc.hyps(2) i by simp_all
  ultimately obtain s' where "dump_row b a n idx (i + 1) s1 = Some s'"
    "prints (concat (map (\<lambda>j. chars '' '' @ hex_text 0x1 2 (M j)) [i + 1..<k])) s1 s'"
    using Suc.hyps(1) [of "i + 1" s1] 1(3) by blast
  moreover have "[i..<k] = i # [i + 1..<k]" using i by (simp add: upt_conv_Cons)
  ultimately show ?case using i 1 assms(5) [OF i(2)] prints_trans [OF 1(2)]
    by (subst dump_row.simps) (simp add: m)
qed

lemma dump_loop_text:
  assumes "b \<noteq> 0" "unat n \<le> 0xFFFFFFF0" "region a (unat n) \<inter> region video 4000 = {}"
  shows "con_ok s \<Longrightarrow> i \<le> unat n + 15 \<Longrightarrow> (\<And>j. j < unat n \<Longrightarrow> mem s (a + of_nat j) = M j) \<Longrightarrow>
    \<exists>s'. dump_loop b a n (of_nat i) s = Some s' \<and> prints (dump_text (of_nat i) (drop i (map M [0..<unat n]))) s s'"
proof (induction "unat n - i" arbitrary: i s rule: less_induct)
  case less
  have i32: "unat (of_nat i :: u32) = i" using less.prems(2) assms(2) by (simp add: unat_of_nat)
  show ?case
  proof (cases "i < unat n")
    case False
    then show ?thesis using i32 less.prems by (simp add: dump_loop.simps [of _ _ _ "of_nat i"] word_less_nat_alt dump_text.simps prints_nil)
  next
    case True
    define k where "k = min 16 (unat n - i)"
    have k: "k \<le> 16" "i + k \<le> unat n" "0 < k" using True by (simp_all add: k_def)
    obtain r1 s1 where 1: "printf b (cbytes ''0x%p: '') [of_nat i] s = Some (r1, s1)"
      "prints (chars ''0x'' @ hex_text 0x21 8 (of_nat i :: u32) @ chars '': '') s s1" "con_ok s1"
      using printf_row [OF less.prems(1) assms(1) render_rows(1)] text_no_nul hex_text_no_nul by (metis UnE set_append)
    have out: "a + of_nat j \<notin> region video 4000" if "j < unat n" for j
    proof -
      have "unat (of_nat j :: u32) = j" using that unat_lt32 [of n] by (simp add: unat_of_nat)
      then have "a + of_nat j \<in> region a (unat n)" using that by simp
      then show ?thesis using assms(3) by blast
    qed
    have m1: "mem s1 (a + of_nat j) = M j" if "j < unat n" for j
      using prints_mem [OF 1(2) out [OF that]] less.prems(3) [OF that] by simp
    have "\<exists>s2. dump_row b a n (of_nat i) 0 s1 = Some s2 \<and>
      prints (concat (map (\<lambda>j. chars '' '' @ hex_text 0x1 2 (M (i + j))) [0..<k])) s1 s2"
    proof (rule dump_row_text [OF 1(3) assms(1)])
      fix j :: nat
      have w: "a + of_nat i + of_nat j = a + of_nat (i + j)" by simp
      show "mem s1 (a + of_nat i + of_nat j) = M (i + j)" if "j < k" unfolding w using m1 [of "i + j"] that k by simp
      show "a + of_nat i + of_nat j \<notin> region video 4000" if "j < k" unfolding w using out [of "i + j"] that k by simp
      show "of_nat i + of_nat j < n \<longleftrightarrow> j < k" if "j < 16"
      proof -
        have "unat (of_nat (i + j) :: u32) = i + j" using that True assms(2) by (simp only: unat_of_nat) simp
        then show ?thesis using that True by (auto simp: word_less_nat_alt k_def simp flip: of_nat_add)
      qed
    qed (use k in simp_all)
    then obtain s2 where 2: "dump_row b a n (of_nat i) 0 s1 = Some s2"
      "prints (concat (map (\<lambda>j. chars '' '' @ hex_text 0x1 2 (M (i + j))) [0..<k])) s1 s2" by blast
    obtain r3 s3 where 3: "printf b (cbytes ''\<newline>'') [] s2 = Some (r3, s3)" "prints [10] s2 s3" "con_ok s3"
      using printf_row [OF prints_con_ok [OF 2(2)] assms(1) render_rows(3)] by auto
    have m3: "mem s3 (a + of_nat j) = M j" if "j < unat n" for j
      using prints_mem [OF 3(2) out [OF that]] prints_mem [OF 2(2) out [OF that]] m1 [OF that] by simp
    have "unat n - (i + 16) < unat n - i" "i + 16 \<le> unat n + 15" using True by simp_all
    from less.hyps [OF this(1) 3(3) this(2) m3] obtain s' where s': "dump_loop b a n (of_nat i + 16) s3 = Some s'"
      "prints (dump_text (of_nat i + 16) (drop (i + 16) (map M [0..<unat n]))) s3 s'" by (auto simp: add.commute)
    have "take 16 (drop i (map M [0..<unat n])) = map (\<lambda>j. M (i + j)) [0..<k]"
      using k by (intro nth_equalityI) (auto simp: k_def)
    then have "dump_text (of_nat i) (drop i (map M [0..<unat n])) =
      dump_line (of_nat i) (map (\<lambda>j. M (i + j)) [0..<k]) @ dump_text (of_nat i + 16) (drop (i + 16) (map M [0..<unat n]))"
      using True by (subst dump_text.simps) (simp add: add.commute)
    then have "prints (dump_text (of_nat i) (drop i (map M [0..<unat n]))) s s'"
      using prints_trans [OF prints_trans [OF prints_trans [OF 1(2) 2(2)] 3(2)] s'(2)] by (simp add: dump_line_def comp_def)
    then show ?thesis using True i32 1(1) 2(1) 3(1) s'(1)
      by (simp add: dump_loop.simps [of _ _ _ "of_nat i"] word_less_nat_alt)
  qed
qed


text \<open>With a greater length the index wraps from 0xFFFFFFF0 to 0 before it reaches the length.\<close>

lemma wrapping_index:
  fixes n idx :: u32
  assumes "0xFFFFFFF0 < n" "16 dvd unat idx"
  shows "idx < n" "16 dvd unat (idx + 16)"
proof -
  obtain q where q: "unat idx = 16 * q" using assms(2) by (auto elim: dvdE)
  then have "unat idx \<le> 0xFFFFFFF0" using unat_lt32 [of idx] by simp
  moreover have "0xFFFFFFF0 < unat n" using assms(1) by (simp add: word_less_nat_alt)
  ultimately show "idx < n" by (simp add: word_less_nat_alt)
  have "16 dvd (unat idx + 16) mod 2 ^ 32" unfolding q by (intro dvd_mod) simp_all
  then show "16 dvd unat (idx + 16)" by (simp add: unat_word_ariths)
qed

lemma dump_loop_stuck:
  assumes "dump_loop b a n idx s = Some s'"
  shows "\<not> (0xFFFFFFF0 < n \<and> 16 dvd unat idx)"
proof (rule dump_loop.raw_induct [where P = "\<lambda>b a n idx s r. \<not> (0xFFFFFFF0 < n \<and> 16 dvd unat idx)", OF _ assms], rule notI)
  fix loop :: "addr \<Rightarrow> addr \<Rightarrow> u32 \<Rightarrow> u32 \<Rightarrow> 'a con_scheme \<Rightarrow> 'a con_scheme option" and b a n idx s r
  assume IH: "\<And>b a n idx s r. loop b a n idx s = Some r \<Longrightarrow> \<not> (0xFFFFFFF0 < n \<and> 16 dvd unat idx)"
    and step: "(if idx < n then
        Option.bind (printf b (cbytes ''0x%p: '') [idx] s) (\<lambda>r1.
        Option.bind (dump_row b a n idx 0 (snd r1)) (\<lambda>s2.
        Option.bind (printf b (cbytes ''\<newline>'') [] s2) (\<lambda>r3. loop b a n (idx + 0x10) (snd r3))))
      else Some s) = Some r" and c: "0xFFFFFFF0 < n \<and> 16 dvd unat idx"
  note w = wrapping_index [of n idx]
  from w c obtain t where "loop b a n (idx + 0x10) t = Some r" using step by (auto split: bind_splits)
  then show False using IH w c by blast
qed

lemma dump_huge_never_returns: "0xFFFFFFF0 < n \<Longrightarrow> dump b a n s = None"
  using dump_loop_stuck [of b a n 0 s] by (cases "dump b a n s") (auto simp: dump_def)

text \<open>The first \<open>k\<close> rounds of the loop: its condition holds and its body returns each time.\<close>

primrec dump_rounds :: "addr \<Rightarrow> addr \<Rightarrow> u32 \<Rightarrow> nat \<Rightarrow> u32 \<Rightarrow> 'a con_scheme \<Rightarrow> 'a con_scheme option" where
  "dump_rounds b a n 0 idx s = Some s"
| "dump_rounds b a n (Suc k) idx s =
     (if idx < n then
        Option.bind (printf b (cbytes ''0x%p: '') [idx] s) (\<lambda>r1.
        Option.bind (dump_row b a n idx 0 (snd r1)) (\<lambda>s2.
        Option.bind (printf b (cbytes ''\<newline>'') [] s2) (\<lambda>r3. dump_rounds b a n k (idx + 0x10) (snd r3))))
      else None)"

lemma dump_loop_rounds: "dump_rounds b a n k idx s = Some s' \<Longrightarrow> dump_loop b a n idx s = dump_loop b a n (idx + 16 * of_nat k) s'"
proof (induction k arbitrary: idx s)
  case (Suc k)
  then show ?case using Suc.IH [of "idx + 16"]
    by (auto simp: dump_loop.simps [of b a n idx] algebra_simps split: if_splits bind_splits)
qed simp

lemma dump_row_returns:
  "b \<noteq> 0 \<Longrightarrow> con_ok s \<Longrightarrow> \<exists>cs s'. dump_row b a n idx i s = Some s' \<and> prints cs s s' \<and> con_ok s'"
proof (induction b a n idx i s rule: dump_row.induct)
  case (1 b a n idx i s)
  let ?x = "mem s (a + idx + of_nat i)"
  obtain k s1 where s1: "printf b (cbytes '' %02x'') [ucast ?x] s = Some (k, s1)" "prints (chars '' '' @ hex_text 0x1 2 ?x) s s1" "con_ok s1"
    using printf_row [OF 1(3,2) render_rows(2)] text_no_nul hex_text_no_nul by (metis UnE set_append)
  show ?case
  proof (cases "i < 0x10 \<and> idx + of_nat i < n")
    case True
    then obtain cs s' where "dump_row b a n idx (i + 1) s1 = Some s'" "prints cs s1 s'" "con_ok s'"
      using 1(1) [OF True s1(1) refl 1(2) s1(3)] by blast
    then show ?thesis using True s1(1) prints_trans [OF s1(2)] by (subst dump_row.simps) auto
  next
    case False
    then show ?thesis using 1(3) prints_nil by (subst dump_row.simps) auto
  qed
qed

lemma dump_rounds_go_on:
  assumes "b \<noteq> 0" "0xFFFFFFF0 < n"
  shows "con_ok s \<Longrightarrow> 16 dvd unat idx \<Longrightarrow> \<exists>cs s'. dump_rounds b a n k idx s = Some s' \<and> prints cs s s' \<and> k \<le> length cs"
proof (induction k arbitrary: idx s)
  case 0
  then show ?case using prints_nil by (intro exI [of _ "[]"] exI [of _ s]) simp
next
  case (Suc k)
  note n = wrapping_index [OF assms(2) Suc.prems(2)]
  obtain r1 s1 where 1: "printf b (cbytes ''0x%p: '') [idx] s = Some (r1, s1)"
    "prints (chars ''0x'' @ hex_text 0x21 8 idx @ chars '': '') s s1" "con_ok s1"
    using printf_row [OF Suc.prems(1) assms(1) render_rows(1)] text_no_nul hex_text_no_nul by (metis UnE set_append)
  obtain cs s2 where 2: "dump_row b a n idx 0 s1 = Some s2" "prints cs s1 s2" "con_ok s2" using dump_row_returns [OF assms(1) 1(3)] by blast
  obtain r3 s3 where 3: "printf b (cbytes ''\<newline>'') [] s2 = Some (r3, s3)" "prints [10] s2 s3" "con_ok s3"
    using printf_row [OF 2(3) assms(1) render_rows(3)] by auto
  obtain ds s' where s': "dump_rounds b a n k (idx + 16) s3 = Some s'" "prints ds s3 s'" "k \<le> length ds" using Suc.IH [OF 3(3) n(2)] by blast
  have "dump_rounds b a n (Suc k) idx s = Some s'" using n(1) 1(1) 2(1) 3(1) s'(1) by simp
  moreover note prints_trans [OF prints_trans [OF prints_trans [OF 1(2) 2(2)] 3(2)] s'(2)]
  ultimately show ?case using s'(3) by (intro exI conjI) (assumption+, simp)
qed

section \<open>The free list\<close>

text \<open>A free list from \<open>p\<close> on whose headers are the blocks \<open>ps\<close>, outside the video memory.\<close>

fun free_chain :: "byte_mem \<Rightarrow> addr \<Rightarrow> addr list \<Rightarrow> bool" where
  "free_chain m p [] \<longleftrightarrow> p = 0"
| "free_chain m p (q # qs) \<longleftrightarrow> p = q \<and> p \<noteq> 0 \<and> region p 8 \<inter> region video 4000 = {} \<and> free_chain m (hdr_next m p) qs"

definition mem_line :: "byte_mem \<Rightarrow> addr \<Rightarrow> u8 list" where
  "mem_line m p = chars ''mem: '' @ hex_text 0x21 8 p @ chars '' '' @ hex_text 0x21 8 (hdr_size m p) @ chars '' '' @
     hex_text 0x21 8 (hdr_next m p) @ [10]"

lemma hdr_prints:
  assumes "prints cs s s'" "region p 8 \<inter> region video 4000 = {}"
  shows "hdr_size (mem s') p = hdr_size (mem s) p \<and> hdr_next (mem s') p = hdr_next (mem s) p"
  using assms(2) by (intro hdr_cong prints_mem [OF assms(1)]) blast

lemma free_chain_prints: "free_chain (mem s) p ps \<Longrightarrow> prints cs s s' \<Longrightarrow>
    free_chain (mem s') p ps \<and> map (mem_line (mem s')) ps = map (mem_line (mem s)) ps
    \<and> map (hdr_size (mem s')) ps = map (hdr_size (mem s)) ps"
proof (induction ps arbitrary: p)
  case (Cons q qs)
  then have q: "p = q" "q \<noteq> 0" "region q 8 \<inter> region video 4000 = {}" "free_chain (mem s) (hdr_next (mem s) q) qs" by auto
  have "hdr_size (mem s') q = hdr_size (mem s) q" "hdr_next (mem s') q = hdr_next (mem s) q" using hdr_prints [OF Cons.prems(2) q(3)] by simp_all
  moreover from this have "mem_line (mem s') q = mem_line (mem s) q" by (simp add: mem_line_def)
  ultimately show ?case using q Cons.IH [OF q(4) Cons.prems(2)] by simp
qed simp

lemma print_mem_loop_text:
  assumes "b \<noteq> 0"
  shows "con_ok s \<Longrightarrow> free_chain (mem s) p ps \<Longrightarrow> \<exists>s'. print_mem_loop b p total_mem s =
      Some (total_mem + sum_list (map (hdr_size (mem s)) ps), s') \<and> prints (concat (map (mem_line (mem s)) ps)) s s'"
proof (induction ps arbitrary: p s total_mem)
  case Nil
  then show ?case by (simp add: print_mem_loop.simps prints_nil)
next
  case (Cons q qs)
  then have "p = q" and q: "p = q" "p \<noteq> 0" "region p 8 \<inter> region video 4000 = {}" "free_chain (mem s) (hdr_next (mem s) p) qs" by auto
  have "0 \<notin> set (mem_line (mem s) p)" by (simp add: mem_line_def text_no_nul hex_text_no_nul)
  then obtain r1 s1 where 1: "printf b (cbytes ''mem: %p %p %p\<newline>'') [p, hdr_size (mem s) p, hdr_next (mem s) p] s = Some (r1, s1)"
    "prints (mem_line (mem s) p) s s1" "con_ok s1"
    using printf_row [OF Cons.prems(1) assms render_rows(4)] unfolding mem_line_def by blast
  have h: "hdr_size (mem s1) p = hdr_size (mem s) p" "hdr_next (mem s1) p = hdr_next (mem s) p" using hdr_prints [OF 1(2) q(3)] by simp_all
  note c = free_chain_prints [OF q(4) 1(2)]
  with Cons.IH [OF 1(3), of "hdr_next (mem s) p" "total_mem + hdr_size (mem s) p"] obtain s' where
    "print_mem_loop b (hdr_next (mem s) p) (total_mem + hdr_size (mem s) p) s1 =
      Some (total_mem + hdr_size (mem s) p + sum_list (map (hdr_size (mem s)) qs), s')"
    "prints (concat (map (mem_line (mem s)) qs)) s1 s'" by auto
  then show ?case using prints_trans [OF 1(2)] q(1,2) 1(1) h by (subst print_mem_loop.simps) (simp add: add.assoc)
qed

lemma print_mem_reports:
  assumes "con_ok s" "b \<noteq> 0" "free_chain (mem s) (high_mem s) ps"
  shows "\<exists>s'. print_mem b s = Some s' \<and> prints (concat (map (mem_line (mem s)) ps) @ chars ''mem: total: '' @
    hex_text 0x21 8 (sum_list (map (hdr_size (mem s)) ps)) @ [10]) s s'"
proof -
  obtain s1 where 1: "print_mem_loop b (high_mem s) 0 s = Some (sum_list (map (hdr_size (mem s)) ps), s1)"
    "prints (concat (map (mem_line (mem s)) ps)) s s1" using print_mem_loop_text [OF assms(2,1,3), of 0] by auto
  have nul: "0 \<notin> set (chars ''mem: total: '' @ hex_text 0x21 8 (sum_list (map (hdr_size (mem s)) ps)) @ [10])"
    by (simp add: text_no_nul hex_text_no_nul)
  obtain r2 s2 where "printf b (cbytes ''mem: total: %p\<newline>'') [sum_list (map (hdr_size (mem s)) ps)] s1 = Some (r2, s2)"
    "prints (chars ''mem: total: '' @ hex_text 0x21 8 (sum_list (map (hdr_size (mem s)) ps)) @ [10]) s1 s2"
    using printf_row [OF prints_con_ok [OF 1(2)] assms(2) render_rows(5)] nul by blast
  then show ?thesis using 1(1) prints_trans [OF 1(2)] by (simp add: print_mem_def)
qed


section \<open>The tags of the loader\<close>

text \<open>The numbers of a row: \<^verbatim>\<open>%lx\<close>, \<^verbatim>\<open>%ld\<close> and \<^verbatim>\<open>%llx\<close>.\<close>

definition lx :: "u32 \<Rightarrow> u8 list" where
  "lx v = ntoa_chars v False 16 0 0 0x100"

definition ld :: "u32 \<Rightarrow> u8 list" where
  "ld v = ntoa_chars (magnitude v) (v <s 0) 10 0 0 0x100"

definition llx :: "u32 \<Rightarrow> u32 \<Rightarrow> u8 list" where
  "llx lo hi = ntoa_chars (ucast lo OR push_bit 32 (ucast hi) :: u64) False 16 0 0 0x300"

definition tag_line :: "byte_mem \<Rightarrow> addr \<Rightarrow> u32 \<Rightarrow> u8 list" where
  "tag_line m mi idx = chars ''idx: 0x'' @ lx idx @ chars '' type: '' @ ld (tag_type m (mi + idx)) @ chars '', size: 0x'' @
     lx (tag_size m (mi + idx)) @ [10]"

definition entry_line :: "byte_mem \<Rightarrow> addr \<Rightarrow> u8 list" where
  "entry_line m p = chars ''0x'' @ llx (load32 m p) (load32 m (p + 4)) @ chars '' 0x'' @ llx (load32 m (p + 8)) (load32 m (p + 12)) @
     chars '' '' @ ld (load32 m (p + 16)) @ [10]"

lemma render_tag:
  "render safe m (cbytes ''idx: 0x%lx type: %ld, size: 0x%lx\<newline>'') [idx, tag_type m' (mi + idx), tag_size m' (mi + idx)] =
     Some (tag_line m' mi idx)"
  by (simp add: render_defs lx_def ld_def tag_line_def)

lemma render_entry: "render safe m (cbytes ''0x%llx 0x%llx %ld\<newline>'') (mmap_entry_args m' p) = Some (entry_line m' p)"
  by (simp add: render_defs llx_def ld_def entry_line_def mmap_entry_args_def)

lemma render_head:
  "render safe m (cbytes ''0x%p - 0x%p\<newline>'') [p, q] = Some (chars ''0x'' @ hex_text 0x21 8 p @ chars '' - 0x'' @ hex_text 0x21 8 q @ [10])"
  "render safe m (cbytes ''0x%p\<newline>'') [p] = Some (chars ''0x'' @ hex_text 0x21 8 p @ [10])"
  by (simp_all add: render_defs)

lemma line_no_nul: "0 \<notin> set (tag_line m mi idx)" "0 \<notin> set (entry_line m p)"
  by (simp_all add: tag_line_def entry_line_def lx_def ld_def llx_def ntoa_chars_no_nul) (simp_all add: chars_def)


text \<open>The offsets of a memory map's entries, and the offsets of the tags with those of their entries, from \<open>idx\<close> up to
  \<open>k\<close>; none of them in the video memory.\<close>

fun mmap_rows :: "byte_mem \<Rightarrow> addr \<Rightarrow> u32 \<Rightarrow> u32 list \<Rightarrow> bool" where
  "mmap_rows m tag i [] \<longleftrightarrow> tag_size m tag \<le> i"
| "mmap_rows m tag i (j # js) \<longleftrightarrow> i = j \<and> j < tag_size m tag \<and> region (tag + j) 20 \<inter> region video 4000 = {}
     \<and> mmap_rows m tag (j + mmap_entry_size m tag) js"

definition next_tag :: "byte_mem \<Rightarrow> addr \<Rightarrow> u32 \<Rightarrow> u32" where
  "next_tag m mi idx = idx + ((tag_size m (mi + idx) + 7) AND NOT 7)"

fun tag_rows :: "byte_mem \<Rightarrow> addr \<Rightarrow> u32 \<Rightarrow> u32 \<Rightarrow> (u32 \<times> u32 list) list \<Rightarrow> u32 \<Rightarrow> bool" where
  "tag_rows m mi info_size idx [] k \<longleftrightarrow> idx = k"
| "tag_rows m mi info_size idx ((j, es) # ts) k \<longleftrightarrow> idx = j \<and> j < info_size \<and> region (mi + j) 12 \<inter> region video 4000 = {}
     \<and> (if tag_type m (mi + j) = MULTIBOOT_TAG_TYPE_MMAP then mmap_rows m (mi + j) 16 es else es = [])
     \<and> tag_rows m mi info_size (next_tag m mi j) ts k"

definition tags_text :: "byte_mem \<Rightarrow> addr \<Rightarrow> (u32 \<times> u32 list) list \<Rightarrow> u8 list" where
  "tags_text m mi ts = concat (map (\<lambda>(j, es). tag_line m mi j @ concat (map (\<lambda>e. entry_line m (mi + j + e)) es)) ts)"

lemma tag_fields_prints:
  assumes "prints cs s s'" "region p 12 \<inter> region video 4000 = {}"
  shows "tag_type (mem s') p = tag_type (mem s) p \<and> tag_size (mem s') p = tag_size (mem s) p
    \<and> mmap_entry_size (mem s') p = mmap_entry_size (mem s) p"
proof -
  have sub: "region (p + k) 4 \<subseteq> region p 12" if "unat k \<le> 8" for k using that by (intro region_sub) simp
  have "load32 (mem s') (p + k) = load32 (mem s) (p + k)" if "unat k \<le> 8" for k
    using sub [OF that] assms(2) by (intro load32_prints [OF assms(1)]) blast
  from this [of 0] this [of 4] this [of 8] show ?thesis by (simp add: tag_type_def tag_size_def mmap_entry_size_def)
qed

lemma entry_prints:
  assumes "prints cs s s'" "region p 20 \<inter> region video 4000 = {}"
  shows "entry_line (mem s') p = entry_line (mem s) p"
proof -
  have sub: "region (p + k) 4 \<subseteq> region p 20" if "unat k \<le> 16" for k using that by (intro region_sub) simp
  have "load32 (mem s') (p + k) = load32 (mem s) (p + k)" if "unat k \<le> 16" for k
    using sub [OF that] assms(2) by (intro load32_prints [OF assms(1)]) blast
  from this [of 0] this [of 4] this [of 8] this [of 12] this [of 16] show ?thesis by (simp add: entry_line_def)
qed

lemma mmap_rows_prints:
  assumes "prints cs s s'" "region tag 12 \<inter> region video 4000 = {}"
  shows "mmap_rows (mem s) tag i es \<Longrightarrow> mmap_rows (mem s') tag i es
    \<and> map (\<lambda>e. entry_line (mem s') (tag + e)) es = map (\<lambda>e. entry_line (mem s) (tag + e)) es"
proof (induction es arbitrary: i)
  case Nil
  then show ?case using tag_fields_prints [OF assms] by simp
next
  case (Cons j js)
  then show ?case using tag_fields_prints [OF assms] entry_prints [OF assms(1), of "tag + j"] by auto
qed

lemma tag_rows_prints:
  assumes "prints cs s s'"
  shows "tag_rows (mem s) mi sz idx ts k \<Longrightarrow> tag_rows (mem s') mi sz idx ts k \<and> tags_text (mem s') mi ts = tags_text (mem s) mi ts"
proof (induction ts arbitrary: idx)
  case (Cons t ts)
  obtain j es where t: "t = (j, es)" by (cases t)
  then have r: "region (mi + j) 12 \<inter> region video 4000 = {}" using Cons.prems by simp
  note f = tag_fields_prints [OF assms r]
  have n: "next_tag (mem s') mi j = next_tag (mem s) mi j" "tag_line (mem s') mi j = tag_line (mem s) mi j"
    using f by (simp_all add: next_tag_def tag_line_def)
  have e: "mmap_rows (mem s) (mi + j) 16 es \<Longrightarrow> mmap_rows (mem s') (mi + j) 16 es"
    "mmap_rows (mem s) (mi + j) 16 es \<Longrightarrow>
      concat (map (\<lambda>e. entry_line (mem s') (mi + j + e)) es) = concat (map (\<lambda>e. entry_line (mem s) (mi + j + e)) es)"
    using mmap_rows_prints [OF assms r, of 16 es] by metis+
  then show ?case using Cons f n by (auto simp: t tags_text_def split: if_splits)
qed (simp add: tags_text_def)

lemma mmap_loop_text:
  assumes "b \<noteq> 0" "region tag 12 \<inter> region video 4000 = {}"
  shows "con_ok s \<Longrightarrow> mmap_rows (mem s) tag i es \<Longrightarrow>
    \<exists>s'. mmap_loop b tag i s = Some s' \<and> prints (concat (map (\<lambda>e. entry_line (mem s) (tag + e)) es)) s s'"
proof (induction es arbitrary: i s)
  case Nil
  then show ?case by (simp add: mmap_loop.simps [of b tag i s] prints_nil flip: linorder_not_less)
next
  case (Cons j js)
  then have j: "i = j" "j < tag_size (mem s) tag" "mmap_rows (mem s) tag (j + mmap_entry_size (mem s) tag) js" by auto
  obtain r1 s1 where 1: "printf b (cbytes ''0x%llx 0x%llx %ld\<newline>'') (mmap_entry_args (mem s) (tag + j)) s = Some (r1, s1)"
    "prints (entry_line (mem s) (tag + j)) s s1" "con_ok s1"
    using printf_row [OF Cons.prems(1) assms(1) render_entry line_no_nul(2)] by blast
  note m = mmap_rows_prints [OF 1(2) assms(2) j(3)] tag_fields_prints [OF 1(2) assms(2)]
  obtain s' where "mmap_loop b tag (j + mmap_entry_size (mem s1) tag) s1 = Some s'"
    "prints (concat (map (\<lambda>e. entry_line (mem s) (tag + e)) js)) s1 s'"
    using Cons.IH [OF 1(3), of "j + mmap_entry_size (mem s) tag"] m by auto
  then show ?case using j 1(1) prints_trans [OF 1(2)] by (simp add: mmap_loop.simps [of b tag j s])
qed

text \<open>The walk arrives at every tag in the list, with the rows before it printed.\<close>

lemma tags_loop_upto:
  assumes "b \<noteq> 0"
  shows "con_ok s \<Longrightarrow> tag_rows (mem s) mi sz idx ts k \<Longrightarrow>
    \<exists>s'. tags_loop b mi sz idx s = tags_loop b mi sz k s' \<and> prints (tags_text (mem s) mi ts) s s'"
proof (induction ts arbitrary: idx s)
  case Nil
  then show ?case using prints_nil by (auto simp: tags_text_def)
next
  case (Cons t ts)
  obtain j es where t: "t = (j, es)" by (cases t)
  with Cons.prems have j: "idx = j" "j < sz" "region (mi + j) 12 \<inter> region video 4000 = {}"
    "if tag_type (mem s) (mi + j) = 6 then mmap_rows (mem s) (mi + j) 16 es else es = []"
    "tag_rows (mem s) mi sz (next_tag (mem s) mi j) ts k" by auto
  obtain r1 s1 where 1: "printf b (cbytes ''idx: 0x%lx type: %ld, size: 0x%lx\<newline>'')
      [j, tag_type (mem s) (mi + j), tag_size (mem s) (mi + j)] s = Some (r1, s1)"
    "prints (tag_line (mem s) mi j) s s1" "con_ok s1"
    using printf_row [OF Cons.prems(1) assms render_tag line_no_nul(1)] by blast
  have "\<exists>s2. (if tag_type (mem s) (mi + j) = 6 then mmap_loop b (mi + j) 16 s1 else Some s1) = Some s2
    \<and> prints (concat (map (\<lambda>e. entry_line (mem s) (mi + j + e)) es)) s1 s2"
  proof (cases "tag_type (mem s) (mi + j) = 6")
    case True
    then have "mmap_rows (mem s) (mi + j) 16 es" using j(4) by simp
    note m = mmap_rows_prints [OF 1(2) j(3) this]
    have "map (\<lambda>e. entry_line (mem s1) (mi + j + e)) es = map (\<lambda>e. entry_line (mem s) (mi + j + e)) es" using m by blast
    then show ?thesis using mmap_loop_text [OF assms j(3) 1(3), of 16 es] m True by (metis (no_types, lifting))
  next
    case False
    then show ?thesis using j(4) 1(3) by (simp add: prints_nil)
  qed
  then obtain s2 where 2: "(if tag_type (mem s) (mi + j) = 6 then mmap_loop b (mi + j) 16 s1 else Some s1) = Some s2"
    "prints (concat (map (\<lambda>e. entry_line (mem s) (mi + j + e)) es)) s1 s2" by blast
  note p = prints_trans [OF 1(2) 2(2)]
  note m = tag_rows_prints [OF p j(5)]
  obtain s' where s': "tags_loop b mi sz (next_tag (mem s) mi j) s2 = tags_loop b mi sz k s'" "prints (tags_text (mem s) mi ts) s2 s'"
    using Cons.IH [OF prints_con_ok [OF 2(2)], of "next_tag (mem s) mi j"] m by auto
  have "tags_loop b mi sz idx s = tags_loop b mi sz k s'" using j(1,2) 1(1) 2(1) s'(1)
    by (cases "tag_type (mem s) (mi + j) = 6") (simp_all add: tags_loop.simps [of b mi sz j s] next_tag_def Let_def)
  then show ?case using prints_trans [OF p s'(2)] by (auto simp: t tags_text_def)
qed


text \<open>A tag of the size 0 is met again and again.\<close>

lemma tags_loop_stuck:
  assumes "tags_loop b mi sz idx s = Some s'"
  shows "\<not> (con_ok s \<and> b \<noteq> 0 \<and> idx < sz \<and> region (mi + idx) 12 \<inter> region video 4000 = {}
    \<and> tag_size (mem s) (mi + idx) = 0)"
proof (rule tags_loop.raw_induct [where P = "\<lambda>b mi sz idx s r. \<not> (con_ok s \<and> b \<noteq> 0 \<and> idx < sz
    \<and> region (mi + idx) 12 \<inter> region video 4000 = {} \<and> tag_size (mem s) (mi + idx) = 0)", OF _ assms], rule notI)
  fix loop :: "addr \<Rightarrow> addr \<Rightarrow> u32 \<Rightarrow> u32 \<Rightarrow> 'a con_scheme \<Rightarrow> 'a con_scheme option" and b mi sz idx s r
  assume IH: "\<And>b mi sz idx s r. loop b mi sz idx s = Some r \<Longrightarrow> \<not> (con_ok s \<and> b \<noteq> 0 \<and> idx < sz
      \<and> region (mi + idx) 12 \<inter> region video 4000 = {} \<and> tag_size (mem s) (mi + idx) = 0)"
    and step: "(if idx < sz then
        let ty = tag_type (mem s) (mi + idx); z = tag_size (mem s) (mi + idx)
        in Option.bind (printf b (cbytes ''idx: 0x%lx type: %ld, size: 0x%lx\<newline>'') [idx, ty, z] s) (\<lambda>r1.
           Option.bind (if ty = MULTIBOOT_TAG_TYPE_MMAP then mmap_loop b (mi + idx) 16 (snd r1) else Some (snd r1)) (\<lambda>s2.
             loop b mi sz (idx + ((z + 7) AND NOT 7)) s2))
      else Some s) = Some r"
    and c: "con_ok s \<and> b \<noteq> 0 \<and> idx < sz \<and> region (mi + idx) 12 \<inter> region video 4000 = {}
      \<and> tag_size (mem s) (mi + idx) = 0"
  have "con_ok s" "b \<noteq> 0" using c by simp_all
  then obtain k s1 where 1: "printf b (cbytes ''idx: 0x%lx type: %ld, size: 0x%lx\<newline>'')
      [idx, tag_type (mem s) (mi + idx), tag_size (mem s) (mi + idx)] s = Some (k, s1)"
    "prints (tag_line (mem s) mi idx) s s1" "con_ok s1"
    using printf_row [OF _ _ render_tag line_no_nul(1)] by blast
  have z: "tag_size (mem s1) (mi + idx) = 0" using tag_fields_prints [OF 1(2), of "mi + idx"] c by simp
  then have "mmap_loop b (mi + idx) 16 s1 = Some s1" by (simp add: mmap_loop.simps [of b _ 16 s1])
  then have "loop b mi sz idx s1 = Some r" using step c 1(1) by (simp add: Let_def split: if_splits)
  then show False using IH c 1(3) z by blast
qed

lemma print_info_head:
  assumes "con_ok s" "b \<noteq> 0" "region mi 4 \<inter> region video 4000 = {}" "tag_rows (mem s) mi (load32 (mem s) mi) 8 ts k"
  obtains s' where "print_info b ks ke mi s = tags_loop b mi (load32 (mem s) mi) k s'"
    "prints (chars ''0x'' @ hex_text 0x21 8 ks @ chars '' - 0x'' @ hex_text 0x21 8 ke @ [10] @ chars ''0x'' @ hex_text 0x21 8 mi @ [10] @
      tags_text (mem s) mi ts) s s'"
proof -
  have nul: "0 \<notin> set (chars ''0x'' @ hex_text 0x21 8 ks @ chars '' - 0x'' @ hex_text 0x21 8 ke @ [10])"
    "0 \<notin> set (chars ''0x'' @ hex_text 0x21 8 mi @ [10])" by (simp_all add: hex_text_no_nul) (simp_all add: chars_def)
  obtain r1 s1 where 1: "printf b (cbytes ''0x%p - 0x%p\<newline>'') [ks, ke] s = Some (r1, s1)"
    "prints (chars ''0x'' @ hex_text 0x21 8 ks @ chars '' - 0x'' @ hex_text 0x21 8 ke @ [10]) s s1" "con_ok s1"
    using printf_row [OF assms(1,2) render_head(1) nul(1)] by blast
  obtain r2 s2 where 2: "printf b (cbytes ''0x%p\<newline>'') [mi] s1 = Some (r2, s2)"
    "prints (chars ''0x'' @ hex_text 0x21 8 mi @ [10]) s1 s2" "con_ok s2"
    using printf_row [OF 1(3) assms(2) render_head(2) nul(2)] by blast
  note p = prints_trans [OF 1(2) 2(2)]
  note m = tag_rows_prints [OF p assms(4)] load32_prints [OF p assms(3)]
  obtain s' where "tags_loop b mi (load32 (mem s) mi) 8 s2 = tags_loop b mi (load32 (mem s) mi) k s'" "prints (tags_text (mem s) mi ts) s2 s'"
    using tags_loop_upto [OF assms(2) 2(3), of mi "load32 (mem s) mi" 8 ts k] m by auto
  with 1(1) 2(1) m(2) prints_trans [OF p this(2)] that show ?thesis by (simp add: print_info_def)
qed

section \<open>Properties\<close>

text \<open>C37: \<^verbatim>\<open>dump\<close> prints an area of up to 0xFFFFFFF0 bytes outside the video memory in rows of 16 bytes, each with its offset.
  With a greater length, whatever the area, it never returns: the offset wraps from 0xFFFFFFF0 to 0 before it reaches the length, so
  that for every \<open>k\<close> the condition of the loop holds \<open>k\<close> times and its body returns \<open>k\<close> times, printing more each time.\<close>

theorem dump_prints_rows:
  assumes "con_ok s" "b \<noteq> 0"
  shows "if n \<le> 0xFFFFFFF0
    then region a (unat n) \<inter> region video 4000 = {} \<longrightarrow> (\<exists>s'. dump b a n s = Some s' \<and> prints (dump_text 0 (bytes_at (mem s) a (unat n))) s s')
    else dump b a n s = None \<and> (\<forall>k. \<exists>cs s'. dump_rounds b a n k 0 s = Some s' \<and> prints cs s s' \<and> k \<le> length cs)"
proof (cases "n \<le> 0xFFFFFFF0")
  case True
  then show ?thesis using dump_loop_text [OF assms(2) _ _ assms(1), of n a 0 "\<lambda>j. mem s (a + of_nat j)"]
    by (simp add: dump_def bytes_at_def word_le_nat_alt)
next
  case False
  then have "0xFFFFFFF0 < n" by simp
  note dump_huge_never_returns [OF this, of b a s] dump_rounds_go_on [OF assms(2) this assms(1), of 0 a]
  then show ?thesis using False by simp
qed

text \<open>C38: \<^verbatim>\<open>print_info\<close> returns for every list of tags that the loader has left outside the video memory: it prints the
  addresses, one row for each tag up to the end of the information and one for each entry of a memory map.\<close>

theorem print_info_prints_tags:
  assumes "con_ok s" "b \<noteq> 0" "region mi 4 \<inter> region video 4000 = {}"
    and "tag_rows (mem s) mi (load32 (mem s) mi) 8 ts k" "load32 (mem s) mi \<le> k"
  shows "\<exists>s'. print_info b ks ke mi s = Some s' \<and> prints (chars ''0x'' @ hex_text 0x21 8 ks @ chars '' - 0x'' @ hex_text 0x21 8 ke @ [10] @
      chars ''0x'' @ hex_text 0x21 8 mi @ [10] @ tags_text (mem s) mi ts) s s'"
proof -
  obtain s' where s': "print_info b ks ke mi s = tags_loop b mi (load32 (mem s) mi) k s'"
    "prints (chars ''0x'' @ hex_text 0x21 8 ks @ chars '' - 0x'' @ hex_text 0x21 8 ke @ [10] @ chars ''0x'' @ hex_text 0x21 8 mi @ [10] @
      tags_text (mem s) mi ts) s s'" by (rule print_info_head [OF assms(1-4)])
  moreover have "\<not> k < load32 (mem s) mi" using assms(5) by simp
  ultimately show ?thesis by (simp add: tags_loop.simps [of b mi _ k s'])
qed

text \<open>C39: When the walk arrives at a tag of the size 0, of whatever type, \<^verbatim>\<open>print_info\<close> never returns.\<close>

theorem print_info_stuck_on_empty_tag:
  assumes "con_ok s" "b \<noteq> 0" "region mi 4 \<inter> region video 4000 = {}"
    and "tag_rows (mem s) mi (load32 (mem s) mi) 8 ts k" "k < load32 (mem s) mi"
    and "region (mi + k) 12 \<inter> region video 4000 = {}" "tag_size (mem s) (mi + k) = 0"
  shows "print_info b ks ke mi s = None"
proof -
  obtain s' cs where s': "print_info b ks ke mi s = tags_loop b mi (load32 (mem s) mi) k s'" "prints cs s s'"
    using print_info_head [OF assms(1-4)] by metis
  have "tag_size (mem s') (mi + k) = 0" using tag_fields_prints [OF s'(2) assms(6)] assms(7) by simp
  then show ?thesis using s'(1) tags_loop_stuck [of b mi "load32 (mem s) mi" k s'] assms(2,5,6) prints_con_ok [OF s'(2)]
    by (cases "tags_loop b mi (load32 (mem s) mi) k s'") auto
qed


section \<open>Concrete instances\<close>

theorem dump_prints_rows_witness:
  "(\<exists>s'. dump 1 16 2 sample_con = Some s' \<and> prints (dump_text 0 [72, 105]) sample_con s') \<and> dump 1 16 0xFFFFFFF1 sample_con = None"
proof -
  have "region (16 :: addr) (unat (2 :: u32)) \<inter> region video 4000 = {}" by (rule region_disjoint_abs) (simp_all add: video_def)
  moreover have "con_ok sample_con" by (simp add: con_ok_def sample_con_def)
  moreover have "bytes_at (mem sample_con) 16 (unat (2 :: u32)) = [72, 105]"
    by (simp add: bytes_at_def sample_con_def upt_rec)
  ultimately show ?thesis using dump_prints_rows [of sample_con 1 2 16] dump_prints_rows [of sample_con 1 "0xFFFFFFF1" 16] by simp
qed

text \<open>Boot information of \<open>n\<close> bytes at 0xC0110000: a memory map with one entry, zeros behind it.\<close>

definition boot_info :: "u8 \<Rightarrow> con" where
  "boot_info n = \<lparr>mem = (\<lambda>_. 0)(0xC0110000 := n, 0xC0110008 := 6, 0xC011000C := 40, 0xC0110010 := 24, 0xC0110019 := 0x10,
     0xC0110028 := 1), io = [], csr_x = 0, csr_y = 0, attrib = 7\<rparr>"

lemma boot_info_tags:
  assumes "load32 (mem (boot_info n)) 0xC0110000 = ucast n" "48 \<le> n"
  shows "tag_rows (mem (boot_info n)) 0xC0110000 (load32 (mem (boot_info n)) 0xC0110000) 8 [(8, [16])] 48"
proof -
  have "region (0xC0110008 :: addr) 12 \<inter> region video 4000 = {}" "region (0xC0110018 :: addr) 20 \<inter> region video 4000 = {}"
    by (subst Int_commute, rule region_disjoint_abs; simp add: video_def)+
  moreover have "(8 :: u32) < ucast n" using assms(2) by (simp add: word_less_nat_alt word_le_nat_alt unsigned_ucast_eq)
  moreover have f: "tag_type (mem (boot_info n)) 0xC0110008 = 6" "tag_size (mem (boot_info n)) 0xC0110008 = 40"
    "mmap_entry_size (mem (boot_info n)) 0xC0110008 = 24"
    by (simp_all add: tag_type_def tag_size_def mmap_entry_size_def load32_def boot_info_def)
  ultimately show ?thesis using assms(1) by (simp add: next_tag_def)
qed

theorem print_info_prints_tags_witness:
  "\<exists>s'. print_info 1 0xC0100000 0xC0110000 0xC0110000 (boot_info 48) = Some s' \<and> con_ok s'"
proof -
  have "region (0xC0110000 :: addr) 4 \<inter> region video 4000 = {}" by (subst Int_commute, rule region_disjoint_abs) (simp_all add: video_def)
  moreover have "load32 (mem (boot_info 48)) 0xC0110000 = 48" by (simp add: load32_def boot_info_def)
  moreover have "con_ok (boot_info 48)" by (simp add: con_ok_def boot_info_def)
  ultimately show ?thesis using print_info_prints_tags [of "boot_info 48" 1 "0xC0110000" "[(8, [16])]" 48] boot_info_tags [of 48]
    by (fastforce dest: prints_con_ok simp del: tag_rows.simps)
qed

theorem print_info_stuck_on_empty_tag_witness:
  "print_info 1 0xC0100000 0xC0110000 0xC0110000 (boot_info 64) = None"
proof -
  have "region (0xC0110000 :: addr) 4 \<inter> region video 4000 = {}" "region (0xC0110030 :: addr) 12 \<inter> region video 4000 = {}"
    by (subst Int_commute, rule region_disjoint_abs; simp add: video_def)+
  moreover have "load32 (mem (boot_info 64)) 0xC0110000 = 64" "tag_type (mem (boot_info 64)) 0xC0110030 = 0"
    "tag_size (mem (boot_info 64)) 0xC0110030 = 0"
    by (simp_all add: load32_def boot_info_def tag_type_def tag_size_def)
  moreover have "con_ok (boot_info 64)" by (simp add: con_ok_def boot_info_def)
  ultimately show ?thesis
    using print_info_stuck_on_empty_tag [of "boot_info 64" 1 "0xC0110000" "[(8, [16])]" 48] boot_info_tags [of 64]
    by (simp del: tag_rows.simps)
qed

end
