(* ===== verification/Frog_Irq.thy ===== *)
theory Frog_Irq
  imports Frog_Memory Frog_Printf
begin

text \<open>
  irq.c: the interrupt descriptor table, the two 8259 interrupt controllers, the lists of handlers
  per interrupt line and the common interrupt entry. The handler structures are linked through
  memory, as the callers own them.
\<close>

section \<open>State\<close>

record irq = heap +
  irq_handlers :: "addr list"  \<comment> \<open>18 list heads\<close>
  iflag :: bool                \<comment> \<open>the processor's interrupt flag\<close>

record regs =
  gs :: u32
  fs :: u32
  es :: u32
  ds :: u32
  edi :: u32
  esi :: u32
  ebp :: u32
  esp :: u32
  ebx :: u32
  edx :: u32
  ecx :: u32
  eax :: u32
  int_no :: u32
  err_code :: u32
  eip :: u32
  cs :: u32
  eflags :: u32
  useresp :: u32
  ss :: u32

text \<open>The fields of \<^verbatim>\<open>irq_handler_t\<close>: function, data, next.\<close>

definition h_handler :: "byte_mem \<Rightarrow> addr \<Rightarrow> addr" where
  "h_handler m p = load32 m p"

definition h_data :: "byte_mem \<Rightarrow> addr \<Rightarrow> addr" where
  "h_data m p = load32 m (p + 4)"

definition h_next :: "byte_mem \<Rightarrow> addr \<Rightarrow> addr" where
  "h_next m p = load32 m (p + 8)"

definition set_h_next :: "addr \<Rightarrow> addr \<Rightarrow> byte_mem \<Rightarrow> byte_mem" where
  "set_h_next p v m = store32 m (p + 8) v"

definition enable :: "'a irq_scheme \<Rightarrow> 'a irq_scheme" where
  "enable s = s\<lparr>iflag := True\<rparr>"

definition disable :: "'a irq_scheme \<Rightarrow> 'a irq_scheme" where
  "disable s = s\<lparr>iflag := False\<rparr>"

definition exception_messages :: "string list" where
  "exception_messages = [''Division By Zero'', ''Debug'', ''Non Maskable Interrupt'', ''Breakpoint'',
     ''Into Detected Overlow'', ''Out of Bounds'', ''Invalid Opcode'', ''No Coprocessor'', ''Double Fault'',
     ''Coprocessor Segment Overrun'', ''Bad TSS'', ''Segment Not Present'', ''Stack Fault'',
     ''General Protection Fault'', ''Page Fault'', ''Unknown Interrupt'', ''Coprocessor Fault'',
     ''Alignment Check'', ''Machine Check'', ''Reserved'', ''Reserved'', ''Reserved'', ''Reserved'', ''Reserved'',
     ''Reserved'', ''Reserved'', ''Reserved'', ''Reserved'', ''Reserved'', ''Reserved'', ''Reserved'', ''Reserved'']"

section \<open>Masks\<close>

text \<open>The interrupt mask registers are read back from the controllers, which are a parameter.\<close>

definition irq_set_mask :: "u8 port_read \<Rightarrow> u8 \<Rightarrow> 'a irq_scheme \<Rightarrow> 'a irq_scheme" where
  "irq_set_mask pic irq s =
     (let (port, irq') = (if 8 \<le> irq then (0xA1, irq - 8) else (0x21, irq));
          s1 = disable s;
          v = ucast ((ucast (inportb pic port s1) :: u32) OR push_bit (unat irq') 1)
      in enable (outportb port v s1))"

definition irq_clear_mask :: "u8 port_read \<Rightarrow> u8 \<Rightarrow> 'a irq_scheme \<Rightarrow> 'a irq_scheme" where
  "irq_clear_mask pic irq s =
     (if 16 \<le> irq then s
      else let (port, irq') = (if 8 \<le> irq then (0xA1, irq - 8) else (0x21, irq));
               s1 = disable s;
               v = ucast ((ucast (inportb pic port s1) :: u32) AND NOT (push_bit (unat irq') 1))
           in enable (outportb port v s1))"

section \<open>Handler lists\<close>

text \<open>The line number is an unchecked index: outside the 18 entries there is no result.\<close>

definition install_irq_handler :: "u8 port_read \<Rightarrow> nat \<Rightarrow> addr \<Rightarrow> 'a irq_scheme \<Rightarrow> 'a irq_scheme option" where
  "install_irq_handler pic irq h s =
     (if irq < length (irq_handlers s) then
        let s1 = (if irq_handlers s ! irq = 0 then irq_clear_mask pic (of_nat irq) s else s);
            s2 = disable s1;
            s3 = s2\<lparr>mem := set_h_next h (irq_handlers s2 ! irq) (mem s2),
                    irq_handlers := (irq_handlers s2)[irq := h]\<rparr>
        in Some (enable s3)
      else None)"

text \<open>The search for the predecessor, which does not return on a cyclic list.\<close>

partial_function (option) uninstall_loop :: "addr \<Rightarrow> addr \<Rightarrow> byte_mem \<Rightarrow> byte_mem option" where
  "uninstall_loop h p m =
     (if p = 0 then Some m
      else if h_next m p = h then Some (set_h_next p (h_next m h) m)
      else uninstall_loop h (h_next m p) m)"

definition uninstall_irq_handler :: "u8 port_read \<Rightarrow> nat \<Rightarrow> addr \<Rightarrow> 'a irq_scheme \<Rightarrow> 'a irq_scheme option" where
  "uninstall_irq_handler pic irq h s =
     (if irq < length (irq_handlers s) then
        let s1 = disable s in
        map_option (\<lambda>s2. let s3 = enable s2 in
            if irq_handlers s3 ! irq = 0 \<and> irq \<noteq> 2 then irq_set_mask pic (of_nat irq) s3 else s3)
          (if irq_handlers s1 ! irq = h
           then Some (s1\<lparr>irq_handlers := (irq_handlers s1)[irq := h_next (mem s1) h]\<rparr>)
           else map_option (\<lambda>m. s1\<lparr>mem := m\<rparr>) (uninstall_loop h (irq_handlers s1 ! irq) (mem s1)))
      else None)"

section \<open>The interrupt entry\<close>

text \<open>An exception ends in a loop of \<^verbatim>\<open>hlt\<close>; an interrupt returns to the stub that called.\<close>

datatype 's outcome = Halted 's | Returned 's

text \<open>Calling the code at an address is a parameter: function, registers and data. There is no result when the code does
  not return.\<close>

type_synonym 'a code = "addr \<Rightarrow> regs \<Rightarrow> addr \<Rightarrow> 'a irq_scheme \<Rightarrow> 'a irq_scheme option"

partial_function (option) irq_chain :: "'a code \<Rightarrow> regs \<Rightarrow> addr \<Rightarrow> 'a irq_scheme \<Rightarrow> 'a irq_scheme option" where
  "irq_chain call r p s =
     (if p = 0 then Some s
      else Option.bind (call (h_handler (mem s) p) r (h_data (mem s) p) s) (\<lambda>s'. irq_chain call r (h_next (mem s') p) s'))"

definition irq_eoi :: "u32 \<Rightarrow> 'a irq_scheme \<Rightarrow> 'a irq_scheme" where
  "irq_eoi n s = outportb 0x20 0x20 (if 40 \<le> n then outportb 0xA0 0x20 s else s)"

text \<open>\<open>msgs\<close> are the pointers of \<^verbatim>\<open>exception_messages\<close>, \<open>cr2\<close> is the processor's fault address and \<open>frame\<close>
  the stack address of \<^verbatim>\<open>printf\<close>'s local byte.\<close>

definition irq_handler :: "'a code \<Rightarrow> (nat \<Rightarrow> addr) \<Rightarrow> u32 \<Rightarrow> addr \<Rightarrow> regs \<Rightarrow> 'a irq_scheme
    \<Rightarrow> 'a irq_scheme outcome option" where
  "irq_handler call msgs cr2 frame r s =
     (if int_no r = 14 then
        Option.bind (puts (msgs 14) s) (\<lambda>s1.
        Option.bind (printf frame (cbytes '' error: %d, addr: 0x%x, eip: 0x%x\<newline>'') [err_code r, cr2, eip r] s1) (\<lambda>(_, s2).
        Option.bind (printf frame (cbytes ''eax: 0x%x\<newline>'') [eax r] s2) (\<lambda>(_, s3).
        Some (Halted s3))))
      else if int_no r < 32 then map_option Halted (puts (msgs (unat (int_no r))) s)
      else if unat (int_no r - 32) < length (irq_handlers s) then
        map_option (\<lambda>s'. Returned (irq_eoi (int_no r) s')) (irq_chain call r (irq_handlers s ! unat (int_no r - 32)) s)
      else None)"

section \<open>The descriptor table\<close>

definition idt_set_gate :: "addr \<Rightarrow> u32 \<Rightarrow> addr \<Rightarrow> u16 \<Rightarrow> u8 \<Rightarrow> byte_mem \<Rightarrow> byte_mem" where
  "idt_set_gate idt num func sel flags m =
     (let e = idt + 8 * num;
          m1 = store16 m e (ucast (func AND 0xFFFF));
          m2 = store16 m1 (e + 2) sel;
          m3 = m2(e + 4 := 0);
          m4 = m3(e + 5 := flags)
      in store16 m4 (e + 6) (ucast (drop_bit 16 func AND 0xFFFF)))"

text \<open>\<open>idt\<close> and \<open>stub i\<close> are the addresses of the table and of the entry stubs \<^verbatim>\<open>irq0\<close> to \<^verbatim>\<open>irq48\<close>, which are
  assembly code; \<^verbatim>\<open>idt_load\<close> loads the table register and \<^verbatim>\<open>io_wait\<close> only delays.\<close>

definition set_irqs :: "addr \<Rightarrow> (nat \<Rightarrow> addr) \<Rightarrow> 'a irq_scheme \<Rightarrow> 'a irq_scheme" where
  "set_irqs idt stub s =
     (let m1 = memset idt 0 2048 (mem s);
          m2 = fold (\<lambda>i. idt_set_gate idt (of_nat i) (stub i) 0x08 0x8E) [0..<49] m1
      in fold (\<lambda>(p, b). outportb p b)
           [(0x20, 0x11), (0xA0, 0x11), (0x21, 0x20), (0xA1, 0x28), (0x21, 0x04), (0xA1, 0x02),
            (0x21, 0x01), (0xA1, 0x01), (0x21, 0xFB), (0xA1, 0xFF)] (s\<lparr>mem := m2\<rparr>))"

section \<open>Chains of handlers in memory\<close>

primrec hchain :: "byte_mem \<Rightarrow> addr \<Rightarrow> addr list \<Rightarrow> bool" where
  "hchain m p [] \<longleftrightarrow> p = 0"
| "hchain m p (q # qs) \<longleftrightarrow> p = q \<and> p \<noteq> 0 \<and> hchain m (h_next m q) qs"

abbreviation next_field :: "addr \<Rightarrow> addr set" where
  "next_field p \<equiv> region (p + 8) 4"

text \<open>The link fields of two different nodes do not overlap.\<close>

definition separate :: "addr set \<Rightarrow> bool" where
  "separate N \<longleftrightarrow> (\<forall>p \<in> N. \<forall>q \<in> N. p \<noteq> q \<longrightarrow> next_field p \<inter> next_field q = {})"

lemma separate_subset: "separate N \<Longrightarrow> M \<subseteq> N \<Longrightarrow> separate M"
  by (auto simp: separate_def simp del: in_region)

lemma h_next_set [simp]: "h_next (set_h_next p v m) p = v"
  by (simp add: h_next_def set_h_next_def)

lemma h_next_set_other:
  "separate N \<Longrightarrow> p \<in> N \<Longrightarrow> q \<in> N \<Longrightarrow> p \<noteq> q \<Longrightarrow> h_next (set_h_next p v m) q = h_next m q"
  unfolding h_next_def set_h_next_def separate_def by (rule load32_store32_disjoint) blast

lemma hchain_cong:
  "(\<And>q. q \<in> set qs \<Longrightarrow> h_next m' q = h_next m q) \<Longrightarrow> hchain m' p qs \<longleftrightarrow> hchain m p qs"
  by (induction qs arbitrary: p) auto

lemma hchain_null: "hchain m 0 qs \<longleftrightarrow> qs = []"
  by (cases qs) auto

lemma hchain_head: "hchain m p qs \<Longrightarrow> p \<noteq> 0 \<Longrightarrow> p \<in> set qs"
  by (cases qs) auto

text \<open>The search unlinks the handler from the rest of the list.\<close>

lemma uninstall_loop_remove:
  assumes "hchain m p qs" "distinct qs" "separate (set qs)" "h \<noteq> 0" "p \<noteq> h"
  shows "\<exists>m'. uninstall_loop h p m = Some m' \<and> hchain m' p (remove1 h qs)
    \<and> (\<forall>x. (\<forall>q \<in> set qs. x \<notin> next_field q) \<longrightarrow> m' x = m x)"
  using assms
proof (induction qs arbitrary: p)
  case Nil
  then show ?case by (auto simp: uninstall_loop.simps [of h 0])
next
  case (Cons q qs)
  have p: "p = q" "q \<noteq> 0" "hchain m (h_next m q) qs" using Cons.prems(1) by auto
  show ?case
  proof (cases "h_next m q = h")
    case True
    then obtain rest where rest: "qs = h # rest" using p(3) Cons.prems(4) by (cases qs) auto
    let ?m = "set_h_next q (h_next m h) m"
    have "h_next ?m r = h_next m r" if "r \<in> set rest" for r
      using Cons.prems that rest by (intro h_next_set_other [of "set (q # qs)"]) auto
    then have "hchain ?m (h_next m h) rest" using p(3) rest True by (simp add: hchain_cong [of rest ?m m])
    moreover have "\<forall>x. x \<notin> next_field q \<longrightarrow> ?m x = m x" by (simp add: set_h_next_def del: in_region)
    ultimately show ?thesis using True p rest Cons.prems(5)
      by (auto simp: uninstall_loop.simps [of h q] simp del: in_region)
  next
    case False
    have "separate (set qs)" by (rule separate_subset [OF Cons.prems(3)]) auto
    then obtain m' where m': "uninstall_loop h (h_next m q) m = Some m'" "hchain m' (h_next m q) (remove1 h qs)"
      "\<And>x. (\<forall>r \<in> set qs. x \<notin> next_field r) \<Longrightarrow> m' x = m x"
      using Cons.IH [OF p(3)] Cons.prems(2,4) False by auto
    have "h_next m' q = h_next m q" unfolding h_next_def
    proof (rule load32_cong)
      fix x assume "x \<in> next_field q"
      then have "\<forall>r \<in> set qs. x \<notin> next_field r"
        using Cons.prems(2,3) by (fastforce simp: separate_def simp del: in_region)
      then show "m' x = m x" by (rule m'(3))
    qed
    then show ?thesis using m' p False Cons.prems(5)
      by (auto simp: uninstall_loop.simps [of h q] simp del: in_region)
  qed
qed

section \<open>The controllers\<close>

text \<open>What the two 8259 controllers are documented to do: once their initialisation sequence is complete and no
  new one is begun, the ports 0x21 and 0xA1 read as the mask last written there. Accesses to the ports of other devices
  do not concern them.\<close>

definition pic_icws :: "io_event list" where
  "pic_icws = [OutB 0x20 0x11, OutB 0xA0 0x11, OutB 0x21 0x20, OutB 0xA1 0x28, OutB 0x21 0x04, OutB 0xA1 0x02,
     OutB 0x21 0x01, OutB 0xA1 0x01]"

fun icw1 :: "io_event \<Rightarrow> bool" where
  "icw1 (OutB p b) \<longleftrightarrow> (p = 0x20 \<or> p = 0xA0) \<and> bit b 4"
| "icw1 _ \<longleftrightarrow> False"

definition pic_ready :: "io_event list \<Rightarrow> bool" where
  "pic_ready h \<longleftrightarrow> (\<exists>pre post. h = pre @ pic_icws @ post \<and> (\<forall>e \<in> set post. \<not> icw1 e))"

fun pic_apart :: "io_event \<Rightarrow> bool" where
  "pic_apart (OutB p b) \<longleftrightarrow> p \<notin> {0x20, 0x21, 0xA0, 0xA1}"
| "pic_apart (OutW p w) \<longleftrightarrow> 0x100 \<le> p"
| "pic_apart (OutL p l) \<longleftrightarrow> 0x100 \<le> p"
| "pic_apart (InW p) \<longleftrightarrow> 0x100 \<le> p"

definition pic_device :: "u8 port_read \<Rightarrow> bool" where
  "pic_device pic \<longleftrightarrow>
     (\<forall>h p b. pic_ready h \<longrightarrow> (p = 0x21 \<or> p = 0xA1) \<longrightarrow> pic (h @ [OutB p b]) p = b)
   \<and> (\<forall>h p q b. pic_ready h \<longrightarrow> (p = 0x21 \<or> p = 0xA1) \<longrightarrow> q \<noteq> p \<longrightarrow> \<not> icw1 (OutB q b)
        \<longrightarrow> pic (h @ [OutB q b]) p = pic h p)
   \<and> (\<forall>h p e. pic_ready h \<longrightarrow> (p = 0x21 \<or> p = 0xA1) \<longrightarrow> pic_apart e \<longrightarrow> pic (h @ [e]) p = pic h p)"

definition masked :: "u8 port_read \<Rightarrow> 'a irq_scheme \<Rightarrow> nat \<Rightarrow> bool" where
  "masked pic s i \<longleftrightarrow> bit (pic (io s) (if i < 8 then 0x21 else 0xA1)) (i mod 8)"

lemma pic_ready_snoc: "pic_ready h \<Longrightarrow> \<not> icw1 e \<Longrightarrow> pic_ready (h @ [e])"
  by (fastforce simp: pic_ready_def)

lemma pic_apart_icw1: "pic_apart e \<Longrightarrow> \<not> icw1 e"
  by (cases e) auto

lemma pic_apart_list:
  assumes "pic_device pic"
  shows "pic_ready h \<Longrightarrow> list_all pic_apart evs \<Longrightarrow> pic_ready (h @ evs) \<and> pic (h @ evs) 0x21 = pic h 0x21 \<and> pic (h @ evs) 0xA1 = pic h 0xA1"
proof (induction evs arbitrary: h)
  case (Cons e evs)
  then have "pic_ready (h @ [e])" by (simp add: pic_ready_snoc pic_apart_icw1)
  moreover have "pic (h @ [e]) 0x21 = pic h 0x21" "pic (h @ [e]) 0xA1 = pic h 0xA1"
    using assms Cons.prems by (simp_all add: pic_device_def)
  ultimately show ?case using Cons.IH [of "h @ [e]"] Cons.prems(2) by simp
qed simp

lemma iflag_simps [simp]:
  "mem (enable s) = mem s" "io (enable s) = io s" "irq_handlers (enable s) = irq_handlers s" "iflag (enable s)"
  "mem (disable s) = mem s" "io (disable s) = io s" "irq_handlers (disable s) = irq_handlers s"
  by (simp_all add: enable_def disable_def)

lemma outportb_irq [simp]: "irq_handlers (outportb p b s) = irq_handlers (s :: 'a irq_scheme)"
  by (simp add: outportb_def)

lemma mask_ops_frame [simp]:
  "mem (irq_set_mask pic n s) = mem s" "irq_handlers (irq_set_mask pic n s) = irq_handlers s"
  "mem (irq_clear_mask pic n s) = mem s" "irq_handlers (irq_clear_mask pic n s) = irq_handlers s"
  by (simp_all add: irq_set_mask_def irq_clear_mask_def Let_def split: prod.splits)

text \<open>The bit operations on a mask register.\<close>

lemma mask_bit_set:
  "j < 8 \<Longrightarrow> k < 8 \<Longrightarrow> bit (ucast ((ucast (b :: u8) :: u32) OR push_bit k 1) :: u8) j \<longleftrightarrow> bit b j \<or> j = k"
  by (auto simp: bit_simps)

lemma mask_bit_clear:
  "j < 8 \<Longrightarrow> k < 8 \<Longrightarrow> bit (ucast ((ucast (b :: u8) :: u32) AND NOT (push_bit k 1)) :: u8) j \<longleftrightarrow> bit b j \<and> j \<noteq> k"
  by (auto simp: bit_simps)

lemma line_number:
  assumes "i < 16"
  shows "\<not> 16 \<le> (of_nat i :: u8)" "8 \<le> (of_nat i :: u8) \<longleftrightarrow> 8 \<le> i"
    "unat (if 8 \<le> (of_nat i :: u8) then of_nat i - 8 else of_nat i :: u8) = i mod 8"
proof -
  have u: "unat (of_nat i :: u8) = i" using assms by (simp add: unat_of_nat)
  then show 1: "\<not> 16 \<le> (of_nat i :: u8)" "8 \<le> (of_nat i :: u8) \<longleftrightarrow> 8 \<le> i"
    using assms by (simp_all add: word_le_nat_alt)
  have "unat (of_nat i - 8 :: u8) = i - 8" if "8 \<le> i"
    using that u 1 by (subst unat_sub) simp_all
  moreover have "i mod 8 = i - 8" if "8 \<le> i" using that assms by (simp add: mod_if)
  ultimately show "unat (if 8 \<le> (of_nat i :: u8) then of_nat i - 8 else of_nat i :: u8) = i mod 8"
    using u 1 by auto
qed

definition pic_port :: "nat \<Rightarrow> u16" where
  "pic_port i = (if i < 8 then 0x21 else 0xA1)"

lemma masked_write:
  assumes "pic_device pic" "pic_ready (io s)" "io s' = io s @ [OutB (pic_port i) v]" "i < 16" "j < 16"
  shows "masked pic s' j \<longleftrightarrow> (if pic_port i = pic_port j then bit v (j mod 8) else masked pic s j)"
  using assms by (auto simp: masked_def pic_device_def pic_port_def)

lemma same_line: "i < 16 \<Longrightarrow> j < 16 \<Longrightarrow> pic_port i = pic_port j \<Longrightarrow> j mod 8 = i mod 8 \<longleftrightarrow> j = i"
  by (auto simp: pic_port_def mod_if split: if_splits)

lemma mask_ops_io:
  fixes pic :: "u8 port_read" and s :: "'a irq_scheme"
  assumes "i < 16"
  defines "b \<equiv> pic (io s) (pic_port i)"
  shows "io (irq_set_mask pic (of_nat i) s) =
      io s @ [OutB (pic_port i) (ucast ((ucast b :: u32) OR push_bit (i mod 8) 1))]"
    and "io (irq_clear_mask pic (of_nat i) s) =
      io s @ [OutB (pic_port i) (ucast ((ucast b :: u32) AND NOT (push_bit (i mod 8) 1)))]"
  using line_number [OF assms(1)] unfolding b_def
  by (auto simp: irq_set_mask_def irq_clear_mask_def Let_def inportb_def pic_port_def not_le split: if_splits)

lemma mask_ops_masked:
  assumes "pic_device pic" "pic_ready (io s)" "i < 16"
  shows "j < 16 \<Longrightarrow> masked pic (irq_set_mask pic (of_nat i) s) j \<longleftrightarrow> masked pic s j \<or> j = i"
    and "j < 16 \<Longrightarrow> masked pic (irq_clear_mask pic (of_nat i) s) j \<longleftrightarrow> masked pic s j \<and> j \<noteq> i"
    and "pic_ready (io (irq_set_mask pic (of_nat i) s))" "pic_ready (io (irq_clear_mask pic (of_nat i) s))"
proof -
  have port: "masked pic s j \<longleftrightarrow> bit (pic (io s) (pic_port j)) (j mod 8)" for j
    by (simp add: masked_def pic_port_def)
  show "masked pic (irq_set_mask pic (of_nat i) s) j \<longleftrightarrow> masked pic s j \<or> j = i" if "j < 16"
    unfolding masked_write [OF assms(1,2) mask_ops_io(1) [OF assms(3)] assms(3) that]
    using mask_bit_set [of "j mod 8" "i mod 8" "pic (io s) (pic_port i)"] same_line [OF assms(3) that]
    by (auto simp only: port mod_less_divisor zero_less_numeral split: if_splits)
  show "masked pic (irq_clear_mask pic (of_nat i) s) j \<longleftrightarrow> masked pic s j \<and> j \<noteq> i" if "j < 16"
    unfolding masked_write [OF assms(1,2) mask_ops_io(2) [OF assms(3)] assms(3) that]
    using mask_bit_clear [of "j mod 8" "i mod 8" "pic (io s) (pic_port i)"] same_line [OF assms(3) that]
    by (auto simp only: port mod_less_divisor zero_less_numeral split: if_splits)
  show "pic_ready (io (irq_set_mask pic (of_nat i) s))" "pic_ready (io (irq_clear_mask pic (of_nat i) s))"
    unfolding mask_ops_io [OF assms(3)] by (rule pic_ready_snoc [OF assms(2)], simp add: pic_port_def)+
qed

section \<open>All lines\<close>

text \<open>The abstract state: the handlers of each line, in calling order.\<close>

type_synonym lines = "nat \<Rightarrow> addr list"

definition nodes :: "lines \<Rightarrow> addr set" where
  "nodes L = (\<Union>i<18. set (L i))"

definition lines_ok :: "u8 port_read \<Rightarrow> 'a irq_scheme \<Rightarrow> lines \<Rightarrow> bool" where
  "lines_ok pic s L \<longleftrightarrow> length (irq_handlers s) = 18 \<and> pic_ready (io s)
     \<and> (\<forall>i<18. hchain (mem s) (irq_handlers s ! i) (L i) \<and> distinct (L i))
     \<and> (\<forall>i<18. \<forall>j<18. i \<noteq> j \<longrightarrow> set (L i) \<inter> set (L j) = {})
     \<and> separate (nodes L)
     \<and> (\<forall>i<16. masked pic s i \<longleftrightarrow> L i = [] \<and> i \<noteq> 2)"

datatype irq_op = Install nat addr | Uninstall nat addr

fun irq_do :: "u8 port_read \<Rightarrow> irq_op \<Rightarrow> 'a irq_scheme \<Rightarrow> 'a irq_scheme option" where
  "irq_do pic (Install i h) s = install_irq_handler pic i h s"
| "irq_do pic (Uninstall i h) s = uninstall_irq_handler pic i h s"

fun lines_do :: "irq_op \<Rightarrow> lines \<Rightarrow> lines" where
  "lines_do (Install i h) L = L(i := h # L i)"
| "lines_do (Uninstall i h) L = L(i := remove1 h (L i))"

text \<open>What the kernel's calls respect: a line of the controllers, a handler structure that is not null, and one
  that is not yet installed and whose link field overlaps no other.\<close>

fun op_ok :: "irq_op \<Rightarrow> lines \<Rightarrow> bool" where
  "op_ok (Install i h) L \<longleftrightarrow> i < 18 \<and> h \<noteq> 0 \<and> h \<notin> nodes L \<and> separate (insert h (nodes L))"
| "op_ok (Uninstall i h) L \<longleftrightarrow> i < 16 \<and> h \<noteq> 0"

lemma lines_okD:
  assumes "lines_ok pic s L"
  shows "length (irq_handlers s) = 18" "pic_ready (io s)" "i < 18 \<Longrightarrow> hchain (mem s) (irq_handlers s ! i) (L i)"
    "i < 18 \<Longrightarrow> distinct (L i)" "i < 18 \<Longrightarrow> j < 18 \<Longrightarrow> i \<noteq> j \<Longrightarrow> set (L i) \<inter> set (L j) = {}"
    "separate (nodes L)" "i < 16 \<Longrightarrow> masked pic s i \<longleftrightarrow> L i = [] \<and> i \<noteq> 2"
  using assms by (simp_all add: lines_ok_def)

lemma nodesI: "i < 18 \<Longrightarrow> p \<in> set (L i) \<Longrightarrow> p \<in> nodes L"
  by (auto simp: nodes_def)

lemma install_lines_ok:
  assumes "pic_device pic" "lines_ok pic s L" "op_ok (Install i h) L"
  shows "\<exists>s'. install_irq_handler pic i h s = Some s' \<and> lines_ok pic s' (lines_do (Install i h) L)"
proof -
  note ok = lines_okD [OF assms(2)]
  have i: "i < 18" and h: "h \<noteq> 0" "h \<notin> nodes L" "separate (insert h (nodes L))" using assms(3) by auto
  define s1 where "s1 = (if irq_handlers s ! i = 0 then irq_clear_mask pic (of_nat i) s else s)"
  define s' where "s' = enable ((disable s1)\<lparr>mem := set_h_next h (irq_handlers s ! i) (mem s),
      irq_handlers := (irq_handlers s)[i := h]\<rparr>)"
  have s1: "mem s1 = mem s" "irq_handlers s1 = irq_handlers s" by (simp_all add: s1_def)
  have run: "install_irq_handler pic i h s = Some s'"
    using i ok(1) s1 by (simp add: install_irq_handler_def Let_def s1_def [symmetric] s'_def)
  have s': "mem s' = set_h_next h (irq_handlers s ! i) (mem s)" "irq_handlers s' = (irq_handlers s)[i := h]"
    "io s' = io s1" by (simp_all add: s'_def enable_def disable_def)
  have keep: "h_next (mem s') q = h_next (mem s) q" if "q \<in> nodes L" for q
    unfolding s' using h that by (intro h_next_set_other [OF h(3)]) auto
  have chain: "hchain (mem s') (irq_handlers s' ! j) ((L(i := h # L i)) j)" if "j < 18" for j
  proof -
    have "hchain (mem s') (irq_handlers s ! j) (L j)"
      using ok(3) [OF that] keep nodesI [OF that] by (subst hchain_cong) auto
    then show ?thesis using that ok(1) h(1) by (auto simp: s' nth_list_update)
  qed
  have nodes': "nodes (L(i := h # L i)) = insert h (nodes L)" using i by (auto simp: nodes_def split: if_splits)
  have hn: "h \<notin> set (L j)" if "j < 18" for j using h(2) nodesI [OF that] by blast
  have mask: "pic_ready (io s') \<and> (\<forall>j<16. masked pic s' j \<longleftrightarrow> (L(i := h # L i)) j = [] \<and> j \<noteq> 2)"
  proof -
    have empty: "irq_handlers s ! i = 0 \<longleftrightarrow> L i = []" using ok(3) [OF i] by (cases "L i") auto
    show ?thesis
    proof (cases "i < 16")
      case True
      then show ?thesis using empty mask_ops_masked [OF assms(1) ok(2) True] ok(2,7)
        by (auto simp: masked_def s' s1_def)
    next
      case False
      then have "i = 16 \<or> i = 17" using i by auto
      then have "irq_clear_mask pic (of_nat i) s = s" by (auto simp: irq_clear_mask_def)
      then show ?thesis using ok(2,7) False by (auto simp: masked_def s' s1_def)
    qed
  qed
  have "lines_ok pic s' (L(i := h # L i))"
    unfolding lines_ok_def nodes'
    using mask chain ok h(3) hn i by (auto simp: s')
  then show ?thesis using run by simp
qed

lemma install_frame:
  assumes "install_irq_handler pic i h s = Some s'"
  shows "\<exists>h'. s' = s\<lparr>mem := set_h_next h (irq_handlers s ! i) (mem s), io := h', irq_handlers := (irq_handlers s)[i := h], iflag := True\<rparr>"
  using assms
  by (cases s) (auto simp: install_irq_handler_def irq_clear_mask_def enable_def disable_def outportb_def Let_def split: if_splits)

text \<open>Unlinking: both branches leave the list without the handler, and touch no link of another line.\<close>

lemma uninstall_memory:
  assumes "lines_ok pic s L" "i < 18" "h \<noteq> 0"
  obtains m hd where "uninstall_irq_handler pic i h s = Some
      (let s3 = enable ((disable s)\<lparr>mem := m, irq_handlers := (irq_handlers s)[i := hd]\<rparr>) in
       if hd = 0 \<and> i \<noteq> 2 then irq_set_mask pic (of_nat i) s3 else s3)"
    "hchain m hd (remove1 h (L i))" "\<And>q. q \<in> nodes L \<Longrightarrow> q \<notin> set (L i) \<Longrightarrow> h_next m q = h_next (mem s) q"
proof (cases "irq_handlers s ! i = h")
  note ok = lines_okD [OF assms(1)]
  case True
  then obtain rest where rest: "L i = h # rest" using ok(3) [OF assms(2)] assms(3) by (cases "L i") auto
  show ?thesis
  proof (rule that [of "h_next (mem s) h" "mem s"])
    show "hchain (mem s) (h_next (mem s) h) (remove1 h (L i))" using ok(3) [OF assms(2)] rest by simp
  qed (use True assms ok(1) in \<open>simp_all add: uninstall_irq_handler_def Let_def disable_def\<close>)
next
  note ok = lines_okD [OF assms(1)]
  case False
  let ?p = "irq_handlers s ! i"
  have sub: "set (L i) \<subseteq> nodes L" using nodesI [OF assms(2)] by blast
  obtain m where m: "uninstall_loop h ?p (mem s) = Some m" "hchain m ?p (remove1 h (L i))"
    "\<And>x. (\<forall>q \<in> set (L i). x \<notin> next_field q) \<Longrightarrow> m x = mem s x"
    using uninstall_loop_remove [OF ok(3,4) [OF assms(2)] separate_subset [OF ok(6) sub] assms(3)] False by auto
  show ?thesis
  proof (rule that [of ?p m])
    fix q assume q: "q \<in> nodes L" "q \<notin> set (L i)"
    show "h_next m q = h_next (mem s) q" unfolding h_next_def
    proof (rule load32_cong)
      fix x assume "x \<in> next_field q"
      then have "\<forall>r \<in> set (L i). x \<notin> next_field r"
        using ok(6) q sub by (fastforce simp: separate_def simp del: in_region)
      then show "m x = mem s x" by (rule m(3))
    qed
  qed (use False assms ok(1) m in \<open>simp_all add: uninstall_irq_handler_def Let_def disable_def enable_def\<close>)
qed

lemma uninstall_lines_ok:
  assumes "pic_device pic" "lines_ok pic s L" "op_ok (Uninstall i h) L"
  shows "\<exists>s'. uninstall_irq_handler pic i h s = Some s' \<and> lines_ok pic s' (lines_do (Uninstall i h) L)"
proof -
  note ok = lines_okD [OF assms(2)]
  have i: "i < 16" "i < 18" "h \<noteq> 0" using assms(3) by auto
  obtain m hd where u: "uninstall_irq_handler pic i h s = Some
      (let s3 = enable ((disable s)\<lparr>mem := m, irq_handlers := (irq_handlers s)[i := hd]\<rparr>) in
       if hd = 0 \<and> i \<noteq> 2 then irq_set_mask pic (of_nat i) s3 else s3)"
    "hchain m hd (remove1 h (L i))" "\<And>q. q \<in> nodes L \<Longrightarrow> q \<notin> set (L i) \<Longrightarrow> h_next m q = h_next (mem s) q"
    using uninstall_memory [OF assms(2) i(2,3)] by metis
  define s3 where "s3 = enable ((disable s)\<lparr>mem := m, irq_handlers := (irq_handlers s)[i := hd]\<rparr>)"
  define s' where "s' = (if hd = 0 \<and> i \<noteq> 2 then irq_set_mask pic (of_nat i) s3 else s3)"
  define L' where "L' = L(i := remove1 h (L i))"
  have s': "mem s' = m" "irq_handlers s' = (irq_handlers s)[i := hd]" "io s3 = io s"
    by (simp_all add: s'_def s3_def enable_def disable_def)
  have chain: "hchain m ((irq_handlers s)[i := hd] ! j) (L' j)" if "j < 18" for j
  proof (cases "j = i")
    case True then show ?thesis using u(2) i ok(1) by (simp add: L'_def)
  next
    case False
    then have "h_next m q = h_next (mem s) q" if "q \<in> set (L j)" for q
      using that ok(5) [OF \<open>j < 18\<close> i(2)] nodesI [OF \<open>j < 18\<close>, of q L] by (intro u(3)) auto
    then show ?thesis using ok(3) [OF that] False by (simp add: L'_def hchain_cong [of "L j" m "mem s"])
  qed
  have sub: "set (L' j) \<subseteq> set (L j)" for j by (auto simp: L'_def dest: set_remove1_subset [THEN subsetD])
  then have nsub: "nodes L' \<subseteq> nodes L" by (auto simp: nodes_def)
  have "hd = 0 \<longleftrightarrow> L' i = []" using u(2) by (cases "L' i") (auto simp: L'_def)
  have "L' i \<noteq> [] \<Longrightarrow> L i \<noteq> []" by (auto simp: L'_def)
  moreover have "masked pic s3 j \<longleftrightarrow> masked pic s j" for j by (simp add: masked_def s')
  ultimately have "pic_ready (io s') \<and> (\<forall>j<16. masked pic s' j \<longleftrightarrow> L' j = [] \<and> j \<noteq> 2)"
  proof (cases "hd = 0 \<and> i \<noteq> 2")
    case True
    then have "s' = irq_set_mask pic (of_nat i) s3" by (simp add: s'_def)
    then show ?thesis
      using True mask_ops_masked [OF assms(1) _ i(1), of s3] ok(2,7) \<open>hd = 0 \<longleftrightarrow> L' i = []\<close> s'(3)
        \<open>\<And>j. masked pic s3 j \<longleftrightarrow> masked pic s j\<close> by (auto simp: L'_def)
  next
    case False
    then have "s' = s3" by (auto simp: s'_def)
    then show ?thesis
      using False ok(2,7) i \<open>hd = 0 \<longleftrightarrow> L' i = []\<close> s'(3) \<open>L' i \<noteq> [] \<Longrightarrow> L i \<noteq> []\<close>
        \<open>\<And>j. masked pic s3 j \<longleftrightarrow> masked pic s j\<close> by (auto simp: L'_def)
  qed
  note mask = this
  have dist: "distinct (L' j)" if "j < 18" for j using ok(4) [OF that] by (auto simp: L'_def)
  have disj: "set (L' a) \<inter> set (L' b) = {}" if "a < 18" "b < 18" "a \<noteq> b" for a b
    using ok(5) [OF that] sub by blast
  have "lines_ok pic s' L'"
    unfolding lines_ok_def using mask chain dist disj ok(1) separate_subset [OF ok(6) nsub]
    by (simp add: s')
  then show ?thesis using u(1) by (simp add: s3_def [symmetric] s'_def [symmetric] L'_def Let_def)
qed

section \<open>Sequences of installations\<close>

fun irq_run :: "u8 port_read \<Rightarrow> irq_op list \<Rightarrow> 'a irq_scheme \<Rightarrow> 'a irq_scheme option" where
  "irq_run pic [] s = Some s"
| "irq_run pic (x # xs) s = Option.bind (irq_do pic x s) (irq_run pic xs)"

fun ops_ok :: "irq_op list \<Rightarrow> lines \<Rightarrow> bool" where
  "ops_ok [] L = True"
| "ops_ok (x # xs) L = (op_ok x L \<and> ops_ok xs (lines_do x L))"

lemma irq_run_lines:
  "pic_device pic \<Longrightarrow> lines_ok pic s L \<Longrightarrow> ops_ok xs L \<Longrightarrow>
    \<exists>s'. irq_run pic xs s = Some s' \<and> lines_ok pic s' (fold lines_do xs L)"
proof (induction xs arbitrary: s L)
  case (Cons x xs)
  have "\<exists>t. irq_do pic x s = Some t \<and> lines_ok pic t (lines_do x L)"
    using install_lines_ok [OF Cons.prems(1,2)] uninstall_lines_ok [OF Cons.prems(1,2)] Cons.prems(3)
    by (cases x) auto
  then obtain t where t: "irq_do pic x s = Some t" "lines_ok pic t (lines_do x L)" by blast
  with Cons.IH [OF Cons.prems(1) t(2)] Cons.prems(3) show ?case by auto
qed simp

lemma set_irqs_io: "io (set_irqs idt stub s) = io s @ pic_icws @ [OutB 0x21 0xFB, OutB 0xA1 0xFF]"
  by (simp add: set_irqs_def pic_icws_def Let_def)

lemma set_irqs_handlers: "irq_handlers (set_irqs idt stub s) = irq_handlers s"
  by (simp add: set_irqs_def Let_def)

lemma byte_bits_ff: "j < 8 \<Longrightarrow> bit (0xFF :: u8) j" "j < 8 \<Longrightarrow> bit (0xFB :: u8) j \<longleftrightarrow> j \<noteq> 2"
proof -
  have "\<forall>j \<in> set [0..<8]. bit (0xFF :: u8) j \<and> (bit (0xFB :: u8) j \<longleftrightarrow> j \<noteq> 2)" by code_simp
  then show "j < 8 \<Longrightarrow> bit (0xFF :: u8) j" "j < 8 \<Longrightarrow> bit (0xFB :: u8) j \<longleftrightarrow> j \<noteq> 2" by auto
qed

lemma set_irqs_lines_ok:
  assumes "pic_device pic" "irq_handlers s = replicate 18 0"
  shows "lines_ok pic (set_irqs idt stub s) (\<lambda>_. [])"
proof -
  let ?h = "io s @ pic_icws"
  have r: "pic_ready ?h" unfolding pic_ready_def by (intro exI [of _ "io s"] exI [of _ "[]"]) simp
  then have r': "pic_ready (?h @ [OutB 0x21 0xFB])" by (rule pic_ready_snoc) simp
  have io: "io (set_irqs idt stub s) = (?h @ [OutB 0x21 0xFB]) @ [OutB 0xA1 0xFF]" by (simp add: set_irqs_io)
  have "pic (io (set_irqs idt stub s)) 0x21 = 0xFB" "pic (io (set_irqs idt stub s)) 0xA1 = 0xFF"
    unfolding io using assms(1) r r' unfolding pic_device_def by (simp_all del: append_assoc)
  then have "masked pic (set_irqs idt stub s) i \<longleftrightarrow> i \<noteq> 2" if "i < 16" for i
    using that byte_bits_ff [of "i mod 8"] by (auto simp: masked_def)
  moreover have "pic_ready (io (set_irqs idt stub s))" unfolding io by (rule pic_ready_snoc [OF r']) simp
  ultimately show ?thesis by (simp add: lines_ok_def set_irqs_handlers assms(2) nodes_def separate_def)
qed


section \<open>Dispatch\<close>

text \<open>Running the handlers of a list in order.\<close>

primrec run_handlers :: "'a code \<Rightarrow> regs \<Rightarrow> addr list \<Rightarrow> 'a irq_scheme \<Rightarrow> 'a irq_scheme option" where
  "run_handlers call r [] s = Some s"
| "run_handlers call r (q # qs) s = Option.bind (call (h_handler (mem s) q) r (h_data (mem s) q) s) (run_handlers call r qs)"

lemma irq_chain_runs:
  assumes "hchain (mem s) p ps"
    and "\<And>f d t t' q. q \<in> set ps \<Longrightarrow> call f r d t = Some t' \<Longrightarrow> h_next (mem t') q = h_next (mem t) q"
  shows "irq_chain call r p s = run_handlers call r ps s"
  using assms
proof (induction ps arbitrary: p s)
  case Nil then show ?case by (simp add: irq_chain.simps [of call r 0])
next
  case (Cons q ps)
  show ?case
  proof (cases "call (h_handler (mem s) q) r (h_data (mem s) q) s")
    case None
    then show ?thesis using Cons.prems(1) by (auto simp: irq_chain.simps [of call r q])
  next
    case (Some t)
    have keep: "h_next (mem t) n = h_next (mem s) n" if "n \<in> set (q # ps)" for n using that Cons.prems(2) [OF _ Some] by blast
    then have "hchain (mem t) (h_next (mem t) q) ps" using Cons.prems(1) by (simp add: hchain_cong [of ps "mem t" "mem s"])
    moreover have "h_next (mem t') n = h_next (mem u) n" if "n \<in> set ps" "call f r d u = Some t'" for n f d u t'
      using Cons.prems(2) [OF _ that(2)] that(1) by simp
    ultimately have "irq_chain call r (h_next (mem t) q) t = run_handlers call r ps t" using Cons.IH by blast
    then show ?thesis using Cons.prems(1) Some by (auto simp: irq_chain.simps [of call r q])
  qed
qed

text \<open>C31: For a hardware interrupt whose handlers do not change the links of their list, \<^verbatim>\<open>irq_handler\<close> calls each
  installed handler once, in list order, and then acknowledges the interrupt: at the slave
  controller too when it came from there, at the master always. It returns if the handlers do.\<close>

theorem irq_handler_dispatch:
  assumes "32 \<le> int_no r" "unat (int_no r) < 32 + length (irq_handlers s)"
    and "hchain (mem s) (irq_handlers s ! (unat (int_no r) - 32)) ps"
    and "\<forall>f d t t'. call f r d t = Some t' \<longrightarrow> (\<forall>q \<in> set ps. h_next (mem t') q = h_next (mem t) q)"
  shows "irq_handler call msgs cr2 frame r s = map_option (\<lambda>t.
    Returned (t\<lparr>io := io t @ (if 40 \<le> int_no r then [OutB 0xA0 0x20] else []) @ [OutB 0x20 0x20]\<rparr>)) (run_handlers call r ps s)"
proof -
  have u: "unat (int_no r - 32) = unat (int_no r) - 32" using assms(1) by (subst unat_sub) simp_all
  have n: "int_no r \<noteq> 14" "\<not> int_no r < 32" using assms(1) by auto
  have "irq_chain call r (irq_handlers s ! (unat (int_no r) - 32)) s = run_handlers call r ps s"
    using irq_chain_runs [OF assms(3)] assms(4) by blast
  moreover have "unat (int_no r) - 32 < length (irq_handlers s)" using assms(1,2) by (auto simp: word_le_nat_alt)
  moreover have "irq_eoi (int_no r) t = t\<lparr>io := io t @ (if 40 \<le> int_no r then [OutB 0xA0 0x20] else []) @ [OutB 0x20 0x20]\<rparr>" for t :: "'a irq_scheme"
    by (simp add: irq_eoi_def outportb_def)
  ultimately show ?thesis using n by (simp add: irq_handler_def u)
qed

text \<open>A processor exception other than the page fault prints its message and halts.\<close>

theorem irq_exception_halts:
  assumes "int_no r < 32" "int_no r \<noteq> 14" "con_ok s"
    and "cstr (mem s) (msgs (unat (int_no r))) (map of_char (exception_messages ! unat (int_no r)))"
    and "\<forall>k \<le> 40. msgs (unat (int_no r)) + of_nat k \<notin> region video 4000"
  shows "irq_handler call msgs cr2 frame r s = Some (Halted
    (foldl (\<lambda>t b. putch b t) s (map of_char (exception_messages ! unat (int_no r)))))"
proof -
  let ?n = "unat (int_no r)" 
  have n: "?n < 32" using assms(1) by (simp add: word_less_nat_alt)
  have "\<forall>e \<in> set exception_messages. length e \<le> 40" "length exception_messages = 32"
    by (simp_all add: exception_messages_def)
  then have l: "length (exception_messages ! ?n) \<le> 40" using n by auto
  have "puts (msgs ?n) s = Some (foldl (\<lambda>t b. putch b t) s (map of_char (exception_messages ! ?n)))"
    unfolding puts_def using puts_loop_string [of s "msgs ?n" "map of_char (exception_messages ! ?n)" 0] assms(3-5) l
    by simp
  then show ?thesis using assms(1,2) by (simp add: irq_handler_def)
qed

section \<open>The gates\<close>

text \<open>A gate as the processor reads it.\<close>

definition gate_bytes :: "addr \<Rightarrow> u16 \<Rightarrow> u8 \<Rightarrow> u8 list" where
  "gate_bytes func sel flags = [ucast func, ucast (drop_bit 8 func), ucast sel, ucast (drop_bit 8 sel), 0, flags,
     ucast (drop_bit 16 func), ucast (drop_bit 24 func)]"

lemma idt_set_gate_apply:
  "idt_set_gate idt num func sel flags m x =
     (let k = unat (x - (idt + 8 * num)) in if k < 8 then gate_bytes func sel flags ! k else m x)"
proof -
  define e d where "e = idt + 8 * num" and "d = x - (idt + 8 * num)"
  have x: "x = e + d" by (simp add: e_def d_def)
  have f: "ucast (ucast (func AND 0xFFFF) :: u16) = (ucast func :: u8)"
    "ucast (drop_bit 8 (ucast (func AND 0xFFFF) :: u16)) = (ucast (drop_bit 8 func) :: u8)"
    "ucast (ucast (drop_bit 16 func AND 0xFFFF) :: u16) = (ucast (drop_bit 16 func) :: u8)"
    "ucast (drop_bit 8 (ucast (drop_bit 16 func AND 0xFFFF) :: u16)) = (ucast (drop_bit 24 func) :: u8)"
  proof -
    have m: "(0xFFFF :: u32) = mask 16" by (simp add: mask_eq_exp_minus_1)
    show "ucast (ucast (func AND 0xFFFF) :: u16) = (ucast func :: u8)"
      "ucast (drop_bit 8 (ucast (func AND 0xFFFF) :: u16)) = (ucast (drop_bit 8 func) :: u8)"
      "ucast (ucast (drop_bit 16 func AND 0xFFFF) :: u16) = (ucast (drop_bit 16 func) :: u8)"
      "ucast (drop_bit 8 (ucast (drop_bit 16 func AND 0xFFFF) :: u16)) = (ucast (drop_bit 24 func) :: u8)"
      unfolding m by (rule bit_word_eqI, simp add: bit_simps add.commute)+
  qed
  have apply_eq: "idt_set_gate idt num func sel flags m x =
      (if d = 7 then ucast (drop_bit 24 func) else if d = 6 then ucast (drop_bit 16 func)
       else if d = 5 then flags else if d = 4 then 0 else if d = 3 then ucast (drop_bit 8 sel)
       else if d = 2 then ucast sel else if d = 1 then ucast (drop_bit 8 func)
       else if d = 0 then ucast func else m x)"
    unfolding idt_set_gate_def e_def [symmetric] Let_def by (simp add: store16_apply x f add.assoc)
  show ?thesis
  proof (cases "unat d < 8")
    case True
    then have "unat d \<in> {0, 1, 2, 3, 4, 5, 6, 7}" by auto
    then have "d \<in> {0, 1, 2, 3, 4, 5, 6, 7}" by (auto simp: word_unat_eq_iff)
    then show ?thesis unfolding apply_eq d_def [symmetric] by (auto simp: gate_bytes_def Let_def)
  next
    case False
    then show ?thesis unfolding apply_eq d_def [symmetric] by (auto simp: Let_def)
  qed
qed

lemma set_gates_apply:
  assumes "n \<le> 256"
  shows "fold (\<lambda>i. idt_set_gate idt (of_nat i) (stub i) sel flags) [0..<n] m x =
    (let k = unat (x - idt) in if k < 8 * n then gate_bytes (stub (k div 8)) sel flags ! (k mod 8) else m x)"
  using assms
proof (induction n)
  case (Suc n)
  let ?k = "unat (x - idt)"
  have un: "unat (8 * of_nat n :: addr) = 8 * n" using Suc.prems by (simp add: unat_word_ariths unat_of_nat)
  have in8: "unat (x - (idt + 8 * of_nat n)) < 8 \<longleftrightarrow> 8 * n \<le> ?k \<and> ?k < 8 * n + 8"
    using region_shift [of "8 * of_nat n" 8 x idt] Suc.prems by (simp add: un)
  have off: "unat (x - (idt + 8 * of_nat n)) = ?k - 8 * n" if "8 * n \<le> ?k"
    using unat_diff_shift [of "8 * of_nat n" x idt] that by (simp add: un)
  have div: "?k div 8 = n \<and> ?k mod 8 = ?k - 8 * n" if "8 * n \<le> ?k" "?k < 8 * n + 8"
  proof -
    have "?k div 8 = n" using that by (intro div_nat_eqI) auto
    then show ?thesis using minus_mult_div_eq_mod [of ?k 8] by simp
  qed
  show ?case using Suc.IH Suc.prems in8 off div
    by (auto simp: idt_set_gate_apply Let_def)
qed simp

lemma set_irqs_memory:
  "mem (set_irqs idt stub s) x =
     (let k = unat (x - idt) in
      if k < 392 then gate_bytes (stub (k div 8)) 0x08 0x8E ! (k mod 8) else if k < 2048 then 0 else mem s x)"
proof -
  have "mem (set_irqs idt stub s) = fold (\<lambda>i. idt_set_gate idt (of_nat i) (stub i) 0x08 0x8E) [0..<49] (memset idt 0 2048 (mem s))"
    by (simp add: set_irqs_def Let_def del: upt_Suc)
  then show ?thesis using set_gates_apply [of 49 idt stub "0x08" "0x8E" "memset idt 0 2048 (mem s)" x]
    by (simp add: memset_apply Let_def)
qed

text \<open>\<^verbatim>\<open>set_irqs\<close> leaves in the descriptor table one interrupt gate per stub (selector 0x08, flags 0x8E) for the
  vectors 0 to 48, zero for the others, and changes no other memory; and it programs the controllers
  with their initialisation sequence and the masks 0xFB and 0xFF.\<close>

theorem set_irqs_gates:
  "mem (set_irqs idt stub s) x =
     (let k = unat (x - idt) in
      if k < 392 then gate_bytes (stub (k div 8)) 0x08 0x8E ! (k mod 8) else if k < 2048 then 0 else mem s x)
   \<and> io (set_irqs idt stub s) = io s @ pic_icws @ [OutB 0x21 0xFB, OutB 0xA1 0xFF]"
  by (simp only: set_irqs_memory set_irqs_io)

section \<open>Concrete instances\<close>

definition boot_irq :: irq where
  "boot_irq = \<lparr>mem = (\<lambda>_. 0), io = [], csr_x = 0, csr_y = 0, attrib = 7, high_mem = 0,
     irq_handlers = replicate 18 0, iflag = False\<rparr>"

definition boot_regs :: "u32 \<Rightarrow> regs" where
  "boot_regs n = \<lparr>gs = 0, fs = 0, es = 0, ds = 0, edi = 0, esi = 0, ebp = 0, esp = 0, ebx = 0, edx = 0, ecx = 0,
     eax = 0, int_no = n, err_code = 0, eip = 0, cs = 8, eflags = 0, useresp = 0, ss = 0\<rparr>"

text \<open>Controllers that read back the last byte written to a port.\<close>

definition last_write :: "u8 port_read" where
  "last_write h p = foldl (\<lambda>v e. case e of OutB q b \<Rightarrow> if q = p then b else v | _ \<Rightarrow> v) 0 h"

lemma last_write_pic: "pic_device last_write"
  by (auto simp: pic_device_def last_write_def split: io_event.split)


theorem irq_handler_dispatch_witness:
  "\<exists>s'. irq_handler (\<lambda>f r d t. Some (outportb 0x80 (ucast d) t)) (\<lambda>_. 0) 0 1 (boot_regs 33) (boot_irq\<lparr>irq_handlers := [0, 0x1000, 0]\<rparr>)
      = Some (Returned s') \<and> io s' = [OutB 0x80 0, OutB 0x20 0x20]"
proof -
  let ?s = "boot_irq\<lparr>irq_handlers := [0, 0x1000, 0]\<rparr>"
  have "hchain (mem ?s) (irq_handlers ?s ! (unat (int_no (boot_regs 33)) - 32)) [0x1000]"
    by (simp add: boot_irq_def boot_regs_def h_next_def load32_def)
  from irq_handler_dispatch [OF _ _ this, of "\<lambda>f r d t. Some (outportb 0x80 (ucast d) t)" "\<lambda>_. 0" 0 1]
  show ?thesis by (auto simp: boot_regs_def run_handlers_def h_data_def load32_def boot_irq_def)
qed

theorem irq_exception_halts_witness:
  "let s = boot_irq\<lparr>mem := (\<lambda>_. 0)(0x5000 := 68, 0x5001 := 101, 0x5002 := 98, 0x5003 := 117, 0x5004 := 103)\<rparr> in
   irq_handler (\<lambda>f r d t. Some t) (\<lambda>_. 0x5000) 0 1 (boot_regs 1) s = Some (Halted (foldl (\<lambda>t b. putch b t) s [68, 101, 98, 117, 103]))"
proof -
  let ?s = "boot_irq\<lparr>mem := (\<lambda>_. 0)(0x5000 := 68, 0x5001 := 101, 0x5002 := 98, 0x5003 := 117, 0x5004 := 103)\<rparr>"
  have msg: "map of_char (exception_messages ! 1) = [68, 101, 98, 117, 103 :: u8]" by (simp add: exception_messages_def)
  have n: "unat (int_no (boot_regs 1)) = 1" by (simp add: boot_regs_def)
  have "cstr (mem ?s) 0x5000 [68, 101, 98, 117, 103]" by (auto simp: cstr_def less_Suc_eq)
  moreover have "0x5000 + of_nat k \<notin> region video 4000" if "k \<le> 40" for k
  proof -
    have "unat (0x5000 + of_nat k :: addr) = 0x5000 + k" using that by (simp add: unat_word_ariths unat_of_nat)
    then show ?thesis using region_absoluteD [of "0x5000 + of_nat k" video 4000] that by (auto simp: video_def)
  qed
  moreover have "con_ok ?s" by (simp add: con_ok_def boot_irq_def)
  ultimately show ?thesis
    using irq_exception_halts [of "boot_regs 1" ?s "\<lambda>_. 0x5000" "\<lambda>f r d t. Some t" 0 1]
    unfolding n msg Let_def by (simp add: boot_regs_def del: in_region)
qed

end
