(* ===== verification/Frog_Pit.thy ===== *)
theory Frog_Pit
  imports Frog_Irq
begin

text \<open>
  pit.c and lib/sleep.c: the timer interrupt, its tick counter and the busy wait on it.
\<close>

record pit = irq +
  pit_counter :: u64

definition pit_handler :: "'a pit_scheme \<Rightarrow> 'a pit_scheme" where
  "pit_handler s = s\<lparr>pit_counter := pit_counter s + 1\<rparr>"

text \<open>\<^verbatim>\<open>handler_code\<close> is the address of \<^verbatim>\<open>pit_handler\<close>. The structure of 12 bytes comes from the heap.\<close>

definition set_pit :: "u8 port_read \<Rightarrow> addr \<Rightarrow> 'a pit_scheme \<Rightarrow> 'a pit_scheme option" where
  "set_pit pic handler_code s =
     Option.bind (alloc 12 1 s) (\<lambda>(h, s1).
       if h = 0 then Some s1
       else let s2 = s1\<lparr>mem := store32 (store32 (store32 (mem s1) h handler_code) (h + 8) 0) (h + 4) 0\<rparr>
            in map_option (\<lambda>s3. enable (outportb 0x40 0x2E (outportb 0x40 0x9C (outportb 0x42 0x34 (disable s3)))))
                 (install_irq_handler pic 0 h s2))"

text \<open>\<^verbatim>\<open>usleep\<close>: each \<^verbatim>\<open>hlt\<close> ends with some interrupt; what the counter reads then is an input, one value per
  \<^verbatim>\<open>hlt\<close>. The result is the unused rest of the readings; there is none if they run out.\<close>

fun usleep_loop :: "u64 \<Rightarrow> u64 \<Rightarrow> u64 list \<Rightarrow> u64 list option" where
  "usleep_loop rem oldcounter readings =
     (if 0 <s rem then
        case readings of [] \<Rightarrow> None
        | counter # rest \<Rightarrow> usleep_loop (rem - (counter - oldcounter) * 10) counter rest
      else Some readings)"

definition usleep :: "u32 \<Rightarrow> u64 \<Rightarrow> u64 list \<Rightarrow> u64 list option" where
  "usleep useconds pit_count readings = usleep_loop (ucast useconds) pit_count readings"

declare usleep_loop.simps [simp del]

section \<open>Properties\<close>

lemma sint_small64: "- (2 ^ 63) \<le> r \<Longrightarrow> r < 2 ^ 63 \<Longrightarrow> sint (word_of_int r :: u64) = r"
  by (simp add: sint_sbintrunc' signed_take_bit_int_eq_self)

text \<open>The remaining time is positive as long as a tenth of it has not passed in ticks.\<close>

lemma remaining_positive:
  fixes d :: u64 and us :: u32
  assumes "unat d < 2 ^ 59"
  shows "0 <s ucast us - d * 10 \<longleftrightarrow> 10 * unat d < unat us"
proof -
  define r where "r = int (unat us) - 10 * int (unat d)"
  have "int (unat us) < int (2 ^ 32)" "int (unat d) < int (2 ^ 59)" using unat_lt32 [of us] assms by (simp_all only: of_nat_less_iff)
  then have "int (unat us) < 2 ^ 32" "int (unat d) < 2 ^ 59" by (simp_all only: of_nat_power of_nat_numeral)
  moreover have "- (2 ^ 63) \<le> a - 10 * b \<and> a - 10 * b < 2 ^ 63" if "a < 2 ^ 32" "b < 2 ^ 59" "0 \<le> a" "0 \<le> b" for a b :: int
    using that by simp
  ultimately have "sint (word_of_int r :: u64) = r" unfolding r_def by (simp only: sint_small64 of_nat_0_le_iff)
  moreover have "ucast us - d * 10 = (word_of_int r :: u64)" by (simp add: r_def)
  ultimately have "0 <s ucast us - d * 10 \<longleftrightarrow> 0 < r" by (simp only: word_sless_alt sint_0)
  then show ?thesis unfolding r_def by linarith
qed

lemma usleep_loop_readings:
  fixes us :: u32
  assumes "\<forall>r \<in> set rs. unat (r - c0) < 2 ^ 59" "unat (c - c0) < 2 ^ 59"
  shows "usleep_loop (ucast us - (c - c0) * 10) c rs =
    (if 10 * unat (c - c0) < unat us then case dropWhile (\<lambda>r. 10 * unat (r - c0) < unat us) rs of [] \<Rightarrow> None | r # rest \<Rightarrow> Some rest
     else Some rs)"
  using assms
proof (induction rs arbitrary: c)
  case Nil
  then show ?case using remaining_positive [of "c - c0" us] by (subst usleep_loop.simps) simp
next
  case (Cons r rs)
  have "ucast us - (c - c0) * 10 - (r - c) * 10 = ucast us - (r - c0) * 10" by (simp add: algebra_simps)
  then have "usleep_loop (ucast us - (c - c0) * 10) c (r # rs) = (if 10 * unat (c - c0) < unat us
      then usleep_loop (ucast us - (r - c0) * 10) r rs else Some (r # rs))"
    using remaining_positive [OF Cons.prems(2), of us] by (subst usleep_loop.simps) (simp only: list.case)
  moreover have "usleep_loop (ucast us - (r - c0) * 10) r rs = (if 10 * unat (r - c0) < unat us
      then case dropWhile (\<lambda>r. 10 * unat (r - c0) < unat us) rs of [] \<Rightarrow> None | r # rest \<Rightarrow> Some rest else Some rs)"
    using Cons.prems by (intro Cons.IH) simp_all
  ultimately show ?case by simp
qed

text \<open>C32: Whatever the tick counter reads after each \<^verbatim>\<open>hlt\<close> (interrupts other than the timer's leave it, several ticks may have passed),
  \<^verbatim>\<open>usleep\<close> of \<open>n\<close> microseconds returns at the first reading at which at least \<open>n / 10\<close> ticks have passed since the call,
  and does not return before or without such a reading; the counter may wrap around meanwhile (fewer than \<open>2 ^ 59\<close> ticks after the call).\<close>

theorem usleep_waits_ticks:
  assumes "\<forall>r \<in> set readings. unat (r - c) < 2 ^ 59"
  shows "usleep us c readings =
    (if us = 0 then Some readings
     else case dropWhile (\<lambda>r. 10 * unat (r - c) < unat us) readings of [] \<Rightarrow> None | r # rest \<Rightarrow> Some rest)"
  using usleep_loop_readings [of readings c c us] assms by (simp add: usleep_def unat_gt_0)

section \<open>Concrete instances\<close>

theorem usleep_waits_ticks_witness:
  "usleep 25 (- 1) [- 1, 0, 0, 2, 3] = Some [3] \<and> usleep 25 100 [100, 101, 102] = None"
proof -
  have "\<forall>r \<in> set [- 1, 0, 0, 2, 3]. unat (r - (- 1) :: u64) < 2 ^ 59" "\<forall>r \<in> set [100, 101, 102]. unat (r - 100 :: u64) < 2 ^ 59" by simp_all
  from this [THEN usleep_waits_ticks, of 25] show ?thesis by simp
qed

end
