(* ===== verification/Frog_Handlers.thy ===== *)
theory Frog_Handlers
  imports Frog_Pit
begin

text \<open>
  How the drivers hook into the interrupt lines: \<^verbatim>\<open>init_kbd\<close> of keyboard.c and, with \<^verbatim>\<open>set_pit\<close> of
  pit.c, the installation of a handler structure that is taken from the heap.
\<close>

text \<open>\<open>handler_code\<close> is the address of \<^verbatim>\<open>kbd_handler\<close>.\<close>

definition init_kbd :: "u8 port_read \<Rightarrow> addr \<Rightarrow> 'a irq_scheme \<Rightarrow> 'a irq_scheme option" where
  "init_kbd pic handler_code s =
     Option.bind (alloc 12 1 s) (\<lambda>(h, s1).
       if h \<noteq> 0 then
         install_irq_handler pic 1 h
           (s1\<lparr>mem := store32 (store32 (store32 (mem s1) (h + 4) 0) h handler_code) (h + 8) 0\<rparr>)
       else Some s1)"

section \<open>Lines, heap and console in order\<close>

lemma lines_ok_cong:
  assumes "pic_device pic" "lines_ok pic s L" "irq_handlers s' = irq_handlers s" "io s' = io s @ evs" "list_all pic_apart evs"
    "\<And>n. n \<in> nodes L \<Longrightarrow> h_next (mem s') n = h_next (mem s) n"
  shows "lines_ok pic s' L"
proof -
  have "hchain (mem s') p (L i) \<longleftrightarrow> hchain (mem s) p (L i)" if "i < 18" for i p
    using assms(6) nodesI [OF that] by (intro hchain_cong) blast
  moreover have "pic_ready (io s')" "pic (io s') 0x21 = pic (io s) 0x21" "pic (io s') 0xA1 = pic (io s) 0xA1"
    using pic_apart_list [OF assms(1) lines_okD(2) [OF assms(2)] assms(5)] assms(4) by simp_all
  moreover from this have "masked pic s' i \<longleftrightarrow> masked pic s i" for i by (simp add: masked_def)
  ultimately show ?thesis using assms(2,3) by (simp add: lines_ok_def)
qed

lemma lines_ok_iflag: "lines_ok pic s L \<Longrightarrow> lines_ok pic (enable s) L" "lines_ok pic s L \<Longrightarrow> lines_ok pic (disable s) L"
  by (simp_all add: lines_ok_def masked_def)

lemma alloc_keeps: "heap_ok s \<Longrightarrow> alloc n 1 s = Some (a, s') \<Longrightarrow> io s' = io s \<and> irq_handlers s' = irq_handlers s"
  by (auto simp: alloc_one_block alloc_front_def Let_def split: if_splits)


text \<open>The handler structures lie outside the free memory and the video memory.\<close>

definition irq_ready :: "u8 port_read \<Rightarrow> lines \<Rightarrow> 'a irq_scheme \<Rightarrow> bool" where
  "irq_ready pic L s \<longleftrightarrow> lines_ok pic s L \<and> heap_ok s \<and> con_ok s
     \<and> (\<forall>n \<in> nodes L. region n 12 \<inter> heap_free s = {} \<and> region n 12 \<inter> region video 4000 = {})"

lemma next_field_sub: "next_field n \<subseteq> region n 12"
  by (rule region_sub) simp

lemma handler_fields_cong:
  "(\<And>x. x \<in> region n 12 \<Longrightarrow> m' x = m x) \<Longrightarrow> h_handler m' n = h_handler m n \<and> h_data m' n = h_data m n \<and> h_next m' n = h_next m n"
proof -
  assume m: "\<And>x. x \<in> region n 12 \<Longrightarrow> m' x = m x"
  have "load32 m' (n + k) = load32 m (n + k)" if "unat k \<le> 8" for k
  proof (rule load32_cong)
    fix x assume "x \<in> region (n + k) 4"
    then show "m' x = m x" using that region_sub [of k 4 12 n] by (intro m) auto
  qed
  from this [of 0] this [of 4] this [of 8] show ?thesis by (simp add: h_handler_def h_data_def h_next_def)
qed

text \<open>What keeps the lines in order: printing and port output away from the controllers, and writes elsewhere.\<close>

lemma irq_ready_cong:
  assumes "pic_device pic" "irq_ready pic L s" "irq_handlers s' = irq_handlers s" "io s' = io s @ evs" "list_all pic_apart evs" "high_mem s' = high_mem s" "con_ok s'"
    and "\<And>x. x \<in> heap_free s \<or> (\<exists>n \<in> nodes L. x \<in> region n 12) \<Longrightarrow> mem s' x = mem s x"
  shows "irq_ready pic L s'"
proof -
  have lines: "lines_ok pic s L" and heap: "heap_ok s" using assms(2) by (simp_all add: irq_ready_def)
  have "lines_ok pic s' L"
  proof (rule lines_ok_cong [OF assms(1) lines assms(3-5)])
    fix n assume "n \<in> nodes L"
    then show "h_next (mem s') n = h_next (mem s) n" using handler_fields_cong [of n "mem s'" "mem s"] assms(8) by blast
  qed
  moreover have "heap_ok s'" using assms(6,8) by (intro heap_ok_cong [OF heap]) blast+
  ultimately show ?thesis using assms(2,6,7) by (simp add: irq_ready_def heap_free_def)
qed


section \<open>Installing a handler\<close>

lemma nodes_insert: "i < 18 \<Longrightarrow> nodes (L(i := h # L i)) = insert h (nodes L)"
  by (auto simp: nodes_def split: if_splits)

lemma irq_ready_install:
  assumes "pic_device pic" "irq_ready pic L s" "i < 18" "h \<noteq> 0" "region h 12 \<inter> heap_free s = {}" "region h 12 \<inter> region video 4000 = {}"
    and "\<And>n. n \<in> nodes L \<Longrightarrow> region n 12 \<inter> region h 12 = {}"
  shows "\<exists>s' h'. install_irq_handler pic i h s = Some s' \<and> irq_ready pic (L(i := h # L i)) s'
    \<and> s' = s\<lparr>mem := set_h_next h (irq_handlers s ! i) (mem s), io := h', irq_handlers := (irq_handlers s)[i := h], iflag := True\<rparr>"
proof -
  have lines: "lines_ok pic s L" and heap: "heap_ok s" using assms(2) by (simp_all add: irq_ready_def)
  have "h \<in> region h 12" by simp
  then have "h \<notin> nodes L" using assms(7) [of h] by blast
  moreover have "separate (insert h (nodes L))"
    unfolding separate_def
  proof (intro ballI impI)
    fix p q assume pq: "p \<in> insert h (nodes L)" "q \<in> insert h (nodes L)" "p \<noteq> q"
    show "next_field p \<inter> next_field q = {}"
    proof (cases "p \<in> nodes L \<and> q \<in> nodes L")
      case True
      then show ?thesis using lines_okD(6) [OF lines] pq(3) by (auto simp: separate_def simp del: in_region)
    next
      case False
      then have "region p 12 \<inter> region q 12 = {}" using pq assms(7) by blast
      then show ?thesis using next_field_sub [of p] next_field_sub [of q] by blast
    qed
  qed
  ultimately have "op_ok (Install i h) L" using assms(3,4) by simp
  then obtain s' where s': "install_irq_handler pic i h s = Some s'" "lines_ok pic s' (L(i := h # L i))"
    using install_lines_ok [OF assms(1) lines] by fastforce
  obtain h' where eq: "s' = s\<lparr>mem := set_h_next h (irq_handlers s ! i) (mem s), io := h',
      irq_handlers := (irq_handlers s)[i := h], iflag := True\<rparr>" using install_frame [OF s'(1)] by blast
  have "heap_ok s'"
  proof (rule heap_ok_cong [OF heap])
    fix x assume "x \<in> heap_free s"
    then have "x \<notin> next_field h" using assms(5) next_field_sub [of h] by blast
    then show "mem s' x = mem s x" by (simp add: eq set_h_next_def del: in_region)
  qed (simp add: eq)
  moreover have "con_ok s'" using assms(2) by (simp add: eq irq_ready_def con_ok_def)
  moreover have "heap_free s' = heap_free s" by (simp add: eq heap_free_def)
  ultimately have "irq_ready pic (L(i := h # L i)) s'"
    using s'(2) assms(2,5,6) by (simp add: irq_ready_def nodes_insert [OF assms(3)])
  then show ?thesis using s'(1) eq by blast
qed

text \<open>A structure of 12 bytes from the heap, written by its owner.\<close>

lemma handler_block:
  assumes "pic_device pic" "irq_ready pic L s" "unat (high_mem s) + 16 < 0xC0C00000"
  shows "\<exists>s1. alloc 12 1 s = Some (high_mem s, s1) \<and> s1 = s\<lparr>mem := mem s1, high_mem := high_mem s + 16\<rparr> \<and> high_mem s \<noteq> 0
    \<and> region (high_mem s) 12 \<subseteq> heap_free s - heap_free s1 \<and> region (high_mem s) 12 \<inter> region video 4000 = {}
    \<and> (\<forall>m'. (\<forall>x. x \<notin> region (high_mem s) 12 \<longrightarrow> m' x = mem s1 x) \<longrightarrow>
        irq_ready pic L (s1\<lparr>mem := m'\<rparr>) \<and> (\<forall>x. x \<notin> heap_free s \<longrightarrow> m' x = mem s x))"
proof -
  let ?h = "high_mem s"
  have heap: "heap_ok s" and out: "\<And>n. n \<in> nodes L \<Longrightarrow> region n 12 \<inter> heap_free s = {}" using assms(2) by (auto simp: irq_ready_def)
  have "16 < hdr_size (mem s) ?h" using heap assms(3) by (auto simp: heap_ok_def word_less_nat_alt)
  moreover have "round_up 12 16 = 16" by (simp add: round_up_def)
  ultimately obtain s1 where al: "alloc 12 1 s = Some (?h, s1)" and eq: "s1 = s\<lparr>mem := mem s1, high_mem := ?h + 16\<rparr>"
    by (simp add: alloc_one_block [OF heap] alloc_front_def Let_def)
  have h0: "?h \<noteq> 0" using heap by (auto simp: heap_ok_def)
  have lim: "unat ?h \<ge> 0xC0100000" using heap by (simp add: heap_ok_def word_le_nat_alt)
  note a = alloc_align1 [OF heap _ al]
  have blk: "region ?h 12 \<subseteq> heap_free s - heap_free s1" using a(3) h0 by auto
  have video: "region ?h 12 \<inter> region video 4000 = {}"
    using lim assms(3) by (subst Int_commute, intro region_disjoint_abs) (simp_all add: video_def)
  have "irq_ready pic L (s1\<lparr>mem := m'\<rparr>) \<and> (\<forall>x. x \<notin> heap_free s \<longrightarrow> m' x = mem s x)"
    if m': "\<forall>x. x \<notin> region ?h 12 \<longrightarrow> m' x = mem s1 x" for m'
  proof -
    have same: "m' x = mem s x" if "x \<notin> heap_free s" for x
    proof -
      have "x \<notin> region ?h 12" using blk that by blast
      then show ?thesis using m' a(4) [OF _ that] by simp
    qed
    have "heap_ok (s1\<lparr>mem := m'\<rparr>)"
    proof (rule heap_ok_cong [of s1])
      show "heap_ok s1" using a(1) by simp
      show "mem (s1\<lparr>mem := m'\<rparr>) x = mem s1 x" if "x \<in> heap_free s1" for x
      proof -
        have "x \<notin> region ?h 12" using blk that by blast
        then show ?thesis using m' by simp
      qed
    qed simp
    moreover have "lines_ok pic (s1\<lparr>mem := m'\<rparr>) L"
    proof (rule lines_ok_cong [OF assms(1), of s L _ "[]"])
      show "lines_ok pic s L" using assms(2) by (simp add: irq_ready_def)
      show "irq_handlers (s1\<lparr>mem := m'\<rparr>) = irq_handlers s" "io (s1\<lparr>mem := m'\<rparr>) = io s @ []" by (subst eq, simp)+
      fix n assume "n \<in> nodes L"
      then show "h_next (mem (s1\<lparr>mem := m'\<rparr>)) n = h_next (mem s) n"
        using handler_fields_cong [of n m' "mem s"] same out [of n] by fastforce
    qed simp
    moreover have "con_ok (s1\<lparr>mem := m'\<rparr>)" using assms(2) by (subst eq) (simp add: irq_ready_def con_ok_def)
    moreover have "heap_free (s1\<lparr>mem := m'\<rparr>) \<subseteq> heap_free s" using a(2) by (simp add: heap_free_def)
    ultimately show ?thesis using same assms(2) by (auto simp: irq_ready_def simp del: in_region)
  qed
  then show ?thesis using al eq h0 blk video by blast
qed

lemma install_block:
  assumes "pic_device pic" "irq_ready pic L s" "unat (high_mem s) + 16 < 0xC0C00000" "i < 18"
  shows "\<exists>s1. alloc 12 1 s = Some (high_mem s, s1) \<and> high_mem s \<noteq> 0
    \<and> (\<forall>m'. (\<forall>x. x \<notin> region (high_mem s) 12 \<longrightarrow> m' x = mem s1 x) \<longrightarrow>
        (\<exists>s' h'. install_irq_handler pic i (high_mem s) (s1\<lparr>mem := m'\<rparr>) = Some s' \<and> irq_ready pic (L(i := high_mem s # L i)) s'
          \<and> h_handler (mem s') (high_mem s) = h_handler m' (high_mem s) \<and> h_data (mem s') (high_mem s) = h_data m' (high_mem s)
          \<and> (\<forall>x. x \<notin> heap_free s \<longrightarrow> mem s' x = mem s x)
          \<and> s' = s\<lparr>mem := mem s', io := h', high_mem := high_mem s + 16, irq_handlers := (irq_handlers s)[i := high_mem s], iflag := True\<rparr>))"
proof -
  let ?h = "high_mem s"
  obtain s1 where s1: "alloc 12 1 s = Some (?h, s1)" "s1 = s\<lparr>mem := mem s1, high_mem := ?h + 16\<rparr>" "?h \<noteq> 0"
    "region ?h 12 \<subseteq> heap_free s - heap_free s1" "region ?h 12 \<inter> region video 4000 = {}"
    and wr: "\<And>m'. (\<forall>x. x \<notin> region ?h 12 \<longrightarrow> m' x = mem s1 x) \<Longrightarrow>
        irq_ready pic L (s1\<lparr>mem := m'\<rparr>) \<and> (\<forall>x. x \<notin> heap_free s \<longrightarrow> m' x = mem s x)"
    using handler_block [OF assms(1-3)] by blast
  have "\<exists>s' h'. install_irq_handler pic i ?h (s1\<lparr>mem := m'\<rparr>) = Some s' \<and> irq_ready pic (L(i := ?h # L i)) s'
      \<and> h_handler (mem s') ?h = h_handler m' ?h \<and> h_data (mem s') ?h = h_data m' ?h \<and> (\<forall>x. x \<notin> heap_free s \<longrightarrow> mem s' x = mem s x)
      \<and> s' = s\<lparr>mem := mem s', io := h', high_mem := ?h + 16, irq_handlers := (irq_handlers s)[i := ?h], iflag := True\<rparr>"
    if m': "\<forall>x. x \<notin> region ?h 12 \<longrightarrow> m' x = mem s1 x" for m'
  proof -
    let ?s = "s1\<lparr>mem := m'\<rparr>"
    have "region ?h 12 \<inter> heap_free ?s = {}" using s1(4) by (auto simp: heap_free_def simp del: in_region)
    moreover have "region n 12 \<inter> region ?h 12 = {}" if "n \<in> nodes L" for n
      using that assms(2) s1(4) unfolding irq_ready_def by blast
    ultimately obtain s' h' where s': "install_irq_handler pic i ?h ?s = Some s'" "irq_ready pic (L(i := ?h # L i)) s'"
      "s' = ?s\<lparr>mem := set_h_next ?h (irq_handlers ?s ! i) (mem ?s), io := h', irq_handlers := (irq_handlers ?s)[i := ?h], iflag := True\<rparr>"
      using irq_ready_install [OF assms(1) conjunct1 [OF wr [OF m']] assms(4) s1(3) _ s1(5)] by blast
    have m: "mem s' x = m' x" if "x \<notin> next_field ?h" for x
      using that by (subst s'(3)) (simp add: set_h_next_def del: in_region)
    have "h_handler (mem s') ?h = h_handler m' ?h" "h_data (mem s') ?h = h_data m' ?h"
    proof -
      have "load32 (mem s') (?h + k) = load32 m' (?h + k)" if "unat k \<le> 4" for k
      proof (rule load32_cong)
        fix x assume "x \<in> region (?h + k) 4"
        then have "x \<notin> next_field ?h" using that region_shift [of k 4 x ?h] region_shift [of 8 4 x ?h] by auto
        then show "mem s' x = m' x" by (rule m)
      qed
      from this [of 0] this [of 4] show "h_handler (mem s') ?h = h_handler m' ?h" "h_data (mem s') ?h = h_data m' ?h"
        by (simp_all add: h_handler_def h_data_def)
    qed
    moreover have "mem s' x = mem s x" if "x \<notin> heap_free s" for x
    proof -
      have "x \<notin> next_field ?h" using that s1(4) next_field_sub [of ?h] by blast
      then show ?thesis using m wr [OF m'] that by simp
    qed
    moreover have "s' = s\<lparr>mem := mem s', io := h', high_mem := ?h + 16, irq_handlers := (irq_handlers s)[i := ?h], iflag := True\<rparr>"
    proof -
      have "irq_handlers s1 = irq_handlers s" by (subst s1(2)) simp
      then show ?thesis using s'(3) s1(2) by (cases s, cases s1, cases s') simp
    qed
    ultimately show ?thesis using s'(1,2) by blast
  qed
  then show ?thesis using s1(1,3) by blast
qed


section \<open>The drivers' handlers\<close>

lemma handler_stores:
  fixes m :: byte_mem
  shows "x \<notin> region h 12 \<Longrightarrow> store32 (store32 (store32 m h c) (h + 8) 0) (h + 4) d x = m x"
    and "x \<notin> region h 12 \<Longrightarrow> store32 (store32 (store32 m (h + 4) d) h c) (h + 8) 0 x = m x"
    and "load32 (store32 (store32 (store32 m h c) (h + 8) 0) (h + 4) d) h = c"
    and "load32 (store32 (store32 (store32 m h c) (h + 8) 0) (h + 4) d) (h + 4) = d"
    and "load32 (store32 (store32 (store32 m (h + 4) d) h c) (h + 8) 0) h = c"
    and "load32 (store32 (store32 (store32 m (h + 4) d) h c) (h + 8) 0) (h + 4) = d"
proof -
  have d: "region (h + 8) 4 \<inter> region h 4 = {}" "region (h + 4) 4 \<inter> region h 4 = {}" "region (h + 8) 4 \<inter> region (h + 4) 4 = {}"
    using region_shift [of 8 4 _ h] region_shift [of 4 4 _ h] by auto
  have "region h 4 \<inter> region (h + 4) 4 = {}" using d(2) by blast
  note d = d this
  show "load32 (store32 (store32 (store32 m h c) (h + 8) 0) (h + 4) d) h = c"
    "load32 (store32 (store32 (store32 m h c) (h + 8) 0) (h + 4) d) (h + 4) = d"
    "load32 (store32 (store32 (store32 m (h + 4) d) h c) (h + 8) 0) h = c"
    "load32 (store32 (store32 (store32 m (h + 4) d) h c) (h + 8) 0) (h + 4) = d"
    using d by (simp_all add: load32_store32_disjoint)
  assume x: "x \<notin> region h 12"
  then have "x \<notin> region h 4" "x \<notin> region (h + 4) 4" "x \<notin> region (h + 8) 4"
    using region_sub [of 0 4 12 h] region_sub [of 4 4 12 h] region_sub [of 8 4 12 h] by auto
  then show "store32 (store32 (store32 m h c) (h + 8) 0) (h + 4) d x = m x"
    "store32 (store32 (store32 m (h + 4) d) h c) (h + 8) 0 x = m x" by (simp_all del: in_region)
qed

text \<open>With room on the heap the timer's handler stands in front of line 0.\<close>

lemma set_pit_ready:
  assumes "pic_device pic" "irq_ready pic L s" "unat (high_mem s) + 16 < 0xC0C00000"
  shows "\<exists>s' h'. set_pit pic code s = Some s' \<and> irq_ready pic (L(0 := high_mem s # L 0)) s'
    \<and> h_handler (mem s') (high_mem s) = code \<and> h_data (mem s') (high_mem s) = 0 \<and> (\<forall>x. x \<notin> heap_free s \<longrightarrow> mem s' x = mem s x)
    \<and> s' = s\<lparr>mem := mem s', io := h' @ [OutB 0x42 0x34, OutB 0x40 0x9C, OutB 0x40 0x2E], high_mem := high_mem s + 16,
         irq_handlers := (irq_handlers s)[0 := high_mem s], iflag := True\<rparr>"
proof -
  obtain s1 where s1: "alloc 12 1 s = Some (high_mem s, s1)" "high_mem s \<noteq> 0"
    and wr: "\<And>m'. (\<forall>x. x \<notin> region (high_mem s) 12 \<longrightarrow> m' x = mem s1 x) \<Longrightarrow>
        (\<exists>s' h'. install_irq_handler pic 0 (high_mem s) (s1\<lparr>mem := m'\<rparr>) = Some s' \<and> irq_ready pic (L(0 := high_mem s # L 0)) s'
          \<and> h_handler (mem s') (high_mem s) = h_handler m' (high_mem s) \<and> h_data (mem s') (high_mem s) = h_data m' (high_mem s)
          \<and> (\<forall>x. x \<notin> heap_free s \<longrightarrow> mem s' x = mem s x)
          \<and> s' = s\<lparr>mem := mem s', io := h', high_mem := high_mem s + 16, irq_handlers := (irq_handlers s)[0 := high_mem s], iflag := True\<rparr>)"
    using install_block [OF assms, of 0] by auto
  let ?m = "store32 (store32 (store32 (mem s1) (high_mem s) code) (high_mem s + 8) 0) (high_mem s + 4) 0"
  obtain s2 h2 where s2: "install_irq_handler pic 0 (high_mem s) (s1\<lparr>mem := ?m\<rparr>) = Some s2" "irq_ready pic (L(0 := high_mem s # L 0)) s2"
    "h_handler (mem s2) (high_mem s) = code" "h_data (mem s2) (high_mem s) = 0" "\<forall>x. x \<notin> heap_free s \<longrightarrow> mem s2 x = mem s x"
    "s2 = s\<lparr>mem := mem s2, io := h2, high_mem := high_mem s + 16, irq_handlers := (irq_handlers s)[0 := high_mem s], iflag := True\<rparr>"
    using wr [of ?m] handler_stores(1,3,4) by (auto simp: h_handler_def h_data_def simp del: in_region)
  let ?s = "enable (outportb 0x40 0x2E (outportb 0x40 0x9C (outportb 0x42 0x34 (disable s2))))"
  have "irq_ready pic (L(0 := high_mem s # L 0)) ?s"
    by (rule irq_ready_cong [OF assms(1) s2(2), of _ "[OutB 0x42 0x34, OutB 0x40 0x9C, OutB 0x40 0x2E]"])
      (use s2(2) in \<open>simp_all add: enable_def disable_def outportb_def irq_ready_def con_ok_def\<close>)
  moreover have "set_pit pic code s = Some ?s" using s1 s2(1) by (simp add: set_pit_def)
  moreover have "?s = s\<lparr>mem := mem ?s, io := h2 @ [OutB 0x42 0x34, OutB 0x40 0x9C, OutB 0x40 0x2E], high_mem := high_mem s + 16,
         irq_handlers := (irq_handlers s)[0 := high_mem s], iflag := True\<rparr>"
    by (subst s2(6)) (cases s, simp add: enable_def disable_def outportb_def)
  moreover have "mem ?s = mem s2" by simp
  ultimately show ?thesis using s2(3-5) by metis
qed

text \<open>And the keyboard's handler in front of line 1.\<close>

lemma init_kbd_ready:
  assumes "pic_device pic" "irq_ready pic L s" "unat (high_mem s) + 16 < 0xC0C00000"
  shows "\<exists>s' h'. init_kbd pic code s = Some s' \<and> irq_ready pic (L(1 := high_mem s # L 1)) s'
    \<and> h_handler (mem s') (high_mem s) = code \<and> h_data (mem s') (high_mem s) = 0 \<and> (\<forall>x. x \<notin> heap_free s \<longrightarrow> mem s' x = mem s x)
    \<and> s' = s\<lparr>mem := mem s', io := h', high_mem := high_mem s + 16, irq_handlers := (irq_handlers s)[1 := high_mem s], iflag := True\<rparr>"
proof -
  obtain s1 where s1: "alloc 12 1 s = Some (high_mem s, s1)" "high_mem s \<noteq> 0"
    and wr: "\<And>m'. (\<forall>x. x \<notin> region (high_mem s) 12 \<longrightarrow> m' x = mem s1 x) \<Longrightarrow>
        (\<exists>s' h'. install_irq_handler pic 1 (high_mem s) (s1\<lparr>mem := m'\<rparr>) = Some s' \<and> irq_ready pic (L(1 := high_mem s # L 1)) s'
          \<and> h_handler (mem s') (high_mem s) = h_handler m' (high_mem s) \<and> h_data (mem s') (high_mem s) = h_data m' (high_mem s)
          \<and> (\<forall>x. x \<notin> heap_free s \<longrightarrow> mem s' x = mem s x)
          \<and> s' = s\<lparr>mem := mem s', io := h', high_mem := high_mem s + 16, irq_handlers := (irq_handlers s)[1 := high_mem s], iflag := True\<rparr>)"
    using install_block [OF assms, of 1] by auto
  let ?m = "store32 (store32 (store32 (mem s1) (high_mem s + 4) 0) (high_mem s) code) (high_mem s + 8) 0"
  show ?thesis using wr [of ?m] s1 handler_stores(2,5,6)
    by (auto simp: init_kbd_def h_handler_def h_data_def simp del: in_region)
qed

end
