(* ===== verification/Frog_Net.thy ===== *)
theory Frog_Net
  imports Frog_Pit
begin

text \<open>
  net.c: byte order, the pool of packet buffers, the table of network devices. The free buffers are
  linked through their first word; a device pointer is an index into the table, and the driver's
  entry points are code addresses.
\<close>

section \<open>State\<close>

record net_dev =
  dev_no :: u16
  hw_addr :: "u8 list"
  ipv4_addr :: u32
  ipv4_netmask :: u32
  needs_work :: u8
  do_work :: addr
  tx_packet :: addr
  priv :: addr
  rx_packets :: u32
  tx_packets :: u32

record net = pit +
  net_devs :: "net_dev list"
  net_num_devs :: u16
  buffers :: addr

abbreviation (input) NET_NUM_DEVS :: u16 where "NET_NUM_DEVS \<equiv> 16"

section \<open>Byte order\<close>

definition htonl :: "u32 \<Rightarrow> u32" where
  "htonl hl = push_bit 24 (hl AND 0xFF) OR push_bit 8 (hl AND 0xFF00)
     OR drop_bit 8 (hl AND 0xFF0000) OR drop_bit 24 hl"

definition ntohl :: "u32 \<Rightarrow> u32" where
  "ntohl nl = htonl nl"

definition htons :: "u16 \<Rightarrow> u16" where
  "htons h = push_bit 8 h OR drop_bit 8 h"

definition ntohs :: "u16 \<Rightarrow> u16" where
  "ntohs n = htons n"

section \<open>The buffer pool\<close>

text \<open>The loop that links the 32 buffers of a new block: \<^verbatim>\<open>i\<close> runs over 0, 2000, ..., 60000.\<close>

definition net_link :: "addr \<Rightarrow> byte_mem \<Rightarrow> byte_mem" where
  "net_link b m = fold (\<lambda>k m. let i = of_nat (2000 * k) in store32 m (b + i) (b + i + 2000)) [0..<31] m"

definition net_alloc :: "'a net_scheme \<Rightarrow> (addr \<times> 'a net_scheme) option" where
  "net_alloc s =
     Option.bind
       (if buffers s = 0 then
          map_option (\<lambda>(b, s1).
            if b \<noteq> 0 then s1\<lparr>mem := net_link b (memset b 0 (32 * 2000) (mem s1)), buffers := b\<rparr>
            else s1\<lparr>buffers := b\<rparr>) (alloc (32 * 2000) 1 s)
        else Some s)
       (\<lambda>s2. if buffers s2 = 0 then Some (0, s2)
             else let ret = buffers s2 in Some (ret, s2\<lparr>buffers := load32 (mem s2) ret\<rparr>))"

definition net_free :: "addr \<Rightarrow> 'a net_scheme \<Rightarrow> 'a net_scheme" where
  "net_free buff s =
     s\<lparr>mem := store32 (memset buff 0 2000 (mem s)) buff (buffers s), buffers := buff\<rparr>"

section \<open>Devices\<close>

definition zero_netdev :: net_dev where
  "zero_netdev = \<lparr>dev_no = 0, hw_addr = replicate 6 0, ipv4_addr = 0, ipv4_netmask = 0, needs_work = 0, do_work = 0,
     tx_packet = 0, priv = 0, rx_packets = 0, tx_packets = 0\<rparr>"

text \<open>The result is the index of the new device, or none for the null pointer.\<close>

definition alloc_netdev :: "u32 \<Rightarrow> 'a net_scheme \<Rightarrow> (nat option \<times> 'a net_scheme) option" where
  "alloc_netdev n s =
     (if NET_NUM_DEVS = net_num_devs s then Some (None, s)
      else map_option (\<lambda>(p, s1).
        if p = 0 then (None, s1)
        else let no = net_num_devs s1;
                 dev = zero_netdev\<lparr>priv := p, dev_no := no\<rparr>
             in (Some (unat no), s1\<lparr>net_num_devs := no + 1, net_devs := (net_devs s1)[unat no := dev]\<rparr>))
        (alloc n 1 s))"

definition net_ifconfig :: "u16 \<Rightarrow> u32 \<Rightarrow> u32 \<Rightarrow> 'a net_scheme \<Rightarrow> 'a net_scheme" where
  "net_ifconfig no addr netmask s =
     (if no < net_num_devs s then
        s\<lparr>net_devs := (net_devs s)[unat no := (net_devs s ! unat no)\<lparr>ipv4_addr := addr, ipv4_netmask := netmask\<rparr>]\<rparr>
      else s)"

text \<open>\<^verbatim>\<open>net_process\<close>: \<open>call\<close> is the call of a driver's \<^verbatim>\<open>do_work\<close>. The bound is read again in each round.\<close>

function net_process_loop :: "(addr \<Rightarrow> nat \<Rightarrow> 'a net_scheme \<Rightarrow> 'a net_scheme option) \<Rightarrow> nat \<Rightarrow> 'a net_scheme
    \<Rightarrow> 'a net_scheme option" where
  "net_process_loop call i s =
     (if i < unat (net_num_devs s) then
        Option.bind (if needs_work (net_devs s ! i) \<noteq> 0 then call (do_work (net_devs s ! i)) i s else Some s)
          (net_process_loop call (i + 1))
      else Some s)"
  by pat_completeness auto

termination
proof (relation "measure (\<lambda>(call, i, s). 2 ^ 16 - i)")
  fix call :: "addr \<Rightarrow> nat \<Rightarrow> 'a net_scheme \<Rightarrow> 'a net_scheme option" and i and s x :: "'a net_scheme"
  assume "i < unat (net_num_devs s)"
  moreover have "unat (net_num_devs s) < 2 ^ 16" using unsigned_less [of "net_num_devs s"] by simp
  ultimately show "((call, i + 1, x), (call, i, s)) \<in> measure (\<lambda>(call, i, s). 2 ^ 16 - i)"
    by (simp del: unsigned_less)
qed simp

definition net_process :: "(addr \<Rightarrow> nat \<Rightarrow> 'a net_scheme \<Rightarrow> 'a net_scheme option) \<Rightarrow> 'a net_scheme \<Rightarrow> 'a net_scheme option" where
  "net_process call s = net_process_loop call 0 s"

definition net_print_stat :: "addr \<Rightarrow> nat \<Rightarrow> 'a net_scheme \<Rightarrow> 'a net_scheme option" where
  "net_print_stat frame i s = map_option snd (printf frame (cbytes ''%d rx:%ld tx:%ld\<newline>'')
     [of_nat i, rx_packets (net_devs s ! i), tx_packets (net_devs s ! i)] s)"

definition net_print_stats :: "addr \<Rightarrow> 'a net_scheme \<Rightarrow> 'a net_scheme option" where
  "net_print_stats frame s = fold (\<lambda>i r. Option.bind r (net_print_stat frame i)) [0..<unat (net_num_devs s)] (Some s)"

section \<open>Byte order: lemmas\<close>

lemma htons_htons [simp]: "htons (htons h) = h"
  unfolding htons_def by (rule bit_word_eqI) (auto simp: bit_simps dest: bit_imp_le_length)

text \<open>In memory \<open>htons h\<close> is \<open>h\<close> with the high byte first.\<close>

lemma ucast_htons [simp]:
  "(ucast (htons h) :: u8) = ucast (drop_bit 8 h)" "(ucast (drop_bit 8 (htons h)) :: u8) = ucast h"
  unfolding htons_def by (rule bit_word_eqI, auto simp: bit_simps dest: bit_imp_le_length)+

section \<open>The pool invariant\<close>

primrec pool_chain :: "byte_mem \<Rightarrow> addr \<Rightarrow> addr list \<Rightarrow> bool" where
  "pool_chain m p [] \<longleftrightarrow> p = 0"
| "pool_chain m p (q # qs) \<longleftrightarrow> p = q \<and> p \<noteq> 0 \<and> pool_chain m (load32 m q) qs"

abbreviation buf_area :: "addr \<Rightarrow> addr set" where
  "buf_area p \<equiv> region p 2000"

text \<open>Buffers at distinct places do not overlap each other or the free part of the heap.\<close>

definition buffers_apart :: "addr list \<Rightarrow> addr set \<Rightarrow> bool" where
  "buffers_apart bs F \<longleftrightarrow> distinct bs \<and> (\<forall>p \<in> set bs. p \<noteq> 0 \<and> buf_area p \<inter> F = {})
     \<and> (\<forall>p \<in> set bs. \<forall>q \<in> set bs. p \<noteq> q \<longrightarrow> buf_area p \<inter> buf_area q = {})"

text \<open>\<open>fr\<close> are the free buffers in list order, \<open>al\<close> the ones in use. Beyond its link a free buffer is zero.\<close>

definition pool_ok :: "addr list \<Rightarrow> addr list \<Rightarrow> 'a net_scheme \<Rightarrow> bool" where
  "pool_ok fr al s \<longleftrightarrow> heap_ok s \<and> pool_chain (mem s) (buffers s) fr \<and> buffers_apart (fr @ al) (heap_free s)
     \<and> (\<forall>p \<in> set fr. \<forall>x \<in> buf_area p. x \<notin> region p 4 \<longrightarrow> mem s x = 0)"

lemma pool_chain_cong:
  "(\<And>q. q \<in> set qs \<Longrightarrow> load32 m' q = load32 m q) \<Longrightarrow> pool_chain m' p qs \<longleftrightarrow> pool_chain m p qs"
  by (induction qs arbitrary: p) auto

lemma link_in_buf: "region p 4 \<subseteq> buf_area p"
  by (rule region_mono) simp

lemma buffers_apart_perm: "set bs' = set bs \<Longrightarrow> distinct bs' \<Longrightarrow> buffers_apart bs F \<Longrightarrow> buffers_apart bs' F"
  by (simp add: buffers_apart_def)

text \<open>Memory changes outside the free buffers and the heap keep the pool.\<close>

lemma pool_ok_write:
  assumes "pool_ok fr al s" "high_mem s' = high_mem s" "buffers s' = buffers s"
    "\<And>x. x \<in> heap_free s \<Longrightarrow> mem s' x = mem s x" "\<And>p x. p \<in> set fr \<Longrightarrow> x \<in> buf_area p \<Longrightarrow> mem s' x = mem s x"
  shows "pool_ok fr al s'"
proof -
  have h: "heap_ok s'" using heap_ok_cong [of s s'] assms(1,2,4) by (simp add: pool_ok_def)
  have f: "heap_free s' = heap_free s" by (simp add: heap_free_def assms(2))
  have "load32 (mem s') q = load32 (mem s) q" if "q \<in> set fr" for q
    using assms(5) [OF that] link_in_buf by (intro load32_cong) blast
  then have "pool_chain (mem s') (buffers s') fr"
    using assms(1,3) by (simp add: pool_ok_def pool_chain_cong [of fr "mem s'" "mem s"])
  then show ?thesis using assms(1,5) h f by (simp add: pool_ok_def del: in_region)
qed

lemma pool_in_use:
  assumes "pool_ok fr al s" "a \<in> set al"
  shows "a \<noteq> 0" "buf_area a \<inter> heap_free s = {}" "p \<in> set fr \<Longrightarrow> buf_area p \<inter> buf_area a = {}"
    "q \<in> set al \<Longrightarrow> q \<noteq> a \<Longrightarrow> buf_area q \<inter> buf_area a = {}"
proof -
  have ap: "buffers_apart (fr @ al) (heap_free s)" using assms(1) by (simp add: pool_ok_def)
  show "a \<noteq> 0" "buf_area a \<inter> heap_free s = {}" using ap assms(2) by (simp_all add: buffers_apart_def)
  show "buf_area q \<inter> buf_area a = {}" if "q \<in> set al" "q \<noteq> a"
    using ap assms(2) that by (simp add: buffers_apart_def)
  show "buf_area p \<inter> buf_area a = {}" if "p \<in> set fr"
  proof -
    have "p \<noteq> a" using ap assms(2) that by (auto simp: buffers_apart_def)
    then show ?thesis using ap assms(2) that by (simp add: buffers_apart_def)
  qed
qed

lemma net_alloc_head:
  assumes "pool_ok (p # fr) al s"
  shows "net_alloc s = Some (p, s\<lparr>buffers := load32 (mem s) p\<rparr>)"
    and "pool_ok fr (p # al) (s\<lparr>buffers := load32 (mem s) p\<rparr>)"
proof -
  have b: "buffers s = p" "p \<noteq> 0" using assms by (auto simp: pool_ok_def)
  then show "net_alloc s = Some (p, s\<lparr>buffers := load32 (mem s) p\<rparr>)" by (simp add: net_alloc_def Let_def)
  have "heap_ok (s\<lparr>buffers := load32 (mem s) p\<rparr>)" using assms by (simp add: pool_ok_def heap_ok_def)
  then show "pool_ok fr (p # al) (s\<lparr>buffers := load32 (mem s) p\<rparr>)"
    using assms buffers_apart_perm [of "fr @ p # al" "(p # fr) @ al" "heap_free s"]
    by (auto simp: pool_ok_def heap_free_def buffers_apart_def simp del: in_region)
qed

lemma net_free_ok:
  assumes "pool_ok fr (xs @ p # ys) s"
  shows "pool_ok (p # fr) (xs @ ys) (net_free p s)"
proof -
  let ?m = "store32 (memset p 0 2000 (mem s)) p (buffers s)"
  have ap: "buffers_apart (fr @ xs @ p # ys) (heap_free s)" using assms by (simp add: pool_ok_def)
  have out: "?m x = mem s x" if "x \<notin> buf_area p" for x
  proof -
    have "x \<notin> region p 4" using that link_in_buf by blast
    then show ?thesis using that by (simp add: memset_apply)
  qed
  have zero: "?m x = 0" if "x \<in> buf_area p" "x \<notin> region p 4" for x
    using that by (simp add: memset_apply)
  have fr: "p \<noteq> q \<and> buf_area q \<inter> buf_area p = {}" if "q \<in> set fr" for q
    using ap that by (auto simp: buffers_apart_def simp del: in_region)
  have p: "p \<noteq> 0" "buf_area p \<inter> heap_free s = {}" using ap by (simp_all add: buffers_apart_def)
  have "heap_ok (net_free p s)"
  proof (rule heap_ok_cong)
    show "heap_ok s" using assms by (simp add: pool_ok_def)
    show "high_mem (net_free p s) = high_mem s" by (simp add: net_free_def)
    show "mem (net_free p s) x = mem s x" if "x \<in> heap_free s" for x
    proof -
      have "x \<notin> buf_area p" using p(2) that by blast
      then show ?thesis using out by (simp add: net_free_def del: in_region)
    qed
  qed
  moreover have "pool_chain ?m (buffers s) fr"
  proof -
    have "load32 ?m q = load32 (mem s) q" if "q \<in> set fr" for q
      using fr [OF that] link_in_buf [of q] by (intro load32_cong out) blast
    then show ?thesis using assms by (simp add: pool_ok_def pool_chain_cong [of fr ?m "mem s"])
  qed
  moreover have "?m x = 0" if "q \<in> set fr" "x \<in> buf_area q" "x \<notin> region q 4" for q x
    using fr [OF that(1)] that assms out [of x] by (auto simp: pool_ok_def simp del: in_region)
  moreover have "buffers_apart ((p # fr) @ xs @ ys) (heap_free s)"
    using ap by (intro buffers_apart_perm [OF _ _ ap]) (auto simp: buffers_apart_def)
  ultimately show ?thesis using p zero
    by (auto simp: pool_ok_def net_free_def heap_free_def simp del: in_region)
qed

subsection \<open>A new block of buffers\<close>

definition slot :: "addr \<Rightarrow> nat \<Rightarrow> addr" where
  "slot b k = b + of_nat (2000 * k)"

lemma slot_0 [simp]: "slot b 0 = b"
  by (simp add: slot_def)

lemma slot_Suc: "slot b k + 2000 = slot b (Suc k)"
  by (simp add: slot_def add.assoc add.commute [of 2000])

lemma unat_slot: "k \<le> 32 \<Longrightarrow> unat (of_nat (2000 * k) :: addr) = 2000 * k"
  by (subst unat_of_nat) simp

lemma in_slot: "k < 32 \<Longrightarrow> x \<in> buf_area (slot b k) \<longleftrightarrow> 2000 * k \<le> unat (x - b) \<and> unat (x - b) < 2000 * k + 2000"
  unfolding slot_def using region_shift [of "of_nat (2000 * k)" 2000 x b] unat_slot [of k] by simp

lemma slot_subset: "k < 32 \<Longrightarrow> buf_area (slot b k) \<subseteq> region b 64000"
  by (auto simp: in_slot simp del: in_region) (simp add: region_def)

lemma slots_disjoint:
  assumes "k < 32" "n < 32" "k \<noteq> n"
  shows "buf_area (slot b k) \<inter> buf_area (slot b n) = {}"
proof -
  have "k = n" if "x \<in> buf_area (slot b k)" "x \<in> buf_area (slot b n)" for x
    using that unfolding in_slot [OF assms(1)] in_slot [OF assms(2)] by linarith
  then show ?thesis using assms(3) by blast
qed

lemma slot_inj:
  assumes "slot b k = slot b j" "k < 32" "j < 32"
  shows "k = j"
proof -
  have "(of_nat (2000 * k) :: addr) = of_nat (2000 * j)" using assms(1) by (simp only: slot_def add_left_cancel)
  then have "2000 * k = 2000 * j" using unat_slot [of k] unat_slot [of j] assms by simp
  then show ?thesis by simp
qed

lemma buffers_apart_append:
  assumes "buffers_apart xs F" "buffers_apart ys F" "\<And>p q. p \<in> set xs \<Longrightarrow> q \<in> set ys \<Longrightarrow> buf_area p \<inter> buf_area q = {}"
  shows "buffers_apart (xs @ ys) F"
proof -
  have "p \<in> buf_area p" for p by simp
  then have "set xs \<inter> set ys = {}" using assms(3) by blast
  moreover have "buf_area q \<inter> buf_area p = {}" if "p \<in> set xs" "q \<in> set ys" for p q
    using assms(3) [OF that] by blast
  ultimately show ?thesis using assms
    unfolding buffers_apart_def set_append distinct_append ball_Un by simp
qed

lemma slots_apart:
  assumes "region b 64000 \<inter> F = {}" "\<And>k. k < 32 \<Longrightarrow> slot b k \<noteq> 0"
  shows "buffers_apart (map (slot b) [0..<32]) F"
proof -
  have "buf_area (slot b k) \<inter> F = {}" if "k < 32" for k using slot_subset [OF that] assms(1) by blast
  moreover have "distinct (map (slot b) [0..<32])"
    using slot_inj by (subst distinct_map) (auto simp: inj_on_def)
  moreover have "buf_area (slot b k) \<inter> buf_area (slot b j) = {}" if "k < 32" "j < 32" "slot b k \<noteq> slot b j" for k j
    using that by (intro slots_disjoint) auto
  ultimately show ?thesis using assms(2)
    unfolding buffers_apart_def set_map set_upt ball_simps by (metis (no_types, lifting) imageE atLeastLessThan_iff)
qed

lemma link_loop:
  fixes b :: addr and m :: byte_mem
  assumes "n \<le> 31"
  defines "L \<equiv> fold (\<lambda>k m. let i = of_nat (2000 * k) in store32 m (b + i) (b + i + 2000)) [0..<n] m"
  shows "(\<forall>k < n. load32 L (slot b k) = slot b k + 2000) \<and> (\<forall>x. (\<forall>k < n. x \<notin> region (slot b k) 4) \<longrightarrow> L x = m x)"
  using assms(1) unfolding L_def
proof (induction n)
  case (Suc n)
  let ?L = "fold (\<lambda>k m. let i = of_nat (2000 * k) in store32 m (b + i) (b + i + 2000)) [0..<n] m"
  have L: "fold (\<lambda>k m. let i = of_nat (2000 * k) in store32 m (b + i) (b + i + 2000)) [0..<Suc n] m
      = store32 ?L (slot b n) (slot b n + 2000)" by (simp add: Let_def slot_def)
  have IH: "\<forall>k < n. load32 ?L (slot b k) = slot b k + 2000" "\<forall>x. (\<forall>k < n. x \<notin> region (slot b k) 4) \<longrightarrow> ?L x = m x"
    using Suc by auto
  have dis: "region (slot b n) 4 \<inter> region (slot b k) 4 = {}" if "k < n" for k
    using slots_disjoint [of n k b] link_in_buf [of "slot b n"] link_in_buf [of "slot b k"] Suc.prems that by force
  have "load32 (store32 ?L (slot b n) (slot b n + 2000)) (slot b k) = slot b k + 2000" if "k < Suc n" for k
  proof (cases "k = n")
    case True then show ?thesis by simp
  next
    case False
    then have "k < n" using that by simp
    then show ?thesis using IH(1) dis by (simp add: load32_store32_disjoint)
  qed
  moreover have "store32 ?L (slot b n) (slot b n + 2000) x = m x" if "\<forall>k < Suc n. x \<notin> region (slot b k) 4" for x
    using IH(2) that by (simp del: in_region)
  ultimately show ?case unfolding L by blast
qed simp

lemma slot_chain:
  assumes "\<And>k. k < 31 \<Longrightarrow> load32 m (slot b k) = slot b k + 2000" "load32 m (slot b 31) = 0"
    "\<And>k. k < 32 \<Longrightarrow> slot b k \<noteq> 0" "n \<le> 31"
  shows "pool_chain m (slot b (31 - n)) (map (slot b) [31 - n..<32])"
  using assms(4)
proof (induction n)
  case 0 then show ?case using assms(2) assms(3) [of 31] by (simp add: upt_conv_Cons)
next
  case (Suc n)
  define j where "j = 31 - Suc n"
  have j: "31 - n = Suc j" "j < 31" using Suc.prems by (simp_all add: j_def)
  have up: "[j..<32] = j # [Suc j..<32]" using j by (simp add: upt_conv_Cons)
  have "load32 m (slot b j) = slot b (Suc j)" using assms(1) [OF j(2)] by (simp add: slot_Suc)
  then show ?case using Suc.IH Suc.prems j assms(3) [of j] unfolding j_def [symmetric] up by (simp only: list.map pool_chain.simps) simp
qed

text \<open>The state after a new block has been taken from the heap and linked.\<close>

lemma net_refill:
  assumes "pool_ok [] al s" "alloc (32 * 2000) 1 s = Some (b, s1)" "b \<noteq> 0"
  defines "s2 \<equiv> s1\<lparr>mem := net_link b (memset b 0 (32 * 2000) (mem s1)), buffers := b\<rparr>"
  shows "pool_ok (map (slot b) [0..<32]) al s2" "x \<notin> heap_free s \<Longrightarrow> mem s2 x = mem s x"
    "heap_free s2 \<subseteq> heap_free s" "k < 32 \<Longrightarrow> buf_area (slot b k) \<subseteq> heap_free s"
proof -
  have ok: "heap_ok s" "buffers_apart al (heap_free s)" using assms(1) by (simp_all add: pool_ok_def)
  note al = alloc_align1 [OF ok(1) _ assms(2)]
  have "unat (32 * 2000 :: u32) = 64000" by simp
  then have blk: "region b 64000 \<subseteq> heap_free s - heap_free s1" using conjunct2 [OF al(3) [OF _ assms(3)]] by simp
  let ?m0 = "memset b 0 (32 * 2000) (mem s1)"
  have m2: "mem s2 = net_link b ?m0" by (simp add: s2_def)
  have f2: "heap_free s2 = heap_free s1" by (simp add: heap_free_def s2_def)
  note slot_in = slot_subset [of _ b]
  have link1: "load32 (mem s2) (slot b k) = slot b k + 2000" if "k < 31" for k
    using link_loop [of 31 b ?m0] that by (simp add: m2 net_link_def)
  have link2: "mem s2 x = ?m0 x" if "\<And>k. k < 31 \<Longrightarrow> x \<notin> region (slot b k) 4" for x
    using link_loop [of 31 b ?m0] that by (simp add: m2 net_link_def del: in_region)
  have out: "mem s2 x = mem s1 x" if "x \<notin> region b 64000" for x
  proof -
    have "x \<notin> region (slot b k) 4" if "k < 31" for k
      using \<open>x \<notin> region b 64000\<close> slot_in [of k] link_in_buf [of "slot b k"] that
      by (auto simp del: in_region)
    then show ?thesis using link2 that by (simp add: memset_apply)
  qed
  have zero: "mem s2 x = 0" if "k < 32" "x \<in> buf_area (slot b k)" "x \<notin> region (slot b k) 4 \<or> k = 31" for k x
  proof -
    have "x \<notin> region (slot b j) 4" if "j < 31" for j
    proof (cases "j = k")
      case True then show ?thesis using \<open>x \<notin> region (slot b k) 4 \<or> k = 31\<close> that by auto
    next
      case False
      then show ?thesis using slots_disjoint [of j k b] link_in_buf [of "slot b j"] that \<open>k < 32\<close> \<open>x \<in> buf_area (slot b k)\<close>
        by force
    qed
    then have "mem s2 x = ?m0 x" by (rule link2)
    then show ?thesis using that(2) slot_in [OF that(1)] by (auto simp: memset_apply)
  qed
  show "mem s2 x = mem s x" if "x \<notin> heap_free s"
    using out [of x] blk that al(4) [OF _ that] by (auto simp del: in_region)
  show "heap_free s2 \<subseteq> heap_free s" using al(2) f2 by simp
  show "buf_area (slot b k) \<subseteq> heap_free s" if "k < 32" using blk slot_in [OF that] by blast
  show "pool_ok (map (slot b) [0..<32]) al s2"
    unfolding pool_ok_def
  proof (intro conjI)
    show "heap_ok s2"
    proof (rule heap_ok_cong)
      show "heap_ok s1" using al(1) by simp
      show "mem s2 x = mem s1 x" if "x \<in> heap_free s1" for x using out [of x] blk that by blast
    qed (simp add: s2_def)
    have in_heap: "slot b k \<in> heap_free s" if "k < 32" for k
    proof -
      have "slot b k \<in> buf_area (slot b k)" by simp
      then show ?thesis using slot_in [OF that] blk by blast
    qed
    have nz: "slot b k \<noteq> 0" if "k < 32" for k
    proof
      assume "slot b k = 0"
      then have "high_mem s \<le> 0" using in_heap [OF that] by (simp only: heap_free_def mem_Collect_eq)
      then show False using ok(1) by (simp add: heap_ok_def)
    qed
    have "load32 (mem s2) (slot b 31) = load32 (\<lambda>_. 0) (slot b 31)"
      using link_in_buf [of "slot b 31"] by (intro load32_cong zero [of 31]) auto
    then have last: "load32 (mem s2) (slot b 31) = 0" by (simp add: load32_def)
    show "pool_chain (mem s2) (buffers s2) (map (slot b) [0..<32])"
      using slot_chain [OF link1 last nz, of 31] by (simp add: s2_def)
    have old: "buf_area p \<inter> heap_free s = {} \<and> p \<noteq> 0" if "p \<in> set al" for p
      using ok(2) that by (simp add: buffers_apart_def)
    have apart: "buf_area p \<inter> buf_area (slot b k) = {}" if "p \<in> set al" "k < 32" for p k
      using old [OF that(1)] slot_in [OF that(2)] blk by blast
    show "buffers_apart (map (slot b) [0..<32] @ al) (heap_free s2)"
    proof (rule buffers_apart_append)
      show "buffers_apart (map (slot b) [0..<32]) (heap_free s2)"
        using blk nz f2 by (intro slots_apart) auto
      show "buffers_apart al (heap_free s2)" using ok(2) al(2) f2 by (auto simp: buffers_apart_def simp del: in_region)
      show "buf_area p \<inter> buf_area q = {}" if pq: "p \<in> set (map (slot b) [0..<32])" "q \<in> set al" for p q
      proof -
        obtain k where "k < 32" "p = slot b k" using pq(1) by auto
        then show ?thesis using apart [OF pq(2)] by blast
      qed
    qed
    show "\<forall>p \<in> set (map (slot b) [0..<32]). \<forall>x \<in> buf_area p. x \<notin> region p 4 \<longrightarrow> mem s2 x = 0"
      using zero by (auto simp del: in_region)
  qed
qed

text \<open>What \<^verbatim>\<open>net_alloc\<close> promises in every state of the pool.\<close>

lemma net_alloc_ok:
  assumes "pool_ok fr al s"
  obtains a s' fr' where "net_alloc s = Some (a, s')" "a = 0 \<Longrightarrow> pool_ok fr al s' \<and> mem s' = mem s"
    "a \<noteq> 0 \<Longrightarrow> pool_ok fr' (a # al) s'" "a \<noteq> 0 \<Longrightarrow> fr = [] \<Longrightarrow> length fr' = 31"
    "a \<noteq> 0 \<Longrightarrow> a \<in> set fr \<or> buf_area a \<subseteq> heap_free s"
    "\<And>p. a \<noteq> 0 \<Longrightarrow> p \<in> set fr' \<Longrightarrow> p \<in> set fr \<or> buf_area p \<subseteq> heap_free s"
    "\<And>y. a \<noteq> 0 \<Longrightarrow> y \<in> buf_area a \<Longrightarrow> y \<notin> region a 4 \<Longrightarrow> mem s' y = 0"
    "heap_free s' \<subseteq> heap_free s" "\<And>y. y \<notin> heap_free s \<Longrightarrow> mem s' y = mem s y"
proof (cases fr)
  case (Cons p fr')
  note h = net_alloc_head [OF assms [unfolded Cons]]
  have z: "\<And>y. y \<in> buf_area p \<Longrightarrow> y \<notin> region p 4 \<Longrightarrow> mem s y = 0" "p \<noteq> 0"
    using assms Cons by (auto simp: pool_ok_def simp del: in_region)
  show ?thesis by (rule that [OF h(1)]) (use h(2) z Cons in \<open>auto simp: heap_free_def simp del: in_region\<close>)
next
  case Nil
  then have ok: "heap_ok s" "buffers s = 0" using assms by (simp_all add: pool_ok_def)
  obtain b s1 where al: "alloc (32 * 2000) 1 s = Some (b, s1)"
    using kheap.alloc_total [OF ok(1), of "32 * 2000"] by fastforce
  show ?thesis
  proof (cases "b = 0")
    case True
    then have s1: "s1 = s"
      using al ok(1) by (auto simp: alloc_one_block alloc_front_def Let_def heap_ok_def split: if_splits)
    have "pool_ok fr al (s\<lparr>buffers := 0\<rparr>)" if "pool_ok fr al s" for fr al
      using that ok(2) by (simp add: pool_ok_def heap_ok_def heap_free_def)
    then show ?thesis using assms ok(2) al True s1
      by (intro that [of 0 "s\<lparr>buffers := 0\<rparr>"]) (auto simp: net_alloc_def heap_free_def)
  next
    case False
    define s2 where "s2 = s1\<lparr>mem := net_link b (memset b 0 (32 * 2000) (mem s1)), buffers := b\<rparr>"
    note r = net_refill [OF assms [unfolded Nil] al False, folded s2_def]
    have cons: "map (slot b) [0..<32] = b # map (slot b) [1..<32]" by (simp add: upt_conv_Cons)
    note h = net_alloc_head [OF r(1) [unfolded cons]]
    have "net_alloc s = net_alloc s2"
      using ok(2) al False by (simp add: net_alloc_def s2_def)
    moreover have "\<And>y. y \<in> buf_area b \<Longrightarrow> y \<notin> region b 4 \<Longrightarrow> mem s2 y = 0"
      using r(1) unfolding cons by (auto simp: pool_ok_def simp del: in_region)
    moreover have "buf_area b \<subseteq> heap_free s" using r(4) [of 0] by simp
    moreover have "buf_area p \<subseteq> heap_free s" if p: "p \<in> set (map (slot b) [1..<32])" for p
    proof -
      obtain k where "k < 32" "p = slot b k" using p by auto
      then show ?thesis using r(4) by simp
    qed
    moreover have "heap_free (s2\<lparr>buffers := load32 (mem s2) b\<rparr>) = heap_free s2" by (simp add: heap_free_def)
    ultimately show ?thesis using h r(2,3) False
      by (intro that [of b "s2\<lparr>buffers := load32 (mem s2) b\<rparr>" "map (slot b) [1..<32]"])
        (auto simp del: in_region set_map)
  qed
qed

section \<open>Histories of the pool\<close>

text \<open>Buffers taken, written and given back, in any order. The list holds the buffers in use.\<close>

inductive pool_client :: "'a net_scheme \<Rightarrow> 'a net_scheme \<Rightarrow> addr list \<Rightarrow> bool" for s0 where
  pool_start: "pool_client s0 s0 []"
| pool_get: "pool_client s0 s al \<Longrightarrow> net_alloc s = Some (a, s') \<Longrightarrow> pool_client s0 s' (if a = 0 then al else a # al)"
| pool_put: "pool_client s0 s (xs @ a # ys) \<Longrightarrow> pool_client s0 (net_free a s) (xs @ ys)"
| pool_write: "pool_client s0 s al \<Longrightarrow> a \<in> set al \<Longrightarrow> x \<in> region a 2000
    \<Longrightarrow> pool_client s0 (s\<lparr>mem := (mem s)(x := v)\<rparr>) al"

lemma pool_client_ok:
  assumes "pool_ok [] [] s0" "pool_client s0 s al"
  shows "\<exists>fr. pool_ok fr al s"
  using assms(2)
proof (induction rule: pool_client.induct)
  case pool_start then show ?case using assms(1) by blast
next
  case (pool_get s al a s')
  then obtain fr where "pool_ok fr al s" by blast
  then show ?case by (rule net_alloc_ok) (use pool_get.hyps(2) in \<open>auto split: if_splits\<close>)
next
  case (pool_put s xs a ys)
  then show ?case using net_free_ok by blast
next
  case (pool_write s al a x v)
  then obtain fr where ok: "pool_ok fr al s" by blast
  note use = pool_in_use [OF ok pool_write.hyps(2)]
  have "x \<notin> heap_free s" using use(2) pool_write.hyps(3) by blast
  moreover have "\<And>p. p \<in> set fr \<Longrightarrow> x \<notin> buf_area p" using use(3) pool_write.hyps(3) by blast
  ultimately have "pool_ok fr al (s\<lparr>mem := (mem s)(x := v)\<rparr>)"
    by (intro pool_ok_write [OF ok]) (auto simp del: in_region)
  then show ?case by blast
qed

text \<open>C29: Whatever sequence of \<^verbatim>\<open>net_alloc\<close>, \<^verbatim>\<open>net_free\<close> of a buffer in use and writes into buffers in use runs from an
  empty pool on a well-formed heap, the 2000-byte buffers in use are distinct, never overlap and lie outside the free
  memory of the heap (so that no later request of another component gets a part of one), and the next \<^verbatim>\<open>net_alloc\<close> returns.\<close>

theorem net_pool_buffers_disjoint:
  assumes "heap_ok s0" "buffers s0 = 0" "pool_client s0 s al"
  shows "distinct al \<and> (\<forall>p \<in> set al. \<forall>q \<in> set al. p \<noteq> q \<longrightarrow> region p 2000 \<inter> region q 2000 = {})
    \<and> (\<forall>p \<in> set al. region p 2000 \<inter> heap_free s = {}) \<and> heap_ok s \<and> net_alloc s \<noteq> None"
proof -
  have "pool_ok [] [] s0" using assms(1,2) by (simp add: pool_ok_def buffers_apart_def)
  then obtain fr where ok: "pool_ok fr al s" using pool_client_ok assms(3) by blast
  then have "net_alloc s \<noteq> None" by (rule net_alloc_ok) auto
  then show ?thesis using ok by (auto simp: pool_ok_def buffers_apart_def simp del: in_region)
qed

text \<open>C35: The byte-order conversions undo themselves, and what they return lies in memory with the most significant
  byte first.\<close>

theorem byte_order_roundtrip:
  "ntohl (htonl l) = l \<and> ntohs (htons h) = h
   \<and> store16 m a (htons h) = m(a := ucast (drop_bit 8 h), a + 1 := ucast h)
   \<and> store32 m a (htonl l) = m(a := ucast (drop_bit 24 l), a + 1 := ucast (drop_bit 16 l),
        a + 2 := ucast (drop_bit 8 l), a + 3 := ucast l)"
proof -
  have masks: "(0xFF :: u32) = mask 8" "(0xFF00 :: u32) = push_bit 8 (mask 8)" "(0xFF0000 :: u32) = push_bit 16 (mask 8)"
    by (simp_all add: mask_eq_exp_minus_1 push_bit_eq_mult)
  have bit: "bit (htonl x) n = (n < 32 \<and> bit x (if n < 8 then 24 + n else if n < 16 then 8 + n else if n < 24 then n - 8 else n - 24))"
    for x n unfolding htonl_def masks by (auto simp: bit_simps not_less dest: bit_imp_le_length)
  have l: "htonl (htonl x) = x" for x
    by (rule bit_word_eqI) (auto simp: bit not_less)
  have b: "(ucast (htonl x) :: u8) = ucast (drop_bit 24 x)" "(ucast (drop_bit 8 (htonl x)) :: u8) = ucast (drop_bit 16 x)"
    "(ucast (drop_bit 16 (htonl x)) :: u8) = ucast (drop_bit 8 x)" "(ucast (drop_bit 24 (htonl x)) :: u8) = ucast x" for x
    by (rule bit_word_eqI, auto simp: bit_simps bit)+
  show ?thesis by (simp add: ntohl_def ntohs_def l store16_def store32_def b)
qed

section \<open>The device table\<close>

definition devs_ok :: "'a net_scheme \<Rightarrow> bool" where
  "devs_ok s \<longleftrightarrow> length (net_devs s) = 16 \<and> net_num_devs s \<le> NET_NUM_DEVS
     \<and> (\<forall>i < unat (net_num_devs s). dev_no (net_devs s ! i) = of_nat i)"

text \<open>\<^verbatim>\<open>alloc_netdev\<close> keeps the table of at most 16 devices, each knowing its own number: it either registers the
  next device with a private block of the requested length from the heap, or changes nothing.\<close>

theorem alloc_netdev_registers:
  assumes "devs_ok s" "heap_ok s" "n \<le> 0xFFFFFFF0"
  shows "\<exists>r s'. alloc_netdev n s = Some (r, s') \<and> devs_ok s' \<and> heap_ok s' \<and>
    (case r of None \<Rightarrow> s' = s
     | Some i \<Rightarrow> i = unat (net_num_devs s) \<and> i < 16 \<and> net_num_devs s' = net_num_devs s + 1
         \<and> region (priv (net_devs s' ! i)) (unat n) \<subseteq> heap_free s - heap_free s'
         \<and> (\<forall>j < i. net_devs s' ! j = net_devs s ! j))"
proof (cases "net_num_devs s = 16")
  case True then show ?thesis using assms by (intro exI [of _ None] exI [of _ s]) (simp add: alloc_netdev_def)
next
  case False
  let ?n = "net_num_devs s"
  have "?n < 16" using False assms(1) by (auto simp: devs_ok_def less_le)
  then have lt: "unat ?n < 16" "?n < 16" by (simp_all add: word_less_nat_alt)
  obtain p s1 where al: "alloc n 1 s = Some (p, s1)" using kheap.alloc_total [OF assms(2,3)] by fastforce
  note a = alloc_align1 [OF assms(2,3) al]
  have keep: "net_devs s1 = net_devs s" "net_num_devs s1 = ?n" "p = 0 \<Longrightarrow> s1 = s"
    using al assms(2) by (auto simp: alloc_one_block [OF assms(2)] alloc_front_def Let_def heap_ok_def split: if_splits)
  show ?thesis
  proof (cases "p = 0")
    case True
    then show ?thesis using al keep False assms by (intro exI [of _ None] exI [of _ s]) (simp add: alloc_netdev_def)
  next
    case p: False
    define s2 where "s2 = s1\<lparr>net_num_devs := ?n + 1, net_devs := (net_devs s)[unat ?n := zero_netdev\<lparr>priv := p, dev_no := ?n\<rparr>]\<rparr>"
    have "alloc_netdev n s = Some (Some (unat ?n), s2)"
      using al keep p False by (simp add: alloc_netdev_def s2_def Let_def)
    moreover have "devs_ok s2" using assms(1) lt unat_inc [OF lt(2)]
      by (auto simp: devs_ok_def s2_def nth_list_update less_Suc_eq word_le_nat_alt)
    moreover have "heap_ok s2" using a(1) by (simp add: heap_ok_def s2_def)
    moreover have "region p (unat n) \<subseteq> heap_free s - heap_free s2"
      using conjunct2 [OF a(3) [OF p]] by (simp add: heap_free_def s2_def)
    ultimately show ?thesis using lt assms(1)
      by (intro exI [of _ "Some (unat ?n)"] exI [of _ s2]) (simp add: s2_def devs_ok_def)
  qed
qed

section \<open>Concrete instances\<close>

definition boot_net :: net where
  "boot_net = init_mem 0xC0110000 \<lparr>mem = (\<lambda>_. 0), io = [], csr_x = 0, csr_y = 0, attrib = 7,
     high_mem = 0, irq_handlers = replicate 18 0, iflag = False, pit_counter = 0,
     net_devs = replicate 16 zero_netdev, net_num_devs = 0, buffers = 0\<rparr>"

lemma boot_net_simps:
  "heap_ok boot_net" "buffers boot_net = 0" "net_devs boot_net = replicate 16 zero_netdev"
  "net_num_devs boot_net = 0" "high_mem boot_net = 0xC0110000"
proof -
  show "heap_ok boot_net" unfolding boot_net_def by (rule init_mem_ok) simp_all
qed (simp_all add: boot_net_def init_mem_def Let_def round_up_def)

lemma boot_net_alloc: "\<exists>a s. net_alloc boot_net = Some (a, s) \<and> a \<noteq> 0"
proof -
  have "alloc (32 * 2000) 1 boot_net = Some (alloc_front 64000 0xC0110000 boot_net)"
  proof -
    have "round_up (32 * 2000) 16 = 64000" by (simp add: round_up_def)
    moreover have "hdr_size (mem boot_net) 0xC0110000 = 0xAF0000"
      by (simp add: boot_net_def init_mem_def Let_def round_up_def)
    ultimately show ?thesis using alloc_one_block [OF boot_net_simps(1), of "32 * 2000"] by (simp add: boot_net_simps)
  qed
  then show ?thesis by (simp add: net_alloc_def boot_net_simps alloc_front_def Let_def)
qed

theorem net_pool_buffers_disjoint_witness:
  "\<exists>a b s. pool_client boot_net s [b, a] \<and> a \<noteq> b \<and> region a 2000 \<inter> region b 2000 = {}"
proof -
  obtain a s1 where a: "net_alloc boot_net = Some (a, s1)" "a \<noteq> 0" using boot_net_alloc by blast
  have c1: "pool_client boot_net s1 [a]"
    using pool_get [OF pool_start a(1)] a(2) by simp
  have ok: "pool_ok [] [] boot_net" by (simp add: pool_ok_def buffers_apart_def boot_net_simps)
  from ok obtain fr where fr: "pool_ok fr [a] s1" "length fr = 31"
    by (rule net_alloc_ok) (use a in auto)
  then obtain b rest where rest: "fr = b # rest" by (cases fr) auto
  then have "b \<noteq> 0" using fr(1) by (auto simp: pool_ok_def)
  then obtain s2 where b: "net_alloc s1 = Some (b, s2)" "b \<noteq> 0"
    using net_alloc_head(1) [OF fr(1) [unfolded rest]] by blast
  have c2: "pool_client boot_net s2 [b, a]" using pool_get [OF c1 b(1)] b(2) by simp
  then show ?thesis using net_pool_buffers_disjoint [OF boot_net_simps(1,2) c2] by auto
qed

theorem alloc_netdev_registers_witness:
  "\<exists>r s'. alloc_netdev 96 boot_net = Some (r, s') \<and> devs_ok s' \<and> heap_ok s'"
proof -
  have "devs_ok boot_net" by (simp add: devs_ok_def boot_net_simps)
  then show ?thesis using alloc_netdev_registers [OF _ boot_net_simps(1), of 96] by fastforce
qed

end
