(* ===== verification/Frog_Cksum.thy ===== *)
theory Frog_Cksum
  imports Frog_Prelude
begin

text \<open>
  \<^verbatim>\<open>ip_cksum\<close> of ipv4.c: the Internet checksum over a byte area, against one's complement arithmetic
  (residues modulo 65535).
\<close>

section \<open>The operation\<close>

function cksum_words :: "byte_mem \<Rightarrow> u32 \<Rightarrow> addr \<Rightarrow> u32 \<Rightarrow> u32 \<times> addr \<times> u32" where
  "cksum_words m sm buff len =
     (if 2 \<le> len then cksum_words m (sm + ucast (load16 m buff)) (buff + 2) (len - 2)
      else (sm, buff, len))"
  by pat_completeness auto

termination
  by (relation "measure (\<lambda>(m, sm, buff, len). unat len)") (auto simp: unat_sub word_le_nat_alt)

lemma unat_halves: "unat ((sm :: u32) AND 0xFFFF) = unat sm mod 65536" "unat (drop_bit 16 sm) = unat sm div 65536"
proof -
  have "sm AND 0xFFFF = take_bit 16 sm" by (simp add: take_bit_eq_mask mask_eq_exp_minus_1)
  then show "unat (sm AND 0xFFFF) = unat sm mod 65536" using unat_take_bit [of 16 sm] by simp
  show "unat (drop_bit 16 sm) = unat sm div 65536" by (simp add: drop_bit_eq_div unat_div)
qed

lemma fold_step: "unat ((sm AND 0xFFFF) + drop_bit 16 sm :: u32) = unat sm mod 65536 + unat sm div 65536"
proof -
  have "unat sm div 65536 < 65536" using unat_lt32 [of sm] by (simp add: less_mult_imp_div_less)
  moreover have "unat sm mod 65536 < 65536" by simp
  ultimately have "unat sm mod 65536 + unat sm div 65536 < 65536 + 65536" by (rule add_strict_mono [rotated])
  then have "unat sm mod 65536 + unat sm div 65536 < 2 ^ 32" by simp
  then show ?thesis by (simp add: unat_word_ariths unat_halves)
qed

function cksum_fold :: "u32 \<Rightarrow> u32" where
  "cksum_fold sm = (if drop_bit 16 sm \<noteq> 0 then cksum_fold ((sm AND 0xFFFF) + drop_bit 16 sm) else sm)"
  by pat_completeness auto

termination
proof (relation "measure unat")
  fix sm :: u32 assume "drop_bit 16 sm \<noteq> 0"
  then have "0 < unat sm div 65536" using unat_halves(2) [of sm] by (simp add: unat_gt_0 [symmetric])
  moreover have "unat sm = unat sm div 65536 * 65536 + unat sm mod 65536" by simp
  ultimately have "unat sm mod 65536 + unat sm div 65536 < unat sm" by linarith
  then show "((sm AND 0xFFFF) + drop_bit 16 sm, sm) \<in> measure unat" by (simp only: in_measure fold_step)
qed simp

definition ip_cksum :: "u16 \<Rightarrow> addr \<Rightarrow> u32 \<Rightarrow> byte_mem \<Rightarrow> u16" where
  "ip_cksum prev buff len m =
     (let (sum1, buff1, len1) = cksum_words m (ucast prev) buff len;
          sum2 = (if len1 \<noteq> 0 then sum1 + ucast (m buff1) else sum1)
      in ucast (NOT (cksum_fold sum2) AND 0xFFFF))"

declare cksum_words.simps [simp del] cksum_fold.simps [simp del]

section \<open>One's complement arithmetic\<close>

text \<open>The sum of the little-endian 16-bit words of an area, an odd last byte counted alone.\<close>

fun word_sum :: "byte_mem \<Rightarrow> addr \<Rightarrow> nat \<Rightarrow> nat" where
  "word_sum m a 0 = 0"
| "word_sum m a (Suc 0) = unat (m a)"
| "word_sum m a (Suc (Suc n)) = unat (load16 m a) + word_sum m (a + 2) n"

lemma word_sum_two: "word_sum m a 2 = unat (load16 m a)"
  using word_sum.simps(3) [of m a 0] by (simp add: numeral_2_eq_2 del: word_sum.simps(3))

lemma word_sum_bound: "word_sum m a n \<le> (n + 1) div 2 * 65535"
proof (induction m a n rule: word_sum.induct)
  case (2 m a)
  have "unat (m a) < 256" using unsigned_less [of "m a"] by simp
  then show ?case by simp
next
  case (3 m a n)
  have "unat (load16 m a) < 65536" using unsigned_less [of "load16 m a"] by simp
  then show ?case using 3 by simp
qed simp

text \<open>The residue that folding computes: 65535 stands for the non-zero multiples.\<close>

definition ones_residue :: "nat \<Rightarrow> nat" where
  "ones_residue n = (if n = 0 then 0 else (n - 1) mod 65535 + 1)"

lemma ones_residue_fold: "65536 \<le> n \<Longrightarrow> ones_residue (n mod 65536 + n div 65536) = ones_residue n"
proof -
  assume n: "65536 \<le> n"
  define q r where "q = n div 65536" and "r = n mod 65536"
  have e: "n = q * 65535 + (r + q)" unfolding q_def r_def using div_mult_mod_eq [of n 65536] by linarith
  have "0 < q" using n by (simp add: q_def)
  then have "n - 1 = q * 65535 + (r + q - 1)" using e by linarith
  then have "(n - 1) mod 65535 = (r + q - 1) mod 65535" by simp
  then show ?thesis using n \<open>0 < q\<close> by (simp add: ones_residue_def q_def [symmetric] r_def [symmetric])
qed

lemma ones_residue_small: "n < 65536 \<Longrightarrow> ones_residue n = n"
  by (auto simp: ones_residue_def)

lemma cksum_fold_residue: "unat (cksum_fold sm) = ones_residue (unat sm)"
proof (induction sm rule: cksum_fold.induct)
  case (1 sm)
  show ?case
  proof (cases "drop_bit 16 sm = 0")
    case True
    then have "unat sm div 65536 = 0" using unat_halves(2) [of sm] by simp
    then have "unat sm < 65536" by (simp add: div_eq_0_iff)
    then show ?thesis using True by (simp add: cksum_fold.simps [of sm] ones_residue_small)
  next
    case False
    then have "unat sm div 65536 \<noteq> 0" using unat_halves(2) [of sm] by (metis unat_eq_zero)
    then have "65536 \<le> unat sm" by (simp add: div_eq_0_iff)
    then show ?thesis using 1 False fold_step [of sm] ones_residue_fold [of "unat sm"]
      by (simp add: cksum_fold.simps [of sm])
  qed
qed

lemma cksum_words_sum:
  assumes "unat sm + word_sum m a (unat len) < 2 ^ 32"
  shows "case cksum_words m sm a len of (s1, b1, l1) \<Rightarrow>
    unat (if l1 \<noteq> 0 then s1 + ucast (m b1) else s1) = unat sm + word_sum m a (unat len)"
  using assms
proof (induction m sm a len rule: cksum_words.induct)
  case (1 m sm a len)
  show ?case
  proof (cases "2 \<le> len")
    case True
    have len: "unat len = Suc (Suc (unat (len - 2)))"
      using True by (simp add: unat_sub word_le_nat_alt)
    have "unat (sm + ucast (load16 m a)) = unat sm + unat (load16 m a)"
      using 1(2) len by (simp add: unat_word_ariths)
    then show ?thesis using 1 True len by (simp add: cksum_words.simps [of m sm a len] add.assoc split: prod.splits)
  next
    case False
    then have "unat len = 0 \<or> unat len = 1" by (simp add: word_le_nat_alt) linarith
    then show ?thesis
    proof
      assume "unat len = 0"
      then have "len = 0" by (simp add: unat_eq_zero)
      then show ?thesis by (simp add: cksum_words.simps [of m sm a 0])
    next
      assume l: "unat len = 1"
      then have "len \<noteq> 0" by auto
      then show ?thesis using False l 1(2) by (simp add: cksum_words.simps [of m sm a len] unat_word_ariths)
    qed
  qed
qed

lemma ip_cksum_residue:
  assumes "unat prev + word_sum m a (unat len) < 2 ^ 32"
  shows "unat (ip_cksum prev a len m) = 65535 - ones_residue (unat prev + word_sum m a (unat len))"
proof -
  obtain s1 b1 l1 where w: "cksum_words m (ucast prev) a len = (s1, b1, l1)" by (metis prod_cases3)
  define t where "t = (if l1 \<noteq> 0 then s1 + ucast (m b1) else s1)"
  have t: "unat t = unat prev + word_sum m a (unat len)"
    using cksum_words_sum [of "ucast prev" m a len] assms by (simp add: w t_def)
  have r: "unat (cksum_fold t) = ones_residue (unat prev + word_sum m a (unat len))"
    by (simp add: cksum_fold_residue t)
  have le: "ones_residue n \<le> 65535" for n
  proof -
    have "(n - 1) mod 65535 < 65535" by simp
    then have "(n - 1) mod 65535 + 1 \<le> 65535" by linarith
    then show ?thesis by (simp only: ones_residue_def split: if_splits) simp
  qed
  have "unat (ucast (NOT f AND 0xFFFF) :: u16) = 65535 - unat f" if "unat f \<le> 65535" for f :: u32
  proof -
    have "NOT f = - 1 - f" by (simp add: not_eq_complement)
    then have n: "unat (NOT f) = 4294967295 - unat f"
      by (simp only: unat_sub [of f "- 1"] word_n1_ge unat_neg_one32)
    have "4294967295 - unat f = 65535 * 65536 + (65535 - unat f)" using that by linarith
    then have "(4294967295 - unat f) mod 65536 = (65535 - unat f) mod 65536" by (simp only: mod_mult_self3)
    then have "(4294967295 - unat f) mod 65536 = 65535 - unat f" using that by (simp only:) simp
    then show ?thesis
      by (simp only: unsigned_ucast_eq unat_halves(1) n) (simp add: take_bit_eq_mod)
  qed
  from this [of "cksum_fold t"] show ?thesis
    using le by (simp add: ip_cksum_def w t_def [symmetric] r)
qed

text \<open>A sum verifies exactly when it is a non-zero multiple of 65535.\<close>

lemma ones_residue_full: "ones_residue n = 65535 \<longleftrightarrow> n \<noteq> 0 \<and> 65535 dvd n"
proof (cases n)
  case (Suc k)
  have "k mod 65535 = 65534 \<longleftrightarrow> Suc k mod 65535 = 0" by (simp add: mod_Suc)
  then show ?thesis using Suc by (simp add: ones_residue_def dvd_eq_mod_eq_0)
qed (simp add: ones_residue_def)

lemma ones_residue_complement: "n + (65535 - ones_residue n) \<noteq> 0 \<and> 65535 dvd n + (65535 - ones_residue n)"
proof (cases n)
  case (Suc k)
  have lt: "k mod 65535 < 65535" by simp
  have res: "ones_residue n = k mod 65535 + 1" using Suc by (simp add: ones_residue_def)
  have "n = 65535 * (k div 65535) + (k mod 65535 + 1)" using Suc mult_div_mod_eq [of 65535 k] by linarith
  then have "n + (65535 - ones_residue n) = 65535 * (k div 65535) + 65535" using lt res by linarith
  then show ?thesis using Suc by simp
qed (simp add: ones_residue_def)

lemma word_sum_cong: "(\<And>i. i < n \<Longrightarrow> m' (a + of_nat i) = m (a + of_nat i)) \<Longrightarrow> word_sum m' a n = word_sum m a n"
proof (induction m a n rule: word_sum.induct)
  case (2 m a) then show ?case using "2.prems" [of 0] by simp
next
  case (3 m a n)
  have "load16 m' a = load16 m a" using "3.prems" [of 0] "3.prems" [of 1] by (simp add: load16_def)
  moreover have "word_sum m' (a + 2) n = word_sum m (a + 2) n"
    using "3.prems" [of "Suc (Suc _)"] by (intro "3.IH") (simp add: add.assoc)
  ultimately show ?case by simp
qed simp

text \<open>Storing a word at an even offset changes the sum by that word.\<close>

lemma offset_distinct: "i < 2 ^ 32 \<Longrightarrow> j < 2 ^ 32 \<Longrightarrow> (of_nat i :: addr) = of_nat j \<longleftrightarrow> i = j"
  by (simp add: word_unat_eq_iff unat_of_nat)

lemma word_sum_store16:
  "even k \<Longrightarrow> k + 2 \<le> n \<Longrightarrow> n < 2 ^ 32 \<Longrightarrow>
    word_sum (store16 m (a + of_nat k) v) a n + unat (load16 m (a + of_nat k)) = word_sum m a n + unat v"
proof (induction m a n arbitrary: k rule: word_sum.induct)
  case (3 m a n)
  have at: "store16 m (a + of_nat j) v (a + of_nat i) = m (a + of_nat i)"
    if "i \<noteq> j" "i \<noteq> Suc j" "i < 2 ^ 32" "Suc j < 2 ^ 32" for i j
  proof -
    have "a + of_nat i \<noteq> a + of_nat j" "a + of_nat i \<noteq> a + of_nat j + 1"
      using offset_distinct [of i j] offset_distinct [of i "Suc j"] that by (simp_all add: add.assoc add.commute [of 1])
    then show ?thesis by (simp add: store16_apply)
  qed
  show ?case
  proof (cases k)
    case 0
    have "word_sum (store16 m a v) (a + 2) n = word_sum m (a + 2) n"
    proof (rule word_sum_cong)
      fix i assume "i < n"
      then show "store16 m a v (a + 2 + of_nat i) = m (a + 2 + of_nat i)"
        using at [of "Suc (Suc i)" 0] "3.prems" by (simp add: add.assoc)
    qed
    then show ?thesis using 0 by simp
  next
    case (Suc j)
    then obtain i where i: "k = Suc (Suc i)" using 3(2) by (cases j) auto
    have off: "a + of_nat k = a + 2 + of_nat i" by (simp add: i add.assoc)
    have "load16 (store16 m (a + of_nat k) v) a = load16 m a"
      using at [of 0 k] at [of 1 k] "3.prems" i by (simp add: load16_def)
    then show ?thesis using 3(1) [of i] 3(2-) i off by (simp add: add.assoc)
  qed
qed simp_all

text \<open>A checksum field that is zero when the checksum is computed and then receives it.\<close>

lemma cksum_fill:
  assumes "even k" "k + 2 \<le> unat len" "unat len < 65536" "load16 m (a + of_nat k) = 0"
  shows "ip_cksum 0 a len (store16 m (a + of_nat k) (ip_cksum 0 a len m)) = 0"
proof -
  let ?S = "word_sum m a (unat len)" and ?c = "ip_cksum 0 a len m"
  let ?m = "store16 m (a + of_nat k) ?c"
  have "(unat len + 1) div 2 * 65535 \<le> 32768 * 65535" using assms(3) by (intro mult_le_mono1) simp
  then have bound: "word_sum x a (unat len) < 2 ^ 32" for x
    using word_sum_bound [of x a "unat len"] by simp
  have c: "unat ?c = 65535 - ones_residue ?S" using ip_cksum_residue [of 0 m a len] bound by simp
  have "word_sum ?m a (unat len) = ?S + unat ?c"
    using word_sum_store16 [OF assms(1,2), of m a ?c] assms(3,4) by simp
  then have "ones_residue (word_sum ?m a (unat len)) = 65535"
    using ones_residue_complement [of ?S] by (simp only: c ones_residue_full simp_thms)
  then have "unat (ip_cksum 0 a len ?m) = 0" using ip_cksum_residue [of 0 ?m a len] bound by simp
  then show ?thesis by (simp add: unat_eq_zero)
qed

text \<open>Filling in the checksum makes the area verify: when the checksum field, at an even offset of an area
  of at most 65535 bytes, is zero and then set to \<^verbatim>\<open>ip_cksum\<close> of the area, \<^verbatim>\<open>ip_cksum\<close> of the area is 0.\<close>

theorem ip_cksum_verifies:
  assumes "even k" "k + 2 \<le> unat len" "unat len < 65536" "load16 m (a + of_nat k) = 0"
  shows "ip_cksum 0 a len (store16 m (a + of_nat k) (ip_cksum 0 a len m)) = 0"
  using assms by (rule cksum_fill)

text \<open>C34: \<^verbatim>\<open>ip_cksum\<close> terminates and is the complement of the one's complement sum of the 16-bit words of any area of up to
  131070 bytes.\<close>

theorem ip_cksum_is_ones_complement:
  assumes "unat len \<le> 131070"
  shows "unat (ip_cksum 0 a len m) = 65535 - ones_residue (word_sum m a (unat len))"
proof -
  have "(unat len + 1) div 2 * 65535 \<le> 65535 * 65535" using assms by (intro mult_le_mono1) simp
  then have "word_sum m a (unat len) < 2 ^ 32" using word_sum_bound [of m a "unat len"] by simp
  then show ?thesis using ip_cksum_residue [of 0 m a len] by simp
qed

section \<open>Concrete instances\<close>

theorem ip_cksum_verifies_witness:
  "let m = (\<lambda>_. 0)(100 := 0x45, 103 := 0x54, 108 := 0x40, 109 := 1) in
   ip_cksum 0 100 20 (store16 m 110 (ip_cksum 0 100 20 m)) = 0"
  using ip_cksum_verifies [of 10 20 "(\<lambda>_. 0)(100 := 0x45, 103 := 0x54, 108 := 0x40, 109 := 1)" 100]
  by (simp add: load16_def Let_def)

theorem ip_cksum_is_ones_complement_witness:
  "unat (ip_cksum 0 100 2 ((\<lambda>_. 0)(100 := 0x45))) = 65535 - 0x45"
  using ip_cksum_is_ones_complement [of 2 100 "(\<lambda>_. 0)(100 := 0x45)"]
  by (simp add: word_sum_two load16_def ones_residue_def)

end
