(* ===== verification/Frog_Arp.thy ===== *)
theory Frog_Arp
  imports Frog_Net
begin

text \<open>
  arp.c and \<^verbatim>\<open>ether_sendframe\<close> of ether.c: an ARP request for the device's address is answered in a
  fresh buffer, which is handed to the driver.
\<close>

section \<open>Operations\<close>

text \<open>Calling a driver's \<^verbatim>\<open>tx_packet\<close> is a parameter: function, device, packet and length.\<close>

type_synonym 'a txcode = "addr \<Rightarrow> nat \<Rightarrow> addr \<Rightarrow> u16 \<Rightarrow> 'a net_scheme \<Rightarrow> int \<times> 'a net_scheme"

definition ether_sendframe :: "'a txcode \<Rightarrow> nat \<Rightarrow> addr \<Rightarrow> u32 \<Rightarrow> 'a net_scheme \<Rightarrow> int \<times> 'a net_scheme" where
  "ether_sendframe tx dev frame len s = tx (tx_packet (net_devs s ! dev)) dev frame (ucast len) s"

text \<open>The fields of \<^verbatim>\<open>arp_packet\<close>: \<^verbatim>\<open>htype\<close> 0, \<^verbatim>\<open>ptype\<close> 2, \<^verbatim>\<open>hlen\<close> 4, \<^verbatim>\<open>plen\<close> 5, \<^verbatim>\<open>oper\<close> 6, \<^verbatim>\<open>sha\<close> 8, \<^verbatim>\<open>spa\<close> 14,
  \<^verbatim>\<open>tha\<close> 18, \<^verbatim>\<open>tpa\<close> 24; of \<^verbatim>\<open>ether_frame\<close>: \<^verbatim>\<open>dest\<close> 0, \<^verbatim>\<open>src\<close> 6, \<^verbatim>\<open>type\<close> 12, \<^verbatim>\<open>payload\<close> 14.\<close>

definition arp_reply :: "u8 list \<Rightarrow> addr \<Rightarrow> addr \<Rightarrow> addr \<Rightarrow> byte_mem \<Rightarrow> byte_mem" where
  "arp_reply hw src packet frame m =
     (let arp = frame + 14;
          m1 = memcpy frame src 6 m;
          m2 = store_list (frame + 6) hw m1;
          m3 = store16 m2 (frame + 12) (htons 0x0806);
          m4 = store16 m3 arp (htons 1);
          m5 = store16 m4 (arp + 2) (htons 0x0800);
          m6 = m5(arp + 4 := 6);
          m7 = m6(arp + 5 := 4);
          m8 = store16 m7 (arp + 6) (htons 2);
          m9 = store_list (arp + 8) hw m8;
          m10 = store32 m9 (arp + 14) (load32 m9 (packet + 24));
          m11 = memcpy (arp + 18) src 6 m10
      in store32 m11 (arp + 24) (load32 m11 (packet + 14)))"

definition arp_process_packet :: "'a txcode \<Rightarrow> nat \<Rightarrow> addr \<Rightarrow> addr \<Rightarrow> addr \<Rightarrow> 'a net_scheme \<Rightarrow> 'a net_scheme option" where
  "arp_process_packet tx dev src dest packet s =
     (let m = mem s in
      if ntohs (load16 m packet) \<noteq> 1 \<or> ntohs (load16 m (packet + 2)) \<noteq> 0x0800
         \<or> m (packet + 4) \<noteq> 6 \<or> m (packet + 5) \<noteq> 4 then Some s
      else if ntohs (load16 m (packet + 6)) = 1 \<and> load32 m (packet + 24) = ipv4_addr (net_devs s ! dev) then
        map_option (\<lambda>(frame, s1).
          if frame \<noteq> 0
          then snd (ether_sendframe tx dev frame (14 + 28)
                 (s1\<lparr>mem := arp_reply (hw_addr (net_devs s1 ! dev)) src packet frame (mem s1)\<rparr>))
          else s1) (net_alloc s)
      else Some s)"

section \<open>The reply\<close>

text \<open>The 42 bytes of a reply.\<close>

definition arp_reply_bytes :: "u8 list \<Rightarrow> u8 list \<Rightarrow> u8 list \<Rightarrow> u8 list \<Rightarrow> u8 list" where
  "arp_reply_bytes sender hw tpa spa =
     sender @ hw @ [0x08, 0x06] @ [0, 1, 0x08, 0, 6, 4, 0, 2] @ hw @ tpa @ sender @ spa"

text \<open>Writes that continue a byte string.\<close>

lemma store_next: "a = frame + of_nat (length L) \<Longrightarrow> store_list a ys (store_list frame L m) = store_list frame (L @ ys) m"
  by (simp add: store_list_append)

lemma store16_next:
  "a = frame + of_nat (length L) \<Longrightarrow>
    store16 (store_list frame L m) a (htons v) = store_list frame (L @ [ucast (drop_bit 8 v), ucast v]) m"
  by (simp add: store_list_append store16_def)

lemma store32_next:
  "a = frame + of_nat (length L) \<Longrightarrow>
    store32 (store_list frame L m) a (load32 x p) = store_list frame (L @ bytes_at x p 4) m"
  by (simp add: store_list_append store32_def load32_bytes bytes_at_4 add.assoc)

lemma upd_next: "a = frame + of_nat (length L) \<Longrightarrow> (store_list frame L m)(a := b) = store_list frame (L @ [b]) m"
  by (simp add: store_list_append)

lemma store_keeps:
  assumes "length L \<le> n" "n < 2 ^ 32" "x \<notin> region frame n"
  shows "store_list frame L m x = m x"
  using assms region_mono [of "length L" n frame] by (intro store_list_out) auto

lemma arp_reply_list:
  assumes hw: "length hw = 6"
    and src: "region src 6 \<inter> region frame 42 = {}" and pkt: "region packet 28 \<inter> region frame 42 = {}"
  shows "arp_reply hw src packet frame m =
    store_list frame (arp_reply_bytes (bytes_at m src 6) hw (bytes_at m (packet + 24) 4) (bytes_at m (packet + 14) 4)) m"
proof -
  define S where "S = bytes_at m src 6"
  have lenS: "length S = 6" by (simp add: S_def)
  have out: "frame \<notin> region src 6" "frame + 32 \<notin> region src 6"
    using src by (auto simp: disjoint_iff dest: spec [of _ frame] spec [of _ "frame + 32"])
  have keepS: "bytes_at (store_list frame L m) src 6 = S" if "length L \<le> 42" for L
    unfolding S_def using src that
    by (intro bytes_at_cong store_keeps [of L 42]) (auto simp: disjoint_iff unat_of_nat)
  have keepP: "bytes_at (store_list frame L m) (packet + k) 4 = bytes_at m (packet + k) 4"
    if "length L \<le> 42" "unat k \<le> 24" for L k
  proof (intro bytes_at_cong store_keeps [OF that(1)])
    fix j :: nat assume "j < 4"
    then have "unat (k + of_nat j) < 28" using that(2) by (simp add: unat_word_ariths unat_of_nat)
    then show "packet + k + of_nat j \<notin> region frame 42" using pkt by (auto simp: disjoint_iff add.assoc)
  qed simp
  define L2 where "L2 = S @ hw"
  have m2: "store_list (frame + 6) hw (memcpy frame src 6 m) = store_list frame L2 m"
    unfolding L2_def using memcpy_store_list [of frame src 6 m] out(1) lenS
    by (simp add: S_def [symmetric] store_next)
  define L9 where "L9 = L2 @ [8, 6, 0, 1, 8, 0, 6, 4, 0, 2] @ hw"
  have len: "length L2 = 12" "length L9 = 28" by (simp_all add: L2_def L9_def lenS hw)
  have m9: "store_list (frame + 14 + 8) hw (store16 ((store16 (store16 (store16 (store_list frame L2 m)
      (frame + 12) (htons 0x0806)) (frame + 14) (htons 1)) (frame + 14 + 2) (htons 0x0800))
      (frame + 14 + 4 := 6, frame + 14 + 5 := 4)) (frame + 14 + 6) (htons 2)) = store_list frame L9 m"
  proof -
    have n: "(2054 :: u8) = 6" "(2048 :: u8) = 0" by simp_all
    show ?thesis unfolding L9_def by (simp add: store16_next upd_next store_next len n)
  qed
  let ?t = "bytes_at m (packet + 24) 4" and ?p = "bytes_at m (packet + 14) 4"
  have m10: "store32 (store_list frame L9 m) (frame + 14 + 14) (load32 (store_list frame L9 m) (packet + 24))
      = store_list frame (L9 @ ?t) m"
    using keepP [of L9 24] len by (simp add: store32_next)
  have e: "frame + 14 + 18 = frame + 32" by simp
  have m11: "memcpy (frame + 14 + 18) src 6 (store_list frame (L9 @ ?t) m) = store_list frame (L9 @ ?t @ S) m"
    unfolding e using memcpy_store_list [of "frame + 32" src 6 "store_list frame (L9 @ ?t) m"] keepS [of "L9 @ ?t"] out(2) len
    by (simp add: store_next)
  have m12: "store32 (store_list frame (L9 @ ?t @ S) m) (frame + 14 + 24) (load32 (store_list frame (L9 @ ?t @ S) m) (packet + 14))
      = store_list frame (L9 @ ?t @ S @ ?p) m"
    using keepP [of "L9 @ ?t @ S" 14] len lenS by (simp add: store32_next)
  have bytes: "arp_reply_bytes S hw ?t ?p = L9 @ ?t @ S @ ?p"
    by (simp add: arp_reply_bytes_def L9_def L2_def)
  show ?thesis unfolding S_def [symmetric] bytes
    by (simp only: arp_reply_def Let_def m2 m9 m10 m11 m12)
qed

text \<open>A request the device answers.\<close>

definition arp_request :: "u32 \<Rightarrow> addr \<Rightarrow> byte_mem \<Rightarrow> bool" where
  "arp_request ip packet m \<longleftrightarrow> ntohs (load16 m packet) = 1 \<and> ntohs (load16 m (packet + 2)) = 0x0800
     \<and> m (packet + 4) = 6 \<and> m (packet + 5) = 4 \<and> ntohs (load16 m (packet + 6)) = 1 \<and> load32 m (packet + 24) = ip"

lemma net_alloc_devs: "heap_ok s \<Longrightarrow> net_alloc s = Some (a, s') \<Longrightarrow> net_devs s' = net_devs s"
  by (auto simp: net_alloc_def alloc_one_block alloc_front_def Let_def bind_eq_Some_conv split: if_splits prod.splits)

text \<open>C33: A request for the device's own address that arrives outside the heap's free memory is answered, when there
  is a buffer, by one frame of 42 bytes: the reply from the device's addresses to the requester, swapped as ARP
  demands; every other packet is ignored. A request that finds no buffer is dropped.\<close>

theorem arp_answers_requests:
  assumes "pool_ok fr al s" "length (hw_addr (net_devs s ! dev)) = 6"
    and "region src 6 \<subseteq> F" "region packet 28 \<subseteq> F" "F \<inter> heap_free s = {}" "\<forall>p \<in> set fr. F \<inter> region p 2000 = {}"
  shows "if arp_request (ipv4_addr (net_devs s ! dev)) packet (mem s) then
      \<exists>frame s1. net_alloc s = Some (frame, s1)
        \<and> arp_process_packet tx dev src dest packet s = Some (if frame = 0 then s1
            else snd (tx (tx_packet (net_devs s ! dev)) dev frame 42 (s1\<lparr>mem := store_list frame
              (arp_reply_bytes (bytes_at (mem s) src 6) (hw_addr (net_devs s ! dev))
                (bytes_at (mem s) (packet + 24) 4) (bytes_at (mem s) (packet + 14) 4)) (mem s1)\<rparr>)))
    else arp_process_packet tx dev src dest packet s = Some s"
proof (cases "arp_request (ipv4_addr (net_devs s ! dev)) packet (mem s)")
  case False
  then show ?thesis by (auto simp: arp_request_def arp_process_packet_def Let_def)
next
  case True
  obtain frame s1 fr' where al: "net_alloc s = Some (frame, s1)" "frame \<noteq> 0 \<Longrightarrow> pool_ok fr' (frame # al) s1"
    "frame \<noteq> 0 \<Longrightarrow> frame \<in> set fr \<or> buf_area frame \<subseteq> heap_free s" "\<And>y. y \<notin> heap_free s \<Longrightarrow> mem s1 y = mem s y"
    using net_alloc_ok [OF assms(1)] by metis
  show ?thesis
  proof (cases "frame = 0")
    case True
    then show ?thesis using al(1) \<open>arp_request _ _ _\<close> by (auto simp: arp_request_def arp_process_packet_def Let_def)
  next
    case False
    have apart: "F \<inter> region frame 42 = {}"
      using al(3) [OF False] assms(5,6) region_mono [of 42 2000 frame] by (auto simp del: in_region)
    have same: "mem s1 y = mem s y" if "y \<in> F" for y using that assms(5) by (intro al(4)) blast
    have devs: "net_devs s1 = net_devs s" using net_alloc_devs [OF _ al(1)] assms(1) by (simp add: pool_ok_def)
    let ?hw = "hw_addr (net_devs s ! dev)"
    have eq: "bytes_at (mem s1) p n = bytes_at (mem s) p n" if "region p n \<subseteq> F" "n < 2 ^ 32" for p n
      using that same by (intro bytes_at_cong) (auto simp: subset_iff unat_of_nat)
    have sub: "region (packet + k) 4 \<subseteq> F" if "unat k \<le> 24" for k
      using assms(4) region_shift [of k 4 _ packet] that by (auto simp: subset_iff)
    have "arp_reply ?hw src packet frame (mem s1) = store_list frame (arp_reply_bytes (bytes_at (mem s) src 6) ?hw
        (bytes_at (mem s) (packet + 24) 4) (bytes_at (mem s) (packet + 14) 4)) (mem s1)"
      using apart assms(3,4) eq [OF assms(3)] eq [OF sub [of 24]] eq [OF sub [of 14]]
      by (subst arp_reply_list [OF assms(2)]) auto
    then show ?thesis using al(1) \<open>arp_request _ _ _\<close> False devs
      by (auto simp: arp_request_def arp_process_packet_def ether_sendframe_def Let_def)
  qed
qed

section \<open>Concrete instances\<close>

text \<open>A frame received below the heap: a request of 10.0.2.2 for 10.0.2.15.\<close>

definition sample_request :: "u8 list" where
  "sample_request = [255, 255, 255, 255, 255, 255, 82, 85, 10, 0, 2, 2, 8, 6, 0, 1, 8, 0, 6, 4, 0, 1,
     82, 85, 10, 0, 2, 2, 10, 0, 2, 2, 0, 0, 0, 0, 0, 0, 10, 0, 2, 15]"

definition received :: "u8 list \<Rightarrow> net" where
  "received bs = boot_net\<lparr>mem := store_list 0xC0105000 bs (mem boot_net),
     net_devs := (replicate 16 zero_netdev)[0 := zero_netdev\<lparr>hw_addr := [82, 84, 0, 18, 52, 86], ipv4_addr := 0x0F02000A\<rparr>]\<rparr>"

lemma low_not_free: "x \<in> region 0xC0105000 2048 \<Longrightarrow> x \<notin> heap_free boot_net"
  using region_absoluteD [of x "0xC0105000" 2048] by (auto simp: heap_free_def boot_net_simps word_le_nat_alt)

lemma received_pool: "length bs \<le> 2048 \<Longrightarrow> pool_ok [] [] (received bs)"
proof -
  assume l: "length bs \<le> 2048"
  have "heap_ok (received bs)"
  proof (rule heap_ok_cong [OF boot_net_simps(1)])
    fix x assume "x \<in> heap_free boot_net"
    then have "x \<notin> region 0xC0105000 (length bs)" using low_not_free region_mono [OF l] by blast
    then show "mem (received bs) x = mem boot_net x" using l by (simp add: received_def store_list_out)
  qed (simp add: received_def)
  then show ?thesis by (simp add: pool_ok_def buffers_apart_def received_def boot_net_simps)
qed

theorem arp_answers_requests_witness:
  "\<exists>frame s1. net_alloc (received sample_request) = Some (frame, s1)
     \<and> arp_process_packet (\<lambda>c d f n t. (1, t)) 0 0xC0105006 0xC0105000 0xC010500E (received sample_request)
       = Some (if frame = 0 then s1 else s1\<lparr>mem := store_list frame
           [82, 85, 10, 0, 2, 2, 82, 84, 0, 18, 52, 86, 8, 6, 0, 1, 8, 0, 6, 4, 0, 2,
            82, 84, 0, 18, 52, 86, 10, 0, 2, 15, 82, 85, 10, 0, 2, 2, 10, 0, 2, 2] (mem s1)\<rparr>)"
proof -
  let ?s = "received sample_request"
  have len: "length sample_request = 42" by (simp add: sample_request_def)
  have dev: "hw_addr (net_devs ?s ! 0) = [82, 84, 0, 18, 52, 86]" "ipv4_addr (net_devs ?s ! 0) = 0x0F02000A"
    by (simp_all add: received_def)
  define mm where "mm = mem ?s"
  have ms: "mm x = (let k = unat (x - 0xC0105000) in if k < 42 then sample_request ! k else mem boot_net x)" for x
    by (simp add: mm_def received_def store_list_apply len)
  have req: "arp_request (ipv4_addr (net_devs ?s ! 0)) 0xC010500E (mem ?s)"
    unfolding dev arp_request_def mm_def [symmetric] by (simp add: load16_def load32_def ms sample_request_def ntohs_def htons_def Let_def)
  have up: "[0..<6] = [0, 1, 2, 3, 4, 5 :: nat]" by (simp add: upt_rec)
  have bs: "bytes_at (mem ?s) 0xC0105006 6 = [82, 85, 10, 0, 2, 2]" "bytes_at (mem ?s) 0xC0105026 4 = [10, 0, 2, 15]"
    "bytes_at (mem ?s) 0xC010501C 4 = [10, 0, 2, 2]" unfolding mm_def [symmetric]
    by (simp_all add: bytes_at_4 ms sample_request_def Let_def) (simp add: bytes_at_def up ms sample_request_def Let_def)
  have F: "region 0xC0105000 2048 \<inter> heap_free ?s = {}"
    using low_not_free by (auto simp: heap_free_def received_def)
  have sub: "region 0xC0105006 6 \<subseteq> region (0xC0105000 :: addr) 2048" "region 0xC010500E 28 \<subseteq> region (0xC0105000 :: addr) 2048"
    using region_shift [of 6 6 _ "0xC0105000"] region_shift [of 14 28 _ "0xC0105000"] by auto
  have "length sample_request \<le> 2048" by (simp add: len)
  have "(0xC010500E :: addr) + 24 = 0xC0105026" "(0xC010500E :: addr) + 14 = 0xC010501C" by simp_all
  have hw: "length (hw_addr (net_devs ?s ! 0)) = 6" by (simp add: dev)
  have "\<forall>p \<in> set []. region 0xC0105000 2048 \<inter> region p 2000 = {}" by simp
  note reply = arp_answers_requests [OF received_pool [OF \<open>length sample_request \<le> 2048\<close>] hw sub F this,
      of "\<lambda>c d f n t. (1, t)" "0xC0105000"]
  note reply = reply [unfolded if_P [OF req]]
  note reply = reply [unfolded \<open>(0xC010500E :: addr) + 24 = 0xC0105026\<close> \<open>(0xC010500E :: addr) + 14 = 0xC010501C\<close> bs dev snd_conv]
  have "arp_reply_bytes [82, 85, 10, 0, 2, 2] [82, 84, 0, 18, 52, 86] [10, 0, 2, 15] [10, 0, 2, 2] =
      [82, 85, 10, 0, 2, 2, 82, 84, 0, 18, 52, 86, 8, 6, 0, 1, 8, 0, 6, 4, 0, 2,
       82, 84, 0, 18, 52, 86, 10, 0, 2, 15, 82, 85, 10, 0, 2, 2, 10, 0, 2, 2]" by (simp add: arp_reply_bytes_def)
  from reply [unfolded this] show ?thesis .
qed

end
