(* ===== verification/Frog_Icmp.thy ===== *)
theory Frog_Icmp
  imports Frog_Arp Frog_Cksum
begin

text \<open>
  icmp.c, the packet dispatch of ipv4.c and ether.c, and the address printing: an echo request is
  answered in a fresh buffer with a new IP header and the request's data.
\<close>

section \<open>Operations\<close>

text \<open>The fields of \<^verbatim>\<open>ip_packet\<close>: \<^verbatim>\<open>ihl\<close> and \<^verbatim>\<open>version\<close> in byte 0 (low and high half), \<^verbatim>\<open>tot_len\<close> 2, \<^verbatim>\<open>id\<close> 4,
  \<^verbatim>\<open>ttl\<close> 8, \<^verbatim>\<open>protocol\<close> 9, \<^verbatim>\<open>check\<close> 10, \<^verbatim>\<open>src\<close> 12, \<^verbatim>\<open>dest\<close> 16, \<^verbatim>\<open>payload\<close> 20; of \<^verbatim>\<open>icmp_packet\<close>:
  \<^verbatim>\<open>type\<close> 0, \<^verbatim>\<open>code\<close> 1, \<^verbatim>\<open>cksum\<close> 2, \<^verbatim>\<open>data\<close> 4.\<close>

definition echo_header :: "addr \<Rightarrow> addr \<Rightarrow> u32 \<Rightarrow> addr \<Rightarrow> byte_mem \<Rightarrow> byte_mem" where
  "echo_header frame ip len new_frame m =
     (let new_ip = new_frame + 14;
          m1 = memcpy new_frame (frame + 6) 6 m;
          m2 = memcpy (new_frame + 6) frame 6 m1;
          m3 = store16 m2 (new_frame + 12) (htons 0x0800);
          m4 = m3(new_ip := (m3 new_ip AND 0xF0) OR 5);
          m5 = m4(new_ip := (m4 new_ip AND 0x0F) OR 0x40);
          m6 = store16 m5 (new_ip + 2) (htons (ucast (20 + len)));
          m7 = store16 m6 (new_ip + 4) (load16 m6 (ip + 4));
          m8 = m7(new_ip + 8 := 64);
          m9 = m8(new_ip + 9 := 1);
          m10 = store32 m9 (new_ip + 12) (load32 m9 (ip + 16))
      in store32 m10 (new_ip + 16) (load32 m10 (ip + 12)))"

definition echo_reply :: "addr \<Rightarrow> addr \<Rightarrow> addr \<Rightarrow> u32 \<Rightarrow> addr \<Rightarrow> byte_mem \<Rightarrow> byte_mem" where
  "echo_reply frame ip packet len new_frame m =
     (let new_ip = new_frame + 14;
          m1 = echo_header frame ip len new_frame m;
          m2 = store16 m1 (new_ip + 10) (ip_cksum 0 new_ip 20 m1);
          new_packet = new_ip + 20;
          m3 = memcpy new_packet packet len m2;
          m4 = store16 m3 (new_packet + 2) 0;
          m5 = m4(new_packet := 0)
      in store16 m5 (new_packet + 2) (ip_cksum 0 new_packet len m5))"

definition icmp_process_packet :: "'a txcode \<Rightarrow> nat \<Rightarrow> addr \<Rightarrow> addr \<Rightarrow> addr \<Rightarrow> u32 \<Rightarrow> 'a net_scheme \<Rightarrow> 'a net_scheme option" where
  "icmp_process_packet tx dev frame ip packet len s =
     (if mem s packet = 8 then
        map_option (\<lambda>(new_frame, s1).
          if new_frame \<noteq> 0
          then snd (ether_sendframe tx dev new_frame (len + 20 + 14)
                 (s1\<lparr>mem := echo_reply frame ip packet len new_frame (mem s1)\<rparr>))
          else s1) (net_alloc s)
      else Some s)"

text \<open>The header checks of \<^verbatim>\<open>ipv4_process_packet\<close>, in the order of the code.\<close>

definition ip_ihl :: "byte_mem \<Rightarrow> addr \<Rightarrow> u32" where
  "ip_ihl m p = ucast (m p AND 0x0F)"

definition ip_version :: "byte_mem \<Rightarrow> addr \<Rightarrow> u32" where
  "ip_version m p = ucast (drop_bit 4 (m p))"

definition ipv4_process_packet :: "'a txcode \<Rightarrow> nat \<Rightarrow> addr \<Rightarrow> addr \<Rightarrow> u32 \<Rightarrow> 'a net_scheme \<Rightarrow> 'a net_scheme option" where
  "ipv4_process_packet tx dev frame packet len s =
     (let m = mem s; ihl = ip_ihl m packet in
      if ip_version m packet \<noteq> 4 \<or> ihl < 5 \<or> len < ihl * 4 \<or> ip_cksum 0 packet (4 * ihl) m \<noteq> 0 then Some s
      else if m (packet + 9) = 1
      then icmp_process_packet tx dev frame packet (packet + 20) (len - 4 * ihl) s
      else Some s)"

text \<open>\<^verbatim>\<open>eth_ntoa\<close> and \<^verbatim>\<open>inet_ntoa\<close> print into static buffers, whose addresses are parameters; \<open>hw\<close> are the six
  bytes at the pointer.\<close>

definition eth_ntoa :: "addr \<Rightarrow> u8 list \<Rightarrow> 'a con_scheme \<Rightarrow> (addr \<times> 'a con_scheme) option" where
  "eth_ntoa buff hw s =
     map_option (\<lambda>(_, s'). (buff, s'))
       (sprintf buff (cbytes ''%02x:%02x:%02x:%02x:%02x:%02x'')
         [ucast (hw ! 0), ucast (hw ! 1), ucast (hw ! 2), ucast (hw ! 3), ucast (hw ! 4), ucast (hw ! 5)] s)"

definition inet_ntoa :: "addr \<Rightarrow> u32 \<Rightarrow> 'a con_scheme \<Rightarrow> (addr \<times> 'a con_scheme) option" where
  "inet_ntoa buff ip s =
     map_option (\<lambda>(_, s'). (buff, s'))
       (sprintf buff (cbytes ''%d.%d.%d.%d'')
         [ip AND 0xFF, drop_bit 8 ip AND 0xFF, drop_bit 16 ip AND 0xFF, drop_bit 24 ip] s)"

definition ether_wol :: "addr \<Rightarrow> addr \<Rightarrow> addr \<Rightarrow> u16 \<Rightarrow> 'a con_scheme \<Rightarrow> 'a con_scheme option" where
  "ether_wol local buff frame len s =
     Option.bind (eth_ntoa buff (bytes_at (mem s) (frame + 6) 6) s) (\<lambda>(p1, s1).
     Option.bind (printf local (cbytes ''WOL: %d %s '') [ucast len, p1] s1) (\<lambda>(_, s2).
     Option.bind (eth_ntoa buff (bytes_at (mem s2) frame 6) s2) (\<lambda>(p2, s3).
     map_option snd (printf local (cbytes ''-> %s\<newline>'') [p2] s3))))"

definition ether_process_frame :: "'a txcode \<Rightarrow> addr \<Rightarrow> addr \<Rightarrow> nat \<Rightarrow> addr \<Rightarrow> u16 \<Rightarrow> 'a net_scheme \<Rightarrow> 'a net_scheme option" where
  "ether_process_frame tx local buff dev frame len s =
     (let type = ntohs (load16 (mem s) (frame + 12)) in
      if type < 1536 then Some s
      else if type = 0x0800 then ipv4_process_packet tx dev frame (frame + 14) (ucast len - 14 - 4) s
      else if type = 0x0806 then arp_process_packet tx dev (frame + 6) frame (frame + 14) s
      else if type = 0x0842 then ether_wol local buff frame len s
      else Some s)"

section \<open>The echo reply\<close>

lemma ip_cksum_cong:
  assumes "unat len < 65536" "\<And>i. i < unat len \<Longrightarrow> m' (a + of_nat i) = m (a + of_nat i)"
  shows "ip_cksum 0 a len m' = ip_cksum 0 a len m"
proof -
  have "(unat len + 1) div 2 * 65535 \<le> 32768 * 65535" using assms(1) by (intro mult_le_mono1) simp
  then have "word_sum x a (unat len) < 2 ^ 32" for x using word_sum_bound [of x a "unat len"] by simp
  then have "unat (ip_cksum 0 a len m') = unat (ip_cksum 0 a len m)"
    using ip_cksum_residue [of 0 _ a len] word_sum_cong [of "unat len" m' a m] assms(2) by simp
  then show ?thesis by (simp add: word_unat_eq_iff)
qed

text \<open>The received frame lies apart from the new buffer.\<close>

definition apart_from :: "addr \<Rightarrow> addr \<Rightarrow> nat \<Rightarrow> bool" where
  "apart_from new_frame a n \<longleftrightarrow> region a n \<inter> region new_frame 2000 = {}"

lemma apart_start: "apart_from nf a n \<Longrightarrow> unat k < 2000 \<Longrightarrow> nf + k \<notin> region a n"
  by (auto simp: apart_from_def disjoint_iff)

lemma apart_byte: "apart_from nf a n \<Longrightarrow> unat i < n \<Longrightarrow> a + i \<notin> region nf 2000"
  by (auto simp: apart_from_def disjoint_iff)

text \<open>A byte that is already zero counts as written.\<close>

lemma store_gap:
  assumes "m (frame + of_nat (length L)) = 0" "Suc (length L) < 2 ^ 32"
  shows "store_list frame L m = store_list frame (L @ [0]) m"
proof -
  have "unat (of_nat (length L) :: addr) = length L" using assms(2) by (simp add: unat_of_nat)
  then have "store_list frame L m (frame + of_nat (length L)) = 0" using assms by (simp add: store_list_apply)
  then show ?thesis by (simp add: store_list_append fun_upd_idem)
qed

lemma store16_load_next:
  "a = frame + of_nat (length L) \<Longrightarrow>
    store16 (store_list frame L m) a (load16 x p) = store_list frame (L @ [x p, x (p + 1)]) m"
  by (simp add: store_list_append store16_def load16_bytes)

lemma version_ihl: "(((b :: u8) AND 0xF0) OR 5) AND 0x0F OR 0x40 = 0x45"
proof -
  have "(b AND 0xF0) AND 0x0F = 0" by (simp add: and.assoc)
  then show ?thesis by (simp add: bit.conj_disj_distrib2)
qed

text \<open>The 34 bytes in front of the ICMP packet, before the header checksum is filled in.\<close>

definition echo_header_bytes :: "u8 list \<Rightarrow> u8 list \<Rightarrow> u16 \<Rightarrow> u8 list \<Rightarrow> u8 list \<Rightarrow> u8 list \<Rightarrow> u8 list" where
  "echo_header_bytes sender receiver len ident src dst =
     sender @ receiver @ [0x08, 0x00] @ [0x45, 0, ucast (drop_bit 8 len), ucast len] @ ident @ [0, 0, 64, 1, 0, 0] @ dst @ src"

lemma echo_header_list:
  assumes ap: "apart_from nf frame 14" "apart_from nf ip 20"
    and zero: "\<And>x. x \<in> region nf 2000 \<Longrightarrow> x \<notin> region nf 4 \<Longrightarrow> m x = 0"
  shows "echo_header frame ip len nf m = store_list nf (echo_header_bytes (bytes_at m (frame + 6) 6) (bytes_at m frame 6)
    (ucast (20 + len)) [m (ip + 4), m (ip + 5)] (bytes_at m (ip + 12) 4) (bytes_at m (ip + 16) 4)) m"
proof -
  define S D where "S = bytes_at m (frame + 6) 6" and "D = bytes_at m frame 6"
  have lenSD: "length S = 6" "length D = 6" by (simp_all add: S_def D_def)
  have keep: "store_list nf L m x = m x" if "length L \<le> 2000" "x \<notin> region nf 2000" for L x
    using that by (intro store_keeps [of L 2000]) auto
  have keepD: "bytes_at (store_list nf L m) frame 6 = D" if "length L \<le> 2000" for L unfolding D_def
    by (intro bytes_at_cong keep [OF that] apart_byte [OF ap(1)]) (simp add: unat_of_nat)
  have keepI: "store_list nf L m (ip + k) = m (ip + k)" if "length L \<le> 2000" "unat k < 20" for L k
    by (rule keep [OF that(1) apart_byte [OF ap(2) that(2)]])
  have gap: "store_list nf L m = store_list nf (L @ [0]) m" if "4 \<le> length L" "length L < 2000" for L
  proof (rule store_gap)
    have "unat (of_nat (length L) :: addr) = length L" using that by (simp add: unat_of_nat)
    then show "m (nf + of_nat (length L)) = 0" using that by (intro zero) simp_all
  qed (use that in simp)
  have "nf \<notin> region (frame + 6) 6"
    using apart_start [OF ap(1), of 0] region_shift [of 6 6 nf frame] by auto
  then have m1: "memcpy nf (frame + 6) 6 m = store_list nf S m"
    using memcpy_store_list [of nf "frame + 6" 6 m] by (simp add: S_def)
  have "nf + 6 \<notin> region frame 6" using apart_start [OF ap(1), of 6] region_mono [of 6 14 frame] by auto
  then have m2: "memcpy (nf + 6) frame 6 (store_list nf S m) = store_list nf (S @ D) m"
    using memcpy_store_list [of "nf + 6" frame 6 "store_list nf S m"] lenSD by (simp add: keepD store_next)
  define L3 where "L3 = S @ D @ [8, 0]"
  have n: "(2048 :: u8) = 0" by simp
  have m3: "store16 (store_list nf (S @ D) m) (nf + 12) (htons 0x0800) = store_list nf L3 m"
    by (simp add: store16_next lenSD L3_def n)
  have len3: "length L3 = 14" by (simp add: L3_def lenSD)
  define L5 where "L5 = L3 @ [0x45, 0]"
  have len5: "length L5 = 16" by (simp add: L5_def len3)
  have m5: "(X(nf + 14 := (X (nf + 14) AND 0xF0) OR 5)) (nf + 14 := ((X(nf + 14 := (X (nf + 14) AND 0xF0) OR 5)) (nf + 14) AND 0x0F) OR 0x40)
      = store_list nf L5 m" if "X = store_list nf L3 m" for X
  proof -
    have "(X(nf + 14 := 0x45)) = store_list nf (L3 @ [0x45]) m" using that by (simp add: upd_next len3)
    also have "\<dots> = store_list nf L5 m" using gap [of "L3 @ [0x45]"] len3 by (simp add: L5_def)
    finally show ?thesis by (simp add: version_ihl)
  qed
  define L6 where "L6 = L5 @ [ucast (drop_bit 8 (ucast (20 + len) :: u16)), ucast (ucast (20 + len) :: u16)]"
  have len6: "length L6 = 18" by (simp add: L6_def len5)
  have m6: "store16 (store_list nf L5 m) (nf + 14 + 2) (htons (ucast (20 + len))) = store_list nf L6 m"
    unfolding L6_def by (rule store16_next) (simp add: len5)
  define L7 where "L7 = L6 @ [m (ip + 4), m (ip + 5), 0, 0]"
  have len7: "length L7 = 22" by (simp add: L7_def len6)
  have m7: "store16 (store_list nf L6 m) (nf + 14 + 4) (load16 (store_list nf L6 m) (ip + 4)) = store_list nf L7 m"
  proof -
    have "store16 (store_list nf L6 m) (nf + 14 + 4) (load16 (store_list nf L6 m) (ip + 4))
        = store_list nf (L6 @ [m (ip + 4), m (ip + 5)]) m"
      using keepI [of L6 4] keepI [of L6 5] len6 by (subst store16_load_next) (simp_all add: add.assoc)
    also have "\<dots> = store_list nf L7 m"
      using gap [of "L6 @ [m (ip + 4), m (ip + 5)]"] gap [of "L6 @ [m (ip + 4), m (ip + 5), 0]"] len6 by (simp add: L7_def)
    finally show ?thesis .
  qed
  define L9 where "L9 = L7 @ [64, 1, 0, 0]"
  have len9: "length L9 = 26" by (simp add: L9_def len7)
  have m9: "(store_list nf L7 m)(nf + 14 + 8 := 64, nf + 14 + 9 := 1) = store_list nf L9 m"
  proof -
    have "(store_list nf L7 m)(nf + 14 + 8 := 64, nf + 14 + 9 := 1) = store_list nf (L7 @ [64, 1]) m"
      by (simp add: upd_next len7)
    also have "\<dots> = store_list nf L9 m" using gap [of "L7 @ [64, 1]"] gap [of "L7 @ [64, 1, 0]"] len7 by (simp add: L9_def)
    finally show ?thesis .
  qed
  have keepB: "bytes_at (store_list nf L m) (ip + k) 4 = bytes_at m (ip + k) 4" if "length L \<le> 2000" "unat k \<le> 16" for L k
  proof (intro bytes_at_cong keep [OF that(1)])
    fix j :: nat assume "j < 4"
    then have "unat (k + of_nat j) < 20" using that(2) by (simp add: unat_word_ariths unat_of_nat)
    from apart_byte [OF ap(2) this] show "ip + k + of_nat j \<notin> region nf 2000" by (simp only: add.assoc) simp
  qed
  let ?d = "bytes_at m (ip + 16) 4" and ?s = "bytes_at m (ip + 12) 4"
  have m10: "store32 (store_list nf L9 m) (nf + 14 + 12) (load32 (store_list nf L9 m) (ip + 16)) = store_list nf (L9 @ ?d) m"
    using keepB [of L9 16] len9 by (simp add: store32_next)
  have m11: "store32 (store_list nf (L9 @ ?d) m) (nf + 14 + 16) (load32 (store_list nf (L9 @ ?d) m) (ip + 12))
      = store_list nf (L9 @ ?d @ ?s) m"
    using keepB [of "L9 @ ?d" 12] len9 by (simp add: store32_next)
  have "echo_header_bytes S D (ucast (20 + len)) [m (ip + 4), m (ip + 5)] ?s ?d = L9 @ ?d @ ?s"
    by (simp add: echo_header_bytes_def L9_def L7_def L6_def L5_def L3_def)
  then show ?thesis unfolding S_def [symmetric] D_def [symmetric]
    by (simp only: echo_header_def Let_def m1 m2 m3 m5 m6 m7 m9 m10 m11)
qed

text \<open>Stores into a byte string already written.\<close>

lemma upd_inside:
  assumes "k < length L" "length L < 2 ^ 32"
  shows "(store_list a L m)(a + of_nat k := b) = store_list a (L[k := b]) m"
proof
  fix x
  have k: "unat (of_nat k :: addr) = k" using assms by (simp add: unat_of_nat)
  have "x = a + of_nat k \<longleftrightarrow> x - a = of_nat k" by (auto simp: diff_eq_eq add.commute)
  also have "\<dots> \<longleftrightarrow> unat (x - a) = k" by (simp add: word_unat_eq_iff k)
  finally have "x = a + of_nat k \<longleftrightarrow> unat (x - a) = k" .
  then show "((store_list a L m)(a + of_nat k := b)) x = store_list a (L[k := b]) m x"
    using assms k by (auto simp: store_list_apply Let_def)
qed

lemma store16_inside:
  assumes "Suc k < length L" "length L < 2 ^ 32"
  shows "store16 (store_list a L m) (a + of_nat k) v = store_list a (L[k := ucast v, Suc k := ucast (drop_bit 8 v)]) m"
proof -
  have "a + of_nat k + 1 = a + of_nat (Suc k)" by (simp add: add.assoc add.commute [of 1])
  then show ?thesis unfolding store16_def using assms upd_inside [of k L a m] upd_inside [of "Suc k" "L[k := ucast v]" a m]
    by (simp only: length_list_update)
qed

text \<open>The whole reply: the header with its checksum, then the request's ICMP packet with type 0 and a new checksum.\<close>

definition fill16 :: "nat \<Rightarrow> u16 \<Rightarrow> u8 list \<Rightarrow> u8 list" where
  "fill16 k v bs = bs[k := ucast v, Suc k := ucast (drop_bit 8 v)]"

lemma length_fill16 [simp]: "length (fill16 k v bs) = length bs"
  by (simp add: fill16_def)

lemma length_echo_header_bytes:
  "length (echo_header_bytes (bytes_at m a 6) (bytes_at m b 6) n [c, d] (bytes_at m e 4) (bytes_at m f 4)) = 34"
  by (simp add: echo_header_bytes_def)

lemma echo_header_check:
  assumes "length A = 6" "length B = 6" "length I = 2"
  shows "echo_header_bytes A B n I S D ! 24 = 0" "echo_header_bytes A B n I S D ! 25 = 0"
  using assms by (simp_all add: echo_header_bytes_def nth_append)

lemma echo_reply_list:
  assumes ap: "apart_from nf frame 14" "apart_from nf ip 20" "apart_from nf packet (unat len)"
    and len: "4 \<le> unat len" "unat len \<le> 1966"
    and zero: "\<And>x. x \<in> region nf 2000 \<Longrightarrow> x \<notin> region nf 4 \<Longrightarrow> m x = 0"
  defines "H \<equiv> echo_header_bytes (bytes_at m (frame + 6) 6) (bytes_at m frame 6)
    (ucast (20 + len)) [m (ip + 4), m (ip + 5)] (bytes_at m (ip + 12) 4) (bytes_at m (ip + 16) 4)"
    and "D \<equiv> bytes_at m packet (unat len)"
    and "m' \<equiv> echo_reply frame ip packet len nf m"
  shows "\<exists>hc pc. m' = store_list nf (fill16 24 hc H @ fill16 2 pc (D[0 := 0])) m
    \<and> ip_cksum 0 (nf + 14) 20 m' = 0 \<and> ip_cksum 0 (nf + 34) len m' = 0"
proof -
  have lenH: "length H = 34" unfolding H_def by (rule length_echo_header_bytes)
  have lenD: "length D = unat len" by (simp add: D_def)
  have e10: "nf + 14 + 10 = nf + 24" and e20: "nf + 14 + 20 = nf + 34" and e22: "nf + 34 + 2 = nf + 36" by simp_all
  have m1: "echo_header frame ip len nf m = store_list nf H m" unfolding H_def by (rule echo_header_list [OF ap(1,2) zero])
  define hc where "hc = ip_cksum 0 (nf + 14) 20 (store_list nf H m)"
  define H' where "H' = fill16 24 hc H"
  have m2: "store16 (store_list nf H m) (nf + 14 + 10) hc = store_list nf H' m"
    using store16_inside [of 24 H nf m hc] lenH unfolding e10 by (simp add: H'_def fill16_def)
  have lenH': "length H' = 34" by (simp add: H'_def lenH)
  have "nf + 34 \<notin> region packet (unat len)" by (rule apart_start [OF ap(3)]) simp
  moreover have "bytes_at (store_list nf H' m) packet (unat len) = D" unfolding D_def
  proof (rule bytes_at_cong)
    fix i assume "i < unat len"
    then have "packet + of_nat i \<notin> region nf 2000" using len by (intro apart_byte [OF ap(3)]) (simp add: unat_of_nat)
    then show "store_list nf H' m (packet + of_nat i) = m (packet + of_nat i)"
      by (intro store_keeps [of H' 2000]) (simp_all add: lenH')
  qed
  ultimately have m3: "memcpy (nf + 14 + 20) packet len (store_list nf H' m) = store_list nf (H' @ D) m"
    unfolding e20 using memcpy_store_list [of "nf + 34" packet len "store_list nf H' m"] lenH' by (simp add: store_next)
  define D5 where "D5 = D[2 := 0, Suc 2 := 0, 0 := 0]"
  have m5: "(store16 (store_list nf (H' @ D) m) (nf + 14 + 20 + 2) 0)(nf + 14 + 20 := 0) = store_list nf (H' @ D5) m"
    using store16_inside [of 36 "H' @ D" nf m 0] upd_inside [of 34 "H' @ D[2 := 0, Suc 2 := 0]" nf m 0] lenH' lenD len
    unfolding e20 e22 by (simp add: D5_def list_update_append)
  define pc where "pc = ip_cksum 0 (nf + 34) len (store_list nf (H' @ D5) m)"
  have lenD5: "length D5 = unat len" by (simp add: D5_def lenD)
  have "fill16 2 pc D5 = fill16 2 pc (D[0 := 0])"
    by (rule nth_equalityI) (use len lenD in \<open>simp_all add: fill16_def D5_def nth_list_update\<close>)
  then have m6: "store16 (store_list nf (H' @ D5) m) (nf + 14 + 20 + 2) pc = store_list nf (H' @ fill16 2 pc (D[0 := 0])) m"
    using store16_inside [of 36 "H' @ D5" nf m pc] lenH' lenD5 len unfolding e20 e22 by (simp add: fill16_def list_update_append)
  have m': "m' = store_list nf (H' @ fill16 2 pc (D[0 := 0])) m"
    by (simp only: m'_def echo_reply_def Let_def m1 hc_def [symmetric] m2 m3 m5) (simp only: e20 pc_def [symmetric] m6 [unfolded e20])
  have at: "store_list nf L m (nf + k) = L ! unat k" if "unat k < length L" "length L \<le> 2000" for L k
    using that by (simp add: store_list_apply)
  have "ip_cksum 0 (nf + 14) 20 (store16 (store_list nf H m) (nf + 14 + of_nat 10) hc) = 0"
    unfolding hc_def
  proof (rule cksum_fill)
    have "store_list nf H m (nf + 24) = 0" "store_list nf H m (nf + 25) = 0"
      using at [of 24 H] at [of 25 H] lenH by (simp_all add: H_def echo_header_check)
    then show "load16 (store_list nf H m) (nf + 14 + of_nat 10) = 0" by (simp add: load16_def add.commute [of nf])
  qed simp_all
  then have "ip_cksum 0 (nf + 14) 20 (store_list nf H' m) = 0" using m2 by simp
  moreover have "ip_cksum 0 (nf + 14) 20 m' = ip_cksum 0 (nf + 14) 20 (store_list nf H' m)"
  proof (rule ip_cksum_cong)
    fix i assume "i < unat (20 :: u32)"
    then have i: "unat (14 + of_nat i :: addr) = 14 + i" "i < 20" by (simp_all add: unat_word_ariths unat_of_nat)
    then show "m' (nf + 14 + of_nat i) = store_list nf H' m (nf + 14 + of_nat i)"
      using at [of "14 + of_nat i" H'] at [of "14 + of_nat i" "H' @ fill16 2 pc (D[0 := 0])"] lenH' lenD len
      by (simp add: m' add.assoc nth_append)
  qed simp
  ultimately have c1: "ip_cksum 0 (nf + 14) 20 m' = 0" by simp
  have c2: "ip_cksum 0 (nf + 34) len (store16 (store_list nf (H' @ D5) m) (nf + 34 + of_nat 2) pc) = 0"
    unfolding pc_def
  proof (rule cksum_fill)
    have "D5 ! 2 = 0" "D5 ! 3 = 0" using len lenD by (simp_all add: D5_def nth_list_update)
    then have "store_list nf (H' @ D5) m (nf + 36) = 0" "store_list nf (H' @ D5) m (nf + 37) = 0"
      using at [of 36 "H' @ D5"] at [of 37 "H' @ D5"] lenH' lenD5 len by (simp_all add: nth_append)
    then show "load16 (store_list nf (H' @ D5) m) (nf + 34 + of_nat 2) = 0" by (simp add: load16_def add.commute [of nf])
  qed (use len in simp_all)
  then have "ip_cksum 0 (nf + 34) len m' = 0" using m6 m' by simp
  then show ?thesis using m' c1 unfolding H'_def by blast
qed

text \<open>Whatever the request, the reply is written inside the new buffer.\<close>

lemma echo_reply_out:
  assumes "x \<notin> region nf 2000" "unat len \<le> 1966"
  shows "echo_reply frame ip packet len nf m x = m x"
proof -
  have k: "x \<noteq> nf + k" if "unat k < 2000" for k using assms(1) that by auto
  have copy: "memcpy (nf + k) s n m x = m x" if "unat k + unat n \<le> 2000" for k s n m
  proof (rule memcpy_out)
    show "x \<notin> region (nf + k) (unat n)" using assms(1) that region_shift [of k "unat n" x nf] by auto
  qed
  have s16: "store16 m (nf + k) v x = m x" if "unat k < 1999" for k v m
  proof -
    have "unat (k + 1) = Suc (unat k)" using that by (simp add: unat_word_ariths)
    then show ?thesis using k [of k] k [of "k + 1"] that by (simp add: store16_apply add.assoc)
  qed
  have s32: "store32 m (nf + k) v x = m x" if "unat k < 1997" for k v m
  proof -
    have "unat (k + 1) = unat k + 1" "unat (k + 2) = unat k + 2" "unat (k + 3) = unat k + 3" using that by (simp_all add: unat_word_ariths)
    then show ?thesis using k [of k] k [of "k + 1"] k [of "k + 2"] k [of "k + 3"] that by (simp add: store32_apply add.assoc)
  qed
  have head: "echo_header frame ip len nf m x = m x"
    using copy [of 0 6] copy [of 6 6] k [of 14] k [of 22] k [of 23] s16 [of 12] s16 [of 16] s16 [of 18] s32 [of 26] s32 [of 30]
    by (simp add: echo_header_def Let_def add.assoc)
  show ?thesis unfolding echo_reply_def Let_def
    using head copy [of 34 len] k [of 34] s16 [of 24] s16 [of 36] assms(2) by (simp add: add.assoc)
qed

section \<open>From the frame to the reply\<close>

text \<open>A frame that carries an echo request: an IPv4 packet without options and with a correct header checksum.\<close>

definition echo_request :: "addr \<Rightarrow> byte_mem \<Rightarrow> bool" where
  "echo_request frame m \<longleftrightarrow> ntohs (load16 m (frame + 12)) = 0x0800 \<and> m (frame + 14) = 0x45
     \<and> ip_cksum 0 (frame + 14) 20 m = 0 \<and> m (frame + 23) = 1 \<and> m (frame + 34) = 8"

lemma echo_request_dispatch:
  assumes "echo_request frame (mem s)" "42 \<le> unat len"
  shows "ether_process_frame tx local buff dev frame len s =
    icmp_process_packet tx dev frame (frame + 14) (frame + 34) (ucast len - 38) s"
proof -
  let ?l = "ucast len - 14 - 4 :: u32"
  have v: "ip_version (mem s) (frame + 14) = 4" "ip_ihl (mem s) (frame + 14) = 5"
    using assms(1) by (simp_all add: echo_request_def ip_version_def ip_ihl_def)
  have "38 \<le> (ucast len :: u32)" using assms(2) by (simp add: word_le_nat_alt)
  then have "unat (ucast len - 18 :: u32) = unat len - 18" using assms(2) by (subst unat_sub) (simp_all add: word_le_nat_alt)
  then have "\<not> ?l < 20" using assms(2) by (simp add: word_less_nat_alt)
  then show ?thesis using assms(1) v
    by (simp add: ether_process_frame_def ipv4_process_packet_def echo_request_def Let_def add.commute [of frame])
qed

lemma echo_answered:
  assumes "pool_ok fr al s" "region frame (unat len) \<subseteq> F" "F \<inter> heap_free s = {}" "\<forall>p \<in> set fr. F \<inter> region p 2000 = {}"
    and "echo_request frame (mem s)" "42 \<le> unat len" "unat len \<le> 2004"
  shows "\<exists>nf s1. net_alloc s = Some (nf, s1) \<and>
    (if nf = 0 then ether_process_frame tx local buff dev frame len s = Some s1
     else \<exists>hc pc m'. ether_process_frame tx local buff dev frame len s =
         Some (snd (tx (tx_packet (net_devs s ! dev)) dev nf (len - 4) (s1\<lparr>mem := m'\<rparr>)))
       \<and> m' = store_list nf
          (fill16 24 hc (echo_header_bytes (bytes_at (mem s) (frame + 6) 6) (bytes_at (mem s) frame 6) (len - 18)
             (bytes_at (mem s) (frame + 18) 2) (bytes_at (mem s) (frame + 26) 4) (bytes_at (mem s) (frame + 30) 4))
           @ fill16 2 pc ((bytes_at (mem s) (frame + 34) (unat len - 38))[0 := 0])) (mem s1)
       \<and> ip_cksum 0 (nf + 14) 20 m' = 0 \<and> ip_cksum 0 (nf + 34) (ucast len - 38) m' = 0)"
proof -
  let ?n = "ucast len - 38 :: u32"
  have n: "unat ?n = unat len - 38" using assms(6) by (subst unat_sub) (simp_all add: word_le_nat_alt)
  obtain nf s1 fr' where al: "net_alloc s = Some (nf, s1)"
    "nf \<noteq> 0 \<Longrightarrow> nf \<in> set fr \<or> buf_area nf \<subseteq> heap_free s"
    "\<And>y. nf \<noteq> 0 \<Longrightarrow> y \<in> buf_area nf \<Longrightarrow> y \<notin> region nf 4 \<Longrightarrow> mem s1 y = 0"
    "\<And>y. y \<notin> heap_free s \<Longrightarrow> mem s1 y = mem s y"
    using net_alloc_ok [OF assms(1)] by metis
  have icmp: "ether_process_frame tx local buff dev frame len s = Some (if nf = 0 then s1
      else snd (tx (tx_packet (net_devs s1 ! dev)) dev nf (ucast (?n + 20 + 14))
        (s1\<lparr>mem := echo_reply frame (frame + 14) (frame + 34) ?n nf (mem s1)\<rparr>)))"
    unfolding echo_request_dispatch [OF assms(5,6)] using al(1) assms(5)
    by (simp add: icmp_process_packet_def echo_request_def ether_sendframe_def)
  show ?thesis
  proof (cases "nf = 0")
    case True then show ?thesis using al(1) icmp by simp
  next
    case False
    have same: "mem s1 y = mem s y" if "y \<in> region frame (unat len)" for y
      using that assms(2,3) by (intro al(4)) blast
    have inF: "frame + k \<in> region frame (unat len)" if "unat k < unat len" for k using that by simp
    have sub: "region (frame + k) j \<subseteq> F" if "unat k + j \<le> unat len" for k j
    proof -
      have "unat len < 2 ^ 16" using unsigned_less [of len] by simp
      then have "region (frame + k) j \<subseteq> region frame (unat len)"
        using region_shift [of k j _ frame] that by auto
      then show ?thesis using assms(2) by blast
    qed
    have len16: "unat len < 2 ^ 16" using unsigned_less [of len] by simp
    have bytes: "bytes_at (mem s1) (frame + k) j = bytes_at (mem s) (frame + k) j" if "unat k + j \<le> unat len" for k j
    proof (rule bytes_at_cong)
      fix i assume "i < j"
      then have "unat (k + of_nat i) < unat len"
        using that len16 by (simp add: unat_word_ariths unat_of_nat)
      then show "mem s1 (frame + k + of_nat i) = mem s (frame + k + of_nat i)" using same [OF inF] by (simp add: add.assoc)
    qed
    have apart: "apart_from nf (frame + k) j" if "unat k + j \<le> unat len" for k j
      using sub [OF that] al(2) [OF False] assms(3,4) unfolding apart_from_def by blast
    have ident: "[mem s1 (frame + 14 + 4), mem s1 (frame + 14 + 5)] = bytes_at (mem s) (frame + 18) 2"
      using same [OF inF [of 18]] same [OF inF [of 19]] assms(6) by (simp add: bytes_at_def upt_rec add.commute [of frame])
    define m' where "m' = echo_reply frame (frame + 14) (frame + 34) ?n nf (mem s1)"
    have four: "4 \<le> unat ?n" "unat ?n \<le> 1966" using n assms(6,7) by simp_all
    have ap: "apart_from nf frame 14" "apart_from nf (frame + 14) 20" "apart_from nf (frame + 34) (unat ?n)"
      using apart [of 0 14] apart [of 14 20] apart [of 34 "unat ?n"] n assms(6) by simp_all
    have u16: "(ucast (20 + ?n) :: u16) = len - 18" "(ucast (?n + 20 + 14) :: u16) = len - 4"
      by (simp_all add: ucast16_add ucast16_diff)
    have e: "frame + 14 + 12 = frame + 26" "frame + 14 + 16 = frame + 30" by simp_all
    obtain hc pc where r: "m' = store_list nf
          (fill16 24 hc (echo_header_bytes (bytes_at (mem s) (frame + 6) 6) (bytes_at (mem s) frame 6) (len - 18)
             (bytes_at (mem s) (frame + 18) 2) (bytes_at (mem s) (frame + 26) 4) (bytes_at (mem s) (frame + 30) 4))
           @ fill16 2 pc ((bytes_at (mem s) (frame + 34) (unat len - 38))[0 := 0])) (mem s1)"
      "ip_cksum 0 (nf + 14) 20 m' = 0" "ip_cksum 0 (nf + 34) ?n m' = 0"
      using echo_reply_list [where m = "mem s1", OF ap four al(3) [OF False], folded m'_def, unfolded ident u16 n e]
        bytes [of 6 6] bytes [of 0 6] bytes [of 26 4] bytes [of 30 4] bytes [of 34 "unat len - 38"] assms(6) by auto
    have devs: "net_devs s1 = net_devs s" using net_alloc_devs [OF _ al(1)] assms(1) by (simp add: pool_ok_def)
    show ?thesis using al(1) False icmp [folded m'_def, unfolded devs u16] r by auto
  qed
qed

text \<open>C11: An echo request of 42 to 2004 bytes (with the frame check sequence) that arrives outside the free memory is
  answered, when there is a buffer, by one frame as long as the request: addresses swapped, a new IP header, type 0 and the
  request's data; the header checksum and the ICMP checksum of the reply verify. Without a buffer it is dropped.\<close>

theorem echo_request_answered:
  assumes "pool_ok fr al s" "region frame (unat len) \<subseteq> F" "F \<inter> heap_free s = {}" "\<forall>p \<in> set fr. F \<inter> region p 2000 = {}"
    and "echo_request frame (mem s)" "42 \<le> unat len" "unat len \<le> 2004"
  shows "\<exists>nf s1. net_alloc s = Some (nf, s1) \<and>
    (if nf = 0 then ether_process_frame tx local buff dev frame len s = Some s1
     else \<exists>hc pc m'. ether_process_frame tx local buff dev frame len s =
         Some (snd (tx (tx_packet (net_devs s ! dev)) dev nf (len - 4) (s1\<lparr>mem := m'\<rparr>)))
       \<and> m' = store_list nf
          (fill16 24 hc (echo_header_bytes (bytes_at (mem s) (frame + 6) 6) (bytes_at (mem s) frame 6) (len - 18)
             (bytes_at (mem s) (frame + 18) 2) (bytes_at (mem s) (frame + 26) 4) (bytes_at (mem s) (frame + 30) 4))
           @ fill16 2 pc ((bytes_at (mem s) (frame + 34) (unat len - 38))[0 := 0])) (mem s1)
       \<and> ip_cksum 0 (nf + 14) 20 m' = 0 \<and> ip_cksum 0 (nf + 34) (ucast len - 38) m' = 0)"
  using assms by (rule echo_answered)

section \<open>Concrete instances\<close>

text \<open>An echo request of 10.0.2.2 to 10.0.2.15 without data.\<close>

definition sample_echo :: "u8 list" where
  "sample_echo = [82, 84, 0, 18, 52, 86, 82, 85, 10, 0, 2, 2, 8, 0,
     0x45, 0, 0, 28, 0, 1, 0, 0, 64, 1, 0x62, 0xD0, 10, 0, 2, 2, 10, 0, 2, 15,
     8, 0, 0xF7, 0xFC, 0, 1, 0, 2, 0, 0, 0, 0]"

lemma word_sum_step: "2 \<le> n \<Longrightarrow> word_sum m a n = unat (load16 m a) + word_sum m (a + 2) (n - 2)"
  by (cases "(m, a, n)" rule: word_sum.cases) simp_all

lemma sample_echo_request: "echo_request 0xC0105000 (mem (received sample_echo))"
proof -
  have len: "length sample_echo = 46" by (simp add: sample_echo_def)
  define mm where "mm = mem (received sample_echo)"
  have ms: "mm x = (let k = unat (x - 0xC0105000) in if k < 46 then sample_echo ! k else mem boot_net x)" for x
    by (simp add: mm_def received_def store_list_apply len)
  have "word_sum mm 0xC010500E 20 = 65535"
    by (simp add: word_sum_step load16_def ms sample_echo_def Let_def)
  then have "unat (ip_cksum 0 0xC010500E 20 mm) = 0"
    using ip_cksum_residue [of 0 mm "0xC010500E" 20] by (simp add: ones_residue_def)
  then have "ip_cksum 0 0xC010500E 20 mm = 0" by (simp add: unat_eq_zero)
  then show ?thesis unfolding echo_request_def mm_def [symmetric]
    by (simp add: load16_def ms sample_echo_def ntohs_def htons_def Let_def)
qed

theorem echo_request_answered_witness:
  "\<exists>nf s1 m'. net_alloc (received sample_echo) = Some (nf, s1)
     \<and> ether_process_frame (\<lambda>c d f n t. (1, t)) 0 0 0 0xC0105000 46 (received sample_echo)
       = Some (if nf = 0 then s1 else s1\<lparr>mem := m'\<rparr>)
     \<and> (nf \<noteq> 0 \<longrightarrow> ip_cksum 0 (nf + 14) 20 m' = 0 \<and> ip_cksum 0 (nf + 34) 8 m' = 0)"
proof -
  have "length sample_echo \<le> 2048" by (simp add: sample_echo_def)
  note pool = received_pool [OF this]
  have F: "region 0xC0105000 2048 \<inter> heap_free (received sample_echo) = {}"
    using low_not_free by (auto simp: heap_free_def received_def)
  have sub: "region (0xC0105000 :: addr) (unat (46 :: u16)) \<subseteq> region 0xC0105000 2048" by (rule region_mono) simp
  have "\<forall>p \<in> set []. region 0xC0105000 2048 \<inter> region p 2000 = {}" by simp
  from echo_request_answered [OF pool sub F this sample_echo_request, of "\<lambda>c d f n t. (1, t)" 0 0 0]
  show ?thesis by (auto split: if_splits)
qed

end
