(* ===== verification/Frog_Pci.thy ===== *)
theory Frog_Pci
  imports Frog_Net
begin

text \<open>
  The configuration accesses of pci.c: the address register at 0xCF8 selects a function and a
  doubleword of its configuration space, the data register at 0xCFC reads or writes it. What the
  bus answers is a parameter.
\<close>

section \<open>State\<close>

record pci_dev =
  bus :: u8
  device :: u8
  func :: u8
  vendorId :: u16
  deviceId :: u16

record pci = net +
  pcidevs :: "pci_dev list"  \<comment> \<open>20 entries\<close>
  numdevs :: u16

section \<open>Configuration accesses\<close>

definition pci_address :: "u8 \<Rightarrow> u8 \<Rightarrow> u8 \<Rightarrow> u8 \<Rightarrow> u32" where
  "pci_address b sl fn offset =
     push_bit 16 (ucast b) OR push_bit 11 (ucast sl) OR push_bit 8 (ucast fn) OR (ucast offset AND 0xFC) OR 0x80000000"

definition pciConfigReadWord :: "u32 port_read \<Rightarrow> u8 \<Rightarrow> u8 \<Rightarrow> u8 \<Rightarrow> u8 \<Rightarrow> 'a machine_scheme \<Rightarrow> u16 \<times> 'a machine_scheme" where
  "pciConfigReadWord cfg b sl fn offset s =
     (let s1 = outportl 0xCF8 (pci_address b sl fn offset) s
      in (ucast (drop_bit (unat ((offset AND 2) * 8)) (inportl cfg 0xCFC s1) AND 0xFFFF), s1))"

definition pciConfigReadDword :: "u32 port_read \<Rightarrow> u8 \<Rightarrow> u8 \<Rightarrow> u8 \<Rightarrow> u8 \<Rightarrow> 'a machine_scheme \<Rightarrow> u32 \<times> 'a machine_scheme" where
  "pciConfigReadDword cfg b sl fn offset s =
     (let s1 = outportl 0xCF8 (pci_address b sl fn offset) s in (inportl cfg 0xCFC s1, s1))"

definition pciConfigWriteDword :: "u8 \<Rightarrow> u8 \<Rightarrow> u8 \<Rightarrow> u8 \<Rightarrow> u32 \<Rightarrow> 'a machine_scheme \<Rightarrow> 'a machine_scheme" where
  "pciConfigWriteDword b sl fn offset conf s =
     outportl 0xCFC conf (outportl 0xCF8 (pci_address b sl fn offset) s)"

definition pci_adjust :: "u32 port_read \<Rightarrow> pci_dev \<Rightarrow> 'a machine_scheme \<Rightarrow> 'a machine_scheme" where
  "pci_adjust cfg d s =
     (let (conf, s1) = pciConfigReadDword cfg (bus d) (device d) (func d) 0x4 s
      in pciConfigWriteDword (bus d) (device d) (func d) 0x4 (conf OR 7) s1)"

definition getVendorId :: "u32 port_read \<Rightarrow> u8 \<Rightarrow> u8 \<Rightarrow> u8 \<Rightarrow> 'a machine_scheme \<Rightarrow> u16 \<times> 'a machine_scheme" where
  "getVendorId cfg b sl fn s = pciConfigReadWord cfg b sl fn 0 s"

definition getDeviceId :: "u32 port_read \<Rightarrow> u8 \<Rightarrow> u8 \<Rightarrow> u8 \<Rightarrow> 'a machine_scheme \<Rightarrow> u16 \<times> 'a machine_scheme" where
  "getDeviceId cfg b sl fn s = pciConfigReadWord cfg b sl fn 2 s"

definition getHeaderType :: "u32 port_read \<Rightarrow> u8 \<Rightarrow> u8 \<Rightarrow> u8 \<Rightarrow> 'a machine_scheme \<Rightarrow> u8 \<times> 'a machine_scheme" where
  "getHeaderType cfg b sl fn s = (let (w, s1) = pciConfigReadWord cfg b sl fn 0xE s in (ucast (w AND 0xFF), s1))"

definition getBaseClass :: "u32 port_read \<Rightarrow> u8 \<Rightarrow> u8 \<Rightarrow> u8 \<Rightarrow> 'a machine_scheme \<Rightarrow> u8 \<times> 'a machine_scheme" where
  "getBaseClass cfg b sl fn s = (let (w, s1) = pciConfigReadWord cfg b sl fn 0xA s in (ucast (drop_bit 8 w), s1))"

definition getSubClass :: "u32 port_read \<Rightarrow> u8 \<Rightarrow> u8 \<Rightarrow> u8 \<Rightarrow> 'a machine_scheme \<Rightarrow> u8 \<times> 'a machine_scheme" where
  "getSubClass cfg b sl fn s = (let (w, s1) = pciConfigReadWord cfg b sl fn 0xA s in (ucast (w AND 0xFF), s1))"

definition getSecondaryBus :: "u32 port_read \<Rightarrow> u8 \<Rightarrow> u8 \<Rightarrow> u8 \<Rightarrow> 'a machine_scheme \<Rightarrow> u8 \<times> 'a machine_scheme" where
  "getSecondaryBus cfg b sl fn s = (let (w, s1) = pciConfigReadWord cfg b sl fn 0x18 s in (ucast (drop_bit 8 w), s1))"

definition getProgIf :: "u32 port_read \<Rightarrow> u8 \<Rightarrow> u8 \<Rightarrow> u8 \<Rightarrow> 'a machine_scheme \<Rightarrow> u8 \<times> 'a machine_scheme" where
  "getProgIf cfg b sl fn s = (let (w, s1) = pciConfigReadWord cfg b sl fn 0x8 s in (ucast (drop_bit 8 w), s1))"

section \<open>The configuration space\<close>

text \<open>The configuration space as doublewords: function and register number. Documented behaviour of configuration
  mechanism 1: reading the data register returns the doubleword that the enable bit and the fields of the last value
  written to the address register select.\<close>

type_synonym config_space = "u8 \<Rightarrow> u8 \<Rightarrow> u8 \<Rightarrow> u8 \<Rightarrow> u32"

definition pci_select :: "config_space \<Rightarrow> u32 \<Rightarrow> u32" where
  "pci_select space a = space (ucast (drop_bit 16 a)) (ucast (drop_bit 11 a AND 0x1F)) (ucast (drop_bit 8 a AND 7)) (ucast (a AND 0xFC))"

definition pci_host :: "config_space \<Rightarrow> u32 port_read \<Rightarrow> bool" where
  "pci_host space cfg \<longleftrightarrow> (\<forall>h a. bit a 31 \<longrightarrow> cfg (h @ [OutL 0xCF8 a]) 0xCFC = pci_select space a)"

lemma bit_numerals:
  "bit (0x1F :: u32) n \<longleftrightarrow> n < 5" "bit (7 :: u32) n \<longleftrightarrow> n < 3"
  "bit (0xFC :: u32) n \<longleftrightarrow> 2 \<le> n \<and> n < 8" "bit (0xFC :: u8) n \<longleftrightarrow> 2 \<le> n \<and> n < 8"
  "bit (0x80000000 :: u32) n \<longleftrightarrow> n = 31"
proof -
  have m: "(0x1F :: u32) = mask 5" "(7 :: u32) = mask 3" "(0xFC :: u32) = push_bit 2 (mask 6)"
    "(0xFC :: u8) = push_bit 2 (mask 6)" by (simp_all add: mask_eq_exp_minus_1)
  have t: "(0x80000000 :: u32) = push_bit 31 1" by simp
  show "bit (0x1F :: u32) n \<longleftrightarrow> n < 5" unfolding m by (simp only: bit_mask_iff) auto
  show "bit (7 :: u32) n \<longleftrightarrow> n < 3" unfolding m by (simp only: bit_mask_iff) auto
  show "bit (0xFC :: u32) n \<longleftrightarrow> 2 \<le> n \<and> n < 8" unfolding m by (simp only: bit_push_bit_iff bit_mask_iff) auto
  show "bit (0xFC :: u8) n \<longleftrightarrow> 2 \<le> n \<and> n < 8" unfolding m by (simp only: bit_push_bit_iff bit_mask_iff) auto
  show "bit (0x80000000 :: u32) n \<longleftrightarrow> n = 31" unfolding t by (simp only: bit_push_bit_iff bit_1_iff) auto
qed

lemma pci_address_fields:
  assumes "sl < 32" "fn < 8"
  shows "bit (pci_address b sl fn offset) 31" "ucast (drop_bit 16 (pci_address b sl fn offset)) = b"
    "ucast (drop_bit 11 (pci_address b sl fn offset) AND 0x1F) = sl"
    "ucast (drop_bit 8 (pci_address b sl fn offset) AND 7) = fn"
    "ucast (pci_address b sl fn offset AND 0xFC) = offset AND 0xFC"
proof -
  have low: "n < k" if "unat x < 2 ^ k" "bit x n" for x :: u8 and k n
  proof -
    have "take_bit k (unat x) = unat x" using that(1) by (simp add: take_bit_nat_eq_self)
    moreover have "bit (unat x) n" using that(2) by (simp add: bit_unsigned_iff)
    ultimately show ?thesis by (metis bit_take_bit_iff)
  qed
  have bits: "bit sl n \<Longrightarrow> n < 5" "bit fn n \<Longrightarrow> n < 3" "bit b n \<Longrightarrow> n < 8" for n
    using low [of sl 5 n] low [of fn 3 n] assms by (auto simp: word_less_nat_alt dest: bit_imp_le_length)
  define A where "A = pci_address b sl fn offset"
  have A: "bit A n \<longleftrightarrow> 16 \<le> n \<and> bit b (n - 16) \<or> 11 \<le> n \<and> bit sl (n - 11) \<or> 8 \<le> n \<and> bit fn (n - 8)
      \<or> 2 \<le> n \<and> n < 8 \<and> bit offset n \<or> n = 31" for n
  proof -
    have "bit (push_bit 16 (ucast b :: u32)) n \<longleftrightarrow> 16 \<le> n \<and> bit b (n - 16)"
      using bits(3) [of "n - 16"] by (simp add: bit_simps) linarith
    moreover have "bit (push_bit 11 (ucast sl :: u32)) n \<longleftrightarrow> 11 \<le> n \<and> bit sl (n - 11)"
      using bits(1) [of "n - 11"] by (simp add: bit_simps) linarith
    moreover have "bit (push_bit 8 (ucast fn :: u32)) n \<longleftrightarrow> 8 \<le> n \<and> bit fn (n - 8)"
      using bits(2) [of "n - 8"] by (simp add: bit_simps) linarith
    moreover have "bit ((ucast offset :: u32) AND 0xFC) n \<longleftrightarrow> 2 \<le> n \<and> n < 8 \<and> bit offset n"
      by (simp only: bit_and_iff bit_numerals bit_unsigned_iff) auto
    ultimately show ?thesis unfolding A_def pci_address_def by (simp only: bit_or_iff bit_numerals disj_assoc)
  qed
  show "bit A 31" by (simp add: A)
  show "ucast (drop_bit 16 A) = b"
    by (rule bit_word_eqI) (auto simp: bit_simps A dest: bits)
  show "ucast (drop_bit 11 A AND 0x1F) = sl"
    by (rule bit_word_eqI) (simp only: bit_and_iff bit_numerals bit_unsigned_iff bit_drop_bit_eq o_apply A, auto dest: bits)
  show "ucast (drop_bit 8 A AND 7) = fn"
    by (rule bit_word_eqI) (simp only: bit_and_iff bit_numerals bit_unsigned_iff bit_drop_bit_eq o_apply A, auto dest: bits)
  show "ucast (A AND 0xFC) = offset AND 0xFC"
    by (rule bit_word_eqI) (simp only: bit_and_iff bit_numerals bit_unsigned_iff A, auto)
qed

lemma config_read:
  assumes "pci_host space cfg" "sl < 32" "fn < 8"
  shows "inportl cfg 0xCFC (outportl 0xCF8 (pci_address b sl fn offset) s) = space b sl fn (offset AND 0xFC)"
  using assms pci_address_fields [OF assms(2,3), of b offset]
  by (simp add: inportl_def pci_host_def pci_select_def)

lemma config_word:
  assumes "pci_host space cfg" "sl < 32" "fn < 8"
  shows "fst (pciConfigReadWord cfg b sl fn offset s) =
    ucast (drop_bit (unat ((offset AND 2) * 8)) (space b sl fn (offset AND 0xFC)))"
proof -
  have "ucast (v AND 0xFFFF :: u32) = (ucast v :: u16)" for v
  proof -
    have "v AND 0xFFFF = take_bit 16 v" by (simp add: take_bit_eq_mask mask_eq_exp_minus_1)
    then show ?thesis by (simp add: word_unat_eq_iff unat_ucast16 unat_take_bit)
  qed
  then show ?thesis by (simp add: pciConfigReadWord_def Let_def config_read [OF assms])
qed

lemma byte_fields:
  "(ucast (drop_bit 8 (ucast w :: u16)) :: u8) = ucast (drop_bit 8 (w :: u32))"
  "(ucast ((ucast w :: u16) AND 0xFF) :: u8) = ucast w"
proof -
  have "(0xFF :: u16) = mask 8" by (simp add: mask_eq_exp_minus_1)
  then have b: "bit (0xFF :: u16) n \<longleftrightarrow> n < 8" for n by (simp only: bit_mask_iff) auto
  show "(ucast (drop_bit 8 (ucast w :: u16)) :: u8) = ucast (drop_bit 8 (w :: u32))"
    by (rule bit_word_eqI) (simp add: bit_simps)
  show "(ucast ((ucast w :: u16) AND 0xFF) :: u8) = ucast w"
    by (rule bit_word_eqI) (simp only: bit_and_iff bit_unsigned_iff b, auto)
qed

text \<open>The fields that the accessors return.\<close>

lemma config_fields:
  assumes "pci_host space cfg" "sl < 32" "fn < 8"
  shows "fst (pciConfigReadDword cfg b sl fn offset s) = space b sl fn (offset AND 0xFC)"
    "fst (getVendorId cfg b sl fn s) = ucast (space b sl fn 0)"
    "fst (getDeviceId cfg b sl fn s) = ucast (drop_bit 16 (space b sl fn 0))"
    "fst (getProgIf cfg b sl fn s) = ucast (drop_bit 8 (space b sl fn 8))"
    "fst (getSubClass cfg b sl fn s) = ucast (drop_bit 16 (space b sl fn 8))"
    "fst (getBaseClass cfg b sl fn s) = ucast (drop_bit 24 (space b sl fn 8))"
    "fst (getHeaderType cfg b sl fn s) = ucast (drop_bit 16 (space b sl fn 0xC))"
    "fst (getSecondaryBus cfg b sl fn s) = ucast (drop_bit 8 (space b sl fn 0x18))"
proof -
  note w = config_word [OF assms, of b _ s]
  note defs = pciConfigReadDword_def getVendorId_def getDeviceId_def getProgIf_def getSubClass_def getBaseClass_def
    getHeaderType_def getSecondaryBus_def Let_def case_prod_unfold config_read [OF assms] byte_fields
  show "fst (pciConfigReadDword cfg b sl fn offset s) = space b sl fn (offset AND 0xFC)"
    "fst (getVendorId cfg b sl fn s) = ucast (space b sl fn 0)"
    "fst (getDeviceId cfg b sl fn s) = ucast (drop_bit 16 (space b sl fn 0))"
    "fst (getProgIf cfg b sl fn s) = ucast (drop_bit 8 (space b sl fn 8))"
    "fst (getSubClass cfg b sl fn s) = ucast (drop_bit 16 (space b sl fn 8))"
    "fst (getBaseClass cfg b sl fn s) = ucast (drop_bit 24 (space b sl fn 8))"
    "fst (getHeaderType cfg b sl fn s) = ucast (drop_bit 16 (space b sl fn 0xC))"
    "fst (getSecondaryBus cfg b sl fn s) = ucast (drop_bit 8 (space b sl fn 0x18))"
    using w [of 0] w [of 2] w [of 8] w [of "0xA"] w [of "0xE"] w [of "0x18"] by (simp_all add: defs)
qed

text \<open>An access only adds to the history of the two configuration ports.\<close>

fun config_event :: "io_event \<Rightarrow> bool" where
  "config_event (OutL p v) \<longleftrightarrow> p = 0xCF8 \<or> p = 0xCFC"
| "config_event _ \<longleftrightarrow> False"

definition only_io :: "'a machine_scheme \<Rightarrow> 'a machine_scheme \<Rightarrow> bool" where
  "only_io s s' \<longleftrightarrow> (\<exists>h. s' = s\<lparr>io := io s @ h\<rparr> \<and> list_all config_event h)"

lemma access_only_io:
  "only_io s (snd (getVendorId cfg b sl fn s))" "only_io s (snd (getDeviceId cfg b sl fn s))"
  "only_io s (snd (getSubClass cfg b sl fn s))" "only_io s (snd (getBaseClass cfg b sl fn s))"
  "only_io s (snd (getHeaderType cfg b sl fn s))" "only_io s (snd (getSecondaryBus cfg b sl fn s))"
  by (force simp: only_io_def pciConfigReadWord_def getVendorId_def getDeviceId_def getSubClass_def getBaseClass_def
      getHeaderType_def getSecondaryBus_def outportl_def Let_def)+

text \<open>On a bus that follows configuration mechanism 1, the accesses return the fields of the addressed function (device
  number below 32, function number below 8), and \<^verbatim>\<open>pci_adjust\<close> writes back the command register with I/O space, memory
  space and bus mastering enabled, at the same address.\<close>

theorem pci_config_fields:
  assumes "pci_host space cfg" "sl < 32" "fn < 8"
  shows "fst (pciConfigReadDword cfg b sl fn offset s) = space b sl fn (offset AND 0xFC)
    \<and> fst (getVendorId cfg b sl fn s) = ucast (space b sl fn 0)
    \<and> fst (getDeviceId cfg b sl fn s) = ucast (drop_bit 16 (space b sl fn 0))
    \<and> fst (getProgIf cfg b sl fn s) = ucast (drop_bit 8 (space b sl fn 8))
    \<and> fst (getSubClass cfg b sl fn s) = ucast (drop_bit 16 (space b sl fn 8))
    \<and> fst (getBaseClass cfg b sl fn s) = ucast (drop_bit 24 (space b sl fn 8))
    \<and> fst (getHeaderType cfg b sl fn s) = ucast (drop_bit 16 (space b sl fn 0xC))
    \<and> fst (getSecondaryBus cfg b sl fn s) = ucast (drop_bit 8 (space b sl fn 0x18))
    \<and> io (pci_adjust cfg \<lparr>bus = b, device = sl, func = fn, vendorId = v, deviceId = d\<rparr> s) =
        io s @ [OutL 0xCF8 (pci_address b sl fn 4), OutL 0xCF8 (pci_address b sl fn 4), OutL 0xCFC (space b sl fn 4 OR 7)]"
  using config_fields(1) [OF assms, of b offset s] config_fields(2-) [OF assms, of b s] config_fields(1) [OF assms, of b 4 s]
  by (simp add: pci_adjust_def pciConfigWriteDword_def pciConfigReadDword_def Let_def)

section \<open>Concrete instances\<close>

text \<open>A bus with one function, an Ethernet controller at (0, 3, 0).\<close>

definition sample_space :: config_space where
  "sample_space b sl fn r =
     (if b = 0 \<and> sl = 3 \<and> fn = 0 then
        (if r = 0 then 0x20001022 else if r = 8 then 0x02000010 else if r = 0x10 then 0xC001 else if r = 0x3C then 0x10B else 0)
      else 0xFFFFFFFF)"

definition sample_cfg :: "u32 port_read" where
  "sample_cfg h p = (if h = [] then 0 else case last h of OutL q a \<Rightarrow> if q = 0xCF8 then pci_select sample_space a else 0 | _ \<Rightarrow> 0)"

lemma sample_cfg_host: "pci_host sample_space sample_cfg"
  by (simp add: pci_host_def sample_cfg_def)

theorem pci_config_fields_witness:
  "fst (getVendorId sample_cfg 0 3 0 boot_net) = 0x1022 \<and> fst (getDeviceId sample_cfg 0 3 0 boot_net) = 0x2000
   \<and> fst (getBaseClass sample_cfg 0 3 0 boot_net) = 2"
  using pci_config_fields [OF sample_cfg_host, of 3 0 0 0 boot_net] by (simp add: sample_space_def)

end
