(* ===== verification/Frog_Pcnet32.thy ===== *)
theory Frog_Pcnet32
  imports Frog_Icmp Frog_Pci Frog_Paging
begin

text \<open>
  pcnet32.c, the driver of the AMD PCnet-PCI Ethernet controllers: register access, the two
  descriptor rings shared with the card, transmission, reception and the interrupt handler. The
  driver's \<^verbatim>\<open>pcnet32_dev\<close> lies in memory at the device's \<^verbatim>\<open>priv\<close>; what the card answers on its ports
  is a parameter.
\<close>

section \<open>State\<close>

text \<open>The fields of \<^verbatim>\<open>pcnet32_dev\<close>: \<^verbatim>\<open>pcidev\<close> 0, \<^verbatim>\<open>ioaddr\<close> 4, \<^verbatim>\<open>interrupt\<close> 6, \<^verbatim>\<open>handler\<close> 8, \<^verbatim>\<open>card_reg\<close> 32 (aligned to 32
  bytes), \<^verbatim>\<open>rx_buffer_ptr\<close> 60, \<^verbatim>\<open>tx_buffer_ptr\<close> 62, \<^verbatim>\<open>rx_buffer_count\<close> 64, \<^verbatim>\<open>tx_buffer_count\<close> 66, \<^verbatim>\<open>rx_buffers\<close> 68,
  \<^verbatim>\<open>tx_buffers\<close> 72, \<^verbatim>\<open>rdes\<close> 76, \<^verbatim>\<open>tdes\<close> 80, \<^verbatim>\<open>mii\<close> 84, \<^verbatim>\<open>fdx\<close> 85; 96 bytes in all.\<close>

definition ioaddr :: "byte_mem \<Rightarrow> addr \<Rightarrow> u16" where
  "ioaddr m dev = load16 m (dev + 4)"

definition rx_buffer_ptr :: "byte_mem \<Rightarrow> addr \<Rightarrow> u16" where
  "rx_buffer_ptr m dev = load16 m (dev + 60)"

definition tx_buffer_ptr :: "byte_mem \<Rightarrow> addr \<Rightarrow> u16" where
  "tx_buffer_ptr m dev = load16 m (dev + 62)"

definition rx_buffer_count :: "byte_mem \<Rightarrow> addr \<Rightarrow> u16" where
  "rx_buffer_count m dev = load16 m (dev + 64)"

definition tx_buffer_count :: "byte_mem \<Rightarrow> addr \<Rightarrow> u16" where
  "tx_buffer_count m dev = load16 m (dev + 66)"

definition rx_buffers :: "byte_mem \<Rightarrow> addr \<Rightarrow> addr" where
  "rx_buffers m dev = load32 m (dev + 68)"

definition tx_buffers :: "byte_mem \<Rightarrow> addr \<Rightarrow> addr" where
  "tx_buffers m dev = load32 m (dev + 72)"

definition rdes :: "byte_mem \<Rightarrow> addr \<Rightarrow> addr" where
  "rdes m dev = load32 m (dev + 76)"

definition tdes :: "byte_mem \<Rightarrow> addr \<Rightarrow> addr" where
  "tdes m dev = load32 m (dev + 80)"

text \<open>Descriptor and buffer of a ring entry: \<^verbatim>\<open>PCNET32_DE_SIZE\<close> is 16 and \<^verbatim>\<open>PCNET32_BUFFER_SIZE\<close> 1600.\<close>

abbreviation de_at :: "addr \<Rightarrow> u16 \<Rightarrow> addr" where
  "de_at des idx \<equiv> des + 16 * ucast idx"

abbreviation buf_at :: "addr \<Rightarrow> u16 \<Rightarrow> addr" where
  "buf_at b idx \<equiv> b + ucast idx * 1600"

text \<open>What the linker and the environment fix: the answers of the devices, the addresses of static data and of code, and
  the local byte of \<^verbatim>\<open>printf\<close>.\<close>

record env =
  in8 :: "u8 port_read"
  in32 :: "u32 port_read"
  local_byte :: addr
  ntoa_buff :: addr     \<comment> \<open>the static buffer of \<^verbatim>\<open>eth_ntoa\<close>\<close>
  net_devs_at :: addr
  pcidevs_at :: addr
  irq_code :: addr      \<comment> \<open>\<^verbatim>\<open>pcnet32_irq_handler\<close>\<close>
  work_code :: addr     \<comment> \<open>\<^verbatim>\<open>pcnet32_do_irq_work\<close>\<close>
  tx_code :: addr       \<comment> \<open>\<^verbatim>\<open>pcnet32_tx_packet\<close>\<close>

section \<open>Registers\<close>

definition dwio_read_csr :: "u32 port_read \<Rightarrow> u16 \<Rightarrow> u16 \<Rightarrow> 'a machine_scheme \<Rightarrow> u32 \<times> 'a machine_scheme" where
  "dwio_read_csr rd ioa index s = (let s1 = outportl (ioa + 0x14) (ucast index) s in (inportl rd (ioa + 0x10) s1, s1))"

definition dwio_write_csr :: "u16 \<Rightarrow> u16 \<Rightarrow> u32 \<Rightarrow> 'a machine_scheme \<Rightarrow> 'a machine_scheme" where
  "dwio_write_csr ioa index conf s = outportl (ioa + 0x10) conf (outportl (ioa + 0x14) (ucast index) s)"

definition wio_read_csr :: "u16 port_read \<Rightarrow> u16 \<Rightarrow> u16 \<Rightarrow> 'a machine_scheme \<Rightarrow> u16 \<times> 'a machine_scheme" where
  "wio_read_csr rd ioa index s = (let s1 = outportw (ioa + 0x12) index s in (inportw rd (ioa + 0x10) s1, s1))"

definition dwio_write_bcr :: "u16 \<Rightarrow> u16 \<Rightarrow> u32 \<Rightarrow> 'a machine_scheme \<Rightarrow> 'a machine_scheme" where
  "dwio_write_bcr ioa index conf s = outportl (ioa + 0x1C) conf (outportl (ioa + 0x14) (ucast index) s)"

definition dwio_read_bcr :: "u32 port_read \<Rightarrow> u16 \<Rightarrow> u16 \<Rightarrow> 'a machine_scheme \<Rightarrow> u32 \<times> 'a machine_scheme" where
  "dwio_read_bcr rd ioa index s = (let s1 = outportl (ioa + 0x14) (ucast index) s in (inportl rd (ioa + 0x1C) s1, s1))"

text \<open>The reads of the reset registers reset the card. \<open>tick\<close> stands for the interrupts that run until the loop sees
  that the timer has ticked.\<close>

definition pcnet32_reset :: "('a machine_scheme \<Rightarrow> 'a machine_scheme) \<Rightarrow> u16 \<Rightarrow> 'a machine_scheme \<Rightarrow> 'a machine_scheme" where
  "pcnet32_reset tick ioa s = outportl (ioa + 0x10) 0 (tick (touchw (ioa + 0x14) (touchw (ioa + 0x18) s)))"

section \<open>Rings\<close>

definition pcnet32_driverowns :: "byte_mem \<Rightarrow> addr \<Rightarrow> u16 \<Rightarrow> bool" where
  "pcnet32_driverowns m des idx \<longleftrightarrow> m (de_at des idx + 7) AND 0x80 = 0"

definition pcnet32_inc_txidx :: "addr \<Rightarrow> byte_mem \<Rightarrow> byte_mem" where
  "pcnet32_inc_txidx dev m =
     (let m1 = store16 m (dev + 62) (tx_buffer_ptr m dev + 1)
      in if tx_buffer_ptr m1 dev = tx_buffer_count m1 dev then store16 m1 (dev + 62) 0 else m1)"

definition pcnet32_inc_rxidx :: "addr \<Rightarrow> byte_mem \<Rightarrow> byte_mem" where
  "pcnet32_inc_rxidx dev m =
     (let m1 = store16 m (dev + 60) (rx_buffer_ptr m dev + 1)
      in if rx_buffer_ptr m1 dev = rx_buffer_count m1 dev then store16 m1 (dev + 60) 0 else m1)"

definition pcnet32_initialize_de :: "addr \<Rightarrow> u16 \<Rightarrow> bool \<Rightarrow> byte_mem \<Rightarrow> byte_mem" where
  "pcnet32_initialize_de dev idx is_tx m =
     (let (des, buf_addr) = (if is_tx then (tdes m dev, tx_buffers m dev) else (rdes m dev, rx_buffers m dev));
          m1 = memset (de_at des idx) 0 16 m;
          m2 = store32 m1 (de_at des idx) (get_physaddr m1 (buf_at buf_addr idx));
          m3 = store16 m2 (de_at des idx + 4) ((- 1600 AND 0x0FFF) OR 0xF000)
      in if is_tx then m3 else m3(de_at des idx + 7 := 0x80))"

section \<open>Interrupt, transmission, reception\<close>

definition upd_dev :: "nat \<Rightarrow> (net_dev \<Rightarrow> net_dev) \<Rightarrow> 'a net_scheme \<Rightarrow> 'a net_scheme" where
  "upd_dev i f s = s\<lparr>net_devs := (net_devs s)[i := f (net_devs s ! i)]\<rparr>"

definition pcnet32_irq_handler :: "env \<Rightarrow> nat \<Rightarrow> 'a net_scheme \<Rightarrow> 'a net_scheme option" where
  "pcnet32_irq_handler e netdev s =
     (let dev = priv (net_devs s ! netdev);
          (csr0, s1) = dwio_read_csr (in32 e) (ioaddr (mem s) dev) 0 s
      in if csr0 AND 0x600 \<noteq> 0
         then Some (upd_dev netdev (\<lambda>d. d\<lparr>needs_work := 1\<rparr>)
                (dwio_write_csr (ioaddr (mem s1) dev) 0 (csr0 OR 0x200 OR 0x400) s1))
         else map_option snd (printf (local_byte e) (cbytes ''hmm... %lld csr0: %x\<newline>'')
                [ucast (pit_counter s1), ucast (drop_bit 32 (pit_counter s1)), csr0] s1))"

definition pcnet32_tx_packet :: "nat \<Rightarrow> addr \<Rightarrow> u16 \<Rightarrow> 'a net_scheme \<Rightarrow> int \<times> 'a net_scheme" where
  "pcnet32_tx_packet netdev packet len s =
     (let dev = priv (net_devs s ! netdev);
          de = (\<lambda>s. de_at (tdes (mem s) dev) (tx_buffer_ptr (mem s) dev))
      in if \<not> pcnet32_driverowns (mem s) (tdes (mem s) dev) (tx_buffer_ptr (mem s) dev) then (0, s)
         else
           let s1 = s\<lparr>mem := memcpy (buf_at (tx_buffers (mem s) dev) (tx_buffer_ptr (mem s) dev)) packet (ucast len) (mem s)\<rparr>;
               s2 = net_free packet s1;
               s3 = s2\<lparr>mem := (mem s2)(de s2 + 7 := mem s2 (de s2 + 7) OR 3)\<rparr>;
               s4 = s3\<lparr>mem := store16 (mem s3) (de s3 + 4) ((- len AND 0xFFF) OR 0xF000)\<rparr>;
               s5 = upd_dev netdev (\<lambda>d. d\<lparr>tx_packets := tx_packets d + 1\<rparr>) s4;
               s6 = s5\<lparr>mem := (mem s5)(de s5 + 7 := mem s5 (de s5 + 7) OR 0x80)\<rparr>;
               s7 = s6\<lparr>mem := store16 (mem s6) (dev + 62) (tx_buffer_ptr (mem s6) dev + 1)\<rparr>
           in (1, if tx_buffer_count (mem s7) dev \<le> tx_buffer_ptr (mem s7) dev
                  then s7\<lparr>mem := store16 (mem s7) (dev + 62) 0\<rparr> else s7))"

text \<open>One round of the receive loop: the frame at \<open>de_ptr\<close> is counted, processed, erased and given back to the card.\<close>

definition rx_frame :: "env \<Rightarrow> 'a txcode \<Rightarrow> nat \<Rightarrow> addr \<Rightarrow> u16 \<Rightarrow> 'a net_scheme \<Rightarrow> 'a net_scheme option" where
  "rx_frame e tx netdev dev de_ptr s =
     (let rx_buff = buf_at (rx_buffers (mem s) dev) de_ptr;
          s1 = upd_dev netdev (\<lambda>d. d\<lparr>rx_packets := rx_packets d + 1\<rparr>) s;
          mcnt = load16 (mem s1) (de_at (rdes (mem s1) dev) de_ptr + 8)
      in map_option (\<lambda>s2.
           let s3 = s2\<lparr>mem := memset rx_buff 0 (ucast mcnt) (mem s2)\<rparr>;
               own = de_at (rdes (mem s3) dev) de_ptr + 7
           in s3\<lparr>mem := (mem s3)(own := mem s3 own OR 0x80)\<rparr>)
           (ether_process_frame tx (local_byte e) (ntoa_buff e) netdev rx_buff mcnt s1))"

function rx_loop :: "env \<Rightarrow> 'a txcode \<Rightarrow> nat \<Rightarrow> addr \<Rightarrow> nat \<Rightarrow> u16 \<Rightarrow> 'a net_scheme \<Rightarrow> (u16 \<times> 'a net_scheme) option" where
  "rx_loop e tx netdev dev i de_ptr s =
     (if i < unat (rx_buffer_count (mem s) dev) then
        if \<not> pcnet32_driverowns (mem s) (rdes (mem s) dev) de_ptr then Some (de_ptr, s)
        else Option.bind (rx_frame e tx netdev dev de_ptr s)
          (\<lambda>s1. rx_loop e tx netdev dev (i + 1) (if rx_buffer_count (mem s1) dev \<le> de_ptr + 1 then 0 else de_ptr + 1) s1)
      else Some (de_ptr, s))"
  by pat_completeness auto

termination
proof (relation "measure (\<lambda>(e, tx, netdev, dev, i, de_ptr, s). 2 ^ 16 - i)")
  fix e and tx :: "'a txcode" and netdev dev i de_ptr d' and s s1 :: "'a net_scheme"
  assume "i < unat (rx_buffer_count (mem s) dev)"
  moreover have "unat (rx_buffer_count (mem s) dev) < 2 ^ 16" using unsigned_less [of "rx_buffer_count (mem s) dev"] by simp
  ultimately show "((e, tx, netdev, dev, i + 1, d', s1), (e, tx, netdev, dev, i, de_ptr, s))
      \<in> measure (\<lambda>(e, tx, netdev, dev, i, de_ptr, s). 2 ^ 16 - i)" by (simp del: unsigned_less)
qed simp

declare rx_loop.simps [simp del]

definition pcnet32_do_irq_work :: "env \<Rightarrow> 'a txcode \<Rightarrow> nat \<Rightarrow> 'a net_scheme \<Rightarrow> 'a net_scheme option" where
  "pcnet32_do_irq_work e tx netdev s =
     (let dev = priv (net_devs s ! netdev);
          s1 = upd_dev netdev (\<lambda>d. d\<lparr>needs_work := 0\<rparr>) s
      in map_option (\<lambda>(de_ptr, s2). s2\<lparr>mem := store16 (mem s2) (dev + 60) de_ptr\<rparr>)
           (rx_loop e tx netdev dev 0 (rx_buffer_ptr (mem s1) dev) s1))"

section \<open>Probing\<close>

text \<open>The loop that should wait for the end of the initialisation. \<^verbatim>\<open>&\<close> binds weaker than \<^verbatim>\<open>==\<close>, so its condition is the
  value read, masked with the truth value of \<^verbatim>\<open>0x100==0\<close>.\<close>

partial_function (option) pcnet32_wait :: "u32 port_read \<Rightarrow> u16 \<Rightarrow> 'a machine_scheme \<Rightarrow> 'a machine_scheme option" where
  "pcnet32_wait rd ioa s =
     (let (csr0, s1) = dwio_read_csr rd ioa 0 s
      in if csr0 AND (if (0x100 :: u32) = 0 then 1 else 0) \<noteq> 0 then pcnet32_wait rd ioa s1 else Some s1)"

text \<open>Allocation of the rings: one block per field, the null pointer ends the attempt.\<close>

definition pcnet32_block :: "addr \<Rightarrow> u32 \<Rightarrow> 'a heap_scheme \<Rightarrow> (addr \<times> 'a heap_scheme) option" where
  "pcnet32_block field n s = map_option (\<lambda>(p, s1). (p, s1\<lparr>mem := store32 (mem s1) field p\<rparr>)) (alloc n 1 s)"

definition pcnet32_rings :: "addr \<Rightarrow> 'a heap_scheme \<Rightarrow> (bool \<times> 'a heap_scheme) option" where
  "pcnet32_rings dev s =
     (let s1 = s\<lparr>mem := store16 (store16 (mem s) (dev + 64) (push_bit 6 1)) (dev + 60) 0\<rparr>
      in Option.bind (pcnet32_block (dev + 68) (ucast (rx_buffer_count (mem s1) dev) * 1600) s1) (\<lambda>(p1, s2).
         if p1 = 0 then Some (False, s2) else
         let m3 = memset (rx_buffers (mem s2) dev) 0 (ucast (rx_buffer_count (mem s2) dev) * 1600) (mem s2);
             s3 = s2\<lparr>mem := store16 (store16 m3 (dev + 66) (push_bit 4 1)) (dev + 62) 0\<rparr>
         in Option.bind (pcnet32_block (dev + 72) (ucast (tx_buffer_count (mem s3) dev) * 1600) s3) (\<lambda>(p2, s4).
         if p2 = 0 then Some (False, s4) else
         Option.bind (pcnet32_block (dev + 76) (16 * ucast (rx_buffer_count (mem s4) dev)) s4) (\<lambda>(p3, s5).
         if p3 = 0 then Some (False, s5) else
         Option.bind (pcnet32_block (dev + 80) (16 * ucast (tx_buffer_count (mem s5) dev)) s5) (\<lambda>(p4, s6).
         Some (p4 \<noteq> 0, s6))))))"

definition pcnet32_descriptors :: "addr \<Rightarrow> byte_mem \<Rightarrow> byte_mem" where
  "pcnet32_descriptors dev m =
     (let m1 = fold (\<lambda>i. pcnet32_initialize_de dev (of_nat i) False) [0..<unat (rx_buffer_count m dev)] m
      in fold (\<lambda>i. pcnet32_initialize_de dev (of_nat i) True) [0..<unat (tx_buffer_count m1 dev)] m1)"

text \<open>The initialisation block \<^verbatim>\<open>card_reg\<close>: \<^verbatim>\<open>mode\<close> 0, \<^verbatim>\<open>rlen\<close> 2, \<^verbatim>\<open>tlen\<close> 3, \<^verbatim>\<open>hw_addr\<close> 4, \<^verbatim>\<open>reserved\<close> 10, \<^verbatim>\<open>ladr\<close> 12, \<^verbatim>\<open>rde\<close> 20,
  \<^verbatim>\<open>tde\<close> 24.\<close>

definition pcnet32_card_reg :: "u8 list \<Rightarrow> addr \<Rightarrow> byte_mem \<Rightarrow> byte_mem" where
  "pcnet32_card_reg hw dev m =
     (let r = dev + 32;
          m1 = store16 m r 0;
          m2 = m1(r + 2 := push_bit 4 6);
          m3 = m2(r + 3 := push_bit 4 4);
          m4 = store_list (r + 4) hw m3;
          m5 = store16 m4 (r + 10) 0;
          m6 = memset (r + 12) 0xFF 8 m5;
          m7 = store32 m6 (r + 20) (get_physaddr m6 (rdes m6 dev))
      in store32 m7 (r + 24) (get_physaddr m7 (tdes m7 dev)))"

text \<open>From the descriptors to the running card.\<close>

definition pcnet32_start :: "env \<Rightarrow> nat \<Rightarrow> addr \<Rightarrow> u16 \<Rightarrow> u8 \<Rightarrow> 'a net_scheme \<Rightarrow> 'a net_scheme option" where
  "pcnet32_start e netdev dev ioa intr s =
     (let s1 = s\<lparr>mem := pcnet32_card_reg (hw_addr (net_devs s ! netdev)) dev (pcnet32_descriptors dev (mem s))\<rparr>;
          init_block = get_physaddr (mem s1) (dev + 32);
          s2 = dwio_write_csr ioa 1 (init_block AND 0xFFFF) s1;
          s3 = dwio_write_csr ioa 2 (drop_bit 16 init_block) s2;
          s4 = dwio_write_csr ioa 4 0x915 s3;
          s5 = dwio_write_csr ioa 0 1 s4
      in Option.bind (pcnet32_wait (in32 e) ioa s5) (\<lambda>s6.
         let s7 = dwio_write_csr ioa 0 4 s6;
             s8 = s7\<lparr>mem := store32 (store32 (store32 (mem s7) (dev + 8) (irq_code e))
                       (dev + 12) (net_devs_at e + 40 * of_nat netdev)) (dev + 16) 0\<rparr>
         in Option.bind (install_irq_handler (in8 e) (unat intr) (dev + 8) s8) (\<lambda>s9.
            map_option snd (printf (local_byte e) (cbytes '' running'') [] (dwio_write_csr ioa 0 (0x2 OR 0x40) s9)))))"

definition pcnet32_version :: "u32 port_read \<Rightarrow> u16 \<Rightarrow> 'a machine_scheme \<Rightarrow> u32 \<times> 'a machine_scheme" where
  "pcnet32_version rd ioa s =
     (let (lo, s1) = dwio_read_csr rd ioa 88 s; (hi, s2) = dwio_read_csr rd ioa 89 s1 in (lo OR push_bit 16 hi, s2))"

text \<open>The body of \<^verbatim>\<open>probe_pcnet32\<close> once the device structure is there; every \<^verbatim>\<open>goto err\<close> returns early.\<close>

definition pcnet32_setup :: "env \<Rightarrow> nat \<Rightarrow> nat \<Rightarrow> u16 \<Rightarrow> u8 \<Rightarrow> u32 \<Rightarrow> 'a pci_scheme \<Rightarrow> 'a pci_scheme option" where
  "pcnet32_setup e pcidev netdev ioa intr chip s =
     (let s1 = upd_dev netdev (\<lambda>d. d\<lparr>do_work := work_code e, tx_packet := tx_code e\<rparr>) s;
          dev = priv (net_devs s1 ! netdev);
          m1 = store16 (store32 (mem s1) dev (pcidevs_at e + 8 * of_nat pcidev)) (dev + 4) ioa;
          m2 = m1(dev + 6 := intr, dev + 85 := 0, dev + 84 := 0);
          kind = drop_bit 12 chip
      in if kind \<noteq> 0x2621 \<and> kind \<noteq> 0x2625 then Some (s1\<lparr>mem := m2\<rparr>)
         else
           let m3 = m2(dev + 85 := 1);
               m4 = (if kind = 0x2625 then m3(dev + 84 := 1) else m3);
               s2 = pci_adjust (in32 e) (pcidevs s1 ! pcidev) (s1\<lparr>mem := m4\<rparr>);
               hw = map (\<lambda>i. inportb (in8 e) (ioa + of_nat i) s2) [0..<6];
               s3 = upd_dev netdev (\<lambda>d. d\<lparr>hw_addr := hw\<rparr>) s2
           in Option.bind (eth_ntoa (ntoa_buff e) (hw_addr (net_devs s3 ! netdev)) s3) (\<lambda>(p, s4).
              Option.bind (printf (local_byte e) (bytes_at (mem s4) p 18) [] s4) (\<lambda>(_, s5).
              let (csr58, s6) = dwio_read_csr (in32 e) ioa 58 s5;
                  s7 = dwio_write_csr ioa 58 ((csr58 AND 0xFFFFFFF0) OR 0x2) s6
              in Option.bind (pcnet32_rings dev s7) (\<lambda>(ok, s8).
                 if ok then pcnet32_start e netdev dev ioa intr s8 else Some s8))))"

definition probe_pcnet32 :: "env \<Rightarrow> ('a pci_scheme \<Rightarrow> 'a pci_scheme) \<Rightarrow> nat \<Rightarrow> u16 \<Rightarrow> u8 \<Rightarrow> 'a pci_scheme \<Rightarrow> 'a pci_scheme option" where
  "probe_pcnet32 e tick pcidev ioa intr s =
     Option.bind (printf (local_byte e) (cbytes ''PCNET32: '') [] s) (\<lambda>(_, s1).
     let s2 = pcnet32_reset tick ioa s1;
         (chip, s3) = pcnet32_version (in32 e) ioa s2
     in Option.bind
          (if chip AND 0xFFF \<noteq> 3 then Some s3
           else Option.bind (alloc_netdev 96 s3) (\<lambda>(r, s4).
             case r of None \<Rightarrow> Some s4 | Some netdev \<Rightarrow> pcnet32_setup e pcidev netdev ioa intr chip s4))
          (\<lambda>s5. map_option snd (printf (local_byte e) (cbytes '' done.\<newline>'') [] s5)))"

end
