(* ===== verification/Frog_Pciscan.thy ===== *)
theory Frog_Pciscan
  imports Frog_Pcnet32
begin

text \<open>
  The enumeration of pci.c: every function found on a bus is entered into \<^verbatim>\<open>pcidevs\<close>, PCnet cards are
  handed to their driver and bridges lead to the bus behind them.
\<close>

section \<open>Operations\<close>

definition printBar :: "env \<Rightarrow> u8 \<Rightarrow> u8 \<Rightarrow> u8 \<Rightarrow> nat \<Rightarrow> 'a pci_scheme \<Rightarrow> 'a pci_scheme option" where
  "printBar e b d f bar s =
     (let (v, s1) = pciConfigReadDword (in32 e) b d f (0x10 + of_nat bar * 4) s
      in if v \<noteq> 0 then map_option snd (printf (local_byte e) (cbytes ''BAR%d: 0x%08x\<newline>'') [of_nat bar, v] s1) else Some s1)"

definition printFunction :: "env \<Rightarrow> u8 \<Rightarrow> u8 \<Rightarrow> u8 \<Rightarrow> 'a pci_scheme \<Rightarrow> 'a pci_scheme option" where
  "printFunction e b d f s =
     (let cfg = in32 e;
          (vendor, s1) = getVendorId cfg b d f s;
          (dev, s2) = getDeviceId cfg b d f s1;
          (baseClass, s3) = getBaseClass cfg b d f s2;
          (subClass, s4) = getSubClass cfg b d f s3;
          (progIf, s5) = getProgIf cfg b d f s4;
          (subsystemVendorId, s6) = pciConfigReadWord cfg b d f 0x2C s5;
          (subsystemId, s7) = pciConfigReadWord cfg b d f 0x2E s6;
          (interrupt, s8) = pciConfigReadWord cfg b d f 0x3C s7
      in Option.bind (printf (local_byte e) (cbytes ''PCI: (%d,%d,%d) %x:%x %x:%x %x-%x-%x %04x\<newline>'')
           [ucast b, ucast d, ucast f, ucast vendor, ucast dev, ucast subsystemVendorId, ucast subsystemId,
            ucast baseClass, ucast subClass, ucast progIf, ucast interrupt] s8)
         (\<lambda>(_, s9). fold (\<lambda>bar r. Option.bind r (printBar e b d f bar)) [0..<6] (Some s9)))"

text \<open>The part of \<^verbatim>\<open>checkFunction\<close> up to the bridge test; the result carries the class codes it was read with.
  \<^verbatim>\<open>pcidevs\<close> has 20 entries and the index is not checked: beyond them there is no result.\<close>

definition checkFunction_enter :: "env \<Rightarrow> ('a pci_scheme \<Rightarrow> 'a pci_scheme) \<Rightarrow> u8 \<Rightarrow> u8 \<Rightarrow> u8 \<Rightarrow> 'a pci_scheme
    \<Rightarrow> (u8 \<times> u8 \<times> 'a pci_scheme) option" where
  "checkFunction_enter e tick b d f s =
     (let cfg = in32 e;
          (baseClass, s1) = getBaseClass cfg b d f s;
          (subClass, s2) = getSubClass cfg b d f s1;
          (vendor, s3) = getVendorId cfg b d f s2;
          (dev, s4) = getDeviceId cfg b d f s3;
          n = unat (numdevs s4)
      in if length (pcidevs s4) \<le> n then None
         else
           let s5 = s4\<lparr>pcidevs := (pcidevs s4)[n := \<lparr>bus = b, device = d, func = f, vendorId = vendor, deviceId = dev\<rparr>]\<rparr>
           in Option.bind (if vendor = 0x8086 \<and> baseClass = 2 then printFunction e b d f s5 else Some s5) (\<lambda>s6.
              Option.bind
                (if vendor = 0x1022 \<and> (dev = 0x2000 \<or> dev = 0x2001) then
                   Option.bind (printFunction e b d f s6) (\<lambda>s7.
                     let (intr, s8) = pciConfigReadWord cfg b d f 0x3C s7;
                         (ioa, s9) = pciConfigReadWord cfg b d f 0x10 s8
                     in probe_pcnet32 e tick n (ioa AND 0xFFFC) (ucast (intr AND 0xFF)) s9)
                 else Some s6)
                (\<lambda>s10. Some (baseClass, subClass, s10\<lparr>numdevs := numdevs s10 + 1\<rparr>))))"

text \<open>\<^verbatim>\<open>checkFunction\<close>, \<^verbatim>\<open>checkDevice\<close> and \<^verbatim>\<open>checkBus\<close> call each other; a call is a value of this type, the loops over devices
  and functions with the number they have reached. A bridge that leads back to an upper bus makes them run forever.\<close>

datatype pci_call =
    CheckFunction u8 u8 u8
  | CheckFunctions u8 u8 nat
  | CheckDevice u8 u8
  | CheckBus u8 nat

partial_function (option) pci_check :: "env \<Rightarrow> ('a pci_scheme \<Rightarrow> 'a pci_scheme) \<Rightarrow> pci_call \<Rightarrow> 'a pci_scheme
    \<Rightarrow> 'a pci_scheme option" where
  "pci_check e tick c s =
     (case c of
        CheckFunction b d f \<Rightarrow>
          Option.bind (checkFunction_enter e tick b d f s) (\<lambda>(baseClass, subClass, s1).
            if baseClass = 0x06 \<and> subClass = 0x04 then
              pci_check e tick (CheckBus (fst (getSecondaryBus (in32 e) b d f s1)) 0) (snd (getSecondaryBus (in32 e) b d f s1))
            else Some s1)
      | CheckFunctions b d f \<Rightarrow>
          (if f < 8 then
             Option.bind
               (if fst (getVendorId (in32 e) b d (of_nat f) s) \<noteq> 0xFFFF
                then pci_check e tick (CheckFunction b d (of_nat f)) (snd (getVendorId (in32 e) b d (of_nat f) s))
                else Some (snd (getVendorId (in32 e) b d (of_nat f) s)))
               (\<lambda>s1. pci_check e tick (CheckFunctions b d (f + 1)) s1)
           else Some s)
      | CheckDevice b d \<Rightarrow>
          (if fst (getVendorId (in32 e) b d 0 s) = 0xFFFF then Some (snd (getVendorId (in32 e) b d 0 s))
           else Option.bind (pci_check e tick (CheckFunction b d 0) (snd (getVendorId (in32 e) b d 0 s))) (\<lambda>s1.
             if fst (getHeaderType (in32 e) b d 0 s1) AND 0x80 \<noteq> 0
             then pci_check e tick (CheckFunctions b d 1) (snd (getHeaderType (in32 e) b d 0 s1))
             else Some (snd (getHeaderType (in32 e) b d 0 s1))))
      | CheckBus b d \<Rightarrow>
          (if d < 32 then
             Option.bind (pci_check e tick (CheckDevice b (of_nat d)) s) (\<lambda>s1. pci_check e tick (CheckBus b (d + 1)) s1)
           else Some s))"

definition checkFunction :: "env \<Rightarrow> ('a pci_scheme \<Rightarrow> 'a pci_scheme) \<Rightarrow> u8 \<Rightarrow> u8 \<Rightarrow> u8 \<Rightarrow> 'a pci_scheme \<Rightarrow> 'a pci_scheme option" where
  "checkFunction e tick b d f = pci_check e tick (CheckFunction b d f)"

definition checkDevice :: "env \<Rightarrow> ('a pci_scheme \<Rightarrow> 'a pci_scheme) \<Rightarrow> u8 \<Rightarrow> u8 \<Rightarrow> 'a pci_scheme \<Rightarrow> 'a pci_scheme option" where
  "checkDevice e tick b d = pci_check e tick (CheckDevice b d)"

definition checkBus :: "env \<Rightarrow> ('a pci_scheme \<Rightarrow> 'a pci_scheme) \<Rightarrow> u8 \<Rightarrow> 'a pci_scheme \<Rightarrow> 'a pci_scheme option" where
  "checkBus e tick b = pci_check e tick (CheckBus b 0)"

text \<open>The loop over the host bridge's functions, with the condition \<^verbatim>\<open>function>8\<close> of the code.\<close>

partial_function (option) checkHosts :: "env \<Rightarrow> ('a pci_scheme \<Rightarrow> 'a pci_scheme) \<Rightarrow> u8 \<Rightarrow> 'a pci_scheme \<Rightarrow> 'a pci_scheme option" where
  "checkHosts e tick f s =
     (if 8 < f then
        (if fst (getVendorId (in32 e) 0 0 f s) \<noteq> 0xFFFF then Some (snd (getVendorId (in32 e) 0 0 f s))
         else Option.bind (checkBus e tick f (snd (getVendorId (in32 e) 0 0 f s))) (\<lambda>s1. checkHosts e tick (f + 1) s1))
      else Some s)"

definition checkAllBuses :: "env \<Rightarrow> ('a pci_scheme \<Rightarrow> 'a pci_scheme) \<Rightarrow> 'a pci_scheme \<Rightarrow> 'a pci_scheme option" where
  "checkAllBuses e tick s =
     (let (h, s1) = getHeaderType (in32 e) 0 0 0 s
      in if h AND 0x80 = 0 then checkBus e tick 0 s1 else checkHosts e tick 0 s1)"

definition pci_init :: "env \<Rightarrow> ('a pci_scheme \<Rightarrow> 'a pci_scheme) \<Rightarrow> 'a pci_scheme \<Rightarrow> 'a pci_scheme option" where
  "pci_init e tick s = checkAllBuses e tick s"

section \<open>What the enumeration finds\<close>

definition pci_present :: "config_space \<Rightarrow> u8 \<Rightarrow> u8 \<Rightarrow> u8 \<Rightarrow> bool" where
  "pci_present space b d f \<longleftrightarrow> (ucast (space b d f 0) :: u16) \<noteq> 0xFFFF"

definition pci_entry :: "config_space \<Rightarrow> u8 \<Rightarrow> u8 \<Rightarrow> u8 \<Rightarrow> pci_dev" where
  "pci_entry space b d f = \<lparr>bus = b, device = d, func = f, vendorId = ucast (space b d f 0),
     deviceId = ucast (drop_bit 16 (space b d f 0))\<rparr>"

definition pci_class :: "config_space \<Rightarrow> u8 \<Rightarrow> u8 \<Rightarrow> u8 \<Rightarrow> u8 \<times> u8" where
  "pci_class space b d f = (ucast (drop_bit 24 (space b d f 8)), ucast (drop_bit 16 (space b d f 8)))"

definition pci_behind :: "config_space \<Rightarrow> u8 \<Rightarrow> u8 \<Rightarrow> u8 \<Rightarrow> u8" where
  "pci_behind space b d f = ucast (drop_bit 8 (space b d f 0x18))"

definition pci_multi :: "config_space \<Rightarrow> u8 \<Rightarrow> u8 \<Rightarrow> bool" where
  "pci_multi space b d \<longleftrightarrow> (ucast (drop_bit 16 (space b d 0 0xC)) :: u8) AND 0x80 \<noteq> 0"

text \<open>The functions of a device that are looked at, in order.\<close>

definition pci_functions :: "config_space \<Rightarrow> u8 \<Rightarrow> u8 \<Rightarrow> u8 list" where
  "pci_functions space b d = (if pci_present space b d 0
     then 0 # (if pci_multi space b d then filter (pci_present space b d) (map of_nat [1..<8]) else []) else [])"

text \<open>The functions of a bus and of the buses behind its bridges, depth first. Bridges lead to higher buses.\<close>

function pci_tree :: "config_space \<Rightarrow> u8 \<Rightarrow> pci_dev list" where
  "pci_tree space b = concat (map (\<lambda>d. concat (map (\<lambda>f. pci_entry space b d f #
       (if pci_class space b d f = (6, 4) \<and> b < pci_behind space b d f then pci_tree space (pci_behind space b d f) else []))
     (pci_functions space b d))) (map of_nat [0..<32]))"
  by pat_completeness auto

termination
proof (relation "measure (\<lambda>(space, b). 256 - unat b)", simp, safe)
  fix space b d f assume "b < pci_behind space b d f"
  moreover have "unat b < 256" using unsigned_less [of b] by simp
  ultimately show "((space, pci_behind space b d f), space, b) \<in> measure (\<lambda>(space, b). 256 - unat b)"
    by (simp add: word_less_nat_alt)
qed

declare pci_tree.simps [simp del]

definition pci_branch :: "config_space \<Rightarrow> u8 \<Rightarrow> u8 \<Rightarrow> u8 \<Rightarrow> pci_dev list" where
  "pci_branch space b d f = pci_entry space b d f #
     (if pci_class space b d f = (6, 4) then pci_tree space (pci_behind space b d f) else [])"

text \<open>Bridges lead to higher buses, and no function is one that is printed or handed to the driver.\<close>

definition pci_quiet :: "config_space \<Rightarrow> bool" where
  "pci_quiet space \<longleftrightarrow> (\<forall>b d f.
     (pci_class space b d f = (6, 4) \<longrightarrow> b < pci_behind space b d f)
     \<and> \<not> (vendorId (pci_entry space b d f) = 0x8086 \<and> fst (pci_class space b d f) = 2)
     \<and> \<not> (vendorId (pci_entry space b d f) = 0x1022 \<and> deviceId (pci_entry space b d f) \<in> {0x2000, 0x2001}))"

text \<open>The entries made so far, with nothing else changed since \<open>s0\<close>, and what a call adds to them.\<close>

definition pci_only :: "'a pci_scheme \<Rightarrow> 'a pci_scheme \<Rightarrow> bool" where
  "pci_only s0 s \<longleftrightarrow> (\<exists>h P n. s = s0\<lparr>io := io s0 @ h, pcidevs := P, numdevs := n\<rparr> \<and> list_all config_event h)"

definition scanned :: "'a pci_scheme \<Rightarrow> pci_dev list \<Rightarrow> 'a pci_scheme \<Rightarrow> bool" where
  "scanned s0 A s \<longleftrightarrow> pci_only s0 s \<and> length (pcidevs s) = 20 \<and> length A \<le> 20 \<and> numdevs s = of_nat (length A)
     \<and> take (length A) (pcidevs s) = A"

definition adds :: "('a pci_scheme \<Rightarrow> 'a pci_scheme option) \<Rightarrow> pci_dev list \<Rightarrow> bool" where
  "adds r L \<longleftrightarrow> (\<forall>s0 A s. scanned s0 A s \<longrightarrow>
     (if length A + length L \<le> 20 then \<exists>s'. r s = Some s' \<and> scanned s0 (A @ L) s' else r s = None))"

lemma pci_only_refl: "pci_only s s"
  unfolding pci_only_def by (intro exI [of _ "[]"] exI [of _ "pcidevs s"] exI [of _ "numdevs s"]) simp

lemma pci_only_entry: "pci_only s0 s \<Longrightarrow> pci_only s0 (s\<lparr>pcidevs := P, numdevs := n\<rparr>)"
  unfolding pci_only_def by (cases s0) auto

lemma pci_only_io:
  assumes "only_io s s'" "pci_only s0 s"
  shows "pci_only s0 s'"
proof -
  obtain h1 where h1: "s' = s\<lparr>io := io s @ h1\<rparr>" "list_all config_event h1" using assms(1) by (auto simp: only_io_def)
  obtain h P n where h: "s = s0\<lparr>io := io s0 @ h, pcidevs := P, numdevs := n\<rparr>" "list_all config_event h"
    using assms(2) by (auto simp: pci_only_def)
  have "s' = s0\<lparr>io := io s0 @ (h @ h1), pcidevs := P, numdevs := n\<rparr>" using h1(1) h(1) by (cases s0) simp
  moreover have "list_all config_event (h @ h1)" using h(2) h1(2) by simp
  ultimately show ?thesis unfolding pci_only_def by blast
qed

lemma scanned_only_io: "only_io s s' \<Longrightarrow> scanned s0 A s \<Longrightarrow> scanned s0 A s'"
  using pci_only_io by (auto simp: only_io_def scanned_def)

lemma addsI:
  assumes "\<And>s0 A s. scanned s0 A s \<Longrightarrow> length A + length L \<le> 20 \<Longrightarrow> \<exists>s'. r s = Some s' \<and> scanned s0 (A @ L) s'"
    and "\<And>s0 A s. scanned s0 A s \<Longrightarrow> 20 < length A + length L \<Longrightarrow> r s = None"
  shows "adds r L"
  using assms by (simp add: adds_def)

lemma addsD:
  assumes "adds r L" "scanned s0 A s"
  shows "length A + length L \<le> 20 \<Longrightarrow> \<exists>s'. r s = Some s' \<and> scanned s0 (A @ L) s'"
    and "20 < length A + length L \<Longrightarrow> r s = None"
  using assms by (auto simp: adds_def)

lemma adds_skip:
  assumes "\<And>s. only_io s (g s)" "adds r L"
  shows "adds (\<lambda>s. r (g s)) L"
proof (rule addsI)
  fix s0 A and s :: "'a pci_scheme" assume "scanned s0 A s"
  then have A: "scanned s0 A (g s)" using scanned_only_io [OF assms(1)] by blast
  show "\<exists>s'. r (g s) = Some s' \<and> scanned s0 (A @ L) s'" if "length A + length L \<le> 20"
    by (rule addsD(1) [OF assms(2) A that])
  show "r (g s) = None" if "20 < length A + length L" by (rule addsD(2) [OF assms(2) A that])
qed

lemma adds_none: "adds Some []"
  by (rule addsI) (auto simp: scanned_def)

lemma adds_bind:
  assumes "adds r L" "adds q M"
  shows "adds (\<lambda>s. Option.bind (r s) q) (L @ M)"
proof (rule addsI)
  fix s0 A and s :: "'a pci_scheme" assume A: "scanned s0 A s"
  show "\<exists>s'. Option.bind (r s) q = Some s' \<and> scanned s0 (A @ L @ M) s'" if len: "length A + length (L @ M) \<le> 20"
  proof -
    obtain s1 where "r s = Some s1" "scanned s0 (A @ L) s1" using addsD(1) [OF assms(1) A] len by auto
    then show ?thesis using addsD(1) [OF assms(2), of s0 "A @ L" s1] len by simp
  qed
  show "Option.bind (r s) q = None" if len: "20 < length A + length (L @ M)"
  proof (cases "length A + length L \<le> 20")
    case True
    then obtain s1 where "r s = Some s1" "scanned s0 (A @ L) s1" using addsD(1) [OF assms(1) A] by auto
    then show ?thesis using addsD(2) [OF assms(2), of s0 "A @ L" s1] len by simp
  qed (use addsD(2) [OF assms(1) A] in simp)
qed

section \<open>The enumeration follows the tree\<close>

lemma enter_entry:
  assumes "pci_host space (in32 e)" "pci_quiet space" "d < 32" "f < 8" "scanned s0 A s"
  shows "if length A < 20
    then \<exists>s'. checkFunction_enter e tick b d f s = Some (fst (pci_class space b d f), snd (pci_class space b d f), s')
      \<and> scanned s0 (A @ [pci_entry space b d f]) s'
    else checkFunction_enter e tick b d f s = None"
proof -
  note fields = config_fields(2-) [OF assms(1,3,4), of b]
  note q = assms(2) [unfolded pci_quiet_def, rule_format, of b d f]
  define s4 where "s4 = snd (getDeviceId (in32 e) b d f (snd (getVendorId (in32 e) b d f
    (snd (getSubClass (in32 e) b d f (snd (getBaseClass (in32 e) b d f s)))))))"
  have s4: "scanned s0 A s4" unfolding s4_def using assms(5)
    by (intro scanned_only_io [OF access_only_io(1)] scanned_only_io [OF access_only_io(2)] scanned_only_io [OF access_only_io(3)]
      scanned_only_io [OF access_only_io(4)])
  have n: "unat (numdevs s4) = length A" "length (pcidevs s4) = 20" "take (length A) (pcidevs s4) = A" "length A \<le> 20"
    using s4 by (auto simp: scanned_def unat_of_nat)
  have enter: "checkFunction_enter e tick b d f s = (if length (pcidevs s4) \<le> unat (numdevs s4) then None
      else Some (fst (pci_class space b d f), snd (pci_class space b d f),
        s4\<lparr>pcidevs := (pcidevs s4)[unat (numdevs s4) := pci_entry space b d f], numdevs := numdevs s4 + 1\<rparr>))"
    unfolding checkFunction_enter_def Let_def case_prod_unfold fields s4_def [symmetric]
    using q by (auto simp: pci_class_def pci_entry_def)
  show ?thesis
  proof (cases "length A < 20")
    case True
    have "take (Suc (length A)) ((pcidevs s4)[length A := x]) = A @ [x]" for x
      using n True by (simp add: take_Suc_conv_app_nth)
    moreover have "numdevs s4 = of_nat (length A)" using s4 by (simp add: scanned_def)
    moreover have "pci_only s0 (s4\<lparr>pcidevs := P, numdevs := k\<rparr>)" for P k using s4 by (simp add: scanned_def pci_only_entry)
    ultimately show ?thesis using True n by (auto simp: enter scanned_def)
  qed (use n in \<open>simp add: enter\<close>)
qed

lemma check_function:
  assumes "pci_host space (in32 e)" "pci_quiet space" "d < 32" "f < 8"
    and bus: "pci_class space b d f = (6, 4) \<Longrightarrow>
      adds (pci_check e tick (CheckBus (pci_behind space b d f) 0)) (pci_tree space (pci_behind space b d f))"
  shows "adds (pci_check e tick (CheckFunction b d f)) (pci_branch space b d f)"
proof (rule addsI)
  let ?c = "pci_class space b d f"
  let ?rest = "if ?c = (6, 4) then pci_tree space (pci_behind space b d f) else []"
  define cont where "cont = (\<lambda>s1. if ?c = (6, 4) then
      pci_check e tick (CheckBus (fst (getSecondaryBus (in32 e) b d f s1)) 0) (snd (getSecondaryBus (in32 e) b d f s1)) else Some s1)"
  have step: "pci_check e tick (CheckFunction b d f) s = Option.bind (checkFunction_enter e tick b d f s)
      (\<lambda>(bc, sc, s1). if bc = 6 \<and> sc = 4 then
        pci_check e tick (CheckBus (fst (getSecondaryBus (in32 e) b d f s1)) 0) (snd (getSecondaryBus (in32 e) b d f s1)) else Some s1)" for s
    by (subst pci_check.simps) simp
  have cont: "adds cont ?rest"
  proof (cases "?c = (6, 4)")
    case True
    then show ?thesis using adds_skip [OF access_only_io(6) [of _ "in32 e" b d f] bus [OF True]]
      by (simp add: cont_def pci_behind_def config_fields(8) [OF assms(1,3,4)])
  qed (simp add: cont_def adds_none)
  fix s0 A and s :: "'a pci_scheme" assume A: "scanned s0 A s"
  note en = enter_entry [OF assms(1-4) A, of tick b]
  show "\<exists>s'. pci_check e tick (CheckFunction b d f) s = Some s' \<and> scanned s0 (A @ pci_branch space b d f) s'"
    if len: "length A + length (pci_branch space b d f) \<le> 20"
  proof -
    have "length A < 20" using len by (simp add: pci_branch_def)
    then obtain s1 where s1: "checkFunction_enter e tick b d f s = Some (fst ?c, snd ?c, s1)" "scanned s0 (A @ [pci_entry space b d f]) s1"
      using en by auto
    then have "pci_check e tick (CheckFunction b d f) s = cont s1" by (simp add: step cont_def prod_eq_iff)
    then show ?thesis using addsD(1) [OF cont s1(2)] len by (simp add: pci_branch_def)
  qed
  show "pci_check e tick (CheckFunction b d f) s = None" if len: "20 < length A + length (pci_branch space b d f)"
  proof (cases "length A < 20")
    case True
    then obtain s1 where s1: "checkFunction_enter e tick b d f s = Some (fst ?c, snd ?c, s1)" "scanned s0 (A @ [pci_entry space b d f]) s1"
      using en by auto
    then have "pci_check e tick (CheckFunction b d f) s = cont s1" by (simp add: step cont_def prod_eq_iff)
    then show ?thesis using addsD(2) [OF cont s1(2)] len by (simp add: pci_branch_def)
  qed (use en step in simp)
qed

lemma check_functions:
  assumes "pci_host space (in32 e)" "d < 32"
    and fn: "\<And>f. f < 8 \<Longrightarrow> adds (pci_check e tick (CheckFunction b d f)) (pci_branch space b d f)"
  shows "k \<le> 8 \<Longrightarrow> adds (pci_check e tick (CheckFunctions b d k))
    (concat (map (pci_branch space b d) (filter (pci_present space b d) (map of_nat [k..<8]))))"
proof (induction k rule: inc_induct)
  case base
  have "pci_check e tick (CheckFunctions b d 8) = Some" by (rule ext) (subst pci_check.simps, simp)
  then show ?case by (simp add: adds_none)
next
  case (step k)
  let ?f = "of_nat k :: u8"
  have f: "?f < 8" using step.hyps(2) by (simp add: word_less_nat_alt unat_of_nat)
  define one where "one = (\<lambda>s. if fst (getVendorId (in32 e) b d ?f s) \<noteq> 0xFFFF
     then pci_check e tick (CheckFunction b d ?f) (snd (getVendorId (in32 e) b d ?f s))
     else Some (snd (getVendorId (in32 e) b d ?f s)))"
  have "pci_check e tick (CheckFunctions b d k) = (\<lambda>s. Option.bind (one s) (pci_check e tick (CheckFunctions b d (Suc k))))"
    by (rule ext) (subst pci_check.simps, use step.hyps(2) in \<open>simp add: one_def\<close>)
  moreover have "adds one (if pci_present space b d ?f then pci_branch space b d ?f else [])"
    using adds_skip [OF access_only_io(1) [of _ "in32 e" b d ?f] fn [OF f]]
    by (simp add: one_def pci_present_def config_fields(2) [OF assms(1,2) f]
        adds_skip [OF access_only_io(1) [of _ "in32 e" b d ?f] adds_none])
  moreover have "[k..<8] = k # [Suc k..<8]" using step.hyps(2) by (simp add: upt_conv_Cons)
  ultimately show ?case using adds_bind [OF _ step.IH] by fastforce
qed

lemma check_device:
  assumes "pci_host space (in32 e)" "d < 32"
    and fn: "\<And>f. f < 8 \<Longrightarrow> adds (pci_check e tick (CheckFunction b d f)) (pci_branch space b d f)"
  shows "adds (pci_check e tick (CheckDevice b d)) (concat (map (pci_branch space b d) (pci_functions space b d)))"
proof -
  note io1 = access_only_io(1) [of _ "in32 e" b d 0] and io5 = access_only_io(5) [of _ "in32 e" b d 0]
  define more where "more = (\<lambda>s1. if fst (getHeaderType (in32 e) b d 0 s1) AND 0x80 \<noteq> 0
     then pci_check e tick (CheckFunctions b d 1) (snd (getHeaderType (in32 e) b d 0 s1))
     else Some (snd (getHeaderType (in32 e) b d 0 s1)))"
  have more: "adds more (concat (map (pci_branch space b d)
      (if pci_multi space b d then filter (pci_present space b d) (map of_nat [1..<8]) else [])))"
    using adds_skip [OF io5 check_functions [OF assms(1,2) fn, of 1]]
    by (simp add: more_def pci_multi_def config_fields(7) [OF assms(1,2)] adds_skip [OF io5 adds_none])
  have call: "pci_check e tick (CheckDevice b d) = (\<lambda>s. if fst (getVendorId (in32 e) b d 0 s) = 0xFFFF
      then Some (snd (getVendorId (in32 e) b d 0 s))
      else Option.bind (pci_check e tick (CheckFunction b d 0) (snd (getVendorId (in32 e) b d 0 s))) more)"
    by (rule ext) (subst pci_check.simps, simp add: more_def)
  show ?thesis
  proof (cases "pci_present space b d 0")
    case True
    have "adds (\<lambda>s. Option.bind (pci_check e tick (CheckFunction b d 0) (snd (getVendorId (in32 e) b d 0 s))) more)
        (pci_branch space b d 0 @ concat (map (pci_branch space b d)
          (if pci_multi space b d then filter (pci_present space b d) (map of_nat [1..<8]) else [])))"
      by (rule adds_bind [OF adds_skip [OF io1 fn] more]) simp
    then show ?thesis using True by (simp add: call pci_functions_def pci_present_def config_fields(2) [OF assms(1,2)])
  next
    case False
    then show ?thesis
      by (simp add: call pci_functions_def pci_present_def config_fields(2) [OF assms(1,2)] adds_skip [OF io1 adds_none])
  qed
qed

lemma check_bus_from:
  assumes "\<And>d. d < 32 \<Longrightarrow> adds (pci_check e tick (CheckDevice b d)) (D d)"
  shows "k \<le> 32 \<Longrightarrow> adds (pci_check e tick (CheckBus b k)) (concat (map D (map of_nat [k..<32])))"
proof (induction k rule: inc_induct)
  case base
  have "pci_check e tick (CheckBus b 32) = Some" by (rule ext) (subst pci_check.simps, simp)
  then show ?case by (simp add: adds_none)
next
  case (step k)
  have d: "(of_nat k :: u8) < 32" using step.hyps(2) by (simp add: word_less_nat_alt unat_of_nat)
  have "pci_check e tick (CheckBus b k) =
      (\<lambda>s. Option.bind (pci_check e tick (CheckDevice b (of_nat k)) s) (pci_check e tick (CheckBus b (Suc k))))"
    by (rule ext) (subst pci_check.simps, use step.hyps(2) in simp)
  moreover have "[k..<32] = k # [Suc k..<32]" using step.hyps(2) by (simp add: upt_conv_Cons)
  ultimately show ?case using adds_bind [OF assms [OF d] step.IH] by simp
qed

lemma check_bus:
  assumes "pci_host space (in32 e)" "pci_quiet space"
  shows "adds (pci_check e tick (CheckBus b 0)) (pci_tree space b)"
proof (induction "256 - unat b" arbitrary: b rule: less_induct)
  case less
  have up: "b < pci_behind space b d f" if "pci_class space b d f = (6, 4)" for d f
    using assms(2) that by (simp add: pci_quiet_def)
  have fn: "adds (pci_check e tick (CheckFunction b d f)) (pci_branch space b d f)" if df: "d < 32" "f < 8" for d f
  proof (rule check_function [OF assms df])
    assume "pci_class space b d f = (6, 4)"
    then have "unat b < unat (pci_behind space b d f)" using up by (simp add: word_less_nat_alt)
    moreover have "unat (pci_behind space b d f) < 256" using unsigned_less [of "pci_behind space b d f"] by simp
    ultimately show "adds (pci_check e tick (CheckBus (pci_behind space b d f) 0)) (pci_tree space (pci_behind space b d f))"
      by (intro less) simp
  qed
  have branch: "pci_branch space b d = (\<lambda>f. pci_entry space b d f #
      (if pci_class space b d f = (6, 4) \<and> b < pci_behind space b d f then pci_tree space (pci_behind space b d f) else []))" for d
    using up by (auto simp: pci_branch_def)
  have "pci_tree space b = concat (map (\<lambda>d. concat (map (pci_branch space b d) (pci_functions space b d))) (map of_nat [0..<32]))"
    unfolding branch by (subst pci_tree.simps) (rule refl)
  then show ?case using check_bus_from [OF check_device [OF assms(1) _ fn], of 0] by simp
qed

lemma pci_init_scan:
  assumes "pci_host space (in32 e)" "pci_quiet space" "\<not> pci_multi space 0 0"
    and "length (pcidevs s) = 20" "numdevs s = 0"
  shows "if length (pci_tree space 0) \<le> 20 then \<exists>s'. pci_init e tick s = Some s' \<and> scanned s (pci_tree space 0) s'
    else pci_init e tick s = None"
proof -
  have "pci_init e tick s = pci_check e tick (CheckBus 0 0) (snd (getHeaderType (in32 e) 0 0 0 s))"
    using assms(3) config_fields(7) [OF assms(1), of 0 0 0 s]
    by (simp add: pci_init_def checkAllBuses_def case_prod_unfold pci_multi_def checkBus_def Let_def)
  moreover have "scanned s [] (snd (getHeaderType (in32 e) 0 0 0 s))"
    using assms(4,5) by (intro scanned_only_io [OF access_only_io(5)]) (simp add: scanned_def pci_only_refl)
  note r = calculation addsD [OF check_bus [OF assms(1,2), of tick 0] this]
  then show ?thesis using r by auto
qed

text \<open>C12: On a bus that follows configuration mechanism 1, whose bridges lead to higher bus numbers, with a single-function
  host bridge and no network card to be printed or probed, \<^verbatim>\<open>pci_init\<close> returns with the functions of the whole tree in
  \<^verbatim>\<open>pcidevs\<close>, depth first, and nothing else changed, if they are at most 20; with more functions it writes past the end of the array.\<close>

theorem pci_init_enumerates:
  assumes "pci_host space (in32 e)" "pci_quiet space" "\<not> pci_multi space 0 0"
    and "length (pcidevs s) = 20" "numdevs s = 0"
  shows "if length (pci_tree space 0) \<le> 20
    then \<exists>s'. pci_init e tick s = Some s' \<and> pci_only s s' \<and> unat (numdevs s') = length (pci_tree space 0)
      \<and> take (unat (numdevs s')) (pcidevs s') = pci_tree space 0
    else pci_init e tick s = None"
  using pci_init_scan [OF assms, of tick] by (auto simp: scanned_def unat_of_nat split: if_splits)

text \<open>C36: When the host bridge has several functions, \<^verbatim>\<open>pci_init\<close> enumerates nothing: the condition of the loop over the
  host bridge's functions is false at the start.\<close>

theorem pci_init_multifunction_host:
  assumes "pci_host space (in32 e)" "pci_multi space 0 0"
  shows "\<exists>h. pci_init e tick s = Some (s\<lparr>io := h\<rparr>)"
proof -
  have "pci_init e tick s = Some (snd (getHeaderType (in32 e) 0 0 0 s))"
    using assms(2) config_fields(7) [OF assms(1), of 0 0 0 s] checkHosts.simps [of e tick 0]
    by (simp add: pci_init_def checkAllBuses_def case_prod_unfold pci_multi_def Let_def)
  then show ?thesis using access_only_io(5) [of s "in32 e" 0 0 0] by (auto simp: only_io_def)
qed

section \<open>Concrete instances\<close>

text \<open>A host bridge at (0, 0, 0), a bridge to bus 1 at (0, 1, 0) and one function behind it.\<close>

definition tree_space :: config_space where
  "tree_space b d f r =
     (if b = 0 \<and> d = 0 \<and> f = 0 then (if r = 0 then 0x12378086 else if r = 8 then 0x06000000 else 0)
      else if b = 0 \<and> d = 1 \<and> f = 0 then (if r = 0 then 0x244E8086 else if r = 8 then 0x06040000 else if r = 0x18 then 0x10100 else 0)
      else if b = 1 \<and> d = 0 \<and> f = 0 then (if r = 0 then 0x11111234 else if r = 8 then 0x03000000 else 0)
      else if r = 0 then 0xFFFFFFFF else 0)"

definition space_cfg :: "config_space \<Rightarrow> u32 port_read" where
  "space_cfg space h p = (if h = [] then 0 else case last h of OutL q a \<Rightarrow> if q = 0xCF8 then pci_select space a else 0 | _ \<Rightarrow> 0)"

definition sample_env :: "config_space \<Rightarrow> env" where
  "sample_env space = \<lparr>in8 = last_write, in32 = space_cfg space, local_byte = 1, ntoa_buff = 0xC0108000, net_devs_at = 0xC0109000,
     pcidevs_at = 0xC010A000, irq_code = 0xC0100100, work_code = 0xC0100200, tx_code = 0xC0100300\<rparr>"

lemma sample_env_host: "pci_host space (in32 (sample_env space))"
  by (simp add: sample_env_def pci_host_def space_cfg_def)

definition boot_pci :: pci where
  "boot_pci = net.extend boot_net \<lparr>pcidevs = replicate 20 \<lparr>bus = 0, device = 0, func = 0, vendorId = 0, deviceId = 0\<rparr>, numdevs = 0\<rparr>"

lemma tree_space_quiet: "pci_quiet tree_space"
  by (simp add: pci_quiet_def pci_class_def pci_entry_def pci_behind_def tree_space_def)

lemma tree_space_functions:
  "pci_functions tree_space b d = (if b = 0 \<and> (d = 0 \<or> d = 1) \<or> b = 1 \<and> d = 0 then [0] else [])"
  by (auto simp: pci_functions_def pci_present_def pci_multi_def tree_space_def)

lemma bus_devices: "map of_nat [0..<32] = [0, 1 :: u8] @ map of_nat [2..<32]"
  by (simp add: upt_conv_Cons)

lemma high_device: "d \<in> set (map of_nat [2..<32]) \<Longrightarrow> d \<noteq> (0 :: u8) \<and> d \<noteq> 1"
  by (auto simp: word_unat_eq_iff unat_of_nat)

lemma quiet_devices: "(\<And>d. d \<in> set (map of_nat [2..<32]) \<Longrightarrow> F d = []) \<Longrightarrow>
    concat (map F (map of_nat [0..<32])) = F (0 :: u8) @ F 1"
  unfolding bus_devices by (simp add: concat_eq_Nil_conv [THEN iffD2])

lemma tree_space_tree:
  "pci_tree tree_space 1 = [pci_entry tree_space 1 0 0]"
  "pci_tree tree_space 0 = [pci_entry tree_space 0 0 0, pci_entry tree_space 0 1 0, pci_entry tree_space 1 0 0]"
proof -
  have c: "pci_class tree_space 1 0 0 = (3, 0)" "pci_class tree_space 0 0 0 = (6, 0)" "pci_class tree_space 0 1 0 = (6, 4)"
    "pci_behind tree_space 0 1 0 = 1" by (simp_all add: pci_class_def pci_behind_def tree_space_def)
  show t1: "pci_tree tree_space 1 = [pci_entry tree_space 1 0 0]"
    by (subst pci_tree.simps, subst quiet_devices) (auto simp: tree_space_functions c dest: high_device)
  show "pci_tree tree_space 0 = [pci_entry tree_space 0 0 0, pci_entry tree_space 0 1 0, pci_entry tree_space 1 0 0]"
    by (subst pci_tree.simps, subst quiet_devices) (auto simp: tree_space_functions c t1 dest: high_device)
qed

theorem pci_init_enumerates_witness:
  "\<exists>s'. pci_init (sample_env tree_space) id boot_pci = Some s' \<and> numdevs s' = 3
     \<and> map vendorId (take 3 (pcidevs s')) = [0x8086, 0x8086, 0x1234]"
proof -
  have "\<not> pci_multi tree_space 0 0" "length (pcidevs boot_pci) = 20" "numdevs boot_pci = 0"
    by (simp_all add: pci_multi_def tree_space_def boot_pci_def net.defs)
  from pci_init_enumerates [OF sample_env_host tree_space_quiet this, of id]
  obtain s' where s': "pci_init (sample_env tree_space) id boot_pci = Some s'" "unat (numdevs s') = 3"
      "take 3 (pcidevs s') = [pci_entry tree_space 0 0 0, pci_entry tree_space 0 1 0, pci_entry tree_space 1 0 0]"
    by (auto simp: tree_space_tree numeral_3_eq_3)
  then have "numdevs s' = 3" by (simp add: word_unat_eq_iff)
  then show ?thesis using s' by (simp add: pci_entry_def tree_space_def)
qed

theorem pci_init_multifunction_host_witness:
  "\<exists>h. pci_init (sample_env (\<lambda>b d f r. if r = 0xC then 0x800000 else tree_space b d f r)) id boot_pci = Some (boot_pci\<lparr>io := h\<rparr>)"
  by (rule pci_init_multifunction_host [OF sample_env_host]) (simp add: pci_multi_def)

end
