(* ===== verification/Frog_Txring.thy ===== *)
theory Frog_Txring
  imports Frog_Pcnet32
begin

text \<open>
  The transmit ring of pcnet32.c as a queue between the driver and the card: what the driver has
  handed over and the card has not sent yet, in order, and the protocol of the ownership bit.
\<close>

section \<open>Cells of an array\<close>

definition cell :: "addr \<Rightarrow> nat \<Rightarrow> nat \<Rightarrow> addr" where
  "cell a w j = a + of_nat (w * j)"

lemma unat_cell: "w * j < 2 ^ 32 \<Longrightarrow> unat (of_nat (w * j) :: addr) = w * j"
  by (simp only: unat_of_nat) simp

lemma in_cell:
  assumes "w * j + w \<le> 2 ^ 32" "0 < w"
  shows "x \<in> region (cell a w j) w \<longleftrightarrow> w * j \<le> unat (x - a) \<and> unat (x - a) < w * j + w"
proof -
  have "unat (of_nat (w * j) :: addr) = w * j" using assms by (intro unat_cell) linarith
  then show ?thesis unfolding cell_def using assms by (subst region_shift) simp_all
qed

lemma cell_subset: "w * n \<le> 2 ^ 32 \<Longrightarrow> j < n \<Longrightarrow> region (cell a w j) w \<subseteq> region a (w * n)"
proof
  fix x assume n: "w * n \<le> 2 ^ 32" "j < n" and x: "x \<in> region (cell a w j) w"
  have "0 < w" using x by (cases w) auto
  have le: "w * j + w \<le> w * n" using mult_le_mono2 [of "Suc j" n w] n(2) by simp
  then show "x \<in> region a (w * n)" using in_cell [of w j x a] x n \<open>0 < w\<close> by simp
qed

lemma cells_disjoint:
  assumes "w * n \<le> 2 ^ 32" "i < n" "j < n" "i \<noteq> j"
  shows "region (cell a w i) w \<inter> region (cell a w j) w = {}"
proof (rule ccontr)
  assume "region (cell a w i) w \<inter> region (cell a w j) w \<noteq> {}"
  then obtain x where x: "x \<in> region (cell a w i) w" "x \<in> region (cell a w j) w" by blast
  then have "0 < w" by (cases w) auto
  have le: "w * i + w \<le> 2 ^ 32" "w * j + w \<le> 2 ^ 32"
    using mult_le_mono2 [of "Suc i" n w] mult_le_mono2 [of "Suc j" n w] assms by simp_all
  have "w * i < w * Suc j" "w * j < w * Suc i"
    using x in_cell [OF le(1) \<open>0 < w\<close>, of x a] in_cell [OF le(2) \<open>0 < w\<close>, of x a] by auto
  then have "i < Suc j" "j < Suc i" unfolding mult_less_cancel1 by simp_all
  then show False using assms(4) by simp
qed

section \<open>The ring\<close>

text \<open>Two's complement of the length in the low twelve bits, ones above them.\<close>

definition bcnt :: "nat \<Rightarrow> u16" where
  "bcnt n = ((- of_nat n) AND 0xFFF) OR 0xF000"

text \<open>How the card reads it back.\<close>

definition bcnt_length :: "u16 \<Rightarrow> nat" where
  "bcnt_length v = unat ((- v) AND 0xFFF)"

text \<open>The entry \<open>j\<close> holds the packet \<open>p\<close> and belongs to the card.\<close>

definition tx_slot :: "byte_mem \<Rightarrow> addr \<Rightarrow> addr \<Rightarrow> nat \<Rightarrow> u8 list \<Rightarrow> bool" where
  "tx_slot m td tb j p \<longleftrightarrow> length p \<le> 1600 \<and> m (cell td 16 j + 7) AND 0x83 = 0x83
     \<and> load16 m (cell td 16 j + 4) = bcnt (length p) \<and> bytes_at m (cell tb 1600 j) (length p) = p"

text \<open>The pending packets \<open>ps\<close> lie in the entries from \<open>c\<close> on; the other entries belong to the driver.\<close>

definition tx_ring :: "byte_mem \<Rightarrow> addr \<Rightarrow> addr \<Rightarrow> nat \<Rightarrow> u8 list list \<Rightarrow> bool" where
  "tx_ring m td tb c ps \<longleftrightarrow> c < 16 \<and> length ps \<le> 16
     \<and> (\<forall>k < length ps. tx_slot m td tb ((c + k) mod 16) (ps ! k))
     \<and> (\<forall>k. length ps \<le> k \<longrightarrow> k < 16 \<longrightarrow> m (cell td 16 ((c + k) mod 16) + 7) AND 0x80 = 0)"

lemma own_in_cell: "cell td 16 j + 7 \<in> region (cell td 16 j) 16"
  by (simp add: add_diff_eq [symmetric])

lemma tx_slot_cong:
  assumes "j < 16" "\<And>x. x \<in> region (cell td 16 j) 16 \<union> region (cell tb 1600 j) 1600 \<Longrightarrow> m' x = m x"
  shows "tx_slot m' td tb j p \<longleftrightarrow> tx_slot m td tb j p"
proof -
  have d: "m' (cell td 16 j + k) = m (cell td 16 j + k)" if "unat k < 16" for k using that by (intro assms(2)) simp
  have "load16 m' (cell td 16 j + 4) = load16 m (cell td 16 j + 4)"
    using d [of 4] d [of 5] by (simp add: load16_def add.assoc)
  moreover have "bytes_at m' (cell tb 1600 j) (length p) = bytes_at m (cell tb 1600 j) (length p)" if "length p \<le> 1600"
    using that by (intro bytes_at_cong assms(2)) (simp add: unat_of_nat)
  ultimately show ?thesis using d [of 7] by (auto simp: tx_slot_def)
qed

lemma tx_slot_owned: "tx_slot m td tb j p \<Longrightarrow> m (cell td 16 j + 7) AND 0x80 \<noteq> 0"
proof
  assume a: "tx_slot m td tb j p" "m (cell td 16 j + 7) AND 0x80 = 0"
  then have "(m (cell td 16 j + 7) AND 0x83) AND 0x80 = 0x80" by (simp add: tx_slot_def)
  then have "m (cell td 16 j + 7) AND 0x80 = 0x80" by (simp add: and.assoc)
  then show False using a(2) by simp
qed

lemma ring_index: "c < 16 \<Longrightarrow> i < 16 \<Longrightarrow> k < (16 :: nat) \<Longrightarrow> (c + i) mod 16 = (c + k) mod 16 \<longleftrightarrow> i = k"
proof -
  assume a: "c < 16" "i < 16" "k < (16 :: nat)"
  have "n mod 16 = (if n < 16 then n else n - 16)" if "n < 32" for n :: nat using that by (simp add: le_mod_geq)
  from this [of "c + i"] this [of "c + k"] show ?thesis using a by auto
qed

text \<open>The driver fills the next entry.\<close>

lemma tx_ring_submit:
  assumes ring: "tx_ring m td tb c ps" and n: "length ps < 16"
    and slot: "tx_slot m' td tb ((c + length ps) mod 16) p"
    and same: "\<And>j x. j < 16 \<Longrightarrow> j \<noteq> (c + length ps) mod 16 \<Longrightarrow>
      x \<in> region (cell td 16 j) 16 \<union> region (cell tb 1600 j) 1600 \<Longrightarrow> m' x = m x"
  shows "tx_ring m' td tb c (ps @ [p])"
proof -
  have c: "c < 16" using ring by (simp add: tx_ring_def)
  have other: "(c + k) mod 16 \<noteq> (c + length ps) mod 16" if "k < 16" "k \<noteq> length ps" for k
    using that n c ring_index by blast
  have "tx_slot m' td tb ((c + k) mod 16) ((ps @ [p]) ! k)" if "k < Suc (length ps)" for k
  proof (cases "k = length ps")
    case False
    then have k: "k < length ps" using that by simp
    then have "tx_slot m td tb ((c + k) mod 16) (ps ! k)" using ring by (simp add: tx_ring_def)
    moreover have "tx_slot m' td tb ((c + k) mod 16) (ps ! k) \<longleftrightarrow> tx_slot m td tb ((c + k) mod 16) (ps ! k)"
      using other [of k] k n by (intro tx_slot_cong same) auto
    ultimately show ?thesis using k by (simp add: nth_append)
  qed (use slot in simp)
  moreover have "m' (cell td 16 ((c + k) mod 16) + 7) AND 0x80 = 0" if "Suc (length ps) \<le> k" "k < 16" for k
  proof -
    have "m' (cell td 16 ((c + k) mod 16) + 7) = m (cell td 16 ((c + k) mod 16) + 7)"
      using that by (intro same [OF _ other UnI1 [OF own_in_cell]]) auto
    then show ?thesis using that ring by (simp add: tx_ring_def)
  qed
  ultimately show ?thesis using c n by (simp add: tx_ring_def)
qed

text \<open>The card sends the oldest packet and gives its entry back.\<close>

lemma tx_ring_send:
  assumes ring: "tx_ring m td tb c (p # ps)"
    and own: "m' (cell td 16 c + 7) AND 0x80 = 0"
    and same: "\<And>j x. j < 16 \<Longrightarrow> j \<noteq> c \<Longrightarrow> x \<in> region (cell td 16 j) 16 \<union> region (cell tb 1600 j) 1600 \<Longrightarrow> m' x = m x"
  shows "tx_ring m' td tb (Suc c mod 16) ps"
proof -
  have c: "c < 16" "length ps < 16" using ring by (simp_all add: tx_ring_def)
  have shift: "(Suc c mod 16 + k) mod 16 = (c + Suc k) mod 16" for k by (simp add: mod_add_left_eq)
  have other: "(c + Suc k) mod 16 \<noteq> c" if "Suc k < 16" for k using that c ring_index [of c "Suc k" 0] by simp
  have "tx_slot m' td tb ((c + Suc k) mod 16) (ps ! k)" if "k < length ps" for k
  proof -
    have "Suc k < length (p # ps)" using that by simp
    then have "tx_slot m td tb ((c + Suc k) mod 16) ((p # ps) ! Suc k)" using ring unfolding tx_ring_def by blast
    moreover have "tx_slot m' td tb ((c + Suc k) mod 16) (ps ! k) \<longleftrightarrow> tx_slot m td tb ((c + Suc k) mod 16) (ps ! k)"
      using other [of k] that c by (intro tx_slot_cong same) auto
    ultimately show ?thesis by simp
  qed
  moreover have "m' (cell td 16 ((c + Suc k) mod 16) + 7) AND 0x80 = 0" if "length ps \<le> k" "k < 16" for k
  proof (cases "Suc k < 16")
    case True
    then have "m' (cell td 16 ((c + Suc k) mod 16) + 7) = m (cell td 16 ((c + Suc k) mod 16) + 7)"
      by (intro same [OF _ other UnI1 [OF own_in_cell]]) auto
    moreover have "m (cell td 16 ((c + Suc k) mod 16) + 7) AND 0x80 = 0"
      using ring that True unfolding tx_ring_def by (metis Suc_le_mono length_Cons)
    ultimately show ?thesis by simp
  next
    case False
    then have "k = 15" using that by simp
    then show ?thesis using own c by simp
  qed
  ultimately show ?thesis using c by (simp add: tx_ring_def shift)
qed

lemma tx_ring_head: "tx_ring m td tb c (p # ps) \<Longrightarrow> tx_slot m td tb c p"
  by (auto simp: tx_ring_def dest: spec [of _ 0])

lemma tx_ring_next: "tx_ring m td tb c ps \<Longrightarrow> m (cell td 16 ((c + length ps) mod 16) + 7) AND 0x80 = 0 \<Longrightarrow> length ps < 16"
  using tx_ring_head [of m td tb c "hd ps" "tl ps"]
  by (cases ps; cases "length ps = 16") (auto simp: tx_ring_def dest: tx_slot_owned)

section \<open>The driver's side\<close>

definition tx_area :: "addr \<Rightarrow> addr \<Rightarrow> addr \<Rightarrow> addr set" where
  "tx_area dev td tb = region dev 96 \<union> region td 256 \<union> region tb 25600"

definition tx_driver :: "nat \<Rightarrow> addr \<Rightarrow> addr \<Rightarrow> addr \<Rightarrow> nat \<Rightarrow> u8 list list \<Rightarrow> 'a net_scheme \<Rightarrow> bool" where
  "tx_driver netdev dev td tb c ps s \<longleftrightarrow> netdev < length (net_devs s) \<and> priv (net_devs s ! netdev) = dev
     \<and> tdes (mem s) dev = td \<and> tx_buffers (mem s) dev = tb \<and> tx_buffer_count (mem s) dev = 16
     \<and> unat (tx_buffer_ptr (mem s) dev) = (c + length ps) mod 16 \<and> tx_ring (mem s) td tb c ps
     \<and> region dev 96 \<inter> region td 256 = {} \<and> region dev 96 \<inter> region tb 25600 = {} \<and> region td 256 \<inter> region tb 25600 = {}"

lemma tx_fields_cong:
  assumes "\<And>x. x \<in> region dev 96 \<Longrightarrow> m' x = m x"
  shows "tdes m' dev = tdes m dev" "tx_buffers m' dev = tx_buffers m dev"
    "tx_buffer_count m' dev = tx_buffer_count m dev" "tx_buffer_ptr m' dev = tx_buffer_ptr m dev"
proof -
  have at: "m' (dev + k) = m (dev + k)" if "unat k < 96" for k using that by (intro assms) simp
  show "tdes m' dev = tdes m dev" "tx_buffers m' dev = tx_buffers m dev"
    "tx_buffer_count m' dev = tx_buffer_count m dev" "tx_buffer_ptr m' dev = tx_buffer_ptr m dev"
    by (simp_all add: tdes_def tx_buffers_def tx_buffer_count_def tx_buffer_ptr_def load32_def load16_def add.assoc at)
qed

lemma cells_in_area:
  assumes "j < 16"
  shows "region (cell td 16 j) 16 \<subseteq> region td 256" "region (cell tb 1600 j) 1600 \<subseteq> region tb 25600"
  using cell_subset [of 16 16 j td] cell_subset [of 1600 16 j tb] assms by simp_all

lemma tx_ring_cong:
  assumes "\<And>x. x \<in> region td 256 \<union> region tb 25600 \<Longrightarrow> m' x = m x"
  shows "tx_ring m' td tb c ps \<longleftrightarrow> tx_ring m td tb c ps"
proof -
  have "tx_slot m' td tb ((c + k) mod 16) p \<longleftrightarrow> tx_slot m td tb ((c + k) mod 16) p" for k p
  proof (rule tx_slot_cong)
    fix x assume "x \<in> region (cell td 16 ((c + k) mod 16)) 16 \<union> region (cell tb 1600 ((c + k) mod 16)) 1600"
    then show "m' x = m x"
      using cells_in_area(1) [of "(c + k) mod 16" td] cells_in_area(2) [of "(c + k) mod 16" tb] by (intro assms) auto
  qed simp
  moreover have "m' (cell td 16 ((c + k) mod 16) + 7) = m (cell td 16 ((c + k) mod 16) + 7)" for k
    by (intro assms UnI1 subsetD [OF cells_in_area(1) own_in_cell]) simp
  ultimately show ?thesis by (simp add: tx_ring_def)
qed

lemma tx_driver_cong:
  assumes "tx_driver netdev dev td tb c ps s" "\<And>x. x \<in> tx_area dev td tb \<Longrightarrow> mem s' x = mem s x"
    "length (net_devs s') = length (net_devs s)" "priv (net_devs s' ! netdev) = priv (net_devs s ! netdev)"
  shows "tx_driver netdev dev td tb c ps s'"
proof -
  have "tx_ring (mem s') td tb c ps \<longleftrightarrow> tx_ring (mem s) td tb c ps"
    using assms(2) by (intro tx_ring_cong) (simp add: tx_area_def del: in_region)
  moreover have "mem s' x = mem s x" if "x \<in> region dev 96" for x using that assms(2) by (simp add: tx_area_def del: in_region)
  ultimately show ?thesis using assms(1,3,4) tx_fields_cong [of dev "mem s'" "mem s"] by (simp add: tx_driver_def del: in_region)
qed

text \<open>The addresses the code computes.\<close>

lemma entry_addresses:
  assumes "unat (q :: u16) = j"
  shows "de_at td q = cell td 16 j" "buf_at tb q = cell tb 1600 j"
proof -
  have "unat q < 2 ^ LENGTH(16)" by (rule unsigned_less)
  then have "j < 65536" using assms by simp
  then have "ucast q = (of_nat j :: addr)" using assms by (simp add: word_unat_eq_iff unat_of_nat)
  then show "de_at td q = cell td 16 j" "buf_at tb q = cell tb 1600 j" by (simp_all add: cell_def mult.commute)
qed

lemma load16_other: "region a 2 \<inter> region b 2 = {} \<Longrightarrow> load16 (store16 m a v) b = load16 m b"
  by (rule load16_cong) (rule store16_same, blast)

lemma let_step: "x = y \<Longrightarrow> F y = r \<Longrightarrow> Let x F = r"
  by simp

text \<open>The packet copied into entry \<open>q\<close> and its buffer freed; then the entry handed over and the ring pointer advanced.\<close>

definition tx_copied :: "addr \<Rightarrow> nat \<Rightarrow> addr \<Rightarrow> nat \<Rightarrow> 'a net_scheme \<Rightarrow> 'a net_scheme" where
  "tx_copied tb q packet n s = net_free packet (s\<lparr>mem := store_list (cell tb 1600 q) (bytes_at (mem s) packet n) (mem s)\<rparr>)"

definition tx_memory :: "addr \<Rightarrow> addr \<Rightarrow> nat \<Rightarrow> nat \<Rightarrow> byte_mem \<Rightarrow> byte_mem" where
  "tx_memory dev td q n m = store16 ((store16 m (cell td 16 q + 4) (bcnt n))(cell td 16 q + 7 := m (cell td 16 q + 7) OR 0x83))
     (dev + 62) (of_nat (Suc q mod 16))"

lemma tx_effect:
  assumes drv: "tx_driver netdev dev td tb c ps s" and len: "unat len \<le> 1600"
    and own: "mem s (cell td 16 q + 7) AND 0x80 = 0" and q: "q = (c + length ps) mod 16"
    and apart: "tx_area dev td tb \<inter> buf_area packet = {}"
  defines "s2 \<equiv> tx_copied tb q packet (unat len) s"
  shows "pcnet32_tx_packet netdev packet len s = (1, s2\<lparr>
    net_devs := (net_devs s)[netdev := (net_devs s ! netdev)\<lparr>tx_packets := tx_packets (net_devs s ! netdev) + 1\<rparr>],
    mem := tx_memory dev td q (unat len) (mem s2)\<rparr>)"
proof -
  let ?m = "mem s" and ?de = "cell td 16 q" and ?bf = "cell tb 1600 q" and ?p = "tx_buffer_ptr (mem s) dev"
  have f: "priv (net_devs s ! netdev) = dev" "tdes ?m dev = td" "tx_buffers ?m dev = tb" "tx_buffer_count ?m dev = 16" "unat ?p = q"
    "region dev 96 \<inter> region td 256 = {}" "region dev 96 \<inter> region tb 25600 = {}" "netdev < length (net_devs s)"
    using drv q by (simp_all add: tx_driver_def)
  have q16: "q < 16" by (simp add: q)
  note at = entry_addresses [OF f(5)]
  have copy: "memcpy ?bf packet (ucast len) ?m = store_list ?bf (bytes_at ?m packet (unat len)) ?m"
  proof -
    have "?bf \<in> tx_area dev td tb" using cells_in_area(2) [OF q16, of tb] unfolding tx_area_def by force
    then have "?bf \<notin> buf_area packet" using apart by blast
    then have "?bf \<notin> region packet (unat len)" using region_mono [of "unat len" 2000 packet] len by auto
    then show ?thesis using memcpy_store_list [of ?bf packet "ucast len" ?m] by simp
  qed
  have dev2: "mem s2 x = ?m x" if "x \<in> region dev 96" for x
  proof -
    have "x \<notin> buf_area packet" using apart that by (auto simp: tx_area_def simp del: in_region)
    moreover have "x \<notin> region ?bf (unat len)"
      using that f(7) cells_in_area(2) [OF q16, of tb] region_mono [OF len, of ?bf] by blast
    ultimately show ?thesis using region_mono [of 4 2000 packet] len
      by (auto simp: s2_def tx_copied_def net_free_def memset_apply store_list_out)
  qed
  have de: "?de + k \<in> region td 256" if "unat k < 16" for k
    using cells_in_area(1) [OF q16, of td] that by (auto simp: subset_iff)
  have off: "x \<noteq> ?de + 4" "x \<noteq> ?de + 4 + 1" "x \<noteq> ?de + 7" if "x \<in> region dev 96" for x
    using de [of 4] de [of 5] de [of 7] that f(6) by (auto simp: add.assoc)
  define m2 where "m2 = mem s2"
  define m3 where "m3 = m2(?de + 7 := m2 (?de + 7) OR 3)"
  define m4 where "m4 = store16 m3 (?de + 4) (bcnt (unat len))"
  define m6 where "m6 = m4(?de + 7 := m4 (?de + 7) OR 0x80)"
  define m7 where "m7 = store16 m6 (dev + 62) (?p + 1)"
  have same: "m2 x = ?m x" "m3 x = ?m x" "m4 x = ?m x" "m6 x = ?m x" if "x \<in> region dev 96" for x
    using dev2 [OF that] off [OF that] by (simp_all add: m2_def m3_def m4_def m6_def store16_apply)
  note fields = tx_fields_cong [OF same(1)] tx_fields_cong [OF same(2)] tx_fields_cong [OF same(3)] tx_fields_cong [OF same(4)]
  have own': "pcnet32_driverowns ?m td ?p" using own by (simp add: pcnet32_driverowns_def at)
  have count: "tx_buffer_count m7 dev = 16" "tx_buffer_ptr m7 dev = ?p + 1"
  proof -
    have "region (dev + 62) 2 \<inter> region (dev + 66) 2 = {}"
      using region_shift [of 62 2 _ dev] region_shift [of 66 2 _ dev] by fastforce
    then show "tx_buffer_count m7 dev = 16" using fields(15) f(4) by (simp add: m7_def tx_buffer_count_def load16_other)
    show "tx_buffer_ptr m7 dev = ?p + 1" by (simp add: m7_def tx_buffer_ptr_def)
  qed
  have neg: "(- len AND 0xFFF) OR 0xF000 = bcnt (unat len)" by (simp add: bcnt_def)
  have upd: "upd_dev netdev g s2 = s2\<lparr>net_devs := (net_devs s)[netdev := g (net_devs s ! netdev)]\<rparr>" for g
    by (simp add: upd_dev_def s2_def tx_copied_def net_free_def)
  have m6: "m6 = (store16 m2 (?de + 4) (bcnt (unat len)))(?de + 7 := m2 (?de + 7) OR 0x83)"
  proof -
    have "m4 (?de + 7) OR 0x80 = m2 (?de + 7) OR 0x83" by (simp add: m4_def m3_def store16_apply or.assoc add.assoc)
    then show ?thesis by (auto simp: m6_def m4_def m3_def store16_apply fun_eq_iff add.assoc)
  qed
  have ptr: "(if (16 :: u16) \<le> ?p + 1 then store16 m7 (dev + 62) 0 else m7) = store16 m6 (dev + 62) (of_nat (Suc q mod 16))"
  proof -
    have twice: "store16 (store16 X a v) a w = store16 X a w" for X a v w by (auto simp: store16_apply fun_eq_iff)
    have "?p < 16" using f(5) q16 by (simp add: word_less_nat_alt)
    then have u: "unat (?p + 1) = Suc q" using unat_inc [of ?p 16] f(5) by simp
    show ?thesis
    proof (cases "q = 15")
      case True
      then have "(16 :: u16) \<le> ?p + 1" using u by (simp add: word_le_nat_alt)
      then show ?thesis using True by (simp add: m7_def twice)
    next
      case False
      then have "\<not> (16 :: u16) \<le> ?p + 1" using u q16 by (simp add: word_le_nat_alt)
      moreover have "?p + 1 = of_nat (Suc q)" unfolding f(5) [symmetric] by simp
      moreover have "Suc q mod 16 = Suc q" using False q16 by simp
      ultimately show ?thesis by (simp only: m7_def if_False)
    qed
  qed
  have s2_eq: "net_free packet (s\<lparr>mem := store_list ?bf (bytes_at ?m packet (unat len)) ?m\<rparr>) = s2" by (simp add: s2_def tx_copied_def)
  have devs: "net_devs s2 = net_devs s" by (simp add: s2_def tx_copied_def net_free_def)
  define s3 s4 s5 s6 s7 where "s3 = s2\<lparr>mem := m3\<rparr>" and "s4 = s3\<lparr>mem := m4\<rparr>" and
    "s5 = upd_dev netdev (\<lambda>d. d\<lparr>tx_packets := tx_packets d + 1\<rparr>) s4" and "s6 = s5\<lparr>mem := m6\<rparr>" and "s7 = s6\<lparr>mem := m7\<rparr>"
  have mems: "mem s3 = m3" "mem s4 = m4" "mem s5 = m4" "mem s6 = m6" "mem s7 = m7"
    by (simp_all add: s3_def s4_def s5_def s6_def s7_def upd_dev_def)
  have "pcnet32_tx_packet netdev packet len s = (1, if (16 :: u16) \<le> ?p + 1 then s7\<lparr>mem := store16 m7 (dev + 62) 0\<rparr> else s7)"
    unfolding pcnet32_tx_packet_def f(1)
    apply (rule let_step [OF refl], rule let_step [OF refl], subst if_not_P)
     apply (simp add: f(2) own')
    apply (rule let_step [of _ "s\<lparr>mem := store_list ?bf (bytes_at ?m packet (unat len)) ?m\<rparr>"])
     apply (simp only: f(2,3) at copy)
    apply (rule let_step [OF s2_eq])
    apply (rule let_step [of _ s3])
     apply (simp only: s3_def m2_def [symmetric] fields f(2) at m3_def)
    apply (rule let_step [of _ s4])
     apply (simp only: s4_def mems fields f(2) at neg m4_def)
    apply (rule let_step [of _ s5])
     apply (simp only: s5_def)
    apply (rule let_step [of _ s6])
     apply (simp only: s6_def mems fields f(2) at m6_def)
    apply (rule let_step [of _ s7])
     apply (simp only: s7_def mems fields m7_def)
    apply (simp only: mems count)
    done
  also have "\<dots> = (1, s7\<lparr>mem := store16 m6 (dev + 62) (of_nat (Suc q mod 16))\<rparr>)"
    unfolding ptr [symmetric] by (simp add: s7_def)
  also have "\<dots> = (1, s2\<lparr>
    net_devs := (net_devs s)[netdev := (net_devs s ! netdev)\<lparr>tx_packets := tx_packets (net_devs s ! netdev) + 1\<rparr>],
    mem := tx_memory dev td q (unat len) (mem s2)\<rparr>)"
    by (simp add: s7_def s6_def s5_def s4_def s3_def upd_dev_def devs tx_memory_def m6 [unfolded m2_def])
  finally show ?thesis .
qed

text \<open>The pool, the ring and their separation.\<close>

definition nic_ok :: "nat \<Rightarrow> addr \<Rightarrow> addr \<Rightarrow> addr \<Rightarrow> nat \<Rightarrow> u8 list list \<Rightarrow> addr list \<Rightarrow> addr list \<Rightarrow> 'a net_scheme \<Rightarrow> bool" where
  "nic_ok netdev dev td tb c ps fr al s \<longleftrightarrow> pool_ok fr al s \<and> tx_driver netdev dev td tb c ps s
     \<and> tx_area dev td tb \<inter> heap_free s = {} \<and> (\<forall>p \<in> set (fr @ al). tx_area dev td tb \<inter> buf_area p = {})"

text \<open>The memory a transmission writes.\<close>

lemma tx_writes:
  assumes "n \<le> 1600" "x \<notin> region (cell tb 1600 q) 1600" "x \<notin> buf_area packet" "x \<notin> region (cell td 16 q) 16"
    "x \<notin> region (dev + 62) 2"
  shows "tx_memory dev td q n (mem (tx_copied tb q packet n s)) x = mem s x"
proof -
  have k: "x \<noteq> cell td 16 q + k" if "unat k < 16" for k using assms(4) that by auto
  have "x \<notin> region (cell tb 1600 q) n" using assms(2) region_mono [OF assms(1)] by blast
  then have "mem (tx_copied tb q packet n s) x = mem s x" using assms(1,3) region_mono [of 4 2000 packet]
    by (auto simp: tx_copied_def net_free_def memset_apply store_list_out)
  then show ?thesis using k [of 4] k [of 5] k [of 7] assms(5) by (simp add: tx_memory_def store16_apply [of _ "cell td 16 q + 4"] add.assoc del: in_region)
qed

lemma tx_pool:
  assumes nic: "nic_ok netdev dev td tb c ps fr (xs @ packet # ys) s" and len: "n \<le> 1600" and q: "q < 16"
    and s': "s' = (tx_copied tb q packet n s)\<lparr>net_devs := nd, mem := tx_memory dev td q n (mem (tx_copied tb q packet n s))\<rparr>"
  shows "pool_ok (packet # fr) (xs @ ys) s'"
proof -
  let ?A = "tx_area dev td tb" and ?s1 = "s\<lparr>mem := store_list (cell tb 1600 q) (bytes_at (mem s) packet n) (mem s)\<rparr>"
  have sep: "?A \<inter> heap_free s = {}" "\<And>p. p \<in> set (fr @ xs @ packet # ys) \<Longrightarrow> ?A \<inter> buf_area p = {}"
    and pool: "pool_ok fr (xs @ packet # ys) s" using nic by (auto simp: nic_ok_def simp del: in_region)
  have bf: "region (cell tb 1600 q) 1600 \<subseteq> ?A" "region (cell td 16 q) 16 \<subseteq> ?A" "region (dev + 62) 2 \<subseteq> ?A"
    using cells_in_area [OF q] region_shift [of 62 2 _ dev] by (auto simp: tx_area_def simp del: in_region) auto
  have st: "mem ?s1 x = mem s x" if "x \<notin> ?A" for x
  proof -
    have "x \<notin> region (cell tb 1600 q) n" using that bf(1) region_mono [OF len, of "cell tb 1600 q"] by blast
    then show ?thesis using len by (simp add: store_list_out del: in_region)
  qed
  have "pool_ok fr (xs @ packet # ys) ?s1"
  proof (rule pool_ok_write [OF pool])
    show "mem ?s1 x = mem s x" if "x \<in> heap_free s" for x using sep(1) that by (intro st) blast
    show "mem ?s1 x = mem s x" if "p \<in> set fr" "x \<in> buf_area p" for p x using sep(2) [of p] that by (intro st) auto
  qed simp_all
  then have free: "pool_ok (packet # fr) (xs @ ys) (tx_copied tb q packet n s)" unfolding tx_copied_def by (rule net_free_ok)
  have k: "cell td 16 q + k \<in> ?A" if "unat k < 16" for k using bf(2) that by (auto simp: subset_iff)
  have out: "mem s' x = mem (tx_copied tb q packet n s) x" if "x \<notin> ?A" for x
  proof -
    have "x \<noteq> cell td 16 q + 4" "x \<noteq> cell td 16 q + 5" "x \<noteq> cell td 16 q + 7" using that k [of 4] k [of 5] k [of 7] by auto
    moreover have "x \<notin> region (dev + 62) 2" using that bf(3) by blast
    ultimately show ?thesis by (simp add: s' tx_memory_def store16_apply [of _ "cell td 16 q + 4"] add.assoc del: in_region)
  qed
  show ?thesis
  proof (rule pool_ok_write [OF free])
    have "heap_free (tx_copied tb q packet n s) = heap_free s" by (simp add: heap_free_def tx_copied_def net_free_def)
    then show "mem s' x = mem (tx_copied tb q packet n s) x" if "x \<in> heap_free (tx_copied tb q packet n s)" for x
      using sep(1) that by (intro out) blast
    show "mem s' x = mem (tx_copied tb q packet n s) x" if "p \<in> set (packet # fr)" "x \<in> buf_area p" for p x
      using sep(2) [of p] that by (intro out) (auto simp del: in_region)
  qed (simp_all add: s')
qed

lemma bcnt_roundtrip:
  assumes "n < 4096"
  shows "bcnt_length (bcnt n) = n"
proof -
  have low: "unat (v AND 0xFFF :: u16) = unat v mod 4096" for v
  proof -
    have "v AND 0xFFF = take_bit 12 v" by (simp add: take_bit_eq_mask mask_eq_exp_minus_1)
    then show ?thesis by (simp only: unsigned_take_bit_eq) (simp add: take_bit_eq_mod)
  qed
  let ?v = "bcnt n" and ?n = "of_nat n :: u16"
  have "?v AND 0xFFF = - ?n AND 0xFFF" by (simp add: bcnt_def bit.conj_disj_distrib2 and.assoc)
  then have eq: "unat ?v mod 4096 = unat (- ?n) mod 4096" unfolding low [symmetric] by (rule arg_cong)
  have int_eq: "int (a mod 4096) = int a mod 4096" for a by (simp add: zmod_int)
  have neg: "4096 dvd int (unat x) + int (unat (- x))" for x :: u16
  proof -
    have "(unat x + unat (- x)) mod 65536 = 0" using unat_word_ariths(1) [of x "- x"] by simp
    then have "65536 dvd unat x + unat (- x)" by presburger
    then have "(4096 :: nat) dvd unat x + unat (- x)" by (rule dvd_trans [rotated]) simp
    then have "int 4096 dvd int (unat x + unat (- x))" by (simp only: int_dvd_int_iff)
    then show ?thesis by simp
  qed
  have "int (unat ?v) mod 4096 = int (unat (- ?n)) mod 4096" unfolding int_eq [symmetric] eq by (rule refl)
  then have "4096 dvd int (unat ?v) - int (unat (- ?n))" by (simp only: mod_eq_dvd_iff)
  from dvd_diff [OF dvd_diff [OF neg [of ?v] this] neg [of ?n]]
  have "4096 dvd int (unat (- ?v)) - int (unat ?n)" by (rule back_subst) linarith
  then have "int (unat (- ?v)) mod 4096 = int (unat ?n) mod 4096" by (simp only: mod_eq_dvd_iff)
  then have "int (unat (- ?v) mod 4096) = int (unat ?n mod 4096)" unfolding int_eq .
  then have "unat (- ?v) mod 4096 = unat ?n mod 4096" by (simp only: of_nat_eq_iff)
  then show ?thesis using assms by (simp add: bcnt_length_def low unat_of_nat)
qed

lemma tx_new_slot:
  assumes "tx_driver netdev dev td tb c ps s" "tx_area dev td tb \<inter> buf_area packet = {}" "n \<le> 1600" "q < 16"
  shows "tx_slot (tx_memory dev td q n (mem (tx_copied tb q packet n s))) td tb q (bytes_at (mem s) packet n)"
proof -
  let ?M = "mem (tx_copied tb q packet n s)" and ?de = "cell td 16 q" and ?bf = "cell tb 1600 q"
  let ?m = "tx_memory dev td q n ?M"
  have dis: "region dev 96 \<inter> region td 256 = {}" "region dev 96 \<inter> region tb 25600 = {}" "region td 256 \<inter> region tb 25600 = {}"
    using assms(1) by (simp_all add: tx_driver_def)
  have ptr: "region (dev + 62) 2 \<subseteq> region dev 96" using region_shift [of 62 2 _ dev] by auto
  note cells = cells_in_area(1) [OF assms(4), of td] cells_in_area(2) [OF assms(4), of tb]
  have de: "?m x = ((store16 ?M (?de + 4) (bcnt n))(?de + 7 := ?M (?de + 7) OR 0x83)) x" if "x \<in> region ?de 16" for x
  proof -
    have "x \<notin> region (dev + 62) 2" using that cells(1) dis(1) ptr by blast
    then show ?thesis by (simp add: tx_memory_def del: in_region)
  qed
  have k: "?de + k \<in> region ?de 16" if "unat k < 16" for k using that by simp
  have "?m (?de + 7) AND 0x83 = 0x83" using de [OF own_in_cell] by (simp add: bit.conj_disj_distrib2)
  moreover have "load16 ?m (?de + 4) = bcnt n"
  proof -
    have "load16 ?m (?de + 4) = load16 (store16 ?M (?de + 4) (bcnt n)) (?de + 4)"
      using de [OF k [of 4]] de [OF k [of 5]] by (simp add: load16_def add.assoc)
    then show ?thesis by simp
  qed
  moreover have "bytes_at ?m ?bf n = bytes_at (mem s) packet n"
  proof (rule nth_equalityI)
    fix i assume "i < length (bytes_at ?m ?bf n)"
    then have i: "i < n" by simp
    have u: "unat (of_nat i :: addr) = i" using i assms(3) by (simp add: unat_of_nat)
    have x: "?bf + of_nat i \<in> region ?bf 1600" using i assms(3) u by simp
    then have tb: "?bf + of_nat i \<in> region tb 25600" using cells(2) by blast
    then have "?bf + of_nat i \<notin> buf_area packet" using assms(2) by (auto simp: tx_area_def simp del: in_region)
    then have M: "?M (?bf + of_nat i) = mem s (packet + of_nat i)" using i assms(3) u region_mono [of 4 2000 packet]
      by (auto simp: tx_copied_def net_free_def memset_apply store_list_apply)
    have "?bf + of_nat i \<notin> region (dev + 62) 2" using tb dis(2) ptr by blast
    moreover have "?bf + of_nat i \<noteq> ?de + j" if "unat j < 16" for j using tb dis(3) cells(1) k [OF that] by (auto simp del: in_region)
    ultimately have "?m (?bf + of_nat i) = ?M (?bf + of_nat i)"
      by (simp add: tx_memory_def store16_apply [of _ "?de + 4"] add.assoc del: in_region)
    then show "bytes_at ?m ?bf n ! i = bytes_at (mem s) packet n ! i" using M i by simp
  qed simp
  ultimately show ?thesis using assms(3) by (simp add: tx_slot_def)
qed

text \<open>A transmission either finds the ring full and changes nothing, or appends the packet to the pending ones and frees its
  buffer.\<close>

lemma tx_packet_step:
  assumes nic: "nic_ok netdev dev td tb c ps fr (xs @ packet # ys) s" and len: "unat len \<le> 1600"
  shows "length ps < 16 \<Longrightarrow> \<exists>s'. pcnet32_tx_packet netdev packet len s = (1, s')
      \<and> nic_ok netdev dev td tb c (ps @ [bytes_at (mem s) packet (unat len)]) (packet # fr) (xs @ ys) s'
      \<and> heap_free s' = heap_free s
      \<and> net_devs s' = (net_devs s)[netdev := (net_devs s ! netdev)\<lparr>tx_packets := tx_packets (net_devs s ! netdev) + 1\<rparr>]
      \<and> (\<forall>x. x \<notin> region td 256 \<union> region tb 25600 \<union> region (dev + 62) 2 \<union> buf_area packet \<longrightarrow> mem s' x = mem s x)
      \<and> net_num_devs s' = net_num_devs s"
    and "length ps = 16 \<Longrightarrow> pcnet32_tx_packet netdev packet len s = (0, s)"
proof -
  define q where "q = (c + length ps) mod 16"
  have q16: "q < 16" by (simp add: q_def)
  have drv: "tx_driver netdev dev td tb c ps s" and sep: "tx_area dev td tb \<inter> heap_free s = {}"
    "\<And>p. p \<in> set (fr @ xs @ packet # ys) \<Longrightarrow> tx_area dev td tb \<inter> buf_area p = {}"
    using nic by (auto simp: nic_ok_def simp del: in_region)
  have ring: "tx_ring (mem s) td tb c ps" and dis: "region dev 96 \<inter> region td 256 = {}"
    "region dev 96 \<inter> region tb 25600 = {}" "region td 256 \<inter> region tb 25600 = {}"
    using drv by (simp_all add: tx_driver_def)
  have apart: "tx_area dev td tb \<inter> buf_area packet = {}" by (rule sep(2)) simp
  show "pcnet32_tx_packet netdev packet len s = (0, s)" if "length ps = 16"
  proof -
    have f: "priv (net_devs s ! netdev) = dev" "tdes (mem s) dev = td" "unat (tx_buffer_ptr (mem s) dev) = q"
      using drv by (simp_all add: tx_driver_def q_def)
    have "q = c" using that ring by (simp add: q_def tx_ring_def)
    moreover have "tx_slot (mem s) td tb ((c + 0) mod 16) (ps ! 0)" using ring that unfolding tx_ring_def by (metis zero_less_numeral)
    ultimately have "mem s (cell td 16 q + 7) AND 0x80 \<noteq> 0" using ring tx_slot_owned by (fastforce simp: tx_ring_def)
    then show ?thesis using entry_addresses(1) [OF f(3), of td]
      by (simp add: pcnet32_tx_packet_def f pcnet32_driverowns_def Let_def)
  qed
  assume n: "length ps < 16"
  define s2 where "s2 = tx_copied tb q packet (unat len) s"
  define s' where "s' = s2\<lparr>
    net_devs := (net_devs s)[netdev := (net_devs s ! netdev)\<lparr>tx_packets := tx_packets (net_devs s ! netdev) + 1\<rparr>],
    mem := tx_memory dev td q (unat len) (mem s2)\<rparr>"
  have own: "mem s (cell td 16 q + 7) AND 0x80 = 0" using ring n by (simp add: tx_ring_def q_def)
  have run: "pcnet32_tx_packet netdev packet len s = (1, s')"
    using tx_effect [OF drv len own q_def apart] by (simp add: s'_def s2_def)
  have pool: "pool_ok (packet # fr) (xs @ ys) s'"
    using tx_pool [OF nic len q16] by (simp add: s'_def s2_def)
  have m': "mem s' = tx_memory dev td q (unat len) (mem (tx_copied tb q packet (unat len) s))" by (simp add: s'_def s2_def)
  have ptr: "region (dev + 62) 2 \<subseteq> region dev 96" using region_shift [of 62 2 _ dev] by auto
  note cells = cells_in_area(1) [of _ td] cells_in_area(2) [of _ tb]
  have same: "mem s' x = mem s x" if "x \<in> tx_area dev td tb" "x \<notin> region (cell tb 1600 q) 1600" "x \<notin> region (cell td 16 q) 16"
      "x \<notin> region (dev + 62) 2" for x
    unfolding m' using that apart by (intro tx_writes [OF len]) auto
  have "tx_ring (mem s') td tb c (ps @ [bytes_at (mem s) packet (unat len)])"
  proof (rule tx_ring_submit [OF ring n])
    show "tx_slot (mem s') td tb ((c + length ps) mod 16) (bytes_at (mem s) packet (unat len))"
      unfolding m' q_def [symmetric] by (rule tx_new_slot [OF drv apart len q16])
    fix j x assume j: "j < 16" "j \<noteq> (c + length ps) mod 16" and x: "x \<in> region (cell td 16 j) 16 \<union> region (cell tb 1600 j) 1600"
    have jq: "region (cell td 16 j) 16 \<inter> region (cell td 16 q) 16 = {}" "region (cell tb 1600 j) 1600 \<inter> region (cell tb 1600 q) 1600 = {}"
      using j q16 cells_disjoint [of 16 16 j q td] cells_disjoint [of 1600 16 j q tb] by (simp_all add: q_def)
    show "mem s' x = mem s x"
      using x jq cells [OF j(1)] cells [OF q16] dis ptr by (intro same) (auto simp: tx_area_def simp del: in_region)
  qed
  moreover have "tdes (mem s') dev = td" "tx_buffers (mem s') dev = tb" "tx_buffer_count (mem s') dev = 16"
    "unat (tx_buffer_ptr (mem s') dev) = Suc q mod 16"
  proof -
    have k: "mem s' (dev + k) = mem s (dev + k)" if "unat k < 96" "64 \<le> unat k" for k
    proof -
      have "dev + k \<in> region dev 96" "dev + k \<notin> region (dev + 62) 2" using that region_shift [of 62 2 "dev + k" dev] by auto
      then show ?thesis using cells [OF q16] dis by (intro same) (auto simp: tx_area_def simp del: in_region)
    qed
    show "tdes (mem s') dev = td" "tx_buffers (mem s') dev = tb" "tx_buffer_count (mem s') dev = 16"
      using drv by (simp_all add: tx_driver_def tdes_def tx_buffers_def tx_buffer_count_def load32_def load16_def add.assoc k)
    have "tx_buffer_ptr (mem s') dev = of_nat (Suc q mod 16)" by (simp add: m' tx_memory_def tx_buffer_ptr_def)
    moreover have "Suc q mod 16 < 65536" by (rule less_trans [of _ 16]) simp_all
    ultimately show "unat (tx_buffer_ptr (mem s') dev) = Suc q mod 16" by (simp add: unat_of_nat)
  qed
  moreover have "Suc q mod 16 = (c + Suc (length ps)) mod 16" by (simp add: q_def mod_Suc_eq)
  ultimately have "tx_driver netdev dev td tb c (ps @ [bytes_at (mem s) packet (unat len)]) s'"
    using drv by (simp add: tx_driver_def s'_def)
  moreover have heap: "heap_free s' = heap_free s" by (simp add: heap_free_def s'_def s2_def tx_copied_def net_free_def)
  ultimately have "nic_ok netdev dev td tb c (ps @ [bytes_at (mem s) packet (unat len)]) (packet # fr) (xs @ ys) s'"
    using pool sep by (simp add: nic_ok_def)
  moreover have "mem s' x = mem s x" if "x \<notin> region td 256 \<union> region tb 25600 \<union> region (dev + 62) 2 \<union> buf_area packet" for x
    unfolding m' using that cells [OF q16] by (intro tx_writes [OF len]) blast+
  moreover have "net_devs s' = (net_devs s)[netdev := (net_devs s ! netdev)\<lparr>tx_packets := tx_packets (net_devs s ! netdev) + 1\<rparr>]"
    by (simp add: s'_def)
  moreover have "net_num_devs s' = net_num_devs s" by (simp add: s'_def s2_def tx_copied_def net_free_def)
  ultimately show "\<exists>s'. pcnet32_tx_packet netdev packet len s = (1, s')
      \<and> nic_ok netdev dev td tb c (ps @ [bytes_at (mem s) packet (unat len)]) (packet # fr) (xs @ ys) s'
      \<and> heap_free s' = heap_free s
      \<and> net_devs s' = (net_devs s)[netdev := (net_devs s ! netdev)\<lparr>tx_packets := tx_packets (net_devs s ! netdev) + 1\<rparr>]
      \<and> (\<forall>x. x \<notin> region td 256 \<union> region tb 25600 \<union> region (dev + 62) 2 \<union> buf_area packet \<longrightarrow> mem s' x = mem s x)
      \<and> net_num_devs s' = net_num_devs s"
    using run heap by blast
qed

section \<open>Driver and card\<close>

text \<open>The card's side, as its data sheet describes it: it takes the entry it has reached if the entry's ownership bit is
  set, sends as many bytes of the entry's buffer as the byte count says, and writes back the status with the bit cleared.\<close>

definition card_sends :: "addr \<Rightarrow> addr \<Rightarrow> nat \<Rightarrow> byte_mem \<Rightarrow> u8 list \<Rightarrow> byte_mem \<Rightarrow> bool" where
  "card_sends td tb c m p m' \<longleftrightarrow> m (cell td 16 c + 7) AND 0x80 \<noteq> 0
     \<and> p = bytes_at m (cell tb 1600 c) (bcnt_length (load16 m (cell td 16 c + 4)))
     \<and> m' (cell td 16 c + 7) AND 0x80 = 0 \<and> (\<forall>x. x \<notin> region (cell td 16 c + 7) 5 \<longrightarrow> m' x = m x)"

text \<open>The protocol: packets are built in buffers from the pool and handed to the driver; the card sends at its own pace. The
  components are the state, the card's position, the buffers in use, the packets handed over and the packets sent.\<close>

inductive tx_run :: "nat \<Rightarrow> addr \<Rightarrow> addr \<Rightarrow> 'a net_scheme \<Rightarrow> 'a net_scheme \<Rightarrow> nat \<Rightarrow> addr list \<Rightarrow> u8 list list \<Rightarrow> u8 list list \<Rightarrow> bool"
  for netdev td tb s0 where
  tx_start: "tx_run netdev td tb s0 s0 0 [] [] []"
| tx_get: "tx_run netdev td tb s0 s c al ins outs \<Longrightarrow> net_alloc s = Some (a, s') \<Longrightarrow>
    tx_run netdev td tb s0 s' c (if a = 0 then al else a # al) ins outs"
| tx_write: "tx_run netdev td tb s0 s c al ins outs \<Longrightarrow> a \<in> set al \<Longrightarrow> x \<in> region a 2000 \<Longrightarrow>
    tx_run netdev td tb s0 (s\<lparr>mem := (mem s)(x := v)\<rparr>) c al ins outs"
| tx_submit: "tx_run netdev td tb s0 s c (xs @ a # ys) ins outs \<Longrightarrow> unat len \<le> 1600 \<Longrightarrow>
    pcnet32_tx_packet netdev a len s = (1, s') \<Longrightarrow>
    tx_run netdev td tb s0 s' c (xs @ ys) (ins @ [bytes_at (mem s) a (unat len)]) outs"
| tx_full: "tx_run netdev td tb s0 s c (xs @ a # ys) ins outs \<Longrightarrow> unat len \<le> 1600 \<Longrightarrow>
    pcnet32_tx_packet netdev a len s = (0, s') \<Longrightarrow> tx_run netdev td tb s0 s' c (xs @ a # ys) ins outs"
| tx_card: "tx_run netdev td tb s0 s c al ins outs \<Longrightarrow> card_sends td tb c (mem s) p m' \<Longrightarrow>
    tx_run netdev td tb s0 (s\<lparr>mem := m'\<rparr>) (Suc c mod 16) al ins (outs @ [p])"

lemma nic_ok_frame:
  assumes "nic_ok netdev dev td tb c ps fr al s" "pool_ok fr' al' s'" "net_devs s' = net_devs s"
    "\<And>x. x \<in> tx_area dev td tb \<Longrightarrow> mem s' x = mem s x" "heap_free s' \<subseteq> heap_free s"
    "\<And>p. p \<in> set (fr' @ al') \<Longrightarrow> p \<in> set (fr @ al) \<or> buf_area p \<subseteq> heap_free s"
  shows "nic_ok netdev dev td tb c ps fr' al' s'"
proof -
  have old: "tx_driver netdev dev td tb c ps s" "tx_area dev td tb \<inter> heap_free s = {}"
    "\<And>p. p \<in> set (fr @ al) \<Longrightarrow> tx_area dev td tb \<inter> buf_area p = {}" using assms(1) by (simp_all add: nic_ok_def)
  have "tx_driver netdev dev td tb c ps s'" by (rule tx_driver_cong [OF old(1) assms(4)]) (simp_all only: assms(3))
  moreover have "tx_area dev td tb \<inter> buf_area p = {}" if "p \<in> set (fr' @ al')" for p
    using assms(6) [OF that] old(2) old(3) [of p] by blast
  moreover have "tx_area dev td tb \<inter> heap_free s' = {}" using old(2) assms(5) by blast
  ultimately show ?thesis using assms(2) by (simp add: nic_ok_def)
qed

lemma nic_alloc:
  assumes nic: "nic_ok netdev dev td tb c ps fr al s" and al: "net_alloc s = Some (a, s')"
  shows "\<exists>fr'. nic_ok netdev dev td tb c ps fr' (if a = 0 then al else a # al) s' \<and> heap_free s' \<subseteq> heap_free s
    \<and> net_devs s' = net_devs s \<and> (\<forall>x. x \<notin> heap_free s \<longrightarrow> mem s' x = mem s x)
    \<and> (\<forall>p \<in> set (fr' @ (if a = 0 then al else a # al)). p \<in> set (fr @ al) \<or> buf_area p \<subseteq> heap_free s)"
proof -
  have pool: "pool_ok fr al s" and sep: "tx_area dev td tb \<inter> heap_free s = {}" using nic by (simp_all add: nic_ok_def)
  have devs: "net_devs s' = net_devs s" using net_alloc_devs [OF _ al] pool by (simp add: pool_ok_def)
  from pool show ?thesis
  proof (rule net_alloc_ok)
    fix b t fr'
    assume r: "net_alloc s = Some (b, t)" "b = 0 \<Longrightarrow> pool_ok fr al t \<and> mem t = mem s" "b \<noteq> 0 \<Longrightarrow> pool_ok fr' (b # al) t"
      "b \<noteq> 0 \<Longrightarrow> b \<in> set fr \<or> buf_area b \<subseteq> heap_free s"
      "\<And>p. b \<noteq> 0 \<Longrightarrow> p \<in> set fr' \<Longrightarrow> p \<in> set fr \<or> buf_area p \<subseteq> heap_free s"
      "heap_free t \<subseteq> heap_free s" "\<And>y. y \<notin> heap_free s \<Longrightarrow> mem t y = mem s y"
    have bt: "b = a" "t = s'" using r(1) al by simp_all
    have mem: "mem s' x = mem s x" if "x \<in> tx_area dev td tb" for x using that sep r(7) bt by blast
    show ?thesis
    proof (cases "a = 0")
      case True
      then have "nic_ok netdev dev td tb c ps fr al s'" using r(2,6) bt by (intro nic_ok_frame [OF nic _ devs mem]) auto
      then show ?thesis using True r(6,7) bt devs by (intro exI [of _ fr]) auto
    next
      case False
      have src: "p \<in> set (fr @ al) \<or> buf_area p \<subseteq> heap_free s" if "p \<in> set (fr' @ a # al)" for p
        using that r(4,5) bt False by (auto simp del: in_region)
      have "nic_ok netdev dev td tb c ps fr' (a # al) s'" using r(3,6) bt False src by (intro nic_ok_frame [OF nic _ devs mem]) auto
      then show ?thesis using False r(6,7) bt devs src by (intro exI [of _ fr']) auto
    qed
  qed
qed

lemma nic_write:
  assumes nic: "nic_ok netdev dev td tb c ps fr al s" and a: "a \<in> set al" and m': "\<And>x. x \<notin> buf_area a \<Longrightarrow> m' x = mem s x"
  shows "nic_ok netdev dev td tb c ps fr al (s\<lparr>mem := m'\<rparr>)"
proof -
  have pool: "pool_ok fr al s" and sep: "tx_area dev td tb \<inter> buf_area a = {}" using nic a by (auto simp: nic_ok_def simp del: in_region)
  note use = pool_in_use [OF pool a]
  have "pool_ok fr al (s\<lparr>mem := m'\<rparr>)"
  proof (rule pool_ok_write [OF pool])
    show "mem (s\<lparr>mem := m'\<rparr>) x = mem s x" if "x \<in> heap_free s" for x using use(2) that m' [of x] by (auto simp del: in_region)
    show "mem (s\<lparr>mem := m'\<rparr>) x = mem s x" if "p \<in> set fr" "x \<in> buf_area p" for p x
      using use(3) [OF that(1)] that(2) m' [of x] by (auto simp del: in_region)
  qed simp_all
  then show ?thesis
  proof (rule nic_ok_frame [OF nic])
    show "mem (s\<lparr>mem := m'\<rparr>) x = mem s x" if "x \<in> tx_area dev td tb" for x using sep that m' [of x] by (auto simp del: in_region)
  qed (auto simp: heap_free_def)
qed

lemma nic_card:
  assumes nic: "nic_ok netdev dev td tb c ps fr al s" and card: "card_sends td tb c (mem s) p m'"
  shows "\<exists>ps'. ps = p # ps' \<and> nic_ok netdev dev td tb (Suc c mod 16) ps' fr al (s\<lparr>mem := m'\<rparr>)"
proof -
  have drv: "tx_driver netdev dev td tb c ps s" using nic by (simp add: nic_ok_def)
  have ring: "tx_ring (mem s) td tb c ps" and c: "c < 16" and dis: "region dev 96 \<inter> region td 256 = {}" "region td 256 \<inter> region tb 25600 = {}"
    using drv by (simp_all add: tx_driver_def tx_ring_def)
  have "ps \<noteq> []" using ring card c by (auto simp: tx_ring_def card_sends_def dest!: spec [of _ 0])
  then obtain p' ps' where ps: "ps = p' # ps'" by (cases ps) auto
  have slot: "tx_slot (mem s) td tb c p'" using ring by (simp add: ps tx_ring_head)
  then have p: "p' = p" using card by (simp add: card_sends_def tx_slot_def bcnt_roundtrip)
  have own5: "region (cell td 16 c + 7) 5 \<subseteq> region (cell td 16 c) 16" using region_shift [of 7 5 _ "cell td 16 c"] by auto
  have td: "region (cell td 16 c + 7) 5 \<subseteq> region td 256" using own5 cells_in_area(1) [OF c, of td] by blast
  have same: "m' x = mem s x" if "x \<notin> region (cell td 16 c + 7) 5" for x using card that by (simp add: card_sends_def)
  have "tx_ring m' td tb (Suc c mod 16) ps'"
  proof (rule tx_ring_send [OF ring [unfolded ps]])
    show "m' (cell td 16 c + 7) AND 0x80 = 0" using card by (simp add: card_sends_def)
    fix j x assume j: "j < 16" "j \<noteq> c" and x: "x \<in> region (cell td 16 j) 16 \<union> region (cell tb 1600 j) 1600"
    have "region (cell td 16 j) 16 \<inter> region (cell td 16 c) 16 = {}" using j c cells_disjoint [of 16 16 j c td] by simp
    then show "m' x = mem s x"
      using x own5 td cells_in_area(2) [OF j(1), of tb] dis(2) by (intro same) blast
  qed
  moreover have "m' x = mem s x" if "x \<in> region dev 96" for x using that dis(1) td by (intro same) blast
  moreover have "(c + Suc (length ps')) mod 16 = (Suc c mod 16 + length ps') mod 16" by (simp add: mod_add_left_eq)
  ultimately have "tx_driver netdev dev td tb (Suc c mod 16) ps' (s\<lparr>mem := m'\<rparr>)"
    using drv tx_fields_cong [of dev m' "mem s"] by (simp add: tx_driver_def ps)
  moreover have "pool_ok fr al (s\<lparr>mem := m'\<rparr>)"
  proof (rule pool_ok_write)
    show "pool_ok fr al s" using nic by (simp add: nic_ok_def)
    have A: "region (cell td 16 c + 7) 5 \<subseteq> tx_area dev td tb" using td by (auto simp: tx_area_def simp del: in_region)
    show "mem (s\<lparr>mem := m'\<rparr>) x = mem s x" if "x \<in> heap_free s" for x
      using that A nic unfolding nic_ok_def by (simp del: in_region) (intro same, blast)
    show "mem (s\<lparr>mem := m'\<rparr>) x = mem s x" if "f \<in> set fr" "x \<in> buf_area f" for f x
    proof -
      have "tx_area dev td tb \<inter> buf_area f = {}" using nic that(1) by (simp add: nic_ok_def)
      then show ?thesis using that(2) A by (simp del: in_region) (intro same, blast)
    qed
  qed simp_all
  ultimately show ?thesis using nic ps p by (simp add: nic_ok_def heap_free_def)
qed

lemma tx_run_nic:
  assumes "nic_ok netdev dev td tb 0 [] fr0 [] s0" "tx_run netdev td tb s0 s c al ins outs"
  shows "\<exists>fr ps. nic_ok netdev dev td tb c ps fr al s \<and> ins = outs @ ps"
  using assms(2)
proof (induction rule: tx_run.induct)
  case tx_start then show ?case using assms(1) by auto
next
  case (tx_get s c al ins outs a s')
  then show ?case using nic_alloc by blast
next
  case (tx_write s c al ins outs a x v)
  then obtain fr ps where nic: "nic_ok netdev dev td tb c ps fr al s" "ins = outs @ ps" by blast
  have "nic_ok netdev dev td tb c ps fr al (s\<lparr>mem := (mem s)(x := v)\<rparr>)"
    using tx_write.hyps(3) by (intro nic_write [OF nic(1) tx_write.hyps(2)]) auto
  then show ?case using nic(2) by blast
next
  case (tx_submit s c xs a ys ins outs len s')
  then obtain fr ps where nic: "nic_ok netdev dev td tb c ps fr (xs @ a # ys) s" "ins = outs @ ps" by blast
  have "length ps \<le> 16" using nic(1) by (simp add: nic_ok_def tx_driver_def tx_ring_def)
  then show ?case using tx_packet_step [OF nic(1) tx_submit.hyps(2)] tx_submit.hyps(3) nic(2) by (cases "length ps = 16") fastforce+
next
  case (tx_full s c xs a ys ins outs len s')
  then obtain fr ps where nic: "nic_ok netdev dev td tb c ps fr (xs @ a # ys) s" "ins = outs @ ps" by blast
  have "length ps \<le> 16" using nic(1) by (simp add: nic_ok_def tx_driver_def tx_ring_def)
  then show ?case using tx_packet_step [OF nic(1) tx_full.hyps(2)] tx_full.hyps(3) nic by (cases "length ps = 16") fastforce+
next
  case (tx_card s c al ins outs p m')
  then obtain fr ps where nic: "nic_ok netdev dev td tb c ps fr al s" "ins = outs @ ps" by blast
  then show ?case using nic_card [OF nic(1) tx_card.hyps(2)] by auto
qed


section \<open>Concrete instances\<close>

text \<open>A driver with empty rings: its structure at 0xC0106000, the transmit descriptors at 0xC0107000 and buffers at 0xC0108000,
  the receive descriptors at 0xC00E0000 and buffers at 0xC00E1000.\<close>

definition nic_boot :: net where
  "nic_boot = boot_net\<lparr>
     mem := store32 (store32 (store32 (store32 (store16 (store16 (mem boot_net) 0xC0106040 64) 0xC0106042 16)
       0xC0106044 0xC00E1000) 0xC0106048 0xC0108000) 0xC010604C 0xC00E0000) 0xC0106050 0xC0107000,
     net_devs := (replicate 16 zero_netdev)[0 := zero_netdev\<lparr>priv := 0xC0106000\<rparr>]\<rparr>"

lemma boot_net_low: "unat x < 0xC0110000 \<Longrightarrow> mem boot_net x = 0"
proof -
  assume x: "unat x < 0xC0110000"
  have "x \<noteq> 0xC0110000 + k" if "unat k < 8" for k
  proof
    assume "x = 0xC0110000 + k"
    then show False using x that by (simp add: unat_word_ariths)
  qed
  from this [of 0] this [of 1] this [of 2] this [of 3] this [of 4] this [of 5] this [of 6] this [of 7] show ?thesis
    by (simp add: boot_net_def init_mem_def Let_def round_up_def set_hdr_size_def set_hdr_next_def store32_apply)
qed

lemma nic_boot_ok: "nic_ok 0 0xC0106000 0xC0107000 0xC0108000 0 [] [] [] nic_boot"
proof -
  let ?m = "mem nic_boot"
  have low: "unat x < 0xC0110000" if "x \<in> tx_area 0xC0106000 0xC0107000 0xC0108000" for x
    using that region_absoluteD [of x "0xC0106000" 96] region_absoluteD [of x "0xC0107000" 256] region_absoluteD [of x "0xC0108000" 25600]
    by (auto simp: tx_area_def simp del: in_region)
  have high: "0xC0110000 \<le> unat x" if "x \<in> heap_free nic_boot" for x
    using that by (simp add: heap_free_def nic_boot_def boot_net_simps word_le_nat_alt)
  have away: "?m x = mem boot_net x" if "x \<notin> region 0xC0106000 96" for x
  proof -
    have "x \<noteq> 0xC0106000 + k" if "unat k < 96" for k using \<open>x \<notin> region 0xC0106000 96\<close> that by auto
    from this [of "0x40"] this [of "0x41"] this [of "0x42"] this [of "0x43"] this [of "0x44"] this [of "0x45"] this [of "0x46"]
      this [of "0x47"] this [of "0x4C"] this [of "0x4D"] this [of "0x4E"] this [of "0x4F"] this [of "0x48"] this [of "0x49"] this [of "0x4A"] this [of "0x4B"]
      this [of "0x50"] this [of "0x51"] this [of "0x52"] this [of "0x53"]
    show ?thesis by (simp add: nic_boot_def store32_apply store16_apply)
  qed
  have "heap_ok nic_boot"
  proof (rule heap_ok_cong [OF boot_net_simps(1)])
    fix x assume x: "x \<in> heap_free boot_net"
    have "x \<notin> region 0xC0106000 96"
    proof
      assume "x \<in> region 0xC0106000 96"
      then show False using region_absoluteD [of x "0xC0106000" 96] x by (simp add: heap_free_def boot_net_simps word_le_nat_alt)
    qed
    then show "?m x = mem boot_net x" by (rule away)
  qed (simp add: nic_boot_def)
  then have pool: "pool_ok [] [] nic_boot" by (simp add: pool_ok_def buffers_apart_def nic_boot_def boot_net_simps)
  have dis: "region (0xC0106000 :: addr) 96 \<inter> region 0xC0107000 256 = {}" "region (0xC0106000 :: addr) 96 \<inter> region 0xC0108000 25600 = {}"
    "region (0xC0107000 :: addr) 256 \<inter> region 0xC0108000 25600 = {}"
    by (rule region_disjoint_abs; simp)+
  have "?m (cell 0xC0107000 16 k + 7) = 0" if "k < 16" for k
  proof -
    have "cell 0xC0107000 16 k + 7 \<in> region 0xC0107000 256"
      by (rule subsetD [OF cells_in_area(1) [OF that] own_in_cell])
    then have "cell 0xC0107000 16 k + 7 \<notin> region 0xC0106000 96"
      "cell 0xC0107000 16 k + 7 \<in> tx_area 0xC0106000 0xC0107000 0xC0108000"
      using dis(1) by (auto simp: tx_area_def simp del: in_region)
    then show ?thesis using away boot_net_low low by presburger
  qed
  then have ring: "tx_ring ?m 0xC0107000 0xC0108000 0 []" by (simp add: tx_ring_def)
  have at: "?m (0xC0106000 + k) = mem boot_net (0xC0106000 + k)" if "k \<in> {62, 63}" for k
    using that by (auto simp: nic_boot_def store32_apply store16_apply)
  have "load32 ?m 0xC0106050 = 0xC0107000" by (simp add: nic_boot_def)
  moreover have "load32 ?m 0xC0106048 = 0xC0108000" "load16 ?m 0xC0106042 = 16" "load16 ?m 0xC010603E = 0"
    by (simp_all add: nic_boot_def load32_def load16_def store32_apply store16_apply boot_net_low)
  ultimately have "tx_driver 0 0xC0106000 0xC0107000 0xC0108000 0 [] nic_boot" using ring dis
    by (simp add: tx_driver_def tdes_def tx_buffers_def tx_buffer_count_def tx_buffer_ptr_def) (simp add: nic_boot_def)
  moreover have "tx_area 0xC0106000 0xC0107000 0xC0108000 \<inter> heap_free nic_boot = {}"
    using low high by (fastforce simp: disjoint_iff simp del: in_region)
  ultimately show ?thesis using pool by (simp add: nic_ok_def)
qed


end
