(* ===== verification/Frog_Rxring.thy ===== *)
theory Frog_Rxring
  imports Frog_Txring
begin

text \<open>
  The receive ring of pcnet32.c and the path of a frame through ether.c, arp.c, ipv4.c and icmp.c
  back to the transmit ring: what the protocol code needs from a transmitter, stated as an interface
  that the PCnet driver implements, and the loop that empties the receive ring.
\<close>

section \<open>The transmitter interface\<close>

text \<open>The device table up to the counters of sent packets.\<close>

definition devs_keep :: "net_dev list \<Rightarrow> net_dev list \<Rightarrow> bool" where
  "devs_keep dl dl' \<longleftrightarrow> map (tx_packets_update (\<lambda>_. 0)) dl' = map (tx_packets_update (\<lambda>_. 0)) dl"

lemma devs_keep_refl [simp]: "devs_keep dl dl"
  by (simp add: devs_keep_def)

lemma devs_keep_trans: "devs_keep dl dl' \<Longrightarrow> devs_keep dl' dl'' \<Longrightarrow> devs_keep dl dl''"
  by (simp add: devs_keep_def)

lemma devs_keep_nth:
  assumes "devs_keep dl dl'" "i < length dl"
  shows "length dl' = length dl" "(dl' ! i)\<lparr>tx_packets := 0\<rparr> = (dl ! i)\<lparr>tx_packets := 0\<rparr>"
proof -
  show len: "length dl' = length dl" using assms(1) map_eq_imp_length_eq unfolding devs_keep_def by blast
  have "map (tx_packets_update (\<lambda>_. 0)) dl' ! i = map (tx_packets_update (\<lambda>_. 0)) dl ! i" using assms(1) by (simp add: devs_keep_def)
  then show "(dl' ! i)\<lparr>tx_packets := 0\<rparr> = (dl ! i)\<lparr>tx_packets := 0\<rparr>" using assms(2) len by simp
qed

text \<open>\<open>ok al s\<close>: the transmitter is in order and \<open>al\<close> are the buffers in use. It never changes the addresses \<open>A\<close>, and does not
  depend on the part \<open>W\<close> of them.\<close>

locale transmitter =
  fixes netdev :: nat
    and tx :: "nat \<Rightarrow> addr \<Rightarrow> u16 \<Rightarrow> 'a net_scheme \<Rightarrow> int \<times> 'a net_scheme"
    and ok :: "addr list \<Rightarrow> 'a net_scheme \<Rightarrow> bool"
    and A W :: "addr set"
  assumes ok_alloc: "ok al s \<Longrightarrow> \<exists>a s'. net_alloc s = Some (a, s') \<and> ok (if a = 0 then al else a # al) s'
      \<and> (\<forall>x \<in> A. mem s' x = mem s x) \<and> net_devs s' = net_devs s"
    and ok_apart: "ok al s \<Longrightarrow> a \<in> set al \<Longrightarrow> A \<inter> buf_area a = {}"
    and ok_write: "ok al s \<Longrightarrow> a \<in> set al \<Longrightarrow> (\<And>x. x \<notin> buf_area a \<Longrightarrow> m' x = mem s x) \<Longrightarrow> ok al (s\<lparr>mem := m'\<rparr>)"
    and ok_send: "ok al s \<Longrightarrow> a \<in> set al \<Longrightarrow> unat len \<le> 1600 \<Longrightarrow>
      \<exists>r al' s'. tx netdev a len s = (r, s') \<and> ok al' s' \<and> (\<forall>x \<in> A. mem s' x = mem s x) \<and> devs_keep (net_devs s) (net_devs s')"
    and ok_own: "ok al s \<Longrightarrow> (\<And>x. x \<notin> W \<Longrightarrow> m' x = mem s x) \<Longrightarrow> map priv dl = map priv (net_devs s) \<Longrightarrow>
      ok al (s\<lparr>mem := m', net_devs := dl\<rparr>)"
begin

definition keeps :: "'a net_scheme \<Rightarrow> 'a net_scheme \<Rightarrow> bool" where
  "keeps s s' \<longleftrightarrow> (\<exists>al. ok al s') \<and> (\<forall>x \<in> A. mem s' x = mem s x) \<and> devs_keep (net_devs s) (net_devs s')"

lemma keeps_refl: "ok al s \<Longrightarrow> keeps s s"
  by (auto simp: keeps_def)

lemma reply_keeps:
  assumes "ok al s" "unat len \<le> 1600"
    and "\<And>nf s1 x. A \<inter> buf_area nf = {} \<Longrightarrow> net_devs s1 = net_devs s \<Longrightarrow> x \<notin> buf_area nf \<Longrightarrow> B nf s1 x = mem s1 x"
  shows "\<exists>s'. map_option (\<lambda>(nf, s1). if nf \<noteq> 0 then snd (tx netdev nf len (s1\<lparr>mem := B nf s1\<rparr>)) else s1) (net_alloc s) = Some s'
    \<and> keeps s s'"
proof -
  obtain nf s1 where al: "net_alloc s = Some (nf, s1)" "ok (if nf = 0 then al else nf # al) s1"
    "\<forall>x \<in> A. mem s1 x = mem s x" "net_devs s1 = net_devs s" using ok_alloc [OF assms(1)] by blast
  show ?thesis
  proof (cases "nf = 0")
    case True
    then show ?thesis using al by (auto simp: keeps_def)
  next
    case False
    then have ok1: "ok (nf # al) s1" using al(2) by simp
    have apart: "A \<inter> buf_area nf = {}" using ok_apart [OF ok1] by simp
    have ok2: "ok (nf # al) (s1\<lparr>mem := B nf s1\<rparr>)" using assms(3) [OF apart al(4)] by (intro ok_write [OF ok1]) auto
    obtain r al' s' where s': "tx netdev nf len (s1\<lparr>mem := B nf s1\<rparr>) = (r, s')" "ok al' s'"
      "\<forall>x \<in> A. mem s' x = mem (s1\<lparr>mem := B nf s1\<rparr>) x" "devs_keep (net_devs s1) (net_devs s')"
      using ok_send [OF ok2 _ assms(2), of nf] by auto
    have "mem s' x = mem s x" if "x \<in> A" for x
      using that s'(3) al(3) assms(3) [OF apart al(4), of x] apart by (auto simp del: in_region)
    then show ?thesis using False al(1,4) s' by (auto simp: keeps_def)
  qed
qed

lemma arp_keeps:
  assumes "ok al s" "region src 6 \<subseteq> A" "region packet 28 \<subseteq> A" "length (hw_addr (net_devs s ! netdev)) = 6"
  shows "\<exists>s'. arp_process_packet (\<lambda>_. tx) netdev src dest packet s = Some s' \<and> keeps s s'"
proof -
  let ?B = "\<lambda>nf s1. arp_reply (hw_addr (net_devs s1 ! netdev)) src packet nf (mem s1)"
  have "?B nf s1 x = mem s1 x" if nf: "A \<inter> buf_area nf = {}" "net_devs s1 = net_devs s" "x \<notin> buf_area nf" for nf and s1 :: "'a net_scheme" and x
  proof -
    have sub: "region nf 42 \<subseteq> buf_area nf" by (rule region_mono) simp
    then have "region src 6 \<inter> region nf 42 = {}" "region packet 28 \<inter> region nf 42 = {}" using nf(1) assms(2,3) by blast+
    moreover have "x \<notin> region nf 42" using nf(3) sub by blast
    ultimately show ?thesis using assms(4) nf(2)
      by (simp add: arp_reply_list store_list_out arp_reply_bytes_def del: in_region)
  qed
  then have "\<exists>s'. map_option (\<lambda>(nf, s1). if nf \<noteq> 0 then snd (tx netdev nf 42 (s1\<lparr>mem := ?B nf s1\<rparr>)) else s1) (net_alloc s) = Some s'
      \<and> keeps s s'" by (intro reply_keeps [OF assms(1)]) simp_all
  then show ?thesis using keeps_refl [OF assms(1)]
    by (simp add: arp_process_packet_def ether_sendframe_def Let_def cong: if_cong)
qed

lemma icmp_keeps:
  assumes "ok al s" "unat len \<le> 1566"
  shows "\<exists>s'. icmp_process_packet (\<lambda>_. tx) netdev frame ip packet len s = Some s' \<and> keeps s s'"
proof -
  have "unat (ucast (len + 20 + 14) :: u16) = unat len + 34"
    using assms(2) by (simp add: unat_ucast16 unat_word_ariths)
  then have "\<exists>s'. map_option (\<lambda>(nf, s1). if nf \<noteq> 0 then snd (tx netdev nf (ucast (len + 20 + 14))
      (s1\<lparr>mem := echo_reply frame ip packet len nf (mem s1)\<rparr>)) else s1) (net_alloc s) = Some s' \<and> keeps s s'"
    using assms(2) by (intro reply_keeps [OF assms(1)] echo_reply_out) simp_all
  then show ?thesis using keeps_refl [OF assms(1)]
    by (simp add: icmp_process_packet_def ether_sendframe_def Let_def cong: if_cong)
qed

lemma ipv4_keeps:
  assumes "ok al s" "unat len \<le> 1582"
  shows "\<exists>s'. ipv4_process_packet (\<lambda>_. tx) netdev frame packet len s = Some s' \<and> keeps s s'"
proof -
  let ?h = "ip_ihl (mem s) packet"
  have icmp: "\<exists>s'. icmp_process_packet (\<lambda>_. tx) netdev frame packet (packet + 20) (len - 4 * ?h) s = Some s' \<and> keeps s s'"
    if h: "\<not> ?h < 5" "\<not> len < ?h * 4"
  proof (rule icmp_keeps [OF assms(1)])
    have b: "unat ?h < 16"
    proof -
      have "mem s packet AND 0x0F = take_bit 4 (mem s packet)" by (simp add: take_bit_eq_mask mask_eq_exp_minus_1)
      then have "unat (mem s packet AND 0x0F) = take_bit 4 (unat (mem s packet))" by (simp only: unsigned_take_bit_eq)
      also have "\<dots> < 2 ^ 4" by (rule take_bit_nat_less_exp)
      finally show ?thesis by (simp add: ip_ihl_def)
    qed
    then have u: "unat (4 * ?h) = 4 * unat ?h" by (simp add: unat_word_ariths)
    have "unat (len - 4 * ?h) = unat len - 4 * unat ?h" using h(2) u by (subst unat_sub) (simp_all add: not_less mult.commute)
    moreover have "5 \<le> unat ?h" using h(1) by (simp add: not_less word_le_nat_alt)
    ultimately show "unat (len - 4 * ?h) \<le> 1566" using assms(2) by simp
  qed
  then show ?thesis using keeps_refl [OF assms(1)] by (simp add: ipv4_process_packet_def Let_def)
qed

text \<open>A frame of any content but a wake-up frame, of 18 to 1600 bytes.\<close>

lemma ether_keeps:
  assumes "ok al s" "region frame 1600 \<subseteq> A" "length (hw_addr (net_devs s ! netdev)) = 6"
    and "18 \<le> unat len" "unat len \<le> 1600" "ntohs (load16 (mem s) (frame + 12)) \<noteq> 0x0842"
  shows "\<exists>s'. ether_process_frame (\<lambda>_. tx) local buff netdev frame len s = Some s' \<and> keeps s s'"
proof -
  have "unat (ucast len - 18 :: u32) = unat len - 18" using assms(4) by (subst unat_sub) (simp_all add: word_le_nat_alt)
  then have ip: "\<exists>s'. ipv4_process_packet (\<lambda>_. tx) netdev frame (frame + 14) (ucast len - 14 - 4) s = Some s' \<and> keeps s s'"
    using assms(5) by (intro ipv4_keeps [OF assms(1)]) simp
  have sub: "region (frame + k) n \<subseteq> A" if "unat k + n \<le> 1600" for k n
    using assms(2) region_shift [of k n _ frame] that by (auto simp: subset_iff)
  have arp: "\<exists>s'. arp_process_packet (\<lambda>_. tx) netdev (frame + 6) frame (frame + 14) s = Some s' \<and> keeps s s'"
    by (intro arp_keeps [OF assms(1) sub sub assms(3)]) simp_all
  show ?thesis using ip arp assms(6) keeps_refl [OF assms(1)]
    by (simp add: ether_process_frame_def Let_def)
qed

end

section \<open>The receive ring\<close>

definition rx_mcnt :: "byte_mem \<Rightarrow> addr \<Rightarrow> nat \<Rightarrow> u16" where
  "rx_mcnt m rd j = load16 m (cell rd 16 j + 8)"

text \<open>An entry with a frame for the driver: 18 to 1600 bytes, and not a wake-up frame.\<close>

definition rx_ready :: "byte_mem \<Rightarrow> addr \<Rightarrow> addr \<Rightarrow> nat \<Rightarrow> bool" where
  "rx_ready m rd rb j \<longleftrightarrow> m (cell rd 16 j + 7) AND 0x80 = 0 \<and> 18 \<le> unat (rx_mcnt m rd j) \<and> unat (rx_mcnt m rd j) \<le> 1600
     \<and> ntohs (load16 m (cell rb 1600 j + 12)) \<noteq> 0x0842"

definition rx_slot :: "addr \<Rightarrow> addr \<Rightarrow> nat \<Rightarrow> addr set" where
  "rx_slot rd rb j = region (cell rd 16 j) 16 \<union> region (cell rb 1600 j) 1600"

text \<open>An entry given back: the frame erased and the ownership bit set.\<close>

definition rx_given :: "addr \<Rightarrow> addr \<Rightarrow> nat \<Rightarrow> byte_mem \<Rightarrow> byte_mem \<Rightarrow> bool" where
  "rx_given rd rb j m m' \<longleftrightarrow> m' (cell rd 16 j + 7) = m (cell rd 16 j + 7) OR 0x80
     \<and> (\<forall>x \<in> region (cell rb 1600 j) (unat (rx_mcnt m rd j)). m' x = 0)"

text \<open>The \<open>k\<close> entries from \<open>c\<close> on given back, the others as they were.\<close>

definition rx_done :: "addr \<Rightarrow> addr \<Rightarrow> nat \<Rightarrow> nat \<Rightarrow> byte_mem \<Rightarrow> byte_mem \<Rightarrow> bool" where
  "rx_done rd rb c k m m' \<longleftrightarrow> (\<forall>j < 64. if \<exists>t < k. j = (c + t) mod 64 then rx_given rd rb j m m'
     else (\<forall>x \<in> rx_slot rd rb j. m' x = m x))"

definition rx_driver :: "addr \<Rightarrow> addr \<Rightarrow> addr \<Rightarrow> byte_mem \<Rightarrow> bool" where
  "rx_driver dev rd rb m \<longleftrightarrow> rdes m dev = rd \<and> rx_buffers m dev = rb \<and> rx_buffer_count m dev = 64"

definition count_rx :: "nat \<Rightarrow> nat \<Rightarrow> net_dev list \<Rightarrow> net_dev list" where
  "count_rx i k dl = dl[i := (dl ! i)\<lparr>rx_packets := rx_packets (dl ! i) + of_nat k\<rparr>]"

lemma rx_slot_reads:
  assumes "\<forall>x \<in> rx_slot rd rb j. m' x = m x"
  shows "m' (cell rd 16 j + 7) = m (cell rd 16 j + 7)" "rx_mcnt m' rd j = rx_mcnt m rd j"
    "rx_ready m' rd rb j \<longleftrightarrow> rx_ready m rd rb j"
proof -
  have d: "m' (cell rd 16 j + k) = m (cell rd 16 j + k)" if "unat k < 16" for k using assms that by (simp add: rx_slot_def)
  have b: "m' (cell rb 1600 j + k) = m (cell rb 1600 j + k)" if "unat k < 1600" for k using assms that by (simp add: rx_slot_def)
  show r: "m' (cell rd 16 j + 7) = m (cell rd 16 j + 7)" "rx_mcnt m' rd j = rx_mcnt m rd j"
    using d [of 7] d [of 8] d [of 9] by (simp_all add: rx_mcnt_def load16_def add.assoc)
  show "rx_ready m' rd rb j \<longleftrightarrow> rx_ready m rd rb j"
    using r b [of 12] b [of 13] by (simp add: rx_ready_def load16_def add.assoc)
qed

lemma rx_done_Suc:
  assumes one: "rx_done rd rb c 1 m m1" and more: "rx_done rd rb (Suc c mod 64) k m1 m'" and "c < 64" "Suc k \<le> 64"
    "unat (rx_mcnt m rd c) \<le> 1600"
  shows "rx_done rd rb c (Suc k) m m'"
  unfolding rx_done_def
proof (intro allI impI)
  fix j :: nat assume j: "j < 64"
  have sh: "(Suc c mod 64 + t) mod 64 = (c + Suc t) mod 64" for t by (simp add: mod_add_left_eq)
  have c0: "(c + 0) mod 64 = c" using assms(3) by simp
  have notc: "(c + Suc t) mod 64 \<noteq> c" if "t < k" for t
  proof -
    have "Suc t < 64" using that assms(4) by simp
    moreover have "n mod 64 = (if n < 64 then n else n - 64)" if "n < 128" for n :: nat using that by (simp add: le_mod_geq)
    from this [of "c + Suc t"] show ?thesis using assms(3) \<open>Suc t < 64\<close> by auto
  qed
  have ex: "(\<exists>t < Suc k. j = (c + t) mod 64) \<longleftrightarrow> j = c \<or> (\<exists>t < k. j = (c + Suc t) mod 64)"
    using c0 by (auto simp: less_Suc_eq_0_disj simp del: add_Suc_right)
  have first: "if j = c then rx_given rd rb j m m1 else (\<forall>x \<in> rx_slot rd rb j. m1 x = m x)"
    using one j c0 by (simp add: rx_done_def)
  have second: "if \<exists>t < k. j = (c + Suc t) mod 64 then rx_given rd rb j m1 m' else (\<forall>x \<in> rx_slot rd rb j. m' x = m1 x)"
    using more j by (simp add: rx_done_def sh del: add_Suc_right)
  show "if \<exists>t < Suc k. j = (c + t) mod 64 then rx_given rd rb j m m' else (\<forall>x \<in> rx_slot rd rb j. m' x = m x)"
  proof (cases "j = c")
    case True
    then have "\<not> (\<exists>t < k. j = (c + Suc t) mod 64)" using notc by metis
    then have g: "rx_given rd rb c m m1" and s: "\<forall>x \<in> rx_slot rd rb c. m' x = m1 x" using first second True by simp_all
    have "region (cell rb 1600 c) (unat (rx_mcnt m rd c)) \<subseteq> rx_slot rd rb c"
      using region_mono [OF assms(5)] unfolding rx_slot_def by blast
    then have "rx_given rd rb c m m'" using g s rx_slot_reads(1) [OF s] unfolding rx_given_def by (metis subsetD)
    then show ?thesis using True unfolding ex by simp
  next
    case False
    then have same: "\<forall>x \<in> rx_slot rd rb j. m1 x = m x" using first by simp
    show ?thesis using second same False rx_slot_reads [OF same] unfolding ex rx_given_def by auto
  qed
qed

lemma rx_done_cong:
  assumes "rx_done rd rb c k m m2" "\<And>x j. x \<in> rx_slot rd rb j \<Longrightarrow> j < 64 \<Longrightarrow> m3 x = m2 x"
    and "\<forall>t < k. rx_ready m rd rb ((c + t) mod 64)"
  shows "rx_done rd rb c k m m3"
  unfolding rx_done_def
proof (intro allI impI)
  fix j :: nat assume j: "j < 64"
  show "if \<exists>t < k. j = (c + t) mod 64 then rx_given rd rb j m m3 else (\<forall>x \<in> rx_slot rd rb j. m3 x = m x)"
  proof (cases "\<exists>t < k. j = (c + t) mod 64")
    case True
    then have g: "rx_given rd rb j m m2" and "unat (rx_mcnt m rd j) \<le> 1600"
      using assms(1,3) j by (auto simp: rx_done_def rx_ready_def)
    then have "region (cell rb 1600 j) (unat (rx_mcnt m rd j)) \<subseteq> rx_slot rd rb j"
      using region_mono unfolding rx_slot_def by blast
    moreover have "cell rd 16 j + 7 \<in> rx_slot rd rb j" using own_in_cell [of rd j] unfolding rx_slot_def by blast
    ultimately have "rx_given rd rb j m m3" using g assms(2) [OF _ j] unfolding rx_given_def by (metis subsetD)
    then show ?thesis using True by simp
  next
    case False
    then have "\<forall>x \<in> rx_slot rd rb j. m2 x = m x" using assms(1) j by (simp add: rx_done_def)
    then show ?thesis using assms(2) [OF _ j] unfolding if_not_P [OF False] by simp
  qed
qed

lemma count_rx_keep: "devs_keep dl dl' \<Longrightarrow> i < length dl \<Longrightarrow> devs_keep (count_rx i k dl) (count_rx i k dl')"
proof -
  assume keep: "devs_keep dl dl'" and i: "i < length dl"
  note nth = devs_keep_nth [OF keep i]
  have "(dl' ! i)\<lparr>rx_packets := rx_packets (dl' ! i) + of_nat k, tx_packets := 0\<rparr> =
      ((dl' ! i)\<lparr>tx_packets := 0\<rparr>)\<lparr>rx_packets := rx_packets ((dl' ! i)\<lparr>tx_packets := 0\<rparr>) + of_nat k\<rparr>" by simp
  also have "\<dots> = (dl ! i)\<lparr>rx_packets := rx_packets (dl ! i) + of_nat k, tx_packets := 0\<rparr>" unfolding nth(2) by simp
  finally show ?thesis using keep by (simp add: devs_keep_def count_rx_def map_update)
qed

lemma count_rx_add: "i < length dl \<Longrightarrow> count_rx i k (count_rx i 1 dl) = count_rx i (Suc k) dl"
  by (simp add: count_rx_def add.assoc)

lemma rx_next_index:
  assumes "rx_driver dev rd rb m" "c < 64"
  shows "(if rx_buffer_count m dev \<le> of_nat c + 1 then 0 else of_nat c + 1) = (of_nat (Suc c mod 64) :: u16)"
proof -
  have u: "unat (of_nat c :: u16) = c" using assms(2) by (simp add: unat_of_nat)
  then have "of_nat c < (64 :: u16)" using assms(2) by (simp add: word_less_nat_alt)
  then have "unat (of_nat c + 1 :: u16) = Suc c" using unat_inc [of "of_nat c :: u16" 64] u by simp
  moreover have "rx_buffer_count m dev = 64" using assms(1) by (simp add: rx_driver_def)
  moreover have "(64 :: u16) \<le> of_nat c + 1 \<longleftrightarrow> c = 63" using calculation(1) assms(2) by (simp only: word_le_nat_alt) auto
  ultimately show ?thesis using assms(2) by (simp add: add.commute)
qed

text \<open>The driver's position advanced, which no descriptor or buffer sees.\<close>

lemma rx_pointer_store:
  assumes "rx_driver dev rd rb m" "i < 64" "region rd 1024 \<inter> region dev 96 = {}" "region rb 102400 \<inter> region dev 96 = {}"
  defines "m' \<equiv> store16 m (dev + 60) (of_nat i)"
  shows "rx_driver dev rd rb m'" "unat (rx_buffer_ptr m' dev) = i"
    "rx_done rd rb c k m0 m \<Longrightarrow> \<forall>t < k. rx_ready m0 rd rb ((c + t) mod 64) \<Longrightarrow> rx_done rd rb c k m0 m'"
proof -
  have out: "m' x = m x" if "x \<notin> region (dev + 60) 2" for x using that by (simp add: m'_def del: in_region)
  have "m' (dev + j) = m (dev + j)" if "62 \<le> unat j" "unat j < 96" for j
    using that region_shift [of 60 2 "dev + j" dev] by (intro out) auto
  then show "rx_driver dev rd rb m'"
    using assms(1) by (simp add: rx_driver_def rdes_def rx_buffers_def rx_buffer_count_def load32_def load16_def add.assoc)
  have "i < 65536" using assms(2) by simp
  then show "unat (rx_buffer_ptr m' dev) = i" by (simp add: m'_def rx_buffer_ptr_def unat_of_nat)
  have "region (dev + 60) 2 \<subseteq> region dev 96" by (rule region_sub) simp
  moreover have "rx_slot rd rb j \<subseteq> region rd 1024 \<union> region rb 102400" if "j < 64" for j
    using that cell_subset [of 16 64 j rd] cell_subset [of 1600 64 j rb] by (auto simp: rx_slot_def simp del: in_region)
  ultimately have "rx_slot rd rb j \<inter> region (dev + 60) 2 = {}" if "j < 64" for j using that assms(3,4) by fast
  then have "m' x = m x" if "x \<in> rx_slot rd rb j" "j < 64" for x j using that by (intro out) blast
  then show "rx_done rd rb c k m0 m \<Longrightarrow> \<forall>t < k. rx_ready m0 rd rb ((c + t) mod 64) \<Longrightarrow> rx_done rd rb c k m0 m'"
    using rx_done_cong [of rd rb c k m0 m m'] by blast
qed

text \<open>A receiver on top of a transmitter: the driver's structure, its descriptors and its buffers.\<close>

locale receiver = transmitter netdev tx ok A W
  for netdev and tx :: "nat \<Rightarrow> addr \<Rightarrow> u16 \<Rightarrow> 'a net_scheme \<Rightarrow> int \<times> 'a net_scheme" and ok and A W +
  fixes dev rd rb :: addr
  assumes area: "A = region rd 1024 \<union> region rb 102400 \<union> (region dev 96 - region (dev + 62) 2)"
    "W = region rd 1024 \<union> region rb 102400 \<union> region (dev + 60) 2"
    and rings: "ok al s \<Longrightarrow> region rd 1024 \<inter> region rb 102400 = {}" "ok al s \<Longrightarrow> region dev 96 \<inter> region rd 1024 = {}"
      "ok al s \<Longrightarrow> region dev 96 \<inter> region rb 102400 = {}"
begin

lemma rx_slot_area: "j < 64 \<Longrightarrow> region (cell rd 16 j) 16 \<subseteq> region rd 1024" "j < 64 \<Longrightarrow> region (cell rb 1600 j) 1600 \<subseteq> region rb 102400"
  using cell_subset [of 16 64 j rd] cell_subset [of 1600 64 j rb] by simp_all

lemma slot_in_A: "j < 64 \<Longrightarrow> rx_slot rd rb j \<subseteq> A"
  using rx_slot_area unfolding rx_slot_def area by blast

lemma rx_slots_apart: "ok al s \<Longrightarrow> i < 64 \<Longrightarrow> j < 64 \<Longrightarrow> i \<noteq> j \<Longrightarrow> rx_slot rd rb i \<inter> rx_slot rd rb j = {}"
  using cells_disjoint [of 16 64 i j rd] cells_disjoint [of 1600 64 i j rb] rx_slot_area [of i] rx_slot_area [of j] rings(1) [of al s]
  unfolding rx_slot_def by (simp del: in_region) blast

lemma driver_in_A:
  assumes "ok al s" "\<forall>x \<in> A. x \<notin> region rd 1024 \<longrightarrow> x \<notin> region rb 102400 \<longrightarrow> m' x = m x"
  shows "rx_driver dev rd rb m' \<longleftrightarrow> rx_driver dev rd rb m"
proof -
  have at: "m' (dev + k) = m (dev + k)" if k: "64 \<le> unat k" "unat k < 96" for k
  proof -
    have "dev + k \<in> region dev 96" "dev + k \<notin> region (dev + 62) 2" using k region_shift [of 62 2 "dev + k" dev] by auto
    then show ?thesis using assms(2) rings(2,3) [OF assms(1)] unfolding area by blast
  qed
  show ?thesis by (simp add: rx_driver_def rdes_def rx_buffers_def rx_buffer_count_def load32_def load16_def add.assoc at)
qed

text \<open>Whatever the protocol code did with the frame: it is erased and its entry given back.\<close>

lemma rx_frame_gives:
  assumes s: "ok al s" and drv: "rx_driver dev rd rb (mem s)" and j: "j < 64" and n: "unat (rx_mcnt (mem s) rd j) \<le> 1600"
    and s2: "ether_process_frame (\<lambda>_. tx) (local_byte e) (ntoa_buff e) netdev (cell rb 1600 j) (rx_mcnt (mem s) rd j)
      (upd_dev netdev (\<lambda>d. d\<lparr>rx_packets := rx_packets d + 1\<rparr>) s) = Some s2" and A2: "\<And>x. x \<in> A \<Longrightarrow> mem s2 x = mem s x"
  shows "\<exists>m4. rx_frame e (\<lambda>_. tx) netdev dev (of_nat j) s = Some (s2\<lparr>mem := m4\<rparr>) \<and> (\<forall>x. x \<notin> W \<longrightarrow> m4 x = mem s2 x)
    \<and> rx_driver dev rd rb m4 \<and> rx_done rd rb j 1 (mem s) m4"
proof -
  let ?b = "cell rb 1600 j" and ?d = "cell rd 16 j" and ?n = "rx_mcnt (mem s) rd j"
  have "unat (of_nat j :: u16) = j" using j by (simp add: unat_of_nat)
  then have adr: "de_at rd (of_nat j) = ?d" "buf_at rb (of_nat j) = ?b" by (rule entry_addresses)+
  have fields: "rdes (mem s) dev = rd" "rx_buffers (mem s) dev = rb" using drv by (simp_all add: rx_driver_def)
  define s1 where "s1 = upd_dev netdev (\<lambda>d. d\<lparr>rx_packets := rx_packets d + 1\<rparr>) s"
  have m1: "mem s1 = mem s" by (simp add: s1_def upd_dev_def)
  have frame: "region ?b 1600 \<subseteq> A" using slot_in_A [OF j] unfolding rx_slot_def by blast
  define m3 where "m3 = memset ?b 0 (ucast ?n) (mem s2)"
  define m4 where "m4 = m3(?d + 7 := m3 (?d + 7) OR 0x80)"
  have m3: "m3 x = (if x \<in> region ?b (unat ?n) then 0 else mem s2 x)" for x by (simp add: m3_def memset_apply)
  have sub: "region ?b (unat ?n) \<subseteq> region ?b 1600" by (rule region_mono [OF n])
  have own: "?d + 7 \<in> region ?d 16" by (rule own_in_cell)
  note sl = rx_slot_area [OF j]
  have dA: "?d + 7 \<in> A" "?d + 7 \<in> W" "?d + 7 \<notin> region ?b 1600" using own sl rings(1) [OF s] unfolding area by blast+
  have drv2: "rx_driver dev rd rb (mem s2)" using drv A2 by (subst driver_in_A [OF s]) auto
  have drv3: "rx_driver dev rd rb m3" using drv2 sub sl(2) by (subst driver_in_A [OF s, of _ "mem s2"]) (auto simp: m3 simp del: in_region)
  have drv4: "rx_driver dev rd rb m4" using drv3 own sl(1) by (subst driver_in_A [OF s, of _ m3]) (auto simp: m4_def simp del: in_region)
  have run: "rx_frame e (\<lambda>_. tx) netdev dev (of_nat j) s = Some (s2\<lparr>mem := m4\<rparr>)"
    using s2 drv3 unfolding rx_frame_def Let_def s1_def [symmetric] m1 fields adr rx_mcnt_def [symmetric]
    by (simp add: m3_def [symmetric] m4_def rx_driver_def adr)
  have out: "m4 x = mem s2 x" if "x \<notin> W" for x
  proof -
    have "x \<noteq> ?d + 7" "x \<notin> region ?b (unat ?n)" using that dA sub sl(2) unfolding area by blast+
    then show ?thesis by (simp add: m4_def m3 del: in_region)
  qed
  have "rx_done rd rb j 1 (mem s) m4" unfolding rx_done_def
  proof (intro allI impI)
    fix i :: nat assume i: "i < 64"
    have ex: "(\<exists>t < 1. i = (j + t) mod 64) \<longleftrightarrow> i = j" using j by auto
    show "if \<exists>t < 1. i = (j + t) mod 64 then rx_given rd rb i (mem s) m4 else (\<forall>x \<in> rx_slot rd rb i. m4 x = mem s x)"
    proof (cases "i = j")
      case True
      have "m4 (?d + 7) = mem s (?d + 7) OR 0x80" using dA(1,3) A2 sub by (auto simp: m4_def m3 simp del: in_region)
      moreover have "m4 x = 0" if "x \<in> region ?b (unat ?n)" for x using that dA(3) sub by (auto simp: m4_def m3 simp del: in_region)
      ultimately show ?thesis using True unfolding ex rx_given_def by simp
    next
      case False
      have "m4 x = mem s x" if "x \<in> rx_slot rd rb i" for x
      proof -
        have "x \<notin> rx_slot rd rb j" using that rx_slots_apart [OF s i j False] by blast
        then have "x \<noteq> ?d + 7" "x \<notin> region ?b (unat ?n)" using own sub unfolding rx_slot_def by blast+
        then show ?thesis using A2 that slot_in_A [OF i] by (auto simp: m4_def m3 simp del: in_region)
      qed
      then show ?thesis using False unfolding ex by simp
    qed
  qed
  then show ?thesis using run drv4 out by blast
qed

lemma rx_frame_step:
  assumes s: "ok al s" and drv: "rx_driver dev rd rb (mem s)" and j: "j < 64" and ready: "rx_ready (mem s) rd rb j"
    and hw: "length (hw_addr (net_devs s ! netdev)) = 6" and nd: "netdev < length (net_devs s)"
  shows "\<exists>s' al'. rx_frame e (\<lambda>_. tx) netdev dev (of_nat j) s = Some s' \<and> ok al' s' \<and> rx_driver dev rd rb (mem s')
    \<and> rx_done rd rb j 1 (mem s) (mem s') \<and> devs_keep (count_rx netdev 1 (net_devs s)) (net_devs s')"
proof -
  let ?b = "cell rb 1600 j" and ?n = "rx_mcnt (mem s) rd j"
  have n: "18 \<le> unat ?n" "unat ?n \<le> 1600" using ready by (simp_all add: rx_ready_def)
  define s1 where "s1 = upd_dev netdev (\<lambda>d. d\<lparr>rx_packets := rx_packets d + 1\<rparr>) s"
  have m1: "mem s1 = mem s" and d1: "net_devs s1 = count_rx netdev 1 (net_devs s)" by (simp_all add: s1_def upd_dev_def count_rx_def)
  have "map priv (net_devs s1) = map priv (net_devs s)" using nd by (intro nth_equalityI) (auto simp: d1 count_rx_def nth_list_update)
  moreover have "s1 = s\<lparr>mem := mem s, net_devs := net_devs s1\<rparr>" by (simp add: s1_def upd_dev_def)
  ultimately have ok1: "ok al s1" using ok_own [OF s, of "mem s" "net_devs s1"] by simp
  have frame: "region ?b 1600 \<subseteq> A" using slot_in_A [OF j] unfolding rx_slot_def by blast
  have hw1: "length (hw_addr (net_devs s1 ! netdev)) = 6" using hw nd by (simp add: d1 count_rx_def)
  obtain s2 where s2: "ether_process_frame (\<lambda>_. tx) (local_byte e) (ntoa_buff e) netdev ?b ?n s1 = Some s2" "keeps s1 s2"
    using ether_keeps [OF ok1 frame hw1 n] ready by (auto simp: rx_ready_def m1)
  obtain al' where ok2: "ok al' s2" using s2(2) by (auto simp: keeps_def)
  have A2: "mem s2 x = mem s x" if "x \<in> A" for x using s2(2) that m1 by (simp add: keeps_def)
  obtain m4 where m4: "rx_frame e (\<lambda>_. tx) netdev dev (of_nat j) s = Some (s2\<lparr>mem := m4\<rparr>)" "\<forall>x. x \<notin> W \<longrightarrow> m4 x = mem s2 x"
    "rx_driver dev rd rb m4" "rx_done rd rb j 1 (mem s) m4"
    using rx_frame_gives [OF s drv j n(2) s2(1) [unfolded s1_def] A2] by blast
  have "ok al' (s2\<lparr>mem := m4\<rparr>)" using ok_own [OF ok2, of m4 "net_devs s2"] m4(2) by simp
  then show ?thesis using m4 s2(2) d1 by (intro exI [of _ "s2\<lparr>mem := m4\<rparr>"] exI [of _ al']) (simp add: keeps_def)
qed

lemma rx_loop_drains:
  assumes "ok al s" "rx_driver dev rd rb (mem s)" "c < 64" "i + k \<le> 64" "\<forall>t < k. rx_ready (mem s) rd rb ((c + t) mod 64)"
    and "i + k = 64 \<or> mem s (cell rd 16 ((c + k) mod 64) + 7) AND 0x80 \<noteq> 0"
    and "length (hw_addr (net_devs s ! netdev)) = 6" "netdev < length (net_devs s)"
  shows "\<exists>s' al'. rx_loop e (\<lambda>_. tx) netdev dev i (of_nat c) s = Some (of_nat ((c + k) mod 64), s') \<and> ok al' s'
    \<and> rx_driver dev rd rb (mem s') \<and> rx_done rd rb c k (mem s) (mem s') \<and> devs_keep (count_rx netdev k (net_devs s)) (net_devs s')"
  using assms
proof (induction k arbitrary: al s c i)
  case 0
  have f: "rdes (mem s) dev = rd" "unat (rx_buffer_count (mem s) dev) = 64" using "0.prems"(2) by (simp_all add: rx_driver_def)
  have "unat (of_nat c :: u16) = c" using "0.prems"(3) by (simp add: unat_of_nat)
  note adr = entry_addresses(1) [OF this]
  have "rx_loop e (\<lambda>_. tx) netdev dev i (of_nat c) s = Some (of_nat c, s)"
    using "0.prems"(3,4,6) by (subst rx_loop.simps) (auto simp: f pcnet32_driverowns_def adr)
  moreover have "rx_done rd rb c 0 (mem s) (mem s)" by (simp add: rx_done_def)
  moreover have "count_rx netdev 0 (net_devs s) = net_devs s" by (simp add: count_rx_def)
  ultimately show ?case using 0 by (intro exI [of _ s] exI [of _ al]) simp
next
  case (Suc k)
  let ?c = "Suc c mod 64"
  have f: "rdes (mem s) dev = rd" "unat (rx_buffer_count (mem s) dev) = 64" using Suc.prems(2) by (simp_all add: rx_driver_def)
  have u: "unat (of_nat c :: u16) = c" using Suc.prems(3) by (simp add: unat_of_nat)
  note adr = entry_addresses(1) [OF u]
  have "rx_ready (mem s) rd rb ((c + 0) mod 64)" using Suc.prems(5) by blast
  then have ready: "rx_ready (mem s) rd rb c" using Suc.prems(3) by simp
  obtain s1 al1 where s1: "rx_frame e (\<lambda>_. tx) netdev dev (of_nat c) s = Some s1" "ok al1 s1" "rx_driver dev rd rb (mem s1)"
    "rx_done rd rb c 1 (mem s) (mem s1)" "devs_keep (count_rx netdev 1 (net_devs s)) (net_devs s1)"
    using rx_frame_step [OF Suc.prems(1,2,3) ready Suc.prems(7,8)] by blast
  have next_index: "(if rx_buffer_count (mem s1) dev \<le> of_nat c + 1 then 0 else of_nat c + 1) = (of_nat ?c :: u16)"
    by (rule rx_next_index [OF s1(3) Suc.prems(3)])
  have step: "rx_loop e (\<lambda>_. tx) netdev dev i (of_nat c) s = rx_loop e (\<lambda>_. tx) netdev dev (Suc i) (of_nat ?c) s1"
    using Suc.prems(4) ready s1(1) by (subst rx_loop.simps) (simp add: f pcnet32_driverowns_def adr rx_ready_def next_index)
  have sh: "(?c + t) mod 64 = (c + Suc t) mod 64" for t by (simp add: mod_add_left_eq)
  have same: "\<forall>x \<in> rx_slot rd rb ((c + Suc t) mod 64). mem s1 x = mem s x" if "Suc t < 64" for t
  proof -
    have "n mod 64 = (if n < 64 then n else n - 64)" if "n < 128" for n :: nat using that by (simp add: le_mod_geq)
    from this [of "c + Suc t"] have "(c + Suc t) mod 64 \<noteq> c" using Suc.prems(3) \<open>Suc t < 64\<close> by auto
    then have "\<not> (\<exists>u < 1. (c + Suc t) mod 64 = (c + u) mod 64)" using Suc.prems(3) by auto
    then show ?thesis using s1(4) unfolding rx_done_def by (metis mod_less_divisor zero_less_numeral)
  qed
  have ready1: "\<forall>t < k. rx_ready (mem s1) rd rb ((?c + t) mod 64)"
  proof (intro allI impI)
    fix t assume t: "t < k"
    then have "rx_ready (mem s) rd rb ((c + Suc t) mod 64)" using Suc.prems(5) by blast
    then show "rx_ready (mem s1) rd rb ((?c + t) mod 64)" using rx_slot_reads(3) [OF same] t Suc.prems(4) unfolding sh by simp
  qed
  have stop1: "Suc i + k = 64 \<or> mem s1 (cell rd 16 ((?c + k) mod 64) + 7) AND 0x80 \<noteq> 0"
    using Suc.prems(4,6) rx_slot_reads(1) [OF same [of k]] unfolding sh by (cases "Suc i + k = 64") auto
  have nd: "netdev < length (count_rx netdev 1 (net_devs s))" using Suc.prems(8) by (simp add: count_rx_def)
  note keep = devs_keep_nth [OF s1(5) nd]
  have nd1: "netdev < length (net_devs s1)" using keep(1) nd by simp
  have hw1: "length (hw_addr (net_devs s1 ! netdev)) = 6"
  proof -
    have "hw_addr ((net_devs s1 ! netdev)\<lparr>tx_packets := 0\<rparr>) = hw_addr ((count_rx netdev 1 (net_devs s) ! netdev)\<lparr>tx_packets := 0\<rparr>)"
      unfolding keep(2) ..
    then show ?thesis using Suc.prems(7,8) by (simp add: count_rx_def)
  qed
  obtain s' al' where s': "rx_loop e (\<lambda>_. tx) netdev dev (Suc i) (of_nat ?c) s1 = Some (of_nat ((?c + k) mod 64), s')" "ok al' s'"
    "rx_driver dev rd rb (mem s')" "rx_done rd rb ?c k (mem s1) (mem s')" "devs_keep (count_rx netdev k (net_devs s1)) (net_devs s')"
    using Suc.IH [OF s1(2,3) _ _ ready1 stop1 hw1 nd1] Suc.prems(4) by auto
  have "devs_keep (count_rx netdev (Suc k) (net_devs s)) (net_devs s')"
    using devs_keep_trans [OF count_rx_keep [OF s1(5) nd] s'(5)] unfolding count_rx_add [OF Suc.prems(8)] .
  moreover have "rx_done rd rb c (Suc k) (mem s) (mem s')"
    using ready Suc.prems(3,4) by (intro rx_done_Suc [OF s1(4) s'(4)]) (simp_all add: rx_ready_def)
  ultimately show ?case using s' step unfolding sh by auto
qed

end

section \<open>The PCnet driver implements the interfaces\<close>

definition rx_area :: "addr \<Rightarrow> addr \<Rightarrow> addr set" where
  "rx_area rd rb = region rd 1024 \<union> region rb 102400"

definition nic_rx_ok :: "nat \<Rightarrow> addr \<Rightarrow> addr \<Rightarrow> addr \<Rightarrow> addr \<Rightarrow> addr \<Rightarrow> addr list \<Rightarrow> 'a net_scheme \<Rightarrow> bool" where
  "nic_rx_ok netdev dev td tb rd rb al s \<longleftrightarrow> (\<exists>c ps fr. nic_ok netdev dev td tb c ps fr al s \<and> rx_area rd rb \<inter> heap_free s = {}
     \<and> (\<forall>p \<in> set (fr @ al). rx_area rd rb \<inter> buf_area p = {}) \<and> rx_area rd rb \<inter> tx_area dev td tb = {}
     \<and> region rd 1024 \<inter> region rb 102400 = {})"

definition rx_kept :: "addr \<Rightarrow> addr \<Rightarrow> addr \<Rightarrow> addr set" where
  "rx_kept dev rd rb = region rd 1024 \<union> region rb 102400 \<union> (region dev 96 - region (dev + 62) 2)"

definition rx_own :: "addr \<Rightarrow> addr \<Rightarrow> addr \<Rightarrow> addr set" where
  "rx_own dev rd rb = region rd 1024 \<union> region rb 102400 \<union> region (dev + 60) 2"

lemma rx_kept_area: "rx_kept dev rd rb \<subseteq> rx_area rd rb \<union> tx_area dev td tb"
  by (auto simp: rx_kept_def rx_area_def tx_area_def simp del: in_region)

lemma nic_rx_okI:
  assumes "nic_ok netdev dev td tb c ps fr al s" "rx_area rd rb \<inter> heap_free s = {}"
    "\<And>p. p \<in> set (fr @ al) \<Longrightarrow> rx_area rd rb \<inter> buf_area p = {}" "rx_area rd rb \<inter> tx_area dev td tb = {}"
    "region rd 1024 \<inter> region rb 102400 = {}"
  shows "nic_rx_ok netdev dev td tb rd rb al s"
  unfolding nic_rx_ok_def using assms by blast

lemma kept_not_written:
  assumes "nic_ok netdev dev td tb c ps fr al s" "rx_area rd rb \<inter> tx_area dev td tb = {}" "x \<in> rx_kept dev rd rb"
  shows "x \<notin> region td 256 \<union> region tb 25600 \<union> region (dev + 62) 2"
proof -
  have dis: "region dev 96 \<inter> region td 256 = {}" "region dev 96 \<inter> region tb 25600 = {}" using assms(1) by (simp_all add: nic_ok_def tx_driver_def)
  have ptr: "region (dev + 62) 2 \<subseteq> region dev 96" using region_shift [of 62 2 _ dev] by auto
  show ?thesis using assms(2,3) dis ptr unfolding rx_kept_def rx_area_def tx_area_def by blast
qed

lemma nic_own:
  assumes nic: "nic_ok netdev dev td tb c ps fr al s" and sep: "rx_area rd rb \<inter> heap_free s = {}"
    "\<And>p. p \<in> set (fr @ al) \<Longrightarrow> rx_area rd rb \<inter> buf_area p = {}" "rx_area rd rb \<inter> tx_area dev td tb = {}"
    and m': "\<And>x. x \<notin> rx_own dev rd rb \<Longrightarrow> m' x = mem s x" and dl: "map priv dl = map priv (net_devs s)"
  shows "nic_ok netdev dev td tb c ps fr al (s\<lparr>mem := m', net_devs := dl\<rparr>)"
proof -
  let ?s = "s\<lparr>mem := m', net_devs := dl\<rparr>"
  have old: "pool_ok fr al s" "tx_driver netdev dev td tb c ps s" "tx_area dev td tb \<inter> heap_free s = {}"
    "\<And>p. p \<in> set (fr @ al) \<Longrightarrow> tx_area dev td tb \<inter> buf_area p = {}" using nic by (simp_all add: nic_ok_def)
  have ptr96: "region (dev + 60) 2 \<subseteq> region dev 96" using region_shift [of 60 2 _ dev] by auto
  then have ptr: "region (dev + 60) 2 \<subseteq> tx_area dev td tb" unfolding tx_area_def by blast
  have own: "rx_own dev rd rb \<subseteq> rx_area rd rb \<union> tx_area dev td tb" using ptr by (auto simp: rx_own_def rx_area_def simp del: in_region)
  have "pool_ok fr al ?s"
  proof (rule pool_ok_write [OF old(1)])
    show "mem ?s x = mem s x" if "x \<in> heap_free s" for x using that own sep(1) old(3) m' [of x] by auto
    show "mem ?s x = mem s x" if "p \<in> set fr" "x \<in> buf_area p" for p x
      using that own sep(2) [of p] old(4) [of p] m' [of x] by (auto simp del: in_region)
  qed simp_all
  moreover have "tx_driver netdev dev td tb c ps ?s"
  proof -
    have len: "length dl = length (net_devs s)" using dl map_eq_imp_length_eq by blast
    have nd: "netdev < length (net_devs s)" using old(2) by (simp add: tx_driver_def)
    have "map priv dl ! netdev = map priv (net_devs s) ! netdev" using dl by simp
    then have pr: "priv (dl ! netdev) = priv (net_devs s ! netdev)" using len nd by simp
    have dis: "region dev 96 \<inter> region td 256 = {}" "region dev 96 \<inter> region tb 25600 = {}" using old(2) by (simp_all add: tx_driver_def)
    have "m' x = mem s x" if "x \<in> region td 256 \<union> region tb 25600" for x
    proof (rule m')
      show "x \<notin> rx_own dev rd rb" using that dis ptr96 sep(3) unfolding rx_own_def rx_area_def tx_area_def by blast
    qed
    then have "tx_ring m' td tb c ps \<longleftrightarrow> tx_ring (mem s) td tb c ps" by (rule tx_ring_cong)
    moreover have at: "m' (dev + k) = mem s (dev + k)" if "62 \<le> unat k" "unat k < 96" for k
    proof (rule m')
      have "dev + k \<in> region dev 96" "dev + k \<notin> region (dev + 60) 2" using that region_shift [of 60 2 "dev + k" dev] by auto
      then show "dev + k \<notin> rx_own dev rd rb" using sep(3) unfolding rx_own_def rx_area_def tx_area_def by blast
    qed
    ultimately show ?thesis using old(2) len pr
      by (simp add: tx_driver_def tdes_def tx_buffers_def tx_buffer_count_def tx_buffer_ptr_def load32_def load16_def add.assoc at)
  qed
  ultimately show ?thesis using old(3,4) by (simp add: nic_ok_def heap_free_def)
qed

interpretation pcnet: transmitter netdev pcnet32_tx_packet "nic_rx_ok netdev dev td tb rd rb" "rx_kept dev rd rb" "rx_own dev rd rb"
  for netdev dev td tb rd rb
proof unfold_locales
  let ?ok = "nic_rx_ok netdev dev td tb rd rb" and ?A = "rx_kept dev rd rb"
  fix al and s :: "'a net_scheme" assume "?ok al s"
  then obtain c ps fr where nic: "nic_ok netdev dev td tb c ps fr al s" and sep: "rx_area rd rb \<inter> heap_free s = {}"
    "\<And>p. p \<in> set (fr @ al) \<Longrightarrow> rx_area rd rb \<inter> buf_area p = {}" "rx_area rd rb \<inter> tx_area dev td tb = {}"
    and rings: "region rd 1024 \<inter> region rb 102400 = {}" unfolding nic_rx_ok_def by blast
  have tx: "tx_area dev td tb \<inter> heap_free s = {}" "\<And>p. p \<in> set (fr @ al) \<Longrightarrow> tx_area dev td tb \<inter> buf_area p = {}"
    using nic by (simp_all add: nic_ok_def)
  have A: "?A \<subseteq> rx_area rd rb \<union> tx_area dev td tb" by (rule rx_kept_area)
  show "\<exists>a s'. net_alloc s = Some (a, s') \<and> ?ok (if a = 0 then al else a # al) s' \<and> (\<forall>x \<in> ?A. mem s' x = mem s x) \<and> net_devs s' = net_devs s"
  proof -
    have "pool_ok fr al s" using nic by (simp add: nic_ok_def)
    then obtain a s' where al: "net_alloc s = Some (a, s')" by (rule net_alloc_ok)
    obtain fr' where r: "nic_ok netdev dev td tb c ps fr' (if a = 0 then al else a # al) s'" "heap_free s' \<subseteq> heap_free s"
      "net_devs s' = net_devs s" "\<forall>x. x \<notin> heap_free s \<longrightarrow> mem s' x = mem s x"
      "\<forall>p \<in> set (fr' @ (if a = 0 then al else a # al)). p \<in> set (fr @ al) \<or> buf_area p \<subseteq> heap_free s"
      using nic_alloc [OF nic al] by blast
    have "rx_area rd rb \<inter> buf_area p = {}" if "p \<in> set (fr' @ (if a = 0 then al else a # al))" for p
      using r(5) that sep(1) sep(2) [of p] by blast
    moreover have "rx_area rd rb \<inter> heap_free s' = {}" using r(2) sep(1) by blast
    ultimately have "?ok (if a = 0 then al else a # al) s'" by (rule nic_rx_okI [OF r(1) _ _ sep(3) rings, rotated])
    moreover have "mem s' x = mem s x" if "x \<in> ?A" for x using that A r(4) sep(1) tx(1) by blast
    ultimately show ?thesis using al r(3) by blast
  qed
  show "?A \<inter> buf_area a = {}" if "a \<in> set al" for a
  proof -
    have "a \<in> set (fr @ al)" using that by simp
    then show ?thesis using A sep(2) tx(2) by blast
  qed
  show "?ok al (s\<lparr>mem := m'\<rparr>)" if a: "a \<in> set al" "\<And>x. x \<notin> buf_area a \<Longrightarrow> m' x = mem s x" for a m'
    using sep(1) by (intro nic_rx_okI [OF nic_write [OF nic a] _ sep(2,3) rings]) (simp_all add: heap_free_def)
  show "\<exists>r al' s'. pcnet32_tx_packet netdev a len s = (r, s') \<and> ?ok al' s' \<and> (\<forall>x \<in> ?A. mem s' x = mem s x)
      \<and> devs_keep (net_devs s) (net_devs s')" if a: "a \<in> set al" "unat len \<le> 1600" for a len
  proof -
    obtain xs ys where xy: "al = xs @ a # ys" using split_list [OF a(1)] by blast
    have nic': "nic_ok netdev dev td tb c ps fr (xs @ a # ys) s" using nic xy by simp
    show ?thesis
    proof (cases "length ps = 16")
      case True
      then have "pcnet32_tx_packet netdev a len s = (0, s)" by (rule tx_packet_step(2) [OF nic' a(2)])
      then show ?thesis using nic_rx_okI [OF nic sep rings] by auto
    next
      case False
      then have "length ps < 16" using nic by (simp add: nic_ok_def tx_driver_def tx_ring_def)
      then obtain s' where s': "pcnet32_tx_packet netdev a len s = (1, s')"
        "nic_ok netdev dev td tb c (ps @ [bytes_at (mem s) a (unat len)]) (a # fr) (xs @ ys) s'" "heap_free s' = heap_free s"
        "net_devs s' = (net_devs s)[netdev := (net_devs s ! netdev)\<lparr>tx_packets := tx_packets (net_devs s ! netdev) + 1\<rparr>]"
        "\<forall>x. x \<notin> region td 256 \<union> region tb 25600 \<union> region (dev + 62) 2 \<union> buf_area a \<longrightarrow> mem s' x = mem s x"
        using tx_packet_step(1) [OF nic' a(2)] by blast
      have "rx_area rd rb \<inter> buf_area p = {}" if "p \<in> set ((a # fr) @ xs @ ys)" for p using that xy by (intro sep(2)) auto
      then have "?ok (xs @ ys) s'" using s'(3) sep(1) by (intro nic_rx_okI [OF s'(2) _ _ sep(3) rings]) simp_all
      moreover have "mem s' x = mem s x" if x: "x \<in> ?A" for x
      proof -
        have "x \<notin> buf_area a" using x A sep(2) [of a] tx(2) [of a] a(1) by (auto simp del: in_region)
        then show ?thesis using s'(5) kept_not_written [OF nic sep(3) x] by blast
      qed
      moreover have "devs_keep (net_devs s) (net_devs s')"
        unfolding devs_keep_def s'(4) map_update
        by (cases "netdev < length (net_devs s)") (simp_all add: list_update_same_conv list_update_beyond)
      ultimately show ?thesis using s'(1) by blast
    qed
  qed
  show "?ok al (s\<lparr>mem := m', net_devs := dl\<rparr>)" if "\<And>x. x \<notin> rx_own dev rd rb \<Longrightarrow> m' x = mem s x" "map priv dl = map priv (net_devs s)" for m' dl
    using sep(1) by (intro nic_rx_okI [OF nic_own [OF nic sep that] _ sep(2,3) rings]) (simp_all add: heap_free_def)
qed

interpretation pcnet_rx: receiver netdev pcnet32_tx_packet "nic_rx_ok netdev dev td tb rd rb" "rx_kept dev rd rb" "rx_own dev rd rb" dev rd rb
  for netdev dev td tb rd rb
proof unfold_locales
  show "rx_kept dev rd rb = region rd 1024 \<union> region rb 102400 \<union> (region dev 96 - region (dev + 62) 2)"
    "rx_own dev rd rb = region rd 1024 \<union> region rb 102400 \<union> region (dev + 60) 2" by (simp_all only: rx_kept_def rx_own_def)
  fix al and s :: "'a net_scheme" assume ok: "nic_rx_ok netdev dev td tb rd rb al s"
  then have "rx_area rd rb \<inter> tx_area dev td tb = {}" "region rd 1024 \<inter> region rb 102400 = {}" by (auto simp only: nic_rx_ok_def)
  then show "region rd 1024 \<inter> region rb 102400 = {}" "region dev 96 \<inter> region rd 1024 = {}" "region dev 96 \<inter> region rb 102400 = {}"
    unfolding rx_area_def tx_area_def by blast+
qed

section \<open>Emptying the receive ring\<close>

text \<open>C10: \<^verbatim>\<open>pcnet32_do_irq_work\<close> returns for every content of the frames (of 18 to 1600 bytes, wake-up frames apart). It takes
  the frames from the driver's position up to the first entry that the card owns, in order; gives each entry back to the
  card with its frame erased; leaves the other entries alone; counts the frames; advances the position behind them and
  clears the request for work; and leaves the transmit ring and the buffer pool in order.\<close>

theorem rx_work_drains_ring:
  assumes "nic_rx_ok netdev dev td tb rd rb al s" "rx_driver dev rd rb (mem s)" "length (hw_addr (net_devs s ! netdev)) = 6"
    and "unat (rx_buffer_ptr (mem s) dev) = c" "c < 64" "k \<le> 64" "\<forall>t < k. rx_ready (mem s) rd rb ((c + t) mod 64)"
    and "k = 64 \<or> mem s (cell rd 16 ((c + k) mod 64) + 7) AND 0x80 \<noteq> 0"
  shows "\<exists>s' al'. pcnet32_do_irq_work e (\<lambda>_. pcnet32_tx_packet) netdev s = Some s' \<and> nic_rx_ok netdev dev td tb rd rb al' s'
    \<and> rx_driver dev rd rb (mem s') \<and> unat (rx_buffer_ptr (mem s') dev) = (c + k) mod 64 \<and> rx_done rd rb c k (mem s) (mem s')
    \<and> rx_packets (net_devs s' ! netdev) = rx_packets (net_devs s ! netdev) + of_nat k \<and> needs_work (net_devs s' ! netdev) = 0"
proof -
  define s1 where "s1 = upd_dev netdev (\<lambda>d. d\<lparr>needs_work := 0\<rparr>) s"
  have m1: "mem s1 = mem s" by (simp add: s1_def upd_dev_def)
  have drv: "priv (net_devs s ! netdev) = dev" "netdev < length (net_devs s)"
    using assms(1) by (auto simp: nic_rx_ok_def nic_ok_def tx_driver_def)
  have d1: "net_devs s1 = (net_devs s)[netdev := (net_devs s ! netdev)\<lparr>needs_work := 0\<rparr>]" by (simp add: s1_def upd_dev_def)
  have "map priv (net_devs s1) = map priv (net_devs s)" using drv(2) by (intro nth_equalityI) (auto simp: d1 nth_list_update)
  moreover have "s1 = s\<lparr>mem := mem s, net_devs := net_devs s1\<rparr>" by (simp add: s1_def upd_dev_def)
  ultimately have ok1: "nic_rx_ok netdev dev td tb rd rb al s1" using pcnet.ok_own [OF assms(1), of "mem s" "net_devs s1"] by simp
  have ptr: "rx_buffer_ptr (mem s1) dev = of_nat c" unfolding assms(4) [symmetric] m1 by simp
  obtain s2 al' where s2: "rx_loop e (\<lambda>_. pcnet32_tx_packet) netdev dev 0 (of_nat c) s1 = Some (of_nat ((c + k) mod 64), s2)"
    "nic_rx_ok netdev dev td tb rd rb al' s2" "rx_driver dev rd rb (mem s2)" "rx_done rd rb c k (mem s1) (mem s2)"
    "devs_keep (count_rx netdev k (net_devs s1)) (net_devs s2)"
  proof -
    have "length (hw_addr (net_devs s1 ! netdev)) = 6" "netdev < length (net_devs s1)" using assms(3) drv(2) by (simp_all add: d1)
    then have "\<exists>s' al'. rx_loop e (\<lambda>_. pcnet32_tx_packet) netdev dev 0 (of_nat c) s1 = Some (of_nat ((c + k) mod 64), s')
        \<and> nic_rx_ok netdev dev td tb rd rb al' s' \<and> rx_driver dev rd rb (mem s') \<and> rx_done rd rb c k (mem s1) (mem s')
        \<and> devs_keep (count_rx netdev k (net_devs s1)) (net_devs s')"
      using assms(2,5-8) unfolding m1 by (intro pcnet_rx.rx_loop_drains [OF ok1, unfolded m1]) simp_all
    then show thesis using that by blast
  qed
  define m3 where "m3 = store16 (mem s2) (dev + 60) (of_nat ((c + k) mod 64))"
  have run: "pcnet32_do_irq_work e (\<lambda>_. pcnet32_tx_packet) netdev s = Some (s2\<lparr>mem := m3\<rparr>)"
    by (simp add: pcnet32_do_irq_work_def drv(1) s1_def [symmetric] ptr s2(1) m3_def Let_def)
  have out: "m3 x = mem s2 x" if "x \<notin> region (dev + 60) 2" for x using that by (simp add: m3_def del: in_region)
  have "nic_rx_ok netdev dev td tb rd rb al' (s2\<lparr>mem := m3, net_devs := net_devs s2\<rparr>)"
    by (rule pcnet.ok_own [OF s2(2)]) (auto simp: rx_own_def intro!: out simp del: in_region)
  moreover have "(s2\<lparr>mem := m3, net_devs := net_devs s2\<rparr>) = s2\<lparr>mem := m3\<rparr>" by simp
  moreover have "region rd 1024 \<inter> region dev 96 = {}" "region rb 102400 \<inter> region dev 96 = {}"
    using s2(2) unfolding nic_rx_ok_def rx_area_def tx_area_def by blast+
  then have "rx_driver dev rd rb m3 \<and> unat (rx_buffer_ptr m3 dev) = (c + k) mod 64 \<and> rx_done rd rb c k (mem s) m3"
    using rx_pointer_store [OF s2(3), of "(c + k) mod 64"] s2(4) assms(7) unfolding m1 m3_def by simp
  moreover have "rx_packets (net_devs s2 ! netdev) = rx_packets (net_devs s ! netdev) + of_nat k" "needs_work (net_devs s2 ! netdev) = 0"
  proof -
    have "netdev < length (count_rx netdev k (net_devs s1))" using drv(2) by (simp add: count_rx_def d1)
    from devs_keep_nth(2) [OF s2(5) this]
    have e: "(net_devs s2 ! netdev)\<lparr>tx_packets := 0\<rparr> = (count_rx netdev k (net_devs s1) ! netdev)\<lparr>tx_packets := 0\<rparr>" .
    from arg_cong [OF e, of rx_packets] arg_cong [OF e, of needs_work]
    show "rx_packets (net_devs s2 ! netdev) = rx_packets (net_devs s ! netdev) + of_nat k" "needs_work (net_devs s2 ! netdev) = 0"
      using drv(2) by (simp_all add: count_rx_def d1)
  qed
  ultimately show ?thesis using run by (intro exI [of _ "s2\<lparr>mem := m3\<rparr>"] exI [of _ al']) simp
qed

section \<open>Concrete instances\<close>

text \<open>One frame of 64 bytes in the first entry; the second entry belongs to the card.\<close>

definition rx_boot :: net where
  "rx_boot = nic_boot\<lparr>mem := (mem nic_boot)(0xC00E0008 := 64, 0xC00E0017 := 0x80)\<rparr>"

lemma rx_boot_rings:
  "rx_area 0xC00E0000 0xC00E1000 \<inter> heap_free nic_boot = {}" "rx_area 0xC00E0000 0xC00E1000 \<inter> tx_area 0xC0106000 0xC0107000 0xC0108000 = {}"
  "region (0xC00E0000 :: addr) 1024 \<inter> region 0xC00E1000 102400 = {}"
proof -
  have rx: "unat x < 0xC0100000" if "x \<in> rx_area 0xC00E0000 0xC00E1000" for x
    using that region_absoluteD [of x "0xC00E0000" 1024] region_absoluteD [of x "0xC00E1000" 102400] by (auto simp: rx_area_def simp del: in_region)
  have tx: "0xC0100000 \<le> unat x" if "x \<in> tx_area 0xC0106000 0xC0107000 0xC0108000" for x
    using that region_absoluteD [of x "0xC0106000" 96] region_absoluteD [of x "0xC0107000" 256] region_absoluteD [of x "0xC0108000" 25600]
    by (auto simp: tx_area_def simp del: in_region)
  have heap: "0xC0100000 \<le> unat x" if "x \<in> heap_free nic_boot" for x
    using that by (simp add: heap_free_def nic_boot_def boot_net_simps word_le_nat_alt)
  show "rx_area 0xC00E0000 0xC00E1000 \<inter> heap_free nic_boot = {}" using rx heap by fastforce
  show "rx_area 0xC00E0000 0xC00E1000 \<inter> tx_area 0xC0106000 0xC0107000 0xC0108000 = {}" using rx tx by fastforce
  show "region (0xC00E0000 :: addr) 1024 \<inter> region 0xC00E1000 102400 = {}" by (rule region_disjoint_abs) simp_all
qed

lemma rx_boot_ok: "nic_rx_ok 0 0xC0106000 0xC0107000 0xC0108000 0xC00E0000 0xC00E1000 [] rx_boot"
proof -
  have m: "((mem nic_boot)(0xC00E0008 := 64, 0xC00E0017 := 0x80)) x = mem nic_boot x" if "x \<notin> rx_own 0xC0106000 0xC00E0000 0xC00E1000" for x
    using that by (auto simp: rx_own_def)
  have eq: "rx_boot = nic_boot\<lparr>mem := (mem nic_boot)(0xC00E0008 := 64, 0xC00E0017 := 0x80), net_devs := net_devs nic_boot\<rparr>"
    by (simp add: rx_boot_def)
  have "nic_rx_ok 0 0xC0106000 0xC0107000 0xC0108000 0xC00E0000 0xC00E1000 [] nic_boot"
    using rx_boot_rings by (intro nic_rx_okI [OF nic_boot_ok]) simp_all
  then show ?thesis unfolding eq by (rule pcnet.ok_own) (rule m | simp)+
qed

theorem rx_work_drains_ring_witness:
  "\<exists>s'. pcnet32_do_irq_work \<lparr>in8 = last_write, in32 = sample_cfg, local_byte = 1, ntoa_buff = 0, net_devs_at = 0, pcidevs_at = 0,
      irq_code = 0, work_code = 0, tx_code = 0\<rparr> (\<lambda>_. pcnet32_tx_packet) 0 rx_boot = Some s'
     \<and> unat (rx_buffer_ptr (mem s') 0xC0106000) = 1 \<and> rx_packets (net_devs s' ! 0) = 1"
proof -
  have at: "mem rx_boot x = (if x = 0xC00E0017 then 0x80 else if x = 0xC00E0008 then 64 else mem nic_boot x)" for x by (simp add: rx_boot_def)
  have low: "mem nic_boot x = 0" if "unat x < 0xC0106000" for x
  proof -
    have "x \<noteq> 0xC0106000 + k" if "unat k < 96" for k
    proof
      assume "x = 0xC0106000 + k"
      then show False using that \<open>unat x < 0xC0106000\<close> by (simp add: unat_word_ariths)
    qed
    note n = this
    show ?thesis using that n [of "0x40"] n [of "0x41"] n [of "0x42"] n [of "0x43"] n [of "0x44"] n [of "0x45"] n [of "0x46"] n [of "0x47"]
      n [of "0x48"] n [of "0x49"] n [of "0x4A"] n [of "0x4B"] n [of "0x4C"] n [of "0x4D"] n [of "0x4E"] n [of "0x4F"]
      n [of "0x50"] n [of "0x51"] n [of "0x52"] n [of "0x53"]
      by (simp add: nic_boot_def store32_apply store16_apply boot_net_low)
  qed
  have drv: "rx_driver 0xC0106000 0xC00E0000 0xC00E1000 (mem rx_boot)"
    by (simp add: rx_driver_def rdes_def rx_buffers_def rx_buffer_count_def load32_def load16_def at nic_boot_def store32_apply store16_apply)
  have ptr: "unat (rx_buffer_ptr (mem rx_boot) 0xC0106000) = 0"
    by (simp add: rx_buffer_ptr_def load16_def at nic_boot_def store32_apply store16_apply boot_net_low)
  have "rx_ready (mem rx_boot) 0xC00E0000 0xC00E1000 0"
    by (simp add: rx_ready_def rx_mcnt_def cell_def load16_def at low ntohs_def htons_def)
  then have ready: "\<forall>t < 1. rx_ready (mem rx_boot) 0xC00E0000 0xC00E1000 ((0 + t) mod 64)" by simp
  have stop: "(1 :: nat) = 64 \<or> mem rx_boot (cell 0xC00E0000 16 ((0 + 1) mod 64) + 7) AND 0x80 \<noteq> 0" by (simp add: cell_def at)
  have hw: "length (hw_addr (net_devs rx_boot ! 0)) = 6" by (simp add: rx_boot_def nic_boot_def zero_netdev_def)
  have cnt: "rx_packets (net_devs rx_boot ! 0) = 0" by (simp add: rx_boot_def nic_boot_def zero_netdev_def)
  have le: "(0 :: nat) < 64" "(1 :: nat) \<le> 64" by simp_all
  from rx_work_drains_ring [OF rx_boot_ok drv hw ptr le ready stop] show ?thesis using cnt by fastforce
qed

end
