(* ===== verification/Frog_Ping.thy ===== *)
theory Frog_Ping
  imports Frog_Rxring
begin

text \<open>
  The way of an echo request through the whole network code: from the receive ring of the card
  through ether.c, ipv4.c and icmp.c into the transmit ring.
\<close>

section \<open>Checksums of equal bytes\<close>

lemma word_sum_bytes: "(\<And>i. i < n \<Longrightarrow> m' (a' + of_nat i) = m (a + of_nat i)) \<Longrightarrow> word_sum m' a' n = word_sum m a n"
proof (induction m a n arbitrary: a' rule: word_sum.induct)
  case (2 m a) then show ?case using "2.prems" [of 0] by simp
next
  case (3 m a n)
  have "load16 m' a' = load16 m a" using "3.prems" [of 0] "3.prems" [of 1] by (simp add: load16_def)
  moreover have "word_sum m' (a' + 2) n = word_sum m (a + 2) n"
  proof (rule "3.IH")
    fix i assume "i < n"
    then show "m' (a' + 2 + of_nat i) = m (a + 2 + of_nat i)" using "3.prems" [of "Suc (Suc i)"] by (simp add: add.assoc)
  qed
  ultimately show ?case by simp
qed simp

lemma ip_cksum_bytes:
  assumes "unat len \<le> 131070" "\<And>i. i < unat len \<Longrightarrow> m' (a' + of_nat i) = m (a + of_nat i)"
  shows "ip_cksum 0 a' len m' = ip_cksum 0 a len m"
proof -
  have "(unat len + 1) div 2 * 65535 \<le> 65535 * 65535" using assms(1) by (intro mult_le_mono1) simp
  then have "word_sum m a (unat len) < 2 ^ 32" for m a using word_sum_bound [of m a "unat len"] by simp
  then have "unat (ip_cksum 0 a len m) = 65535 - ones_residue (word_sum m a (unat len))" for m a
    using ip_cksum_residue [of 0 m a len] by simp
  then show ?thesis using word_sum_bytes [of "unat len" m' a' m a] assms(2) by (simp add: word_unat_eq_iff)
qed

section \<open>Taking a buffer\<close>

text \<open>What the pool does depends neither on the device table nor on the ports.\<close>

lemma alloc_devs_upd:
  fixes s :: "'a net_scheme"
  assumes "heap_ok s"
  shows "alloc n 1 (s\<lparr>io := h, net_devs := dl\<rparr>) = map_option (\<lambda>(a, t). (a, t\<lparr>io := h, net_devs := dl\<rparr>)) (alloc n 1 s)"
proof -
  have "heap_ok (s\<lparr>io := h, net_devs := dl\<rparr>)" using assms by (simp add: heap_ok_def)
  then show ?thesis using assms by (simp add: alloc_one_block alloc_front_def Let_def)
qed

lemma net_alloc_devs_upd:
  fixes s :: "'a net_scheme"
  assumes "heap_ok s"
  shows "net_alloc (s\<lparr>io := h, net_devs := dl\<rparr>) = map_option (\<lambda>(a, t). (a, t\<lparr>io := h, net_devs := dl\<rparr>)) (net_alloc s)"
proof (cases "buffers s = 0")
  case True
  obtain b s1 where "alloc 64000 1 s = Some (b, s1)" using alloc_one_block [OF assms, of 64000] by (metis surj_pair)
  then show ?thesis using alloc_devs_upd [OF assms, where n = 64000 and dl = dl and h = h] True by (auto simp: net_alloc_def Let_def)
qed (simp add: net_alloc_def Let_def)

lemma net_alloc_num:
  assumes "heap_ok s" "net_alloc s = Some (a, t)"
  shows "net_num_devs t = net_num_devs s"
  using assms(2) by (auto simp: net_alloc_def alloc_one_block [OF assms(1)] alloc_front_def Let_def split: if_splits)

lemma nic_ok_devs_upd:
  assumes "nic_ok netdev dev td tb c ps fr al s" "map priv dl = map priv (net_devs s)"
  shows "nic_ok netdev dev td tb c ps fr al (s\<lparr>io := h, net_devs := dl\<rparr>)"
proof -
  have nd: "netdev < length (net_devs s)" "priv (net_devs s ! netdev) = dev" using assms(1) by (simp_all add: nic_ok_def tx_driver_def)
  have len: "length dl = length (net_devs s)" using assms(2) map_eq_imp_length_eq by blast
  have "map priv dl ! netdev = map priv (net_devs s) ! netdev" using assms(2) by simp
  then have "priv (dl ! netdev) = dev" using nd len by simp
  then show ?thesis using assms(1) len by (simp add: nic_ok_def tx_driver_def pool_ok_def heap_ok_def heap_free_def)
qed

section \<open>The reply as a byte string\<close>

definition bytes_cksum :: "u8 list \<Rightarrow> u16" where
  "bytes_cksum bs = ip_cksum 0 0 (of_nat (length bs)) (store_list 0 bs (\<lambda>_. 0))"

text \<open>The reply to a request of the bytes \<open>f\<close>, the last four of which are the frame check sequence, with the two checksums.\<close>

definition ping_reply :: "u16 \<Rightarrow> u16 \<Rightarrow> u8 list \<Rightarrow> u8 list" where
  "ping_reply hc pc f =
     fill16 24 hc (echo_header_bytes (take 6 (drop 6 f)) (take 6 f) (of_nat (length f) - 18) (take 2 (drop 18 f))
       (take 4 (drop 26 f)) (take 4 (drop 30 f)))
     @ fill16 2 pc ((take (length f - 38) (drop 34 f))[0 := 0])"

lemma bytes_cksum_at:
  assumes "n \<le> 131070"
  shows "bytes_cksum (bytes_at m a n) = ip_cksum 0 a (of_nat n) m"
  unfolding bytes_cksum_def length_bytes_at
proof (rule ip_cksum_bytes)
  have u: "unat (of_nat n :: u32) = n" using assms by (simp add: unat_of_nat)
  then show "unat (of_nat n :: u32) \<le> 131070" using assms by simp
  fix i assume "i < unat (of_nat n :: u32)"
  then show "store_list 0 (bytes_at m a n) (\<lambda>_. 0) (0 + of_nat i) = m (a + of_nat i)"
    using u assms by (simp add: store_list_apply unat_of_nat)
qed

lemma bytes_at_part: "k + j \<le> n \<Longrightarrow> take j (drop k (bytes_at m a n)) = bytes_at m (a + of_nat k) j"
  by (rule nth_equalityI) (simp_all add: add.assoc)

lemma ping_reply_at:
  assumes "38 \<le> unat (n :: u16)"
  shows "ping_reply hc pc (bytes_at m a (unat n)) =
    fill16 24 hc (echo_header_bytes (bytes_at m (a + 6) 6) (bytes_at m a 6) (n - 18) (bytes_at m (a + 18) 2)
      (bytes_at m (a + 26) 4) (bytes_at m (a + 30) 4)) @ fill16 2 pc ((bytes_at m (a + 34) (unat n - 38))[0 := 0])"
  using assms bytes_at_part [of 0 6 "unat n" m a] bytes_at_part [of 6 6 "unat n" m a] bytes_at_part [of 18 2 "unat n" m a]
    bytes_at_part [of 26 4 "unat n" m a] bytes_at_part [of 30 4 "unat n" m a] bytes_at_part [of 34 "unat n - 38" "unat n" m a]
  by (simp add: ping_reply_def)

section \<open>One frame\<close>

text \<open>The rings, the pool and the free memory do not overlap.\<close>

definition nic_apart :: "addr \<Rightarrow> addr \<Rightarrow> addr \<Rightarrow> addr \<Rightarrow> addr \<Rightarrow> addr list \<Rightarrow> 'a net_scheme \<Rightarrow> bool" where
  "nic_apart dev td tb rd rb bs s \<longleftrightarrow> rx_area rd rb \<inter> heap_free s = {} \<and> (\<forall>p \<in> set bs. rx_area rd rb \<inter> buf_area p = {})
     \<and> rx_area rd rb \<inter> tx_area dev td tb = {} \<and> region rd 1024 \<inter> region rb 102400 = {}"

lemma nic_apart_rx_ok:
  "nic_ok netdev dev td tb c ps fr al s \<Longrightarrow> nic_apart dev td tb rd rb (fr @ al) s \<Longrightarrow> nic_rx_ok netdev dev td tb rd rb al s"
  by (rule nic_rx_okI) (auto simp: nic_apart_def simp del: set_append in_region)

lemma nic_apart_step:
  assumes "nic_apart dev td tb rd rb bs s" "heap_free s' \<subseteq> heap_free s" "\<forall>p \<in> set bs'. p \<in> set bs \<or> buf_area p \<subseteq> heap_free s"
  shows "nic_apart dev td tb rd rb bs' s'"
proof -
  have "rx_area rd rb \<inter> buf_area p = {}" if "p \<in> set bs'" for p
    using assms(1) that bspec [OF assms(3) that] unfolding nic_apart_def by blast
  then show ?thesis using assms(1,2) unfolding nic_apart_def by blast
qed

text \<open>The reply of \<open>echo_answered\<close>, transmitted.\<close>

lemma echo_transmitted:
  assumes nic: "nic_ok netdev dev td tb c ps fr al s" and ap: "nic_apart dev td tb rd rb (fr @ al) s" and room: "length ps < 16"
    and al: "net_alloc s = Some (a, t)" "a \<noteq> 0" and j: "j < 64"
    and echo: "echo_request (cell rb 1600 j) (mem s)" "42 \<le> unat n" "unat n \<le> 1600"
  shows "\<exists>s' fr' hc pc. ether_process_frame (\<lambda>_. pcnet32_tx_packet) local buff netdev (cell rb 1600 j) n s = Some s'
    \<and> nic_ok netdev dev td tb c (ps @ [ping_reply hc pc (bytes_at (mem s) (cell rb 1600 j) (unat n))]) fr' al s'
    \<and> heap_free s' \<subseteq> heap_free s \<and> (\<forall>p \<in> set (fr' @ al). p \<in> set (fr @ al) \<or> buf_area p \<subseteq> heap_free s)
    \<and> net_devs s' = (net_devs s)[netdev := (net_devs s ! netdev)\<lparr>tx_packets := tx_packets (net_devs s ! netdev) + 1\<rparr>]
    \<and> (\<forall>x \<in> rx_kept dev rd rb. mem s' x = mem s x) \<and> net_num_devs s' = net_num_devs s
    \<and> bytes_cksum (take 20 (drop 14 (ping_reply hc pc (bytes_at (mem s) (cell rb 1600 j) (unat n))))) = 0
    \<and> bytes_cksum (drop 34 (ping_reply hc pc (bytes_at (mem s) (cell rb 1600 j) (unat n)))) = 0"
proof -
  let ?b = "cell rb 1600 j"
  have F: "region ?b (unat n) \<subseteq> rx_area rd rb" "rx_area rd rb \<inter> heap_free s = {}" "\<forall>p \<in> set fr. rx_area rd rb \<inter> region p 2000 = {}"
    using region_mono [OF echo(3), of ?b] cell_subset [of 1600 64 j rb] j ap unfolding nic_apart_def rx_area_def by auto
  have pool: "pool_ok fr al s" using nic by (simp add: nic_ok_def)
  have "\<exists>hc pc m'. ether_process_frame (\<lambda>_. pcnet32_tx_packet) local buff netdev ?b n s =
      Some (snd (pcnet32_tx_packet netdev a (n - 4) (t\<lparr>mem := m'\<rparr>)))
    \<and> m' = store_list a (ping_reply hc pc (bytes_at (mem s) ?b (unat n))) (mem t)
    \<and> ip_cksum 0 (a + 14) 20 m' = 0 \<and> ip_cksum 0 (a + 34) (ucast n - 38) m' = 0"
    using echo_answered [OF pool F echo(1,2), of "\<lambda>_. pcnet32_tx_packet" local buff netdev] echo(2,3) al
    by (simp add: ping_reply_at)
  then obtain hc pc m' where r: "ether_process_frame (\<lambda>_. pcnet32_tx_packet) local buff netdev ?b n s =
      Some (snd (pcnet32_tx_packet netdev a (n - 4) (t\<lparr>mem := m'\<rparr>)))"
    "m' = store_list a (ping_reply hc pc (bytes_at (mem s) ?b (unat n))) (mem t)"
    "ip_cksum 0 (a + 14) 20 m' = 0" "ip_cksum 0 (a + 34) (ucast n - 38) m' = 0" by blast
  define R where "R = ping_reply hc pc (bytes_at (mem s) ?b (unat n))"
  have n4: "unat (n - 4) = unat n - 4" using echo(2) by (subst unat_sub) (simp_all add: word_le_nat_alt)
  have lenR: "length R = unat n - 4" using echo(2) by (simp add: R_def ping_reply_at echo_header_bytes_def)
  obtain fr1 where t: "nic_ok netdev dev td tb c ps fr1 (a # al) t" "heap_free t \<subseteq> heap_free s" "net_devs t = net_devs s"
    "\<forall>x. x \<notin> heap_free s \<longrightarrow> mem t x = mem s x" "\<forall>p \<in> set (fr1 @ a # al). p \<in> set (fr @ al) \<or> buf_area p \<subseteq> heap_free s"
    using nic_alloc [OF nic al(1)] al(2) by auto
  let ?t = "t\<lparr>mem := m'\<rparr>"
  have out: "m' x = mem t x" if "x \<notin> buf_area a" for x
    unfolding r(2) R_def [symmetric] using that region_mono [of "length R" 2000 a] lenR echo(3) by (intro store_list_out) auto
  have "nic_ok netdev dev td tb c ps fr1 ([] @ a # al) ?t" using nic_write [OF t(1), of a m'] out by (simp del: in_region)
  note step = tx_packet_step(1) [OF this, of "n - 4"]
  have n5: "unat (n - 4) \<le> 1600" using n4 echo(3) by linarith
  obtain s' where s': "pcnet32_tx_packet netdev a (n - 4) ?t = (1, s')"
    "nic_ok netdev dev td tb c (ps @ [bytes_at m' a (unat n - 4)]) (a # fr1) al s'" "heap_free s' = heap_free ?t"
    "net_devs s' = (net_devs s)[netdev := (net_devs s ! netdev)\<lparr>tx_packets := tx_packets (net_devs s ! netdev) + 1\<rparr>]"
    "\<forall>x. x \<notin> region td 256 \<union> region tb 25600 \<union> region (dev + 62) 2 \<union> buf_area a \<longrightarrow> mem s' x = m' x"
    "net_num_devs s' = net_num_devs t"
    using step [OF n5 room] n4 t(3) by (auto simp del: in_region)
  have R: "bytes_at m' a (unat n - 4) = R" unfolding r(2) R_def [symmetric] using lenR echo(3) by simp
  have part: "bytes_at m' (a + of_nat k) i = take i (drop k R)" if "k + i \<le> unat n - 4" for k i
    using bytes_at_part [OF that, of m' a] unfolding R by simp
  have "bytes_cksum (take 20 (drop 14 R)) = 0"
    using bytes_cksum_at [of 20 m' "a + of_nat 14"] part [of 14 20] r(3) echo(2) by simp
  moreover have "bytes_cksum (drop 34 R) = 0"
  proof -
    have "(of_nat (unat n - 38) :: u32) = ucast n - 38" using echo(2) by (simp add: of_nat_diff)
    then show ?thesis using bytes_cksum_at [of "unat n - 38" m' "a + of_nat 34"] part [of 34 "unat n - 38"] r(4) echo(2,3) lenR by simp
  qed
  moreover have "mem s' x = mem s x" if x: "x \<in> rx_kept dev rd rb" for x
  proof -
    have A: "x \<in> rx_area rd rb \<union> tx_area dev td tb" using x rx_kept_area by blast
    have sep: "rx_area rd rb \<inter> tx_area dev td tb = {}" using ap by (simp add: nic_apart_def)
    have "tx_area dev td tb \<inter> heap_free s = {}" using nic by (simp add: nic_ok_def)
    then have "x \<notin> heap_free s" using A F(2) by blast
    moreover have "x \<notin> buf_area a"
      using A t(1) nic_apart_step [OF ap t(2,5)] unfolding nic_ok_def nic_apart_def by (auto simp del: in_region)
    ultimately show ?thesis using s'(5) kept_not_written [OF nic sep x] out t(4) by (simp del: in_region)
  qed
  moreover have "\<forall>p \<in> set ((a # fr1) @ al). p \<in> set (fr @ al) \<or> buf_area p \<subseteq> heap_free s" using t(5) by auto
  moreover have "heap_free s' \<subseteq> heap_free s" using s'(3) t(2) by (simp add: heap_free_def)
  moreover have "net_num_devs s' = net_num_devs s"
    using s'(6) net_alloc_num [OF _ al(1)] pool by (simp add: pool_ok_def)
  ultimately show ?thesis using r(1) s'(1,2,4) unfolding R R_def
    by (intro exI [of _ s'] exI [of _ "a # fr1"] exI [of _ hc] exI [of _ pc]) simp
qed

section \<open>The whole work of one interrupt\<close>

definition count_echo :: "nat \<Rightarrow> net_dev list \<Rightarrow> net_dev list" where
  "count_echo i dl = dl[i := (dl ! i)\<lparr>needs_work := 0, rx_packets := rx_packets (dl ! i) + 1, tx_packets := tx_packets (dl ! i) + 1\<rparr>]"

text \<open>The state in which the frame is processed, and the receive loop from there.\<close>

lemma echo_from_ring:
  assumes nic: "nic_ok netdev dev td tb c ps fr al s" and ap: "nic_apart dev td tb rd rb (fr @ al) s" and room: "length ps < 16"
    and al: "net_alloc s = Some (a, t)" "a \<noteq> 0" and drv: "rx_driver dev rd rb (mem s)"
    and ptr: "unat (rx_buffer_ptr (mem s) dev) = j" "j < 64"
    and own: "mem s (cell rd 16 j + 7) AND 0x80 = 0" "mem s (cell rd 16 (Suc j mod 64) + 7) AND 0x80 \<noteq> 0"
    and echo: "echo_request (cell rb 1600 j) (mem s)" "n = rx_mcnt (mem s) rd j" "42 \<le> unat n" "unat n \<le> 1600"
  shows "\<exists>s' fr' hc pc. pcnet32_do_irq_work e (\<lambda>_. pcnet32_tx_packet) netdev s = Some s'
    \<and> nic_ok netdev dev td tb c (ps @ [ping_reply hc pc (bytes_at (mem s) (cell rb 1600 j) (unat n))]) fr' al s'
    \<and> bytes_cksum (take 20 (drop 14 (ping_reply hc pc (bytes_at (mem s) (cell rb 1600 j) (unat n))))) = 0
    \<and> bytes_cksum (drop 34 (ping_reply hc pc (bytes_at (mem s) (cell rb 1600 j) (unat n)))) = 0
    \<and> nic_apart dev td tb rd rb (fr' @ al) s' \<and> rx_driver dev rd rb (mem s')
    \<and> unat (rx_buffer_ptr (mem s') dev) = Suc j mod 64 \<and> rx_done rd rb j 1 (mem s) (mem s') \<and> net_devs s' = count_echo netdev (net_devs s)
    \<and> net_num_devs s' = net_num_devs s"
proof -
  let ?f = "bytes_at (mem s) (cell rb 1600 j) (unat n)"
  have nd: "netdev < length (net_devs s)" "priv (net_devs s ! netdev) = dev" using nic by (simp_all add: nic_ok_def tx_driver_def)
  define dl1 where "dl1 = (net_devs s)[netdev := (net_devs s ! netdev)\<lparr>needs_work := 0\<rparr>]"
  define dl2 where "dl2 = dl1[netdev := (dl1 ! netdev)\<lparr>rx_packets := rx_packets (dl1 ! netdev) + 1\<rparr>]"
  let ?s1 = "s\<lparr>net_devs := dl1\<rparr>" and ?s2 = "s\<lparr>net_devs := dl2\<rparr>"
  have priv: "map priv dl2 = map priv (net_devs s)" "map priv dl1 = map priv (net_devs s)"
    using nd by (auto simp: dl1_def dl2_def nth_list_update intro!: nth_equalityI)
  have nic12: "nic_ok netdev dev td tb c ps fr al (s\<lparr>net_devs := dl\<rparr>)" if "map priv dl = map priv (net_devs s)" for dl
    using nic_ok_devs_upd [OF nic that, where h = "io s"] by simp
  note nic2 = nic12 [OF priv(1)]
  have ap2: "nic_apart dev td tb rd rb (fr @ al) (s\<lparr>net_devs := dl\<rparr>)" for dl
    using ap by (simp add: nic_apart_def heap_free_def del: set_append)
  have heap: "heap_ok s" using nic by (simp add: nic_ok_def pool_ok_def)
  have al2: "net_alloc ?s2 = Some (a, t\<lparr>io := io s, net_devs := dl2\<rparr>)" using net_alloc_devs_upd [OF heap, where dl = dl2 and h = "io s"] al(1) by simp
  have echo2: "echo_request (cell rb 1600 j) (mem ?s2)" using echo(1) by simp
  obtain s3 fr' hc pc where s3: "ether_process_frame (\<lambda>_. pcnet32_tx_packet) (local_byte e) (ntoa_buff e) netdev (cell rb 1600 j) n ?s2 = Some s3"
    "nic_ok netdev dev td tb c (ps @ [ping_reply hc pc ?f]) fr' al s3" "heap_free s3 \<subseteq> heap_free s"
    "\<forall>p \<in> set (fr' @ al). p \<in> set (fr @ al) \<or> buf_area p \<subseteq> heap_free s"
    "net_devs s3 = dl2[netdev := (dl2 ! netdev)\<lparr>tx_packets := tx_packets (dl2 ! netdev) + 1\<rparr>]"
    "\<forall>x \<in> rx_kept dev rd rb. mem s3 x = mem s x" "net_num_devs s3 = net_num_devs s"
    "bytes_cksum (take 20 (drop 14 (ping_reply hc pc ?f))) = 0" "bytes_cksum (drop 34 (ping_reply hc pc ?f)) = 0"
    using echo_transmitted [OF nic2 ap2 room al2 al(2) ptr(2) echo2 echo(3,4), of "local_byte e" "ntoa_buff e"]
    by (auto simp: heap_free_def simp del: in_region set_append)
  have ok1: "nic_rx_ok netdev dev td tb rd rb al ?s1" by (rule nic_apart_rx_ok [OF nic12 [OF priv(2)] ap2])
  have "upd_dev netdev (\<lambda>d. d\<lparr>rx_packets := rx_packets d + 1\<rparr>) ?s1 = ?s2" by (simp add: upd_dev_def dl2_def)
  then obtain m4 where m4: "rx_frame e (\<lambda>_. pcnet32_tx_packet) netdev dev (of_nat j) ?s1 = Some (s3\<lparr>mem := m4\<rparr>)"
    "\<forall>x. x \<notin> rx_own dev rd rb \<longrightarrow> m4 x = mem s3 x" "rx_driver dev rd rb m4" "rx_done rd rb j 1 (mem s) m4"
    using pcnet_rx.rx_frame_gives [OF ok1, of j e s3] drv ptr(2) echo(2,4) s3(1,6) by auto
  define m5 where "m5 = store16 m4 (dev + 60) (of_nat (Suc j mod 64))"
  define s' where "s' = s3\<lparr>mem := m5\<rparr>"
  have j': "Suc j mod 64 < 64" "unat (of_nat j :: u16) = j" "unat (of_nat (Suc j mod 64) :: u16) = Suc j mod 64"
    using ptr(2) by (simp_all add: unat_of_nat less_imp_le)
  note adr = entry_addresses(1) [OF j'(2)] entry_addresses(1) [OF j'(3)]
  have apart: "rx_area rd rb \<inter> tx_area dev td tb = {}" and rings: "region rd 1024 \<inter> region dev 96 = {}" "region rb 102400 \<inter> region dev 96 = {}"
    using ap unfolding nic_apart_def rx_area_def tx_area_def by blast+
  have "j \<noteq> Suc j mod 64" using ptr(2) by (cases "j = 63") simp_all
  then have next_own: "m4 (cell rd 16 (Suc j mod 64) + 7) AND 0x80 \<noteq> 0"
    using m4(4) own(2) own_in_cell [of rd "Suc j mod 64"] j'(1) ptr(2) unfolding rx_done_def rx_slot_def
    by (auto simp del: in_region dest!: spec [of _ "Suc j mod 64"])
  have run: "pcnet32_do_irq_work e (\<lambda>_. pcnet32_tx_packet) netdev s = Some s'"
  proof -
    have cnt: "unat (rx_buffer_count (mem s) dev) = 64" "unat (rx_buffer_count m4 dev) = 64" "rdes (mem s) dev = rd" "rdes m4 dev = rd"
      using drv m4(3) by (simp_all add: rx_driver_def)
    have "rx_loop e (\<lambda>_. pcnet32_tx_packet) netdev dev (Suc 0) (of_nat (Suc j mod 64)) (s3\<lparr>mem := m4\<rparr>) = Some (of_nat (Suc j mod 64), s3\<lparr>mem := m4\<rparr>)"
      using next_own cnt by (subst rx_loop.simps) (simp add: pcnet32_driverowns_def adr)
    then have "rx_loop e (\<lambda>_. pcnet32_tx_packet) netdev dev 0 (of_nat j) ?s1 = Some (of_nat (Suc j mod 64), s3\<lparr>mem := m4\<rparr>)"
      using own(1) cnt m4(1) rx_next_index [OF m4(3) ptr(2)] by (subst rx_loop.simps) (simp add: pcnet32_driverowns_def adr)
    moreover have "upd_dev netdev (\<lambda>d. d\<lparr>needs_work := 0\<rparr>) s = ?s1" by (simp add: upd_dev_def dl1_def)
    moreover have "rx_buffer_ptr (mem s) dev = of_nat j" unfolding ptr(1) [symmetric] by simp
    ultimately show ?thesis by (simp add: pcnet32_do_irq_work_def nd(2) Let_def s'_def m5_def)
  qed
  have ready: "\<forall>i < 1. rx_ready (mem s) rd rb ((j + i) mod 64)"
    using echo own(1) ptr(2) by (simp add: rx_ready_def echo_request_def)
  have fin: "rx_driver dev rd rb m5" "unat (rx_buffer_ptr m5 dev) = Suc j mod 64" "rx_done rd rb j 1 (mem s) m5"
    unfolding m5_def using rx_pointer_store [OF m4(3) j'(1) rings] m4(4) ready by blast+
  have ap3: "nic_apart dev td tb rd rb (fr' @ al) s3" by (rule nic_apart_step [OF ap s3(3,4)])
  have "nic_ok netdev dev td tb c (ps @ [ping_reply hc pc ?f]) fr' al (s3\<lparr>mem := m5, net_devs := net_devs s3\<rparr>)"
  proof (rule nic_own [OF s3(2)])
    show "m5 x = mem s3 x" if "x \<notin> rx_own dev rd rb" for x
      using that m4(2) by (auto simp: m5_def rx_own_def simp del: in_region)
  qed (use ap3 in \<open>auto simp: nic_apart_def simp del: in_region set_append\<close>)
  then have "nic_ok netdev dev td tb c (ps @ [ping_reply hc pc ?f]) fr' al s'" by (simp add: s'_def)
  moreover have "nic_apart dev td tb rd rb (fr' @ al) s'" using ap3 by (simp add: nic_apart_def s'_def heap_free_def del: set_append)
  moreover have "net_devs s' = count_echo netdev (net_devs s)" using nd(1) s3(5) by (simp add: s'_def dl2_def dl1_def count_echo_def)
  ultimately show ?thesis using run fin s3(7-9)
    by (intro exI [of _ s'] exI [of _ fr'] exI [of _ hc] exI [of _ pc]) (simp add: s'_def)
qed

section \<open>From the interrupt to the reply\<close>

text \<open>C1: A ping from end to end, on a machine with one card: an echo request of 42 to 1600 bytes lies in the receive ring, the
  next entry still belongs to the card, the transmit ring has room and there is a buffer. When the card's interrupt, with the receive or transmit bit
  set in its status, has been handled and \<^verbatim>\<open>net_process\<close> has run, exactly one packet has been added to those pending in the
  transmit ring: the reply, with the addresses swapped, the data of the request and two checksums that verify. Everything else
  is back in order: the receive entry is erased and the card's again, all buffers that were not in use before are free, no work is pending,
  and each counter has advanced by one.\<close>

theorem ping_answered:
  assumes "nic_ok 0 dev td tb c ps fr al s" "nic_apart dev td tb rd rb (fr @ al) s" "length ps < 16"
    and "net_alloc s = Some (a, t)" "a \<noteq> 0" "rx_driver dev rd rb (mem s)" "unat (rx_buffer_ptr (mem s) dev) = j" "j < 64"
    and "mem s (cell rd 16 j + 7) AND 0x80 = 0" "mem s (cell rd 16 (Suc j mod 64) + 7) AND 0x80 \<noteq> 0"
    and "echo_request (cell rb 1600 j) (mem s)" "n = rx_mcnt (mem s) rd j" "42 \<le> unat n" "unat n \<le> 1600"
    and "net_num_devs s = 1" "do_work (net_devs s ! 0) = work_code e"
    and "in32 e (io s @ [OutL (ioaddr (mem s) dev + 0x14) 0]) (ioaddr (mem s) dev + 0x10) AND 0x600 \<noteq> 0"
  shows "\<exists>s1 s' fr' hc pc. pcnet32_irq_handler e 0 s = Some s1
    \<and> net_process (\<lambda>f i. if f = work_code e then pcnet32_do_irq_work e (\<lambda>_. pcnet32_tx_packet) i else (\<lambda>_. None)) s1 = Some s'
    \<and> nic_ok 0 dev td tb c (ps @ [ping_reply hc pc (bytes_at (mem s) (cell rb 1600 j) (unat n))]) fr' al s'
    \<and> bytes_cksum (take 20 (drop 14 (ping_reply hc pc (bytes_at (mem s) (cell rb 1600 j) (unat n))))) = 0
    \<and> bytes_cksum (drop 34 (ping_reply hc pc (bytes_at (mem s) (cell rb 1600 j) (unat n)))) = 0
    \<and> nic_apart dev td tb rd rb (fr' @ al) s' \<and> rx_driver dev rd rb (mem s')
    \<and> unat (rx_buffer_ptr (mem s') dev) = Suc j mod 64 \<and> rx_done rd rb j 1 (mem s) (mem s') \<and> net_devs s' = count_echo 0 (net_devs s)"
proof -
  let ?f = "bytes_at (mem s) (cell rb 1600 j) (unat n)" and ?ioa = "ioaddr (mem s) dev"
  let ?call = "\<lambda>f i. if f = work_code e then pcnet32_do_irq_work e (\<lambda>_. pcnet32_tx_packet) i else (\<lambda>_. None)"
  have nd: "0 < length (net_devs s)" "priv (net_devs s ! 0) = dev" using assms(1) by (simp_all add: nic_ok_def tx_driver_def)
  define dl where "dl = (net_devs s)[0 := (net_devs s ! 0)\<lparr>needs_work := 1\<rparr>]"
  have priv: "map priv dl = map priv (net_devs s)" using nd(1) by (intro nth_equalityI) (auto simp: dl_def nth_list_update)
  obtain h where s1: "pcnet32_irq_handler e 0 s = Some (s\<lparr>io := h, net_devs := dl\<rparr>)"
    using assms(17) nd by (simp add: pcnet32_irq_handler_def dwio_read_csr_def dwio_write_csr_def outportl_def inportl_def Let_def upd_dev_def dl_def)
  let ?s1 = "s\<lparr>io := h, net_devs := dl\<rparr>"
  have "nic_apart dev td tb rd rb (fr @ al) ?s1" using assms(2) by (simp add: nic_apart_def heap_free_def del: set_append)
  moreover have "net_alloc ?s1 = Some (a, t\<lparr>io := h, net_devs := dl\<rparr>)"
    using net_alloc_devs_upd [where s = s and dl = dl and h = h] assms(1,4) by (simp add: nic_ok_def pool_ok_def)
  ultimately obtain s' fr' hc pc where s': "pcnet32_do_irq_work e (\<lambda>_. pcnet32_tx_packet) 0 ?s1 = Some s'"
    "nic_ok 0 dev td tb c (ps @ [ping_reply hc pc ?f]) fr' al s'"
    "bytes_cksum (take 20 (drop 14 (ping_reply hc pc ?f))) = 0" "bytes_cksum (drop 34 (ping_reply hc pc ?f)) = 0"
    "nic_apart dev td tb rd rb (fr' @ al) s'" "rx_driver dev rd rb (mem s')"
    "unat (rx_buffer_ptr (mem s') dev) = Suc j mod 64" "rx_done rd rb j 1 (mem s) (mem s')" "net_devs s' = count_echo 0 dl"
    "net_num_devs s' = 1"
    using echo_from_ring [OF nic_ok_devs_upd [OF assms(1) priv], where h1 = h and rd = rd and rb = rb and a = a
      and t = "t\<lparr>io := h, net_devs := dl\<rparr>" and j = j and n = n and e = e] assms(3,5-15)
    by auto
  have dl0: "dl ! 0 = (net_devs s ! 0)\<lparr>needs_work := 1\<rparr>" using nd by (simp add: dl_def)
  have "net_process_loop ?call 1 s' = Some s'" using s'(10) by (subst net_process_loop.simps) simp
  then have "net_process ?call ?s1 = Some s'"
    using s'(1) assms(15,16) dl0 unfolding net_process_def by (subst net_process_loop.simps) simp
  moreover have "count_echo 0 dl = count_echo 0 (net_devs s)" using nd by (simp add: count_echo_def dl_def)
  ultimately show ?thesis using s1 s'(2-9) by (intro exI [of _ ?s1] exI [of _ s'] exI [of _ fr'] exI [of _ hc] exI [of _ pc]) simp
qed

section \<open>Concrete instances\<close>

text \<open>The echo request of Frog_Icmp in the first entry of the receive ring.\<close>

definition ping_mem :: byte_mem where
  "ping_mem = store_list 0xC00E1000 sample_echo ((mem nic_boot)(0xC00E0008 := 46, 0xC00E0017 := 0x80))"

definition ping_boot :: net where
  "ping_boot = nic_boot\<lparr>mem := ping_mem, net_num_devs := 1\<rparr>"

definition ping_env :: env where
  "ping_env = \<lparr>in8 = last_write, in32 = (\<lambda>_ _. 0x400), local_byte = 1, ntoa_buff = 0, net_devs_at = 0, pcidevs_at = 0,
     irq_code = 0, work_code = 0, tx_code = 0\<rparr>"

lemma length_sample_echo: "length sample_echo = 46"
  by (simp add: sample_echo_def)

lemma ping_mem_frame: "ping_mem x = (let k = unat (x - 0xC00E1000) in if k < 46 then sample_echo ! k
    else if x = 0xC00E0008 then 46 else if x = 0xC00E0017 then 0x80 else mem nic_boot x)"
  by (simp add: ping_mem_def store_list_apply length_sample_echo Let_def)

lemma ping_mem_out: "x \<notin> rx_own 0xC0106000 0xC00E0000 0xC00E1000 \<Longrightarrow> ping_mem x = mem nic_boot x"
  using region_mono [of 46 102400 "0xC00E1000"] by (auto simp: ping_mem_frame Let_def rx_own_def)

lemma ping_boot_ok: "nic_ok 0 0xC0106000 0xC0107000 0xC0108000 0 [] [] [] ping_boot" "nic_apart 0xC0106000 0xC0107000 0xC0108000 0xC00E0000 0xC00E1000 [] ping_boot"
proof -
  show "nic_apart 0xC0106000 0xC0107000 0xC0108000 0xC00E0000 0xC00E1000 [] ping_boot"
    using rx_boot_rings by (simp add: nic_apart_def ping_boot_def heap_free_def)
  have "nic_ok 0 0xC0106000 0xC0107000 0xC0108000 0 [] [] [] (nic_boot\<lparr>mem := ping_mem, net_devs := net_devs nic_boot\<rparr>)"
    using rx_boot_rings by (intro nic_own [OF nic_boot_ok _ _ _ ping_mem_out]) simp_all
  then show "nic_ok 0 0xC0106000 0xC0107000 0xC0108000 0 [] [] [] ping_boot"
    by (simp add: ping_boot_def nic_ok_def pool_ok_def heap_ok_def heap_free_def tx_driver_def)
qed

lemma ping_boot_alloc: "\<exists>a t. net_alloc ping_boot = Some (a, t) \<and> a \<noteq> 0"
proof -
  have h: "heap_ok ping_boot" "high_mem ping_boot = 0xC0110000" "buffers ping_boot = 0"
    using ping_boot_ok(1) by (simp_all add: nic_ok_def pool_ok_def ping_boot_def nic_boot_def boot_net_simps)
  have "hdr_size ping_mem 0xC0110000 = 0xAF0000"
    by (simp add: hdr_size_def load32_def ping_mem_frame Let_def nic_boot_def store32_apply store16_apply boot_net_def init_mem_def round_up_def
      set_hdr_size_def set_hdr_next_def)
  then have "alloc (32 * 2000) 1 ping_boot = Some (alloc_front 64000 0xC0110000 ping_boot)"
    using alloc_one_block [OF h(1), of "32 * 2000"] by (simp add: h(2)) (simp add: ping_boot_def round_up_def)
  then show ?thesis using h by (simp add: net_alloc_def alloc_front_def Let_def)
qed

lemma ping_request: "echo_request 0xC00E1000 ping_mem"
proof -
  have "word_sum ping_mem 0xC00E100E 20 = 65535"
    by (simp add: word_sum_step load16_def ping_mem_frame sample_echo_def Let_def)
  then have "unat (ip_cksum 0 0xC00E100E 20 ping_mem) = 0"
    using ip_cksum_residue [of 0 ping_mem "0xC00E100E" 20] by (simp add: ones_residue_def)
  then have "ip_cksum 0 0xC00E100E 20 ping_mem = 0" by (simp add: unat_eq_zero)
  then show ?thesis unfolding echo_request_def
    by (simp add: load16_def ping_mem_frame sample_echo_def ntohs_def htons_def Let_def)
qed

text \<open>The reply of 42 bytes is pending in the transmit ring.\<close>

theorem ping_answered_witness:
  "\<exists>s1 s' fr hc pc. pcnet32_irq_handler ping_env 0 ping_boot = Some s1
    \<and> net_process (\<lambda>f i. if f = 0 then pcnet32_do_irq_work ping_env (\<lambda>_. pcnet32_tx_packet) i else (\<lambda>_. None)) s1 = Some s'
    \<and> nic_ok 0 0xC0106000 0xC0107000 0xC0108000 0 [ping_reply hc pc sample_echo] fr [] s'"
proof -
  obtain a t where al: "net_alloc ping_boot = Some (a, t)" "a \<noteq> 0" using ping_boot_alloc by blast
  have drv: "rx_driver 0xC0106000 0xC00E0000 0xC00E1000 (mem ping_boot)" "unat (rx_buffer_ptr (mem ping_boot) 0xC0106000) = 0"
    by (simp_all add: ping_boot_def rx_driver_def rdes_def rx_buffers_def rx_buffer_count_def rx_buffer_ptr_def load32_def load16_def ping_mem_frame Let_def
      nic_boot_def store32_apply store16_apply boot_net_low)
  have own: "mem ping_boot (cell 0xC00E0000 16 0 + 7) AND 0x80 = 0" "mem ping_boot (cell 0xC00E0000 16 (Suc 0 mod 64) + 7) AND 0x80 \<noteq> 0"
    and n: "rx_mcnt (mem ping_boot) 0xC00E0000 0 = 46"
    by (simp_all add: ping_boot_def cell_def rx_mcnt_def load16_def ping_mem_frame Let_def nic_boot_def store32_apply store16_apply boot_net_low)
  have echo: "echo_request (cell 0xC00E1000 1600 0) (mem ping_boot)" using ping_request by (simp add: ping_boot_def cell_def)
  have f: "bytes_at (mem ping_boot) (cell 0xC00E1000 1600 0) (unat (46 :: u16)) = sample_echo"
    by (simp add: ping_boot_def ping_mem_def cell_def length_sample_echo)
  have rest: "net_num_devs ping_boot = 1" "do_work (net_devs ping_boot ! 0) = work_code ping_env"
    "in32 ping_env (io ping_boot @ [OutL (ioaddr (mem ping_boot) 0xC0106000 + 0x14) 0]) (ioaddr (mem ping_boot) 0xC0106000 + 0x10) AND 0x600 \<noteq> 0"
    by (simp_all add: ping_boot_def nic_boot_def zero_netdev_def ping_env_def)
  have s: "length ([] :: u8 list list) < 16" "(0 :: nat) < 64" "42 \<le> unat (46 :: u16)" "unat (46 :: u16) \<le> 1600" "(0 :: addr) = work_code ping_env"
    by (simp_all add: ping_env_def)
  have ap: "nic_apart 0xC0106000 0xC0107000 0xC0108000 0xC00E0000 0xC00E1000 ([] @ []) ping_boot" using ping_boot_ok(2) by simp
  show ?thesis
    using ping_answered [OF ping_boot_ok(1) ap s(1) al drv s(2) own echo n [symmetric] s(3,4) rest] unfolding f s(5) append_Nil by blast
qed

end
