(* ===== verification/Frog_Kernel.thy ===== *)
theory Frog_Kernel
  imports Frog_Handlers Frog_Info Frog_Keyboard Frog_Pciscan
begin

text \<open>
  cmain.c, which puts the components together: the start of the kernel, the routing of interrupts to
  the drivers, and the main loop with its keyboard commands. \<^verbatim>\<open>gdt_flush\<close> (gdt.S) only loads segment
  registers, which are not part of the state. Interrupts that arrive while the main program runs are
  the subject of the keyboard and ring theories; here they arrive in the \<^verbatim>\<open>hlt\<close> of the main loop.
\<close>

section \<open>State\<close>

record kernel = pci +
  kbdq :: kbd

text \<open>What the linker, the boot loader and the processor fix: the addresses of code, static data and string literals, the
  registers that a system call finds, and the values of \<^verbatim>\<open>tsc1\<close> and \<^verbatim>\<open>tsc2\<close> (the \<^verbatim>\<open>rdtsc\<close> statement reads them and assigns
  neither).\<close>

record kenv =
  hw :: env
  str_at :: "string \<Rightarrow> addr"
  idt_at :: addr
  stub :: "nat \<Rightarrow> addr"
  msgs :: "nat \<Rightarrow> addr"
  pit_code :: addr
  kbd_code :: addr
  syscall_code :: addr    \<comment> \<open>\<^verbatim>\<open>irq48_handler\<close>\<close>
  irq48_h :: addr         \<comment> \<open>the static structure of that handler\<close>
  kernel_start_at :: addr
  kernel_end_at :: addr
  multiboot_at :: addr
  tsc :: "io_event list \<Rightarrow> u32 \<times> u32"
  int_regs :: regs

section \<open>Handlers\<close>

definition reboot :: "kenv \<Rightarrow> 'a con_scheme \<Rightarrow> 'a con_scheme option" where
  "reboot e s = map_option (\<lambda>(_, s1). outportb 0x64 0xFE s1) (printf (local_byte (hw e)) (cbytes ''Rebooting\<newline>'') [] s)"

definition irq48_handler :: "kenv \<Rightarrow> regs \<Rightarrow> 'a con_scheme \<Rightarrow> 'a con_scheme option" where
  "irq48_handler e r s = map_option snd (printf (local_byte (hw e)) (cbytes ''SYSCALL: %x%x\<newline>'') [ebx r, eax r] s)"

text \<open>The code that an interrupt handler's address stands for.\<close>

definition kernel_code :: "kenv \<Rightarrow> addr \<Rightarrow> regs \<Rightarrow> addr \<Rightarrow> kernel \<Rightarrow> kernel option" where
  "kernel_code e f r d s =
     (if f = pit_code e then Some (pit_handler s)
      else if f = kbd_code e then map_option (\<lambda>k. s\<lparr>kbdq := k\<rparr>) (kbd_handler (inportb (in8 (hw e)) 0x60 s) (kbdq s))
      else if f = irq_code (hw e) then pcnet32_irq_handler (hw e) (unat ((d - net_devs_at (hw e)) div 40)) s
      else if f = syscall_code e then irq48_handler e r s
      else None)"

definition kernel_irq :: "kenv \<Rightarrow> u32 \<Rightarrow> regs \<Rightarrow> kernel \<Rightarrow> kernel outcome option" where
  "kernel_irq e cr2 r s = irq_handler (kernel_code e) (msgs e) cr2 (local_byte (hw e)) r s"

definition work_call :: "kenv \<Rightarrow> addr \<Rightarrow> nat \<Rightarrow> kernel \<Rightarrow> kernel option" where
  "work_call e f i s = (if f = work_code (hw e) then pcnet32_do_irq_work (hw e) (\<lambda>_. pcnet32_tx_packet) i s else None)"

section \<open>Start\<close>

definition ip :: "u8 list" where
  "ip = [192, 168, 201, 77]"

definition netmask :: "u8 list" where
  "netmask = [255, 255, 255, 0]"

text \<open>The \<^verbatim>\<open>memcpy\<close> of four bytes into an \<^verbatim>\<open>in_addr\<close>.\<close>

definition in_addr_of :: "u8 list \<Rightarrow> u32" where
  "in_addr_of bs = load32 (store_list 0 bs (\<lambda>_. 0)) 0"

definition print_tsc :: "kenv \<Rightarrow> 'a con_scheme \<Rightarrow> 'a con_scheme option" where
  "print_tsc e s = map_option snd (printf (local_byte (hw e)) (cbytes ''%lu %lu %lu\<newline>'')
     [fst (tsc e (io s)), snd (tsc e (io s)), load32 (mem s) 0x46C] s)"

definition cmain_start :: "kenv \<Rightarrow> (kernel \<Rightarrow> kernel) \<Rightarrow> kernel \<Rightarrow> kernel option" where
  "cmain_start e tick s =
     Option.bind (print_tsc e (cls (disable s))) (\<lambda>s1.
     let s2 = enable (set_irqs (idt_at e) (stub e) (init_mem (kernel_end_at e) s1))
     in Option.bind (set_pit (in8 (hw e)) (pit_code e) s2) (\<lambda>s3.
     Option.bind (install_irq_handler (in8 (hw e)) (48 - 32) (irq48_h e) s3) (\<lambda>s4.
     Option.bind (init_kbd (in8 (hw e)) (kbd_code e) s4) (\<lambda>s5.
     Option.bind (pci_init (hw e) tick s5) (\<lambda>s6.
       puts (str_at e ''Done.\<newline>'') (net_ifconfig 0 (in_addr_of ip) (in_addr_of netmask) s6))))))"

section \<open>The main loop\<close>

datatype 's run = Continue 's | Finished 's

text \<open>One key. \<^verbatim>\<open>int a=1/0\<close> has no defined behaviour. The command \<^verbatim>\<open>c\<close> falls through to the default case.\<close>

definition main_default :: "u32 \<Rightarrow> kernel \<Rightarrow> kernel" where
  "main_default c s = (if c AND 0x80 = 0 then putch (ucast (c AND 0xFF)) s else s)"

definition main_key :: "kenv \<Rightarrow> u32 \<Rightarrow> kernel \<Rightarrow> kernel run option" where
  "main_key e c s =
     (let k = c AND 0x7F; b = local_byte (hw e) in
      if k = 0x72 then map_option Continue (reboot e s)
      else if k = ucast KEY_PAUSE then map_option Continue (puts (str_at e ''Pause\<newline>'') s)
      else if k = ucast KEY_PRTSC then map_option Continue (puts (str_at e ''Print Screen\<newline>'') s)
      else if k = 0x68 then map_option Finished (puts (str_at e ''Halting:'') s)
      else if k = 0x7A then Option.bind (puts (str_at e ''Divide by zero:'') s) (\<lambda>_. None)
      else if k = 0x74 then Option.bind (print_tsc e s) (\<lambda>s1. map_option (\<lambda>(_, s2). Continue s2)
        (printf b (cbytes ''%llu\<newline>'') [ucast (pit_counter s1), ucast (drop_bit 32 (pit_counter s1))] s1))
      else if k = 0x73 then Option.bind (kernel_irq e 0 ((int_regs e)\<lparr>int_no := 48, eax := 0xBEEF, ebx := 0xDEAD\<rparr>) s)
        (\<lambda>r. case r of Halted _ \<Rightarrow> None | Returned s1 \<Rightarrow> Some (Continue s1))
      else if k = 0x6D then map_option Continue (print_mem b s)
      else if k = 0x6E then map_option Continue (net_print_stats b s)
      else if k = 0x70 then map_option Continue (print_info b (kernel_start_at e) (kernel_end_at e) (multiboot_at e) s)
      else if k = 0x63 then Some (Continue (main_default c (disable s)))
      else Some (Continue (main_default c s)))"

text \<open>\<^verbatim>\<open>kbd_dequeue\<close> disables interrupts and enables them again.\<close>

partial_function (option) main_drain :: "kenv \<Rightarrow> kernel \<Rightarrow> kernel run option" where
  "main_drain e s =
     (if kbd_isempty (kbdq s) then Some (Continue s)
      else Option.bind (main_key e (fst (kbd_dequeue (kbdq s))) ((enable (disable s))\<lparr>kbdq := snd (kbd_dequeue (kbdq s))\<rparr>))
        (\<lambda>r. case r of Finished s1 \<Rightarrow> Some (Finished s1) | Continue s1 \<Rightarrow> main_drain e s1))"

definition main_round :: "kenv \<Rightarrow> kernel \<Rightarrow> kernel run option" where
  "main_round e s = Option.bind (net_process (work_call e) s) (main_drain e)"

text \<open>The loop itself: \<open>wakes\<close> lists what the interrupts do that end each \<^verbatim>\<open>hlt\<close>; with interrupts disabled none ends it, and
  there is no result, as when the list runs out.\<close>

fun main_loop :: "kenv \<Rightarrow> (kernel \<Rightarrow> kernel option) list \<Rightarrow> kernel \<Rightarrow> kernel option" where
  "main_loop e wakes s =
     Option.bind (main_round e s) (\<lambda>r. case r of Finished s1 \<Rightarrow> Some s1
       | Continue s1 \<Rightarrow> (case wakes of [] \<Rightarrow> None | w # ws \<Rightarrow>
           if iflag s1 then Option.bind (w s1) (main_loop e ws) else None))"

definition cmain :: "kenv \<Rightarrow> (kernel \<Rightarrow> kernel) \<Rightarrow> (kernel \<Rightarrow> kernel option) list \<Rightarrow> kernel \<Rightarrow> kernel option" where
  "cmain e tick wakes s = Option.bind (cmain_start e tick s) (main_loop e wakes)"

declare main_loop.simps [simp del]


section \<open>What keeps the lines in order\<close>

lemma con_more_fields:
  fixes s s' :: "'a irq_scheme"
  shows "con.more s' = con.more s \<Longrightarrow> high_mem s' = high_mem s \<and> irq_handlers s' = irq_handlers s \<and> irq.more s' = irq.more s
    \<and> iflag s' = iflag s"
  by (cases s, cases s') simp

lemma cursor_apart: "list_all cursor_event evs \<Longrightarrow> list_all pic_apart evs"
proof -
  have "cursor_event e \<Longrightarrow> pic_apart e" for e by (cases e) auto
  then show "list_all cursor_event evs \<Longrightarrow> list_all pic_apart evs" by (auto simp: list_all_iff)
qed

lemma config_apart: "list_all config_event evs \<Longrightarrow> list_all pic_apart evs"
proof -
  have "config_event e \<Longrightarrow> pic_apart e" for e by (cases e) auto
  then show "list_all config_event evs \<Longrightarrow> list_all pic_apart evs" by (auto simp: list_all_iff)
qed

lemma heap_above_video: "heap_ok s \<Longrightarrow> x \<in> heap_free s \<Longrightarrow> x \<notin> region video 4000"
  using region_absoluteD [of x video 4000] by (auto simp: heap_ok_def heap_free_def video_def word_le_nat_alt simp del: in_region)

lemma irq_ready_prints:
  assumes "pic_device pic" "irq_ready pic L s" "prints bs s s'"
  shows "irq_ready pic L s'"
proof -
  obtain evs where io: "io s' = io s @ evs" "list_all cursor_event evs" using assms(3) by (auto simp: prints_def)
  have more: "high_mem s' = high_mem s" "irq_handlers s' = irq_handlers s"
    using con_more_fields [of s' s] assms(3) by (auto simp: prints_def)
  show ?thesis
  proof (rule irq_ready_cong [OF assms(1,2) more(2) io(1) cursor_apart [OF io(2)] more(1) prints_con_ok [OF assms(3)]])
    fix x assume "x \<in> heap_free s \<or> (\<exists>n \<in> nodes L. x \<in> region n 12)"
    then have "x \<notin> region video 4000" using heap_above_video [of s x] assms(2) unfolding irq_ready_def by blast
    then show "mem s' x = mem s x" by (rule prints_mem [OF assms(3)])
  qed
qed

lemma set_irqs_more [simp]:
  "high_mem (set_irqs idt stubs s) = high_mem s" "irq.more (set_irqs idt stubs s) = irq.more s"
  "csr_x (set_irqs idt stubs s) = csr_x s" "csr_y (set_irqs idt stubs s) = csr_y s" "attrib (set_irqs idt stubs s) = attrib s"
  by (simp_all add: set_irqs_def Let_def outportb_def del: upt_Suc)

lemma start_ready:
  fixes s :: "'a irq_scheme" and stubs :: "nat \<Rightarrow> addr"
  assumes "pic_device pic" "con_ok s" "irq_handlers s = replicate 18 0" "0xC0100000 \<le> kend" "kend \<le> 0xC0BFFFF0" "unat idt + 2048 \<le> unat kend"
  defines "s2 \<equiv> enable (set_irqs idt stubs (init_mem kend s))"
  shows "irq_ready pic (\<lambda>_. []) s2" "high_mem s2 = round_up kend 16" "kend \<le> high_mem s2" "irq.more s2 = irq.more s"
    and "\<And>x. unat x < unat kend \<Longrightarrow> x \<notin> region idt 2048 \<Longrightarrow> mem s2 x = mem s x"
proof -
  let ?s1 = "init_mem kend s"
  have s1: "irq_handlers ?s1 = replicate 18 0" "high_mem ?s1 = round_up kend 16" "irq.more ?s1 = irq.more s" "con_ok ?s1"
    using assms(2,3) by (simp_all add: init_mem_def Let_def con_ok_def)
  note ok = init_mem_ok [OF assms(4,5), of s]
  show h: "high_mem s2 = round_up kend 16" "irq.more s2 = irq.more s" using s1 by (simp_all add: s2_def enable_def)
  have m: "mem s2 x = mem ?s1 x" if "x \<notin> region idt 2048" for x
    using that set_irqs_memory [of idt stubs ?s1 x] by (simp add: s2_def Let_def)
  have heap: "heap_ok s2"
  proof (rule heap_ok_cong [OF ok(1)])
    show "high_mem s2 = high_mem ?s1" by (simp add: s2_def enable_def)
    fix x assume "x \<in> heap_free ?s1"
    then have "unat kend \<le> unat x" using ok(2) by (simp add: heap_free_def word_le_nat_alt)
    then have "x \<notin> region idt 2048" using region_absoluteD [of x idt 2048] assms(6) unat_lt32 [of kend] by fastforce
    then show "mem s2 x = mem ?s1 x" by (rule m)
  qed
  moreover have "lines_ok pic s2 (\<lambda>_. [])"
    unfolding s2_def by (intro lines_ok_iflag set_irqs_lines_ok [OF assms(1) s1(1)])
  moreover have "con_ok s2" using s1(4) by (simp add: s2_def con_ok_def enable_def)
  ultimately show "irq_ready pic (\<lambda>_. []) s2" by (simp add: irq_ready_def nodes_def)
  show "kend \<le> high_mem s2" using ok(2) s1(2) h by simp
  fix x assume x: "unat x < unat kend" "x \<notin> region idt 2048"
  have "kend \<le> high_mem ?s1" by (rule ok(2))
  have "unat (high_mem ?s1) + 16 \<le> 0xC0C00000" using ok(1) by (auto simp: heap_ok_def word_le_nat_alt)
  then have "x \<notin> region (high_mem ?s1) 8"
    using region_absoluteD [of x "high_mem ?s1" 8] x(1) \<open>kend \<le> high_mem ?s1\<close> by (fastforce simp: word_le_nat_alt)
  then show "mem s2 x = mem s x" using m [OF x(2)] s1(2) by (simp add: init_mem_def Let_def del: in_region)
qed

section \<open>The numbers of a time stamp\<close>

definition lu :: "u32 \<Rightarrow> u8 list" where
  "lu v = ntoa_chars v False 10 0 0 0x100"

definition tsc_line :: "kenv \<Rightarrow> 'a con_scheme \<Rightarrow> u8 list" where
  "tsc_line e s = lu (fst (tsc e (io s))) @ chars '' '' @ lu (snd (tsc e (io s))) @ chars '' '' @ lu (load32 (mem s) 0x46C) @ [10]"

lemma render_lu: "render safe m (cbytes ''%lu %lu %lu\<newline>'') [x, y, z] = Some (lu x @ chars '' '' @ lu y @ chars '' '' @ lu z @ [10])"
  by (simp add: render_defs lu_def)

lemma print_tsc_text:
  assumes "con_ok s" "local_byte (hw e) \<noteq> 0"
  shows "\<exists>s'. print_tsc e s = Some s' \<and> prints (tsc_line e s) s s'"
proof -
  have "0 \<notin> set (tsc_line e s)" by (simp add: tsc_line_def lu_def ntoa_chars_no_nul) (simp add: chars_def)
  then show ?thesis using printf_row [OF assms render_lu] unfolding tsc_line_def print_tsc_def by (metis option.map(2) snd_conv)
qed


section \<open>The three handlers of the start\<close>

text \<open>The lines after the start: the timer's handler at \<open>t\<close>, the keyboard's at \<open>k\<close>, the system call's at \<open>c\<close>.\<close>

definition boot_lines :: "addr \<Rightarrow> addr \<Rightarrow> addr \<Rightarrow> lines" where
  "boot_lines t k c = (\<lambda>_. [])(0 := [t], 16 := [c], 1 := [k])"

lemma nodes_boot_lines: "nodes (boot_lines t k c) = {t, k, c}"
proof -
  have "nodes ((\<lambda>_. []) :: lines) = {}" by (simp add: nodes_def)
  then have "nodes ((\<lambda>_. [])(0 := [t])) = {t}" using nodes_insert [of 0 "\<lambda>_. []" t] by simp
  then have "nodes ((\<lambda>_. [])(0 := [t], 16 := [c])) = {t, c}" using nodes_insert [of 16 "(\<lambda>_. [])(0 := [t])" c] by (simp add: insert_commute)
  then show ?thesis using nodes_insert [of 1 "(\<lambda>_. [])(0 := [t], 16 := [c])" k] by (simp add: boot_lines_def insert_commute)
qed

lemma irq_readyD:
  assumes "irq_ready pic L s"
  shows "lines_ok pic s L" "heap_ok s" "con_ok s" "n \<in> nodes L \<Longrightarrow> region n 12 \<inter> heap_free s = {}"
    "n \<in> nodes L \<Longrightarrow> region n 12 \<inter> region video 4000 = {}"
  using assms by (simp_all add: irq_ready_def)

lemma below_heap: "kend \<le> high_mem s \<Longrightarrow> unat p + n \<le> unat kend \<Longrightarrow> region p n \<inter> heap_free s = {}"
  using region_absoluteD [of _ p n] unat_lt32 [of kend] by (fastforce simp: heap_free_def word_le_nat_alt simp del: in_region)

lemma boot_handlers:
  assumes "pic_device pic" "irq_ready pic (\<lambda>_. []) s" "unat (high_mem s) + 32 < 0xC0C00000" "kend \<le> high_mem s"
    and "c \<noteq> 0" "unat c + 12 \<le> unat kend" "region c 12 \<inter> region video 4000 = {}"
  shows "\<exists>s3 s4 s5. set_pit pic pcode s = Some s3 \<and> install_irq_handler pic 16 c s3 = Some s4 \<and> init_kbd pic kcode s4 = Some s5
    \<and> irq_ready pic (boot_lines (high_mem s) (high_mem s + 16) c) s5
    \<and> h_handler (mem s5) (high_mem s) = pcode \<and> h_handler (mem s5) (high_mem s + 16) = kcode
    \<and> h_handler (mem s5) c = h_handler (mem s) c
    \<and> (\<forall>x. x \<notin> heap_free s \<longrightarrow> x \<notin> region c 12 \<longrightarrow> mem s5 x = mem s x)
    \<and> irq.more s5 = irq.more s \<and> csr_x s5 = csr_x s \<and> csr_y s5 = csr_y s \<and> attrib s5 = attrib s \<and> iflag s5 \<and> high_mem s5 = high_mem s + 32"
proof -
  define h where "h = high_mem s"
  have h: "unat h + 32 < 0xC0C00000" "unat (h + 16) = unat h + 16" "unat kend \<le> unat h"
    using assms(3,4) by (simp_all add: h_def word_le_nat_alt unat_word_ariths)
  have apart: "region h 12 \<inter> region c 12 = {}"
    using h assms(6) by (subst Int_commute, intro region_disjoint_abs) simp_all
  obtain s3 h3 where s3: "set_pit pic pcode s = Some s3" "irq_ready pic ((\<lambda>_. [])(0 := [h])) s3" "h_handler (mem s3) h = pcode"
    "\<forall>x. x \<notin> heap_free s \<longrightarrow> mem s3 x = mem s x"
    "s3 = s\<lparr>mem := mem s3, io := h3, high_mem := h + 16, irq_handlers := (irq_handlers s)[0 := h], iflag := True\<rparr>"
    using set_pit_ready [OF assms(1,2), of pcode] h(1) unfolding h_def by fastforce
  have hm3: "high_mem s3 = h + 16" by (subst s3(5)) simp
  then have "heap_free s3 \<subseteq> heap_free s" using h(2) by (auto simp: heap_free_def h_def word_le_nat_alt)
  note hm3 = hm3 this
  have n3: "nodes ((\<lambda>_. [])(0 := [h])) = {h}" using nodes_insert [of 0 "\<lambda>_. []" h] by (simp add: nodes_def)
  have cfree: "region c 12 \<inter> heap_free s = {}" by (rule below_heap [OF assms(4,6)])
  have "region c 12 \<inter> heap_free s3 = {}" using cfree hm3(2) by blast
  then obtain s4 h4 where s4: "install_irq_handler pic 16 c s3 = Some s4" "irq_ready pic ((\<lambda>_. [])(0 := [h], 16 := [c])) s4"
    "s4 = s3\<lparr>mem := set_h_next c (irq_handlers s3 ! 16) (mem s3), io := h4, irq_handlers := (irq_handlers s3)[16 := c], iflag := True\<rparr>"
    using irq_ready_install [OF assms(1) s3(2), of 16 c] assms(5,7) apart by (auto simp: n3 simp del: in_region)
  have hm4: "high_mem s4 = h + 16" using hm3(1) by (subst s4(3)) simp
  have m4: "mem s4 x = mem s3 x" if "x \<notin> next_field c" for x using that by (subst s4(3)) (simp add: set_h_next_def del: in_region)
  have "unat (high_mem s4) + 16 < 0xC0C00000" using hm4 h by simp
  from init_kbd_ready [OF assms(1) s4(2) this, of kcode] obtain s5 h5 where s5: "init_kbd pic kcode s4 = Some s5"
    "irq_ready pic (boot_lines h (h + 16) c) s5" "h_handler (mem s5) (h + 16) = kcode" "\<forall>x. x \<notin> heap_free s4 \<longrightarrow> mem s5 x = mem s4 x"
    "s5 = s4\<lparr>mem := mem s5, io := h5, high_mem := h + 16 + 16, irq_handlers := (irq_handlers s4)[1 := h + 16], iflag := True\<rparr>"
    unfolding hm4 by (auto simp: boot_lines_def)
  have hf4: "heap_free s4 = heap_free s3" by (simp add: heap_free_def hm4 hm3)
  have nodes4: "h \<in> nodes ((\<lambda>_. [])(0 := [h], 16 := [c]))" "c \<in> nodes ((\<lambda>_. [])(0 := [h], 16 := [c]))"
    using nodes_insert [of 16 "(\<lambda>_. [])(0 := [h])" c] n3 by simp_all
  have keep5: "mem s5 x = mem s4 x" if "x \<in> region n 12" "n \<in> {h, c}" for x n
    using that s5(4) irq_readyD(4) [OF s4(2), of n] nodes4 by blast
  have "h_handler (mem s5) h = h_handler (mem s4) h" "h_handler (mem s5) c = h_handler (mem s4) c"
    using handler_fields_cong [of h "mem s5" "mem s4"] handler_fields_cong [of c "mem s5" "mem s4"] keep5 by blast+
  moreover have "h_handler (mem s4) h = h_handler (mem s3) h"
  proof -
    have "mem s4 x = mem s3 x" if "x \<in> region h 12" for x
      using that apart next_field_sub [of c] by (intro m4) blast
    then show ?thesis using handler_fields_cong [of h "mem s4" "mem s3"] by blast
  qed
  moreover have "h_handler (mem s4) c = h_handler (mem s) c"
  proof -
    have "load32 (mem s4) c = load32 (mem s3) c"
    proof (rule load32_cong)
      fix x assume "x \<in> region c 4"
      then show "mem s4 x = mem s3 x" using region_shift [of 8 4 x c] by (intro m4) auto
    qed
    also have "\<dots> = load32 (mem s) c"
    proof (rule load32_cong)
      fix x assume "x \<in> region c 4"
      then have "x \<in> region c 12" by simp
      then show "mem s3 x = mem s x" using cfree s3(4) by blast
    qed
    finally show ?thesis by (simp add: h_handler_def)
  qed
  moreover have "mem s5 x = mem s x" if "x \<notin> heap_free s" "x \<notin> region c 12" for x
  proof -
    have "x \<notin> heap_free s4" "x \<notin> next_field c" using that hm3(2) hf4 next_field_sub [of c] by blast+
    then show ?thesis using s5(4) m4 s3(4) that(1) by simp
  qed
  moreover have "irq.more s5 = irq.more s \<and> csr_x s5 = csr_x s \<and> csr_y s5 = csr_y s \<and> attrib s5 = attrib s \<and> iflag s5"
    using arg_cong [OF s5(5), of irq.more] arg_cong [OF s5(5), of csr_x] arg_cong [OF s5(5), of csr_y] arg_cong [OF s5(5), of attrib]
      arg_cong [OF s5(5), of iflag] arg_cong [OF s3(5), of irq.more] arg_cong [OF s3(5), of csr_x] arg_cong [OF s3(5), of csr_y]
      arg_cong [OF s3(5), of attrib] s4(3) by simp
  moreover have "high_mem s5 = h + 32" using arg_cong [OF s5(5), of high_mem] by simp
  ultimately show ?thesis using s3(1,3) s4(1) s5(1,2,3) unfolding h_def [symmetric] by auto
qed


section \<open>The start\<close>

text \<open>What the loader and the linker provide: static data below the end of the kernel image and apart from each other, a machine
  whose bus has no network card, and the state before the first statement.\<close>

definition static_at :: "kenv \<Rightarrow> addr \<Rightarrow> nat \<Rightarrow> bool" where
  "static_at e p n \<longleftrightarrow> unat p + n \<le> unat (kernel_end_at e) \<and> region p n \<inter> region video 4000 = {} \<and> region p n \<inter> region (idt_at e) 2048 = {}"

definition boot_ok :: "kenv \<Rightarrow> config_space \<Rightarrow> kernel \<Rightarrow> bool" where
  "boot_ok e space s \<longleftrightarrow> pic_device (in8 (hw e)) \<and> local_byte (hw e) \<noteq> 0
     \<and> 0xC0100000 \<le> kernel_end_at e \<and> kernel_end_at e \<le> 0xC0BFFF00
     \<and> unat (idt_at e) + 2048 \<le> unat (kernel_end_at e) \<and> region (idt_at e) 2048 \<inter> region video 4000 = {}
     \<and> irq48_h e \<noteq> 0 \<and> static_at e (irq48_h e) 12 \<and> h_handler (mem s) (irq48_h e) = syscall_code e
     \<and> static_at e (str_at e ''Done.\<newline>'') 7 \<and> cstr (mem s) (str_at e ''Done.\<newline>'') (chars ''Done.\<newline>'')
     \<and> region (str_at e ''Done.\<newline>'') 7 \<inter> region (irq48_h e) 12 = {}
     \<and> pci_host space (in32 (hw e)) \<and> pci_quiet space \<and> \<not> pci_multi space 0 0 \<and> length (pci_tree space 0) \<le> 20
     \<and> irq_handlers s = replicate 18 0 \<and> length (pcidevs s) = 20 \<and> numdevs s = 0 \<and> net_num_devs s = 0"

text \<open>The lines hold the timer at \<open>t\<close>, the keyboard at \<open>k\<close> and the system call.\<close>

definition kernel_ready :: "kenv \<Rightarrow> addr \<Rightarrow> addr \<Rightarrow> kernel \<Rightarrow> bool" where
  "kernel_ready e t k s \<longleftrightarrow> irq_ready (in8 (hw e)) (boot_lines t k (irq48_h e)) s
     \<and> h_handler (mem s) t = pit_code e \<and> h_handler (mem s) k = kbd_code e \<and> h_handler (mem s) (irq48_h e) = syscall_code e"

lemma irq_more_fields:
  fixes s s' :: kernel
  shows "irq.more s' = irq.more s \<Longrightarrow> pit_counter s' = pit_counter s \<and> net_devs s' = net_devs s \<and> net_num_devs s' = net_num_devs s
    \<and> buffers s' = buffers s \<and> pcidevs s' = pcidevs s \<and> numdevs s' = numdevs s \<and> kbdq s' = kbdq s"
  by (cases s, cases s') simp

lemma con_more_irq_more:
  fixes s s' :: "'a irq_scheme"
  shows "con.more s' = con.more s \<Longrightarrow> irq.more s' = irq.more s"
  by (cases s, cases s') simp

lemma con_abs_cong:
  "csr_x s' = csr_x s \<Longrightarrow> csr_y s' = csr_y s \<Longrightarrow> (\<And>x. x \<in> region video 4000 \<Longrightarrow> mem s' x = mem s x) \<Longrightarrow> con_abs s' = con_abs s"
proof -
  assume a: "csr_x s' = csr_x s" "csr_y s' = csr_y s" "\<And>x. x \<in> region video 4000 \<Longrightarrow> mem s' x = mem s x"
  have "load16 (mem s') (video + 2 * of_nat i) = load16 (mem s) (video + 2 * of_nat i)" if "i < 2000" for i
  proof (rule load16_cong)
    fix x assume "x \<in> region (video + 2 * of_nat i) 2"
    then show "mem s' x = mem s x"
      using that region_shift [of "2 * of_nat i" 2 x video] unat_cell_offset [OF that] by (intro a(3)) simp
  qed
  then show ?thesis using a(1,2) by (simp add: con_abs_def cells_def)
qed

lemma handler_ready_cong:
  assumes "kernel_ready e t k s" "irq_ready (in8 (hw e)) (boot_lines t k (irq48_h e)) s'"
    "\<And>x n. n \<in> {t, k, irq48_h e} \<Longrightarrow> x \<in> region n 12 \<Longrightarrow> mem s' x = mem s x"
  shows "kernel_ready e t k s'"
proof -
  have "h_handler (mem s') n = h_handler (mem s) n" if "n \<in> {t, k, irq48_h e}" for n
    using handler_fields_cong [of n "mem s'" "mem s"] assms(3) [OF that] by blast
  then show ?thesis using assms(1,2) by (simp add: kernel_ready_def)
qed

lemma kernel_ready_prints:
  assumes "pic_device (in8 (hw e))" "kernel_ready e t k s" "prints bs s s'"
  shows "kernel_ready e t k s'"
proof (rule handler_ready_cong [OF assms(2)])
  have r: "irq_ready (in8 (hw e)) (boot_lines t k (irq48_h e)) s" using assms(2) by (simp add: kernel_ready_def)
  show "irq_ready (in8 (hw e)) (boot_lines t k (irq48_h e)) s'" by (rule irq_ready_prints [OF assms(1) r assms(3)])
  fix x n assume "n \<in> {t, k, irq48_h e}" "x \<in> region n 12"
  then have "x \<notin> region video 4000" using irq_readyD(5) [OF r, of n] by (auto simp: nodes_boot_lines simp del: in_region)
  then show "mem s' x = mem s x" by (rule prints_mem [OF assms(3)])
qed

lemma boot_okD:
  assumes "boot_ok e space s"
  shows "pic_device (in8 (hw e))" "local_byte (hw e) \<noteq> 0" "0xC0100000 \<le> kernel_end_at e" "kernel_end_at e \<le> 0xC0BFFF00"
    "unat (idt_at e) + 2048 \<le> unat (kernel_end_at e)" "region (idt_at e) 2048 \<inter> region video 4000 = {}"
    "irq48_h e \<noteq> 0" "static_at e (irq48_h e) 12" "h_handler (mem s) (irq48_h e) = syscall_code e"
    "static_at e (str_at e ''Done.\<newline>'') 7" "cstr (mem s) (str_at e ''Done.\<newline>'') (chars ''Done.\<newline>'')"
    "region (str_at e ''Done.\<newline>'') 7 \<inter> region (irq48_h e) 12 = {}"
    "pci_host space (in32 (hw e))" "pci_quiet space" "\<not> pci_multi space 0 0" "length (pci_tree space 0) \<le> 20"
    "irq_handlers s = replicate 18 0" "length (pcidevs s) = 20" "numdevs s = 0" "net_num_devs s = 0"
  using assms by (simp_all add: boot_ok_def)

lemma heap_start:
  assumes "boot_ok e space s"
  shows "unat (round_up (kernel_end_at e) 16) + 48 < 0xC0C00000"
proof -
  have e: "unat (round_up (kernel_end_at e) 16) = (unat (kernel_end_at e) + 15) div 16 * 16"
    using boot_okD(4) [OF assms] by (intro round_up_16_request(1)) (simp add: word_le_nat_alt)
  have "unat (kernel_end_at e) + 15 \<le> 0xC0BFFF0F" using boot_okD(4) [OF assms] by (simp add: word_le_nat_alt)
  then show ?thesis unfolding e by linarith
qed

text \<open>The console, the heap and the descriptor table.\<close>

lemma boot_console:
  assumes "boot_ok e space s"
  obtains s1 s2 where "print_tsc e (cls (disable s)) = Some s1" "s2 = enable (set_irqs (idt_at e) (stub e) (init_mem (kernel_end_at e) s1))"
    "irq_ready (in8 (hw e)) (\<lambda>_. []) s2" "high_mem s2 = round_up (kernel_end_at e) 16" "kernel_end_at e \<le> high_mem s2"
    "irq.more s2 = irq.more s" "attrib s2 = attrib s"
    "con_abs s2 = fold (con_putch (attrib s)) (tsc_line e (cls (disable s))) (con_abs (cls (disable s)))"
    "\<forall>x p n. x \<in> region p n \<longrightarrow> static_at e p n \<longrightarrow> mem s2 x = mem s x"
proof -
  note ok = boot_okD [OF assms]
  let ?s0 = "cls (disable s)"
  note s0 = cls_frame [of "disable s"]
  obtain s1 where s1: "print_tsc e ?s0 = Some s1" "prints (tsc_line e ?s0) ?s0 s1" using print_tsc_text [OF _ ok(2)] s0 by blast
  have con1: "con.more s1 = con.more ?s0" "con.more ?s0 = con.more (disable s)" using s1(2) s0 by (simp_all add: prints_def)
  have "irq_handlers s1 = irq_handlers (disable s)" using con_more_fields [of s1 ?s0] con_more_fields [of ?s0 "disable s"] con1 by simp
  then have h1: "irq_handlers s1 = replicate 18 0" using ok(17) by simp
  have "irq.more s1 = irq.more (disable s)" using con_more_irq_more [of s1 ?s0] con_more_irq_more [of ?s0 "disable s"] con1 by simp
  then have more1: "irq.more s1 = irq.more s" by (simp add: disable_def)
  have a1: "attrib s1 = attrib s" using s1(2) s0 by (simp add: prints_def disable_def)
  have mem1: "mem s1 x = mem s x" if "x \<notin> region video 4000" for x
    using that prints_mem [OF s1(2)] s0 by (simp add: disable_def del: in_region)
  define s2 where "s2 = enable (set_irqs (idt_at e) (stub e) (init_mem (kernel_end_at e) s1))"
  have k: "kernel_end_at e \<le> 0xC0BFFFF0" using ok(4) by (rule order_trans) simp
  note s2 = start_ready [OF ok(1) prints_con_ok [OF s1(2)] h1 ok(3) k ok(5), where stubs = "stub e", folded s2_def]
  have c2: "csr_x s2 = csr_x s1" "csr_y s2 = csr_y s1" "attrib s2 = attrib s1" by (simp_all add: s2_def enable_def init_mem_def Let_def)
  have "con_abs s2 = con_abs s1"
  proof (rule con_abs_cong [OF c2(1,2)])
    fix x assume x: "x \<in> region video 4000"
    then have "unat x < unat (kernel_end_at e)" using region_absoluteD [OF x] ok(3) by (simp add: video_def word_le_nat_alt)
    then show "mem s2 x = mem s1 x" using s2(5) [of x] x ok(6) by blast
  qed
  then have "con_abs s2 = fold (con_putch (attrib s)) (tsc_line e ?s0) (con_abs ?s0)"
    using s1(2) s0 by (simp add: prints_def disable_def)
  moreover have "mem s2 x = mem s x" if x: "x \<in> region p n" "static_at e p n" for x p n
  proof -
    have "x \<notin> region (idt_at e) 2048" "x \<notin> region video 4000" using x by (auto simp: static_at_def simp del: in_region)
    moreover have "unat x < unat (kernel_end_at e)"
      using region_absoluteD [OF x(1)] x(2) unat_lt32 [of "kernel_end_at e"] by (simp add: static_at_def)
    ultimately show ?thesis using s2(5) mem1 by simp
  qed
  ultimately show ?thesis using that [OF s1(1) s2_def s2(1-3)] s2(4) more1 c2(3) a1 by simp
qed

text \<open>The bus, the network address and the last message.\<close>

lemma boot_bus:
  assumes "boot_ok e space s" "kernel_ready e t k s5" "irq.more s5 = irq.more s"
    and "\<And>x. x \<in> region (str_at e ''Done.\<newline>'') 7 \<Longrightarrow> mem s5 x = mem s x"
  obtains s6 s7 where "pci_init (hw e) tick s5 = Some s6" "\<forall>a b. net_ifconfig 0 a b s6 = s6" "puts (str_at e ''Done.\<newline>'') s6 = Some s7"
    "kernel_ready e t k s7" "high_mem s7 = high_mem s5" "iflag s7 = iflag s5" "kbdq s7 = kbdq s" "pit_counter s7 = pit_counter s"
    "net_num_devs s7 = 0" "attrib s7 = attrib s5" "take (unat (numdevs s7)) (pcidevs s7) = pci_tree space 0"
    "con_abs s7 = fold (con_putch (attrib s5)) (chars ''Done.\<newline>'') (con_abs s5)"
proof -
  note ok = boot_okD [OF assms(1)]
  let ?done = "str_at e ''Done.\<newline>''" and ?L = "boot_lines t k (irq48_h e)"
  note f5 = irq_more_fields [OF assms(3)]
  have r5: "irq_ready (in8 (hw e)) ?L s5" using assms(2) by (simp add: kernel_ready_def)
  obtain s6 where s6: "pci_init (hw e) tick s5 = Some s6" "scanned s5 (pci_tree space 0) s6"
    using pci_init_scan [OF ok(13-15), of s5 tick] ok(16,18,19) f5 by auto
  then obtain hs P n where eq6: "s6 = s5\<lparr>io := io s5 @ hs, pcidevs := P, numdevs := n\<rparr>" "list_all config_event hs"
    by (auto simp: scanned_def pci_only_def)
  have r6: "irq_ready (in8 (hw e)) ?L s6"
    by (rule irq_ready_cong [OF ok(1) r5, of s6 hs]) (use irq_readyD(3) [OF r5] config_apart [OF eq6(2)] in \<open>simp_all add: eq6(1) con_ok_def\<close>)
  have ready6: "kernel_ready e t k s6" by (rule handler_ready_cong [OF assms(2) r6]) (simp add: eq6(1))
  have ifc: "\<forall>a b. net_ifconfig 0 a b s6 = s6" using f5 ok(20) by (simp add: net_ifconfig_def eq6(1))
  have len: "length (chars ''Done.\<newline>'') = 6" by (simp add: chars_def)
  have at: "?done + of_nat i \<in> region ?done 7" if "i \<le> 6" for i using that by (simp add: unat_of_nat)
  then have "cstr (mem s6) ?done (chars ''Done.\<newline>'')"
    using ok(11) assms(4) cstr_cong [of "chars ''Done.\<newline>''" "mem s6" ?done "mem s"] unfolding len by (simp add: eq6(1) del: in_region)
  moreover have "\<forall>k \<le> length (chars ''Done.\<newline>''). ?done + of_nat k \<notin> region video 4000"
    using ok(10) at unfolding len static_at_def by blast
  ultimately obtain s7 where s7: "puts ?done s6 = Some s7" "prints (chars ''Done.\<newline>'') s6 s7"
    using puts_text [OF irq_readyD(3) [OF r6], of ?done "chars ''Done.\<newline>''"] len by auto
  have more7: "con.more s7 = con.more s6" using s7(2) by (simp add: prints_def)
  note f7 = con_more_fields [OF more7] irq_more_fields [OF con_more_irq_more [OF more7]]
  have "con_abs s6 = con_abs s5" by (rule con_abs_cong) (simp_all add: eq6(1))
  then have "con_abs s7 = fold (con_putch (attrib s5)) (chars ''Done.\<newline>'') (con_abs s5)" "attrib s7 = attrib s5"
    using s7(2) by (simp_all add: prints_def eq6(1))
  moreover have "take (unat (numdevs s7)) (pcidevs s7) = pci_tree space 0" using s6(2) f7 by (auto simp: scanned_def unat_of_nat)
  ultimately show ?thesis using that [OF s6(1) ifc s7(1) kernel_ready_prints [OF ok(1) ready6 s7(2)]] f5 f7 ok(20) by (simp add: eq6(1))
qed

lemma cmain_start_boots:
  assumes "boot_ok e space s"
  shows "\<exists>s'. cmain_start e tick s = Some s' \<and>
    kernel_ready e (round_up (kernel_end_at e) 16) (round_up (kernel_end_at e) 16 + 16) s'
    \<and> (\<forall>i < 16. masked (in8 (hw e)) s' i \<longleftrightarrow> i \<notin> {0, 1, 2}) \<and> iflag s' \<and> kbdq s' = kbdq s \<and> pit_counter s' = pit_counter s \<and> net_num_devs s' = 0 \<and> attrib s' = attrib s
    \<and> take (unat (numdevs s')) (pcidevs s') = pci_tree space 0 \<and> high_mem s' = round_up (kernel_end_at e) 16 + 32
    \<and> con_abs s' = fold (con_putch (attrib s)) (tsc_line e (cls (disable s)) @ chars ''Done.\<newline>'') (con_abs (cls (disable s)))"
proof -
  note ok = boot_okD [OF assms]
  let ?pic = "in8 (hw e)" and ?h = "round_up (kernel_end_at e) 16" and ?done = "str_at e ''Done.\<newline>''"
  obtain s1 s2 where s2: "print_tsc e (cls (disable s)) = Some s1" "s2 = enable (set_irqs (idt_at e) (stub e) (init_mem (kernel_end_at e) s1))"
    "irq_ready ?pic (\<lambda>_. []) s2" "high_mem s2 = ?h" "kernel_end_at e \<le> high_mem s2" "irq.more s2 = irq.more s" "attrib s2 = attrib s"
    "con_abs s2 = fold (con_putch (attrib s)) (tsc_line e (cls (disable s))) (con_abs (cls (disable s)))"
    and mem2a: "\<forall>x p n. x \<in> region p n \<longrightarrow> static_at e p n \<longrightarrow> mem s2 x = mem s x"
    by (rule boot_console [OF assms])
  have mem2: "mem s2 x = mem s x" if "x \<in> region p n" "static_at e p n" for x p n using mem2a that by blast
  have room: "unat (high_mem s2) + 32 < 0xC0C00000" using heap_start [OF assms] s2(4) by simp
  have c12: "unat (irq48_h e) + 12 \<le> unat (kernel_end_at e)" "region (irq48_h e) 12 \<inter> region video 4000 = {}"
    using ok(8) by (simp_all add: static_at_def)
  obtain s3 s4 s5 where s5: "set_pit ?pic (pit_code e) s2 = Some s3" "install_irq_handler ?pic 16 (irq48_h e) s3 = Some s4"
    "init_kbd ?pic (kbd_code e) s4 = Some s5" "irq_ready ?pic (boot_lines ?h (?h + 16) (irq48_h e)) s5"
    "h_handler (mem s5) ?h = pit_code e" "h_handler (mem s5) (?h + 16) = kbd_code e"
    "h_handler (mem s5) (irq48_h e) = h_handler (mem s2) (irq48_h e)"
    "\<forall>x. x \<notin> heap_free s2 \<longrightarrow> x \<notin> region (irq48_h e) 12 \<longrightarrow> mem s5 x = mem s2 x"
    "irq.more s5 = irq.more s2" "csr_x s5 = csr_x s2" "csr_y s5 = csr_y s2" "attrib s5 = attrib s2" "iflag s5" "high_mem s5 = ?h + 32"
    using boot_handlers [OF ok(1) s2(3) room s2(5) ok(7) c12, of "pit_code e" "kbd_code e", unfolded s2(4)]
    by (elim exE conjE) (rule that; assumption)
  have more5: "irq.more s5 = irq.more s" using s5(9) s2(6) by simp
  have "h_handler (mem s2) (irq48_h e) = h_handler (mem s) (irq48_h e)"
    using handler_fields_cong [of "irq48_h e" "mem s2" "mem s"] mem2 [OF _ ok(8)] by blast
  then have ready5: "kernel_ready e ?h (?h + 16) s5" using s5(4-7) ok(9) by (simp add: kernel_ready_def)
  have done5: "mem s5 x = mem s x" if x: "x \<in> region ?done 7" for x
  proof -
    have "unat ?done + 7 \<le> unat (kernel_end_at e)" using ok(10) by (simp add: static_at_def)
    then have "x \<notin> heap_free s2" using below_heap [OF s2(5), of ?done 7] x by blast
    moreover have "x \<notin> region (irq48_h e) 12" using ok(12) x by blast
    ultimately show ?thesis using s5(8) mem2 [OF x ok(10)] by simp
  qed
  have con5: "con_abs s5 = con_abs s2"
  proof (rule con_abs_cong [OF s5(10,11)])
    fix x assume x: "x \<in> region video 4000"
    then have "x \<notin> heap_free s2" "x \<notin> region (irq48_h e) 12" using heap_above_video [OF irq_readyD(2) [OF s2(3)]] c12(2) by blast+
    then show "mem s5 x = mem s2 x" using s5(8) by blast
  qed
  obtain s6 s7 where s7: "pci_init (hw e) tick s5 = Some s6" "\<forall>a b. net_ifconfig 0 a b s6 = s6" "puts ?done s6 = Some s7"
    "kernel_ready e ?h (?h + 16) s7" "high_mem s7 = high_mem s5" "iflag s7 = iflag s5" "kbdq s7 = kbdq s" "pit_counter s7 = pit_counter s"
    "net_num_devs s7 = 0" "attrib s7 = attrib s5" "take (unat (numdevs s7)) (pcidevs s7) = pci_tree space 0" "con_abs s7 = fold (con_putch (attrib s5)) (chars ''Done.\<newline>'') (con_abs s5)"
    by (rule boot_bus [OF assms ready5 more5 done5])
  have "cmain_start e tick s = Some s7"
    using s2(1) s5(1-3) s7(1,3) by (simp add: cmain_start_def s2(2) [symmetric] s7(2) Let_def)
  moreover have "\<forall>i < 16. masked ?pic s7 i \<longleftrightarrow> i \<notin> {0, 1, 2}"
    using lines_okD(7) [OF irq_readyD(1), of ?pic "boot_lines ?h (?h + 16) (irq48_h e)" s7] s7(4) by (auto simp: kernel_ready_def boot_lines_def)
  ultimately show ?thesis using s7(4-12) s5(12-14) s2(7,8) con5 by simp
qed

text \<open>C2: On a machine without a network card \<^verbatim>\<open>cmain\<close> reaches its main loop: the timer, the keyboard and the system call are
  installed on lines 0, 1 and 16, the controllers let through exactly the lines 0, 1 and the cascade, interrupts are
  enabled, \<^verbatim>\<open>pcidevs\<close> holds the functions of the bus, the heap is in order behind the two structures taken from it, and the
  cleared screen shows the time stamp line and \<^verbatim>\<open>Done.\<close>\<close>

theorem cmain_start_reaches_loop:
  assumes "boot_ok e space s"
  shows "\<exists>s'. cmain_start e tick s = Some s' \<and>
    kernel_ready e (round_up (kernel_end_at e) 16) (round_up (kernel_end_at e) 16 + 16) s'
    \<and> (\<forall>i < 16. masked (in8 (hw e)) s' i \<longleftrightarrow> i \<notin> {0, 1, 2}) \<and> iflag s' \<and> kbdq s' = kbdq s \<and> pit_counter s' = pit_counter s \<and> net_num_devs s' = 0 \<and> attrib s' = attrib s
    \<and> take (unat (numdevs s')) (pcidevs s') = pci_tree space 0 \<and> high_mem s' = round_up (kernel_end_at e) 16 + 32
    \<and> con_abs s' = fold (con_putch (attrib s)) (tsc_line e (cls (disable s)) @ chars ''Done.\<newline>'') (con_abs (cls (disable s)))"
  using assms by (rule cmain_start_boots)

section \<open>Concrete instances\<close>

text \<open>A kernel image that ends at 0xC0110000, its static data from 0xC0108000 on; the keyboard controller holds the
  scancode of the letter a.\<close>

definition sample_kenv :: kenv where
  "sample_kenv = \<lparr>hw = (sample_env tree_space)\<lparr>in8 := \<lambda>h p. if p = 0x60 then 0x1E else last_write h p\<rparr>, str_at = (\<lambda>_. 0xC0108100), idt_at = 0xC0109000, stub = (\<lambda>n. 0xC0101000 + of_nat n),
     msgs = (\<lambda>n. 0xC0108200 + 32 * of_nat n), pit_code = 0xC0100400, kbd_code = 0xC0100500, syscall_code = 0xC0100600,
     irq48_h = 0xC0108000, kernel_start_at = 0xC0100000, kernel_end_at = 0xC0110000, multiboot_at = 0x9000,
     tsc = (\<lambda>_. (1, 2)), int_regs = boot_regs 48\<rparr>"

definition sample_mem :: "addr \<Rightarrow> u8" where
  "sample_mem = store_list 0xC0108100 (chars ''Done.\<newline>'') (store32 (\<lambda>_. 0) 0xC0108000 0xC0100600)"

definition sample_kernel :: kernel where
  "sample_kernel = pci.extend (boot_pci\<lparr>mem := sample_mem\<rparr>) \<lparr>kbdq = kbd_init\<rparr>"

lemma sample_regions:
  "region 0xC0109000 2048 \<inter> region video 4000 = {}" "region 0xC0108100 7 \<inter> region 0xC0108000 12 = {}"
  "region 0xC0108000 12 \<inter> region video 4000 = {}" "region 0xC0108100 7 \<inter> region video 4000 = {}"
  "region 0xC0108000 12 \<inter> region 0xC0109000 2048 = {}" "region 0xC0108100 7 \<inter> region 0xC0109000 2048 = {}"
proof -
  show "region 0xC0109000 2048 \<inter> region video 4000 = {}" "region 0xC0108000 12 \<inter> region video 4000 = {}"
    "region 0xC0108100 7 \<inter> region video 4000 = {}"
    by (subst Int_commute, rule region_disjoint_abs, simp_all add: video_def)+
  show "region 0xC0108100 7 \<inter> region 0xC0108000 12 = {}" by (subst Int_commute, rule region_disjoint_abs) simp_all
  show "region 0xC0108000 12 \<inter> region 0xC0109000 2048 = {}" "region 0xC0108100 7 \<inter> region 0xC0109000 2048 = {}"
    by (rule region_disjoint_abs, simp_all)+
qed

lemma sample_pic: "pic_device (\<lambda>h p. if p = 0x60 then 0x1E else last_write h p)"
  using last_write_pic by (auto simp: pic_device_def)

lemma sample_boot_ok: "boot_ok sample_kenv tree_space sample_kernel"
proof -
  have cs: "chars ''Done.\<newline>'' = [68, 111, 110, 101, 46, 10]" by (simp add: chars_def)
  have "h_handler sample_mem 0xC0108000 = 0xC0100600"
    by (simp add: sample_mem_def cs h_handler_def load32_def store32_def)
  moreover have "cstr sample_mem 0xC0108100 (chars ''Done.\<newline>'')"
    by (auto simp: cs sample_mem_def cstr_def store32_def less_Suc_eq)
  moreover have "\<not> pci_multi tree_space 0 0" by (simp add: pci_multi_def tree_space_def)
  ultimately show ?thesis
    using sample_env_host [of tree_space] tree_space_quiet tree_space_tree(2) last_write_pic sample_regions
      sample_pic
    by (simp add: boot_ok_def static_at_def sample_kenv_def sample_kernel_def boot_pci_def net.defs pci.defs sample_env_def
        boot_net_def init_mem_def Let_def del: in_region)
qed

theorem cmain_start_reaches_loop_witness:
  "\<exists>s'. cmain_start sample_kenv id sample_kernel = Some s' \<and> kernel_ready sample_kenv 0xC0110000 0xC0110010 s' \<and> iflag s'
     \<and> map vendorId (take 3 (pcidevs s')) = [0x8086, 0x8086, 0x1234]"
proof -
  have h: "round_up (kernel_end_at sample_kenv) 16 = 0xC0110000" by (simp add: sample_kenv_def round_up_def)
  obtain s' where s': "cmain_start sample_kenv id sample_kernel = Some s'" "kernel_ready sample_kenv 0xC0110000 (0xC0110000 + 16) s'"
    "iflag s'" "take (unat (numdevs s')) (pcidevs s') = pci_tree tree_space 0"
    using cmain_start_reaches_loop [OF sample_boot_ok, of id] unfolding h by blast
  have "length (take (unat (numdevs s')) (pcidevs s')) = 3" using s'(4) by (simp add: tree_space_tree)
  then have "take 3 (take (unat (numdevs s')) (pcidevs s')) = take 3 (pcidevs s')" by (simp add: min_def split: if_splits)
  then have t3: "take 3 (pcidevs s') = pci_tree tree_space 0" unfolding s'(4) by (simp add: tree_space_tree)
  have "map vendorId (take 3 (pcidevs s')) = [0x8086, 0x8086, 0x1234]"
    unfolding t3 by (simp add: tree_space_tree(2) pci_entry_def tree_space_def)
  then show ?thesis using s' by simp
qed

end
