(* ===== verification/Frog_Loop.thy ===== *)
theory Frog_Loop
  imports Frog_Kernel
begin

text \<open>
  What the running kernel does with interrupts and keys: the routing of an interrupt to its driver,
  one round of the main loop of \<^verbatim>\<open>cmain\<close>, and the way of a key from the keyboard to the screen.
\<close>

section \<open>Acknowledging an interrupt\<close>

lemma lines_ok_out20:
  assumes "pic_device pic" "lines_ok pic s L" "p \<in> {0x20, 0xA0}"
  shows "lines_ok pic (outportb p 0x20 s) L"
proof -
  have r: "pic_ready (io s)" by (rule lines_okD(2) [OF assms(2)])
  have icw: "\<not> icw1 (OutB p 0x20)" by (simp add: bit_numeral_word_iff)
  have "pic_ready (io (outportb p 0x20 s))" using pic_ready_snoc [OF r icw] by (simp add: outportb_def)
  moreover have q: "pic (io s @ [OutB p 0x20]) q = pic (io s) q" if "q = 0x21 \<or> q = 0xA1" for q
  proof -
    have "q \<noteq> p" using assms(3) that by auto
    moreover have "\<forall>h p q b. pic_ready h \<longrightarrow> (p = 0x21 \<or> p = 0xA1) \<longrightarrow> q \<noteq> p \<longrightarrow> \<not> icw1 (OutB q b) \<longrightarrow> pic (h @ [OutB q b]) p = pic h p"
      using assms(1) unfolding pic_device_def by (elim conjE)
    ultimately show ?thesis using r icw that by metis
  qed
  moreover from q have "masked pic (outportb p 0x20 s) i \<longleftrightarrow> masked pic s i" for i by (simp add: masked_def outportb_def)
  ultimately show ?thesis using assms(2) by (simp add: lines_ok_def outportb_def)
qed

lemma lines_ok_eoi: "pic_device pic \<Longrightarrow> lines_ok pic s L \<Longrightarrow> lines_ok pic (irq_eoi n s) L"
  by (simp add: irq_eoi_def lines_ok_out20)

lemma irq_eoi_frame [simp]:
  "mem (irq_eoi n s) = mem s" "irq_handlers (irq_eoi n s) = irq_handlers s" "con.more (irq_eoi n s) = con.more s"
  "csr_x (irq_eoi n s) = csr_x s" "csr_y (irq_eoi n s) = csr_y s" "attrib (irq_eoi n s) = attrib s"
  by (simp_all add: irq_eoi_def outportb_def)

lemma kernel_eoi_frame [simp]:
  fixes s :: kernel
  shows "kbdq (irq_eoi n s) = kbdq s" "net_devs (irq_eoi n s) = net_devs s" "net_num_devs (irq_eoi n s) = net_num_devs s"
    "high_mem (irq_eoi n s) = high_mem s" "iflag (irq_eoi n s) = iflag s"
  by (simp_all add: irq_eoi_def outportb_def)

lemma kernel_ready_eoi:
  assumes "pic_device (in8 (hw e))" "kernel_ready e t k s"
  shows "kernel_ready e t k (irq_eoi n s)"
  using assms lines_ok_eoi [of "in8 (hw e)" s "boot_lines t k (irq48_h e)" n]
  by (simp add: kernel_ready_def irq_ready_def heap_ok_def heap_free_def con_ok_def)

lemma kernel_ready_counters [simp]:
  "kernel_ready e t k (s\<lparr>kbdq := q\<rparr>) \<longleftrightarrow> kernel_ready e t k s" "kernel_ready e t k (s\<lparr>pit_counter := c\<rparr>) \<longleftrightarrow> kernel_ready e t k s"
  "kernel_ready e t k (s\<lparr>iflag := b\<rparr>) \<longleftrightarrow> kernel_ready e t k s"
  by (simp_all add: kernel_ready_def irq_ready_def lines_ok_def masked_def heap_ok_def heap_free_def con_ok_def)

section \<open>Routing\<close>

text \<open>The chain of a line with no or one handler.\<close>

lemma irq_chain_single:
  assumes "p \<noteq> 0" "call (h_handler (mem s) p) r (h_data (mem s) p) s = Some s'" "h_next (mem s') p = 0"
  shows "irq_chain call r p s = Some s'"
  using assms by (simp add: irq_chain.simps [of call r p] irq_chain.simps [of call r 0])

lemma boot_chain:
  assumes "kernel_ready e t k s"
  shows "irq_handlers s ! 0 = t" "irq_handlers s ! 1 = k" "irq_handlers s ! 16 = irq48_h e" "t \<noteq> 0" "k \<noteq> 0" "irq48_h e \<noteq> 0"
    "h_next (mem s) t = 0" "h_next (mem s) k = 0" "h_next (mem s) (irq48_h e) = 0" "length (irq_handlers s) = 18"
    "i < 18 \<Longrightarrow> i \<notin> {0, 1, 16} \<Longrightarrow> irq_handlers s ! i = 0"
proof -
  have l: "lines_ok (in8 (hw e)) s (boot_lines t k (irq48_h e))" using assms by (simp add: kernel_ready_def irq_ready_def)
  note h = lines_okD(3) [OF l]
  show "irq_handlers s ! 0 = t" "irq_handlers s ! 1 = k" "irq_handlers s ! 16 = irq48_h e" "t \<noteq> 0" "k \<noteq> 0" "irq48_h e \<noteq> 0"
    "h_next (mem s) t = 0" "h_next (mem s) k = 0" "h_next (mem s) (irq48_h e) = 0"
    using h [of 0] h [of 1] h [of 16] by (auto simp: boot_lines_def)
  show "length (irq_handlers s) = 18" by (rule lines_okD(1) [OF l])
  show "i < 18 \<Longrightarrow> i \<notin> {0, 1, 16} \<Longrightarrow> irq_handlers s ! i = 0" using h [of i] by (auto simp: boot_lines_def)
qed

lemma irq_number:
  assumes "32 \<le> int_no r" "unat (int_no r) < 50" "length (irq_handlers s) = 18"
    and "irq_chain call r (irq_handlers s ! (unat (int_no r) - 32)) s = res"
  shows "irq_handler call ms cr2 frame r s = map_option (\<lambda>s'. Returned (irq_eoi (int_no r) s')) res"
proof -
  have "unat (int_no r - 32) = unat (int_no r) - 32" using assms(1) by (subst unat_sub) simp_all
  moreover have "\<not> int_no r < 32" "int_no r \<noteq> 14" using assms(1) by auto
  moreover have "unat (int_no r) - 32 < length (irq_handlers s)" using assms(2,3) by simp
  ultimately show ?thesis using assms(4) by (simp add: irq_handler_def)
qed

definition hexd :: "u32 \<Rightarrow> u8 list" where
  "hexd v = ntoa_chars v False 16 0 0 0"

lemma render_syscall: "render safe m (cbytes ''SYSCALL: %x%x\<newline>'') [x, y] = Some (chars ''SYSCALL: '' @ hexd x @ hexd y @ [10])"
  by (simp add: render_defs hexd_def)

definition codes_ok :: "kenv \<Rightarrow> bool" where
  "codes_ok e \<longleftrightarrow> pic_device (in8 (hw e)) \<and> local_byte (hw e) \<noteq> 0
     \<and> distinct [pit_code e, kbd_code e, irq_code (hw e), syscall_code e]"

lemma codes_okD:
  assumes "codes_ok e"
  shows "pic_device (in8 (hw e))" "local_byte (hw e) \<noteq> 0" "kbd_code e \<noteq> pit_code e" "syscall_code e \<noteq> pit_code e"
    "syscall_code e \<noteq> kbd_code e" "syscall_code e \<noteq> irq_code (hw e)" "irq_code (hw e) \<noteq> pit_code e" "irq_code (hw e) \<noteq> kbd_code e"
  using assms by (auto simp: codes_ok_def)

lemma kernel_irq_timer:
  assumes "codes_ok e" "kernel_ready e t k s" "int_no r = 32"
  shows "kernel_irq e cr2 r s = Some (Returned (irq_eoi 32 (pit_handler s)))"
proof -
  note c = boot_chain [OF assms(2)]
  have "irq_chain (kernel_code e) r t s = Some (pit_handler s)"
    using assms(2) c by (intro irq_chain_single) (simp_all add: kernel_code_def kernel_ready_def pit_handler_def)
  then show ?thesis using irq_number [OF _ _ c(10), of r "kernel_code e" "Some (pit_handler s)"] assms(3) by (simp add: kernel_irq_def c(1))
qed

lemma kernel_irq_key:
  assumes "codes_ok e" "kernel_ready e t k s" "int_no r = 33"
  shows "kernel_irq e cr2 r s = map_option (\<lambda>q. Returned (irq_eoi 33 (s\<lparr>kbdq := q\<rparr>))) (decode (in8 (hw e) (io s) 0x60) (kbdq s))"
proof -
  note c = boot_chain [OF assms(2)]
  have "irq_chain (kernel_code e) r k s = map_option (\<lambda>q. s\<lparr>kbdq := q\<rparr>) (decode (in8 (hw e) (io s) 0x60) (kbdq s))"
    using assms(2) c codes_okD [OF assms(1)]
    by (cases "decode (in8 (hw e) (io s) 0x60) (kbdq s)")
      (simp_all add: irq_chain.simps [of _ _ k] irq_chain.simps [of _ _ 0] kernel_code_def kernel_ready_def kbd_handler_def inportb_def)
  then show ?thesis using irq_number [OF _ _ c(10), of r "kernel_code e" _ "msgs e" cr2 "local_byte (hw e)"] assms(3)
    by (simp add: kernel_irq_def c(2) [simplified] option.map_comp comp_def)
qed

lemma kernel_irq_syscall:
  assumes "codes_ok e" "kernel_ready e t k s" "int_no r = 48"
  shows "\<exists>s'. kernel_irq e cr2 r s = Some (Returned (irq_eoi 48 s')) \<and> prints (chars ''SYSCALL: '' @ hexd (ebx r) @ hexd (eax r) @ [10]) s s'"
proof -
  note c = boot_chain [OF assms(2)]
  have r: "irq_ready (in8 (hw e)) (boot_lines t k (irq48_h e)) s" and code: "h_handler (mem s) (irq48_h e) = syscall_code e"
    using assms(2) by (simp_all add: kernel_ready_def)
  have nul: "0 \<notin> set (chars ''SYSCALL: '' @ hexd (ebx r) @ hexd (eax r) @ [10])"
    by (simp add: hexd_def ntoa_chars_no_nul) (simp add: chars_def)
  obtain n s' where s': "printf (local_byte (hw e)) (cbytes ''SYSCALL: %x%x\<newline>'') [ebx r, eax r] s = Some (n, s')"
    "prints (chars ''SYSCALL: '' @ hexd (ebx r) @ hexd (eax r) @ [10]) s s'"
    using printf_text [OF irq_readyD(3) [OF r] _ render_syscall nul, of "local_byte (hw e)"] assms(1) by (auto simp: codes_ok_def)
  have "region (irq48_h e) 12 \<inter> region video 4000 = {}" by (rule irq_readyD(5) [OF r]) (simp add: nodes_boot_lines)
  then have "mem s' x = mem s x" if "x \<in> region (irq48_h e) 12" for x using that prints_mem [OF s'(2)] by blast
  then have "h_next (mem s') (irq48_h e) = 0" using c(9) handler_fields_cong [of "irq48_h e" "mem s'" "mem s"] by simp
  then have "irq_chain (kernel_code e) r (irq48_h e) s = Some s'"
    using c codes_okD [OF assms(1)] s'(1) by (intro irq_chain_single) (simp_all add: kernel_code_def code irq48_handler_def)
  then have "kernel_irq e cr2 r s = Some (Returned (irq_eoi 48 s'))"
    using irq_number [OF _ _ c(10), of r "kernel_code e" "Some s'"] assms(3) by (simp add: kernel_irq_def c(3))
  then show ?thesis using s'(2) by blast
qed

lemma kernel_irq_spurious:
  assumes "kernel_ready e t k s" "32 \<le> int_no r" "unat (int_no r) < 50" "int_no r \<notin> {32, 33, 48}"
  shows "kernel_irq e cr2 r s = Some (Returned (irq_eoi (int_no r) s))"
proof -
  note c = boot_chain [OF assms(1)]
  have "unat (int_no r) \<noteq> unat (32 :: u32)" "unat (int_no r) \<noteq> unat (33 :: u32)" "unat (int_no r) \<noteq> unat (48 :: u32)"
    using assms(4) by (simp_all only: word_unat_eq_iff [symmetric]) auto
  moreover have "32 \<le> unat (int_no r)" using assms(2) by (simp add: word_le_nat_alt)
  ultimately have "irq_handlers s ! (unat (int_no r) - 32) = 0" using assms(3) by (intro c(11)) auto
  then show ?thesis using irq_number [OF assms(2,3) c(10), of "kernel_code e" "Some s"] by (simp add: kernel_irq_def irq_chain.simps)
qed

text \<open>C7: After the start an interrupt reaches its driver: 32 counts one tick of the timer, 33 hands the byte of
  the keyboard controller to the decoder, 48 prints the registers of a system call, and on every other line of the controllers nothing
  happens; each is then acknowledged. The lines, the heap and the console stay in order.\<close>

theorem kernel_interrupts_reach_drivers:
  assumes "codes_ok e" "kernel_ready e t k s" "32 \<le> int_no r" "unat (int_no r) < 50"
  shows "(int_no r = 32 \<longrightarrow> kernel_irq e cr2 r s = Some (Returned (irq_eoi 32 (s\<lparr>pit_counter := pit_counter s + 1\<rparr>))))
    \<and> (int_no r = 33 \<longrightarrow> kernel_irq e cr2 r s
        = map_option (\<lambda>q. Returned (irq_eoi 33 (s\<lparr>kbdq := q\<rparr>))) (decode (in8 (hw e) (io s) 0x60) (kbdq s)))
    \<and> (int_no r = 48 \<longrightarrow> (\<exists>s'. kernel_irq e cr2 r s = Some (Returned (irq_eoi 48 s'))
        \<and> prints (chars ''SYSCALL: '' @ hexd (ebx r) @ hexd (eax r) @ [10]) s s'))
    \<and> (int_no r \<notin> {32, 33, 48} \<longrightarrow> kernel_irq e cr2 r s = Some (Returned (irq_eoi (int_no r) s)))
    \<and> (\<forall>out. kernel_irq e cr2 r s = Some out \<longrightarrow> (\<exists>s'. out = Returned s' \<and> kernel_ready e t k s'))"
proof (intro conjI impI allI)
  have pic: "pic_device (in8 (hw e))" using assms(1) by (simp add: codes_ok_def)
  show timer: "kernel_irq e cr2 r s = Some (Returned (irq_eoi 32 (s\<lparr>pit_counter := pit_counter s + 1\<rparr>)))" if "int_no r = 32"
    using kernel_irq_timer [OF assms(1,2) that] by (simp add: pit_handler_def)
  show key: "kernel_irq e cr2 r s = map_option (\<lambda>q. Returned (irq_eoi 33 (s\<lparr>kbdq := q\<rparr>))) (decode (in8 (hw e) (io s) 0x60) (kbdq s))"
    if "int_no r = 33" by (rule kernel_irq_key [OF assms(1,2) that])
  show call: "\<exists>s'. kernel_irq e cr2 r s = Some (Returned (irq_eoi 48 s')) \<and> prints (chars ''SYSCALL: '' @ hexd (ebx r) @ hexd (eax r) @ [10]) s s'"
    if "int_no r = 48" by (rule kernel_irq_syscall [OF assms(1,2) that])
  show other: "kernel_irq e cr2 r s = Some (Returned (irq_eoi (int_no r) s))" if "int_no r \<notin> {32, 33, 48}"
    by (rule kernel_irq_spurious [OF assms(2-4) that])
  fix out assume out: "kernel_irq e cr2 r s = Some out"
  consider "int_no r = 32" | "int_no r = 33" | "int_no r = 48" | "int_no r \<notin> {32, 33, 48}" by auto
  then show "\<exists>s'. out = Returned s' \<and> kernel_ready e t k s'"
  proof cases
    case 3
    then show ?thesis using call out kernel_ready_eoi [OF pic] kernel_ready_prints [OF pic assms(2)] by fastforce
  qed (use out timer key other in \<open>auto simp: kernel_ready_eoi [OF pic] assms(2)\<close>)
qed

section \<open>One round of the main loop\<close>

text \<open>The keys that the switch of \<^verbatim>\<open>cmain\<close> answers with something else than echoing them: r h z t s m n p c.\<close>

definition command_keys :: "u32 set" where
  "command_keys = {0x72, 0x68, 0x7A, 0x74, 0x73, 0x6D, 0x6E, 0x70, 0x63}"

definition echoed :: "u32 list \<Rightarrow> u8 list" where
  "echoed ks = map ucast (filter (\<lambda>c. c AND 0x80 = 0) ks)"

lemma echoed_Cons: "echoed (c # ks) = echoed [c] @ echoed ks"
  by (simp add: echoed_def)

lemma and_7f: "(c :: u32) AND 0x7F \<noteq> 0x80" "(c :: u32) AND 0x7F \<noteq> 0x81"
proof -
  have "\<not> bit (c AND 0x7F) 7" by (simp add: bit_simps)
  moreover have "bit (0x80 :: u32) 7" "bit (0x81 :: u32) 7" by simp_all
  ultimately show "c AND 0x7F \<noteq> 0x80" "c AND 0x7F \<noteq> 0x81" by metis+
qed

text \<open>The cases \<^verbatim>\<open>KEY_PAUSE\<close> and \<^verbatim>\<open>KEY_PRTSC\<close> are never taken, as both codes have the bit that the switch masks.\<close>

lemma main_key_echo: "c AND 0x7F \<notin> command_keys \<Longrightarrow> main_key e c s = Some (Continue (main_default c s))"
  using and_7f [of c] by (simp add: main_key_def command_keys_def Let_def)

lemma ucast_and_ff: "ucast ((c :: u32) AND 0xFF) = (ucast c :: u8)"
proof -
  have m: "(0xFF :: u32) = mask 8" by (simp add: mask_eq_exp_minus_1)
  show ?thesis unfolding m by (rule bit_word_eqI) (auto simp: bit_simps)
qed

lemma main_default_prints:
  assumes "con_ok s"
  shows "prints (echoed [c]) s (main_default c s)"
  using prints_putch [OF assms, of "ucast c"] assms by (simp add: main_default_def echoed_def ucast_and_ff prints_nil)

lemma kernel_con_more: "con.more s' = con.more s \<Longrightarrow> kbdq s' = kbdq (s :: kernel) \<and> iflag s' = iflag s"
  by (cases s, cases s') simp

lemma net_process_idle:
  assumes "\<forall>i < unat (net_num_devs s). needs_work (net_devs s ! i) = 0"
  shows "net_process call s = Some s"
proof -
  have "net_process_loop call i s = Some s" for i
    using assms
  proof (induction call i s rule: net_process_loop.induct)
    case (1 call i s)
    then show ?case by (subst net_process_loop.simps) simp
  qed
  then show ?thesis by (simp add: net_process_def)
qed

text \<open>The keys in the ring are taken out in order; what is printed between does not disturb the ring.\<close>

lemma main_drain_prefix:
  assumes "kbd_ok (kbdq s)" "kbd_list (kbdq s) = ks @ rest" "con_ok s" "\<forall>c \<in> set ks. c AND 0x7F \<notin> command_keys"
  shows "\<exists>s'. main_drain e s = main_drain e s' \<and> kbd_ok (kbdq s') \<and> kbd_list (kbdq s') = rest
    \<and> kbd_state (kbdq s') = kbd_state (kbdq s) \<and> kbd_shiftstate (kbdq s') = kbd_shiftstate (kbdq s)
    \<and> prints (echoed ks) (s\<lparr>kbdq := kbdq s', iflag := iflag s \<or> ks \<noteq> []\<rparr>) s'"
  using assms
proof (induction ks arbitrary: s)
  case Nil
  then show ?case by (intro exI [of _ s]) (simp add: echoed_def prints_nil)
next
  case (Cons c ks)
  let ?q = "snd (kbd_dequeue (kbdq s))"
  let ?s = "(enable (disable s))\<lparr>kbdq := ?q\<rparr>"
  let ?t = "main_default c ?s"
  have q: "fst (kbd_dequeue (kbdq s)) = c" "kbd_list ?q = ks @ rest" "kbd_ok ?q"
    using dequeue_list [OF Cons.prems(1), of c "ks @ rest"] Cons.prems(2) dequeue_ok [OF Cons.prems(1)] by simp_all
  have st: "kbd_state ?q = kbd_state (kbdq s)" "kbd_shiftstate ?q = kbd_shiftstate (kbdq s)"
    by (auto simp: kbd_dequeue_def deq_take_def deq_wrap_def deq_count_def)
  have ne: "\<not> kbd_isempty (kbdq s)" using Cons.prems(2) by (auto simp: kbd_isempty_def simp flip: length_kbd_list)
  have "con_ok ?s" using Cons.prems(3) by (simp add: con_ok_def enable_def disable_def)
  then have p: "prints (echoed [c]) ?s ?t" by (rule main_default_prints)
  then have more: "con.more ?t = con.more ?s" by (simp add: prints_def)
  note t = kernel_con_more [OF more]
  obtain s' where s': "main_drain e ?t = main_drain e s'" "kbd_ok (kbdq s')" "kbd_list (kbdq s') = rest"
    "kbd_state (kbdq s') = kbd_state (kbdq ?t)" "kbd_shiftstate (kbdq s') = kbd_shiftstate (kbdq ?t)"
    "prints (echoed ks) (?t\<lparr>kbdq := kbdq s', iflag := iflag ?t \<or> ks \<noteq> []\<rparr>) s'"
    using Cons.IH [of ?t] Cons.prems(4) t q prints_con_ok [OF p] by auto
  have "main_drain e s = main_drain e s'"
    using ne q(1) main_key_echo [of c e ?s] Cons.prems(4) s'(1) by (simp add: main_drain.simps [of e s])
  moreover have "prints (echoed [c]) (s\<lparr>kbdq := kbdq s', iflag := True\<rparr>) (?t\<lparr>kbdq := kbdq s', iflag := True\<rparr>)"
    using p by (cases s, cases ?t) (auto simp: prints_def con_ok_def con_abs_def cells_def enable_def disable_def simp del: in_region)
  moreover have "iflag ?t" using t by (simp add: enable_def)
  ultimately show ?case
    using s' t st prints_trans [of "echoed [c]" "s\<lparr>kbdq := kbdq s', iflag := True\<rparr>" "?t\<lparr>kbdq := kbdq s', iflag := True\<rparr>" "echoed ks" s']
      echoed_Cons [of c ks]
    by (intro exI [of _ s']) simp
qed

lemma main_drain_empty: "kbd_list (kbdq s) = [] \<Longrightarrow> main_drain e s = Some (Continue s)"
  by (subst main_drain.simps) (simp add: kbd_isempty_def flip: length_kbd_list)

lemma main_drain_echoes:
  assumes "kbd_ok (kbdq s)" "kbd_list (kbdq s) = ks" "con_ok s" "\<forall>c \<in> set ks. c AND 0x7F \<notin> command_keys"
  shows "\<exists>s'. main_drain e s = Some (Continue s') \<and> kbd_ok (kbdq s') \<and> kbd_list (kbdq s') = []
    \<and> kbd_state (kbdq s') = kbd_state (kbdq s) \<and> kbd_shiftstate (kbdq s') = kbd_shiftstate (kbdq s)
    \<and> prints (echoed ks) (s\<lparr>kbdq := kbdq s', iflag := iflag s \<or> ks \<noteq> []\<rparr>) s'"
  using main_drain_prefix [of s ks "[]" e] assms main_drain_empty by fastforce

text \<open>C9: One round of the main loop, with no work pending for the network and none of the command letters in the
  ring, returns and takes all keys out: those whose code has no bit 7 appear on the screen in the order they
  were enqueued, the others leave no trace, and the decoder's state is untouched.\<close>

theorem main_round_echoes_keys:
  assumes "\<forall>i < unat (net_num_devs s). needs_work (net_devs s ! i) = 0" "kbd_ok (kbdq s)" "con_ok s"
    and "\<forall>c \<in> set (kbd_list (kbdq s)). c AND 0x7F \<notin> command_keys"
  shows "\<exists>s'. main_round e s = Some (Continue s') \<and> kbd_list (kbdq s') = []
    \<and> kbd_state (kbdq s') = kbd_state (kbdq s) \<and> kbd_shiftstate (kbdq s') = kbd_shiftstate (kbdq s)
    \<and> con_abs s' = fold (con_putch (attrib s)) (echoed (kbd_list (kbdq s))) (con_abs s)"
proof -
  have "con_abs (s\<lparr>kbdq := q, iflag := b\<rparr>) = con_abs s" for q b by (rule con_abs_cong) simp_all
  then show ?thesis
    using main_drain_echoes [OF assms(2) refl assms(3,4), of e] net_process_idle [OF assms(1), of "work_call e"]
    by (auto simp: main_round_def prints_def)
qed

section \<open>From the keyboard to the screen\<close>

lemma bit_128: "bit (0x80 :: int) n \<longleftrightarrow> n = 7"
proof -
  have m: "(0x80 :: int) = push_bit 7 1" by simp
  show "bit (0x80 :: int) n \<longleftrightarrow> n = 7" unfolding m by (simp only: bit_push_bit_iff bit_1_iff) auto
qed

lemma low_half_bit: "(d :: u8) < 0x80 \<Longrightarrow> bit d n \<Longrightarrow> n < 7"
proof (rule ccontr)
  assume d: "d < 0x80" "bit d n" "\<not> n < 7"
  have "unat d < 2 ^ 7" using d(1) by (simp add: word_less_nat_alt)
  also have "\<dots> \<le> (2 :: nat) ^ n" using d(3) by (intro power_increasing) simp_all
  finally have "unat d div 2 ^ n = 0" by simp
  moreover have "bit (unat d) n" using d(2) bit_imp_le_length [OF d(2)] by (simp add: bit_unsigned_iff)
  ultimately show False by (simp add: bit_iff_odd)
qed

lemma low_half: "(d :: u8) < 0x80 \<Longrightarrow> d AND 0x80 = 0"
proof -
  assume d: "d < 0x80"
  show ?thesis by (rule bit_word_eqI) (use low_half_bit [OF d] in \<open>auto simp: bit_and_iff bit_128\<close>)
qed

lemma decode_plain_key:
  assumes "kbd_ok q" "kbd_list q = []" "kbd_state q = 0" "c < 0x80"
    and "table_read (if kbd_shiftstate q AND KBD_SHIFT \<noteq> 0 then shift_scancodes else scancodes) c = Some d" "d \<noteq> 0" "d < 0x80"
  shows "\<exists>q'. decode c q = Some q' \<and> kbd_ok q' \<and> kbd_list q' = [push_bit 8 (kbd_shiftstate q) OR ucast d]
    \<and> kbd_state q' = 0 \<and> kbd_shiftstate q' = kbd_shiftstate q"
proof -
  have c: "c AND 0x80 = 0" "c \<noteq> 0xE0" "c \<noteq> 0xE1" using low_half [OF assms(4)] assms(4) by auto
  have d: "d \<noteq> KEY_LEFTCTRL" "d \<noteq> KEY_CAPSLOCK" "d \<noteq> KEY_LEFTSHFT" "d \<noteq> KEY_RGHTSHFT" "d \<noteq> KEY_LEFTALT" using assms(7) by auto
  have "decode_make c q = Some (ENQUEUE d q)" using assms(5,6) d by (simp add: decode_make_def)
  then have "decode c q = Some ((ENQUEUE d q)\<lparr>kbd_state := 0\<rparr>)" using assms(3) c by (subst decode.simps) (simp add: Let_def)
  moreover have "kbd_size q < 128" using assms(2) by (simp flip: length_kbd_list)
  then have "kbd_list (ENQUEUE d q) = [push_bit 8 (kbd_shiftstate q) OR ucast d]"
    using enqueue_list [OF assms(1)] assms(2) by (simp add: ENQUEUE_def)
  moreover have "kbd_ok (ENQUEUE d q)" using enqueue_ok [OF assms(1)] by (simp add: ENQUEUE_def)
  moreover have "kbd_shiftstate (ENQUEUE d q) = kbd_shiftstate q" by (auto simp: ENQUEUE_def kbd_enqueue_def Let_def)
  ultimately show ?thesis by simp
qed

text \<open>The shift state in the upper bits of a key does not change what is printed.\<close>

lemma key_low_bits:
  assumes "d < 0x80"
  shows "(push_bit 8 (h :: u32) OR ucast (d :: u8)) AND 0x7F = ucast d" "(push_bit 8 h OR ucast d) AND 0x80 = 0"
    "ucast (push_bit 8 h OR ucast d) = d"
proof -
  have m: "(0x7F :: u32) = mask 7" by (simp add: mask_eq_exp_minus_1)
  note b = low_half_bit [OF assms]
  show "(push_bit 8 h OR ucast d) AND 0x7F = ucast d" unfolding m
    by (rule bit_word_eqI) (use b in \<open>auto simp: bit_simps\<close>)
  show "(push_bit 8 h OR ucast d) AND 0x80 = 0"
    by (rule bit_word_eqI) (use b in \<open>auto simp: bit_and_iff bit_or_iff bit_push_bit_iff bit_unsigned_iff bit_128\<close>)
  show "ucast (push_bit 8 h OR ucast d) = d" by (rule bit_word_eqI) (auto simp: bit_simps)
qed

text \<open>C8: A key pressed at the waiting kernel appears on the screen: in a state of the running kernel with an empty ring,
  the decoder in its plain state and no network work pending, the keyboard interrupt for a scancode that the
  table in force (shifted or not) maps to a character below 0x80, not a command letter, followed by a round
  of the main loop, prints just that character, and the kernel is back in such a state.\<close>

theorem typed_key_reaches_screen:
  assumes "codes_ok e" "kernel_ready e t k s" "int_no r = 33"
    and "kbd_ok (kbdq s)" "kbd_list (kbdq s) = []" "kbd_state (kbdq s) = 0" "\<forall>i < unat (net_num_devs s). needs_work (net_devs s ! i) = 0"
    and "in8 (hw e) (io s) 0x60 = c" "c < 0x80"
    and "table_read (if kbd_shiftstate (kbdq s) AND KBD_SHIFT \<noteq> 0 then shift_scancodes else scancodes) c = Some d"
    and "d \<noteq> 0" "d < 0x80" "ucast d \<notin> command_keys"
  shows "\<exists>s1 s'. kernel_irq e cr2 r s = Some (Returned s1) \<and> main_round e s1 = Some (Continue s')
    \<and> con_abs s' = con_putch (attrib s) d (con_abs s) \<and> kernel_ready e t k s'
    \<and> kbd_list (kbdq s') = [] \<and> kbd_state (kbdq s') = 0 \<and> kbd_shiftstate (kbdq s') = kbd_shiftstate (kbdq s)"
proof -
  obtain q where q: "decode c (kbdq s) = Some q" "kbd_ok q" "kbd_list q = [push_bit 8 (kbd_shiftstate (kbdq s)) OR ucast d]"
    "kbd_state q = 0" "kbd_shiftstate q = kbd_shiftstate (kbdq s)"
    using decode_plain_key [OF assms(4-6,9-12)] by blast
  define s1 where "s1 = irq_eoi 33 (s\<lparr>kbdq := q\<rparr>)"
  have irq: "kernel_irq e cr2 r s = Some (Returned s1)" using kernel_irq_key [OF assms(1-3)] assms(8) q(1) by (simp add: s1_def)
  have pic: "pic_device (in8 (hw e))" by (rule codes_okD(1) [OF assms(1)])
  have ready: "kernel_ready e t k s1" using kernel_ready_eoi [OF pic] assms(2) by (simp add: s1_def)
  have s1: "kbdq s1 = q" "con_abs s1 = con_abs s" "attrib s1 = attrib s" "con_ok s1"
    using ready by (auto simp: s1_def kernel_ready_def irq_ready_def intro!: con_abs_cong)
  have "\<forall>i < unat (net_num_devs s1). needs_work (net_devs s1 ! i) = 0" using assms(7) by (simp add: s1_def)
  note idle = net_process_idle [OF this, of "work_call e"]
  have "\<forall>c' \<in> set (kbd_list q). c' AND 0x7F \<notin> command_keys" using assms(13) by (simp add: q(3) key_low_bits [OF assms(12)])
  then obtain s' where s': "main_drain e s1 = Some (Continue s')" "kbd_list (kbdq s') = []" "kbd_state (kbdq s') = 0"
    "kbd_shiftstate (kbdq s') = kbd_shiftstate (kbdq s)" "prints (echoed (kbd_list q)) (s1\<lparr>kbdq := kbdq s', iflag := iflag s1 \<or> kbd_list q \<noteq> []\<rparr>) s'"
    using main_drain_echoes [of s1 "kbd_list q" e] q s1 by auto
  have "echoed (kbd_list q) = [d]" by (simp add: q(3) echoed_def key_low_bits [OF assms(12)])
  moreover have "con_abs (s1\<lparr>kbdq := kbdq s', iflag := b\<rparr>) = con_abs s" for b using s1(2) con_abs_cong [of "s1\<lparr>kbdq := kbdq s', iflag := b\<rparr>" s1] by simp
  ultimately have "con_abs s' = con_putch (attrib s) d (con_abs s)" using s'(5) s1(3) by (simp add: prints_def)
  moreover have "kernel_ready e t k s'" by (rule kernel_ready_prints [OF pic _ s'(5)]) (simp add: ready)
  moreover have "main_round e s1 = Some (Continue s')" using idle s'(1) by (simp add: main_round_def)
  ultimately show ?thesis using irq s'(2-4) by blast
qed

text \<open>C40: The command \<^verbatim>\<open>c\<close> as the last key of a round leaves the interrupts disabled, so that \<^verbatim>\<open>cmain\<close> never leaves the \<^verbatim>\<open>hlt\<close>
  that follows, whatever interrupts there would be.\<close>

theorem cli_command_hangs:
  assumes "\<forall>i < unat (net_num_devs s). needs_work (net_devs s ! i) = 0" "kbd_ok (kbdq s)" "con_ok s" "kbd_list (kbdq s) = ks @ [0x63]"
    and "\<forall>c \<in> set ks. c AND 0x7F \<notin> command_keys"
  shows "main_loop e wakes s = None"
proof -
  obtain s1 where s1: "main_drain e s = main_drain e s1" "kbd_ok (kbdq s1)" "kbd_list (kbdq s1) = [0x63]"
    "prints (echoed ks) (s\<lparr>kbdq := kbdq s1, iflag := iflag s \<or> ks \<noteq> []\<rparr>) s1"
    using main_drain_prefix [OF assms(2,4,3,5), of e] by blast
  let ?q = "snd (kbd_dequeue (kbdq s1))" and ?c = "0x63 :: u32"
  let ?s = "(enable (disable s1))\<lparr>kbdq := ?q\<rparr>"
  let ?t = "main_default ?c (disable ?s)"
  have q: "fst (kbd_dequeue (kbdq s1)) = ?c" "kbd_list ?q = []" using dequeue_list [OF s1(2), of ?c "[]"] s1(3) by simp_all
  have "con_ok (disable ?s)" using prints_con_ok [OF s1(4)] by (simp add: con_ok_def enable_def disable_def)
  then have t: "kbdq ?t = ?q \<and> iflag ?t = False"
    using main_default_prints [of "disable ?s" ?c] kernel_con_more [of ?t "disable ?s"] by (simp add: prints_def disable_def)
  have "main_key e ?c ?s = Some (Continue ?t)" by (simp add: main_key_def Let_def)
  moreover have "\<not> kbd_isempty (kbdq s1)" using s1(3) by (auto simp: kbd_isempty_def simp flip: length_kbd_list)
  ultimately have "main_drain e s1 = main_drain e ?t" using q(1) by (simp add: main_drain.simps [of e s1])
  then have "main_drain e s = Some (Continue ?t)" using s1(1) main_drain_empty [of ?t e] t q(2) by simp
  then have "main_round e s = Some (Continue ?t)" using net_process_idle [OF assms(1), of "work_call e"] by (simp add: main_round_def)
  then show ?thesis using t by (cases wakes) (simp_all add: main_loop.simps)
qed

section \<open>Concrete instances\<close>

lemma sample_codes_ok: "codes_ok sample_kenv"
  using sample_pic by (simp add: codes_ok_def sample_kenv_def sample_env_def)

lemma sample_started:
  "\<exists>s. cmain_start sample_kenv id sample_kernel = Some s \<and> kernel_ready sample_kenv 0xC0110000 0xC0110010 s
     \<and> kbdq s = kbd_init \<and> net_num_devs s = 0 \<and> attrib s = 7"
proof -
  have h: "round_up (kernel_end_at sample_kenv) 16 = 0xC0110000" by (simp add: sample_kenv_def round_up_def)
  obtain s where s: "cmain_start sample_kenv id sample_kernel = Some s" "kernel_ready sample_kenv 0xC0110000 (0xC0110000 + 16) s"
    "kbdq s = kbdq sample_kernel" "net_num_devs s = 0" "attrib s = attrib sample_kernel"
    using cmain_start_boots [OF sample_boot_ok, of id] unfolding h by blast
  then show ?thesis by (simp add: sample_kernel_def pci.defs boot_pci_def net.defs boot_net_def init_mem_def Let_def)
qed

theorem kernel_interrupts_reach_drivers_witness:
  "\<exists>s s'. cmain_start sample_kenv id sample_kernel = Some s \<and> kernel_irq sample_kenv 0 (boot_regs 32) s = Some (Returned s')
     \<and> pit_counter s' = pit_counter s + 1 \<and> kernel_ready sample_kenv 0xC0110000 0xC0110010 s'"
proof -
  obtain s where s: "cmain_start sample_kenv id sample_kernel = Some s" "kernel_ready sample_kenv 0xC0110000 0xC0110010 s"
    using sample_started by blast
  have n: "32 \<le> int_no (boot_regs 32)" "unat (int_no (boot_regs 32)) < 50" "int_no (boot_regs 32) = 32" by (simp_all add: boot_regs_def)
  note t = kernel_interrupts_reach_drivers [OF sample_codes_ok s(2) n(1,2), of 0]
  have "kernel_irq sample_kenv 0 (boot_regs 32) s = Some (Returned (irq_eoi 32 (s\<lparr>pit_counter := pit_counter s + 1\<rparr>)))"
    using t n(3) by blast
  moreover from this obtain s' where "Returned (irq_eoi 32 (s\<lparr>pit_counter := pit_counter s + 1\<rparr>)) = Returned s'"
    "kernel_ready sample_kenv 0xC0110000 0xC0110010 s'" using t by blast
  ultimately show ?thesis using s(1) by (intro exI [of _ s] exI [of _ s']) (auto simp: irq_eoi_def outportb_def)
qed

definition typed :: "u32 list \<Rightarrow> kernel" where
  "typed ks = sample_kernel\<lparr>kbdq := fold kbd_enqueue ks kbd_init\<rparr>"

lemma typed_simps:
  "net_num_devs (typed ks) = 0" "con_ok (typed ks)" "attrib (typed ks) = 7" "kbdq (typed ks) = fold kbd_enqueue ks kbd_init"
  by (simp_all add: typed_def sample_kernel_def pci.defs boot_pci_def net.defs boot_net_def init_mem_def Let_def con_ok_def)

theorem main_round_echoes_keys_witness:
  "\<exists>s'. main_round sample_kenv (typed [0x48, 0x69]) = Some (Continue s') \<and> kbd_list (kbdq s') = []
     \<and> con_abs s' = con_putch 7 0x69 (con_putch 7 0x48 (con_abs (typed [0x48, 0x69])))"
proof -
  have q: "kbd_ok (kbdq (typed [0x48, 0x69]))" "kbd_list (kbdq (typed [0x48, 0x69])) = [0x48, 0x69]"
    by (simp_all add: typed_simps enqueue_ok enqueue_list) (simp add: kbd_init_def kbd_enqueue_def Let_def)
  have c: "\<forall>c \<in> set (kbd_list (kbdq (typed [0x48, 0x69]))). c AND 0x7F \<notin> command_keys" by (simp add: q(2) command_keys_def)
  have "\<forall>i < unat (net_num_devs (typed [0x48, 0x69])). needs_work (net_devs (typed [0x48, 0x69]) ! i) = 0" by (simp add: typed_simps)
  from main_round_echoes_keys [OF this q(1) typed_simps(2) c, of sample_kenv]
  show ?thesis by (auto simp: q(2) echoed_def typed_simps(1-3))
qed

theorem typed_key_reaches_screen_witness:
  "\<exists>s s1 s'. cmain_start sample_kenv id sample_kernel = Some s \<and> kernel_irq sample_kenv 0 (boot_regs 33) s = Some (Returned s1)
     \<and> main_round sample_kenv s1 = Some (Continue s') \<and> con_abs s' = con_putch 7 0x61 (con_abs s)"
proof -
  obtain s where s: "cmain_start sample_kenv id sample_kernel = Some s" "kernel_ready sample_kenv 0xC0110000 0xC0110010 s"
    "kbdq s = kbd_init" "net_num_devs s = 0" "attrib s = 7"
    using sample_started by blast
  have "int_no (boot_regs 33) = 33" by (simp add: boot_regs_def)
  moreover have "kbd_ok (kbdq s)" "kbd_list (kbdq s) = []" "kbd_state (kbdq s) = 0" by (simp_all add: s(3)) (simp add: kbd_init_def)
  moreover have "\<forall>i < unat (net_num_devs s). needs_work (net_devs s ! i) = 0" using s(4) by simp
  moreover have "in8 (hw sample_kenv) (io s) 0x60 = 0x1E" by (simp add: sample_kenv_def)
  moreover have "table_read (if kbd_shiftstate (kbdq s) AND KBD_SHIFT \<noteq> 0 then shift_scancodes else scancodes) 0x1E = Some 0x61"
    by (simp add: s(3) kbd_init_def table_read_def scancodes_def)
  moreover have "ucast (0x61 :: u8) \<notin> command_keys" by (simp add: command_keys_def)
  ultimately show ?thesis
    using typed_key_reaches_screen [OF sample_codes_ok s(2), of "boot_regs 33" "0x1E" "0x61" 0] s(1,5) by fastforce
qed

theorem cli_command_hangs_witness: "main_loop sample_kenv [Some, Some] (typed [0x48, 0x63]) = None"
proof -
  have q: "kbd_ok (kbdq (typed [0x48, 0x63]))" "kbd_list (kbdq (typed [0x48, 0x63])) = [0x48] @ [0x63]"
    by (simp_all add: typed_simps enqueue_ok enqueue_list) (simp add: kbd_init_def kbd_enqueue_def Let_def)
  have "\<forall>i < unat (net_num_devs (typed [0x48, 0x63])). needs_work (net_devs (typed [0x48, 0x63]) ! i) = 0" by (simp add: typed_simps)
  then show ?thesis by (rule cli_command_hangs [OF _ q(1) typed_simps(2) q(2)]) (simp add: command_keys_def)
qed

end
