(* ===== verification/Frog_Card.thy ===== *)
theory Frog_Card
  imports Frog_Ping Frog_Kernel
begin

text \<open>
  The start of a PCnet card in pcnet32.c: after \<^verbatim>\<open>probe_pcnet32\<close> the rings are what the theorems on transmission and
  reception assume.
\<close>

section \<open>Blocks of the rings\<close>

lemma alloc_exact:
  assumes "heap_ok s" "16 dvd unat n" "unat (high_mem s) + unat n < 0xC0C00000"
  shows "\<exists>m. alloc n 1 s = Some (high_mem s, s\<lparr>mem := m, high_mem := high_mem s + n\<rparr>) \<and> heap_ok (s\<lparr>mem := m, high_mem := high_mem s + n\<rparr>)
    \<and> (\<forall>x. x \<notin> heap_free s \<longrightarrow> m x = mem s x)"
proof -
  have h: "unat (hdr_size (mem s) (high_mem s)) = 0xC0C00000 - unat (high_mem s)" "0xC0100000 \<le> unat (high_mem s)"
    using assms(1) by (auto simp: heap_ok_def word_le_nat_alt)
  have n: "unat n < 0xC0C00000 - 0xC0100000" using assms(3) h(2) by linarith
  then have "n \<le> 0xFFFFFFF0" by (simp add: word_le_nat_alt)
  then have "unat (round_up n 16) = (unat n + 15) div 16 * 16" by (rule round_up_16_request(1))
  also have "\<dots> = unat n" using assms(2) by (auto elim!: dvdE)
  finally have r: "round_up n 16 = n" by (simp add: word_unat_eq_iff)
  have lt: "n < hdr_size (mem s) (high_mem s)" using h assms(3) by (simp add: word_less_nat_alt)
  have al: "alloc n 1 s = Some (alloc_front n (high_mem s) s)" using lt r by (simp add: alloc_one_block [OF assms(1)])
  obtain a s1 where s1: "alloc_front n (high_mem s) s = (a, s1)" by fastforce
  then have eq: "a = high_mem s" "s1 = s\<lparr>mem := mem s1, high_mem := high_mem s + n\<rparr>" by (auto simp: alloc_front_def Let_def)
  have "heap_ok s1" using alloc_front_ok(1) [OF assms(1) lt assms(2)] s1 by simp
  moreover have "\<forall>x. x \<notin> heap_free s \<longrightarrow> mem s1 x = mem s x" using alloc_front_frame [OF assms(1) lt assms(2)] s1 by simp
  ultimately show ?thesis using al s1 eq by (intro exI [of _ "mem s1"]) (metis (no_types))
qed

text \<open>A block whose address is stored into a field outside the free memory.\<close>

lemma pcnet32_block_ready:
  assumes "heap_ok s" "16 dvd unat n" "unat (high_mem s) + unat n < 0xC0C00000" "region field 4 \<inter> heap_free s = {}"
  shows "\<exists>m. pcnet32_block field n s = Some (high_mem s, s\<lparr>mem := m, high_mem := high_mem s + n\<rparr>)
    \<and> heap_ok (s\<lparr>mem := m, high_mem := high_mem s + n\<rparr>) \<and> load32 m field = high_mem s
    \<and> (\<forall>x. x \<notin> heap_free s \<longrightarrow> x \<notin> region field 4 \<longrightarrow> m x = mem s x)
    \<and> heap_free (s\<lparr>mem := m, high_mem := high_mem s + n\<rparr>) \<subseteq> heap_free s"
proof -
  obtain m where m: "alloc n 1 s = Some (high_mem s, s\<lparr>mem := m, high_mem := high_mem s + n\<rparr>)"
    "heap_ok (s\<lparr>mem := m, high_mem := high_mem s + n\<rparr>)" "\<forall>x. x \<notin> heap_free s \<longrightarrow> m x = mem s x"
    using alloc_exact [OF assms(1-3)] by blast
  let ?m = "store32 m field (high_mem s)"
  have "unat (high_mem s + n) = unat (high_mem s) + unat n" using assms(3) by (simp add: unat_word_ariths)
  then have sub: "heap_free (s\<lparr>mem := ?m, high_mem := high_mem s + n\<rparr>) \<subseteq> heap_free s"
    by (auto simp: heap_free_def word_le_nat_alt)
  have "heap_ok (s\<lparr>mem := ?m, high_mem := high_mem s + n\<rparr>)"
  proof (rule heap_ok_cong [OF m(2)])
    fix x assume "x \<in> heap_free (s\<lparr>mem := m, high_mem := high_mem s + n\<rparr>)"
    then have "x \<notin> region field 4" using sub assms(4) by (auto simp: heap_free_def simp del: in_region)
    then show "mem (s\<lparr>mem := ?m, high_mem := high_mem s + n\<rparr>) x = mem (s\<lparr>mem := m, high_mem := high_mem s + n\<rparr>) x" by (simp del: in_region)
  qed simp
  then show ?thesis using m(1,3) sub
    by (intro exI [of _ ?m]) (simp add: pcnet32_block_def del: in_region)
qed


text \<open>Two blocks at offsets from a common base.\<close>

lemma fields_apart:
  fixes k j :: addr
  assumes "unat k + n \<le> unat j \<or> unat j + l \<le> unat k" "unat k + n \<le> 2 ^ 32" "unat j + l \<le> 2 ^ 32"
  shows "region (p + k) n \<inter> region (p + j) l = {}"
  using assms by (auto simp: region_shift simp del: in_region)

lemma field_in_dev: "unat k + n \<le> 96 \<Longrightarrow> region (p + k) n \<subseteq> region p 96"
  by (rule region_sub)

lemma fields_within:
  fixes k j :: addr
  shows "unat j \<le> unat k \<Longrightarrow> unat k + n \<le> unat j + l \<Longrightarrow> unat j + l \<le> 2 ^ 32 \<Longrightarrow> region (p + k) n \<subseteq> region (p + j) l"
  by (auto simp: region_shift simp del: in_region)

section \<open>The rings\<close>

text \<open>The state when \<open>k\<close> bytes of the rings have been allocated: so far only free memory and the ring fields of the
  driver's structure have been written.\<close>

abbreviation ring_state :: "'a heap_scheme \<Rightarrow> nat \<Rightarrow> byte_mem \<Rightarrow> 'a heap_scheme" where
  "ring_state s k m \<equiv> s\<lparr>mem := m, high_mem := high_mem s + of_nat k\<rparr>"

definition ring_stage :: "'a heap_scheme \<Rightarrow> addr \<Rightarrow> nat \<Rightarrow> byte_mem \<Rightarrow> bool" where
  "ring_stage s dev k m \<longleftrightarrow> heap_ok (ring_state s k m)
     \<and> (\<forall>x. x \<notin> heap_free s \<longrightarrow> x \<notin> region (dev + 60) 24 \<longrightarrow> m x = mem s x)"

lemma ring_break:
  assumes "heap_ok s" "unat (high_mem s) + k < 0xC0C00000"
  shows "unat (high_mem s + of_nat k) = unat (high_mem s) + k" "high_mem s + of_nat k \<noteq> 0"
    "heap_free (ring_state s k m) \<subseteq> heap_free s" "region (high_mem s) k \<inter> heap_free (ring_state s k m) = {}"
    "region (high_mem s) k \<subseteq> heap_free s"
proof -
  have lo: "0xC0100000 \<le> unat (high_mem s)" using assms(1) by (simp add: heap_ok_def word_le_nat_alt)
  show u: "unat (high_mem s + of_nat k) = unat (high_mem s) + k"
    using assms(2) by (simp add: unat_word_ariths unat_of_nat)
  show "high_mem s + of_nat k \<noteq> 0" using u lo by (metis add_is_0 not_numeral_le_zero unat_0)
  show "heap_free (ring_state s k m) \<subseteq> heap_free s" using u by (auto simp: heap_free_def word_le_nat_alt)
  have abs: "unat (high_mem s) \<le> unat x \<and> unat x < unat (high_mem s) + k" if "x \<in> region (high_mem s) k" for x
    using region_absoluteD [OF that] assms(2) by simp
  have free: "x \<in> heap_free (ring_state s j m) \<longleftrightarrow> unat (high_mem s + of_nat j) \<le> unat x \<and> unat x < 0xC0C00000" for x j
    by (simp add: heap_free_def word_le_nat_alt word_less_nat_alt)
  show "region (high_mem s) k \<inter> heap_free (ring_state s k m) = {}"
    using abs free [of _ k] u by (metis disjoint_iff linorder_not_le)
  show "region (high_mem s) k \<subseteq> heap_free s"
  proof
    fix x assume "x \<in> region (high_mem s) k"
    note x = abs [OF this]
    have "high_mem s \<le> x" using x by (simp only: word_le_nat_alt)
    moreover have "unat x < unat (0xC0C00000 :: u32)" using x assms(2) by simp
    then have "x < 0xC0C00000" by (simp only: word_less_nat_alt)
    ultimately show "x \<in> heap_free s" by (simp add: heap_free_def)
  qed
qed

lemma ring_stage_block:
  assumes ok: "heap_ok s" and stage: "ring_stage s dev k m" and n: "16 dvd n" "unat (high_mem s) + (k + n) < 0xC0C00000"
    and f: "60 \<le> unat f" "unat f + 4 \<le> 84" and dev: "region dev 96 \<inter> heap_free s = {}"
  shows "\<exists>m'. pcnet32_block (dev + f) (of_nat n) (ring_state s k m) = Some (high_mem s + of_nat k, ring_state s (k + n) m')
    \<and> ring_stage s dev (k + n) m' \<and> load32 m' (dev + f) = high_mem s + of_nat k
    \<and> (\<forall>x. x \<notin> heap_free s \<longrightarrow> x \<notin> region (dev + f) 4 \<longrightarrow> m' x = m x)"
proof -
  let ?s = "ring_state s k m"
  have k: "unat (high_mem s) + k < 0xC0C00000" using n(2) by simp
  have un: "unat (of_nat n :: u32) = n" using n(2) by (simp add: unat_of_nat)
  have sub: "region (dev + f) 4 \<subseteq> region (dev + 60) 24" "region (dev + f) 4 \<subseteq> region dev 96"
    using f by (intro fields_within region_sub; simp)+
  have "\<exists>m'. pcnet32_block (dev + f) (of_nat n) ?s = Some (high_mem ?s, ?s\<lparr>mem := m', high_mem := high_mem ?s + of_nat n\<rparr>)
    \<and> heap_ok (?s\<lparr>mem := m', high_mem := high_mem ?s + of_nat n\<rparr>) \<and> load32 m' (dev + f) = high_mem ?s
    \<and> (\<forall>x. x \<notin> heap_free ?s \<longrightarrow> x \<notin> region (dev + f) 4 \<longrightarrow> m' x = mem ?s x)
    \<and> heap_free (?s\<lparr>mem := m', high_mem := high_mem ?s + of_nat n\<rparr>) \<subseteq> heap_free ?s"
  proof (rule pcnet32_block_ready)
    show "heap_ok ?s" using stage by (simp add: ring_stage_def)
    show "region (dev + f) 4 \<inter> heap_free ?s = {}" using dev sub(2) ring_break(3) [OF ok k, of m] by blast
    show "unat (high_mem ?s) + unat (of_nat n :: u32) < 0xC0C00000" using ring_break(1) [OF ok k] n(2) un by simp
  qed (use n(1) un in simp)
  then obtain m' where m': "pcnet32_block (dev + f) (of_nat n) ?s = Some (high_mem s + of_nat k, ring_state s (k + n) m')"
    "heap_ok (ring_state s (k + n) m')" "load32 m' (dev + f) = high_mem s + of_nat k"
    "\<forall>x. x \<notin> heap_free ?s \<longrightarrow> x \<notin> region (dev + f) 4 \<longrightarrow> m' x = m x"
    by (auto simp: add.assoc simp del: in_region)
  have same: "m' x = m x" if "x \<notin> heap_free s" "x \<notin> region (dev + f) 4" for x
    using that m'(4) ring_break(3) [OF ok k, of m] by (meson subsetD)
  have "m' x = mem s x" if "x \<notin> heap_free s" "x \<notin> region (dev + 60) 24" for x
  proof -
    have "x \<notin> region (dev + f) 4" using that(2) sub(1) by blast
    from same [OF that(1) this] show ?thesis using stage that by (simp add: ring_stage_def del: in_region)
  qed
  then have "ring_stage s dev (k + n) m'" using m'(2) by (simp add: ring_stage_def del: in_region)
  then show ?thesis using m'(1,3) same by blast
qed

lemma ring_stage_write:
  assumes ok: "heap_ok s" "unat (high_mem s) + k < 0xC0C00000" and stage: "ring_stage s dev k m"
    and dev: "region dev 96 \<inter> heap_free s = {}"
    and w: "\<And>x. x \<notin> region (high_mem s) k \<Longrightarrow> x \<notin> region (dev + 60) 24 \<Longrightarrow> m' x = m x"
  shows "ring_stage s dev k m'"
proof -
  have K: "region (dev + 60) 24 \<subseteq> region dev 96" by (rule region_sub) simp
  have "heap_ok (ring_state s k m')"
  proof (rule heap_ok_cong)
    show "heap_ok (ring_state s k m)" using stage by (simp add: ring_stage_def)
    fix x assume "x \<in> heap_free (ring_state s k m)"
    then have "x \<notin> region (high_mem s) k" "x \<notin> region (dev + 60) 24"
      using ring_break(3,4) [OF ok, of m] K dev by blast+
    then show "mem (ring_state s k m') x = mem (ring_state s k m) x" using w by simp
  qed simp
  moreover have "m' x = mem s x" if "x \<notin> heap_free s" "x \<notin> region (dev + 60) 24" for x
  proof -
    have "x \<notin> region (high_mem s) k" using that(1) ring_break(5) [OF ok] by blast
    from w [OF this that(2)] show ?thesis using stage that by (simp add: ring_stage_def del: in_region)
  qed
  ultimately show ?thesis by (simp add: ring_stage_def del: in_region)
qed

text \<open>The four blocks follow each other from the break on.\<close>

lemma pcnet32_rings_ready:
  assumes ok: "heap_ok s" and room: "unat (high_mem s) + 129280 < 0xC0C00000" and dev: "region dev 96 \<inter> heap_free s = {}"
  shows "\<exists>m. pcnet32_rings dev s = Some (True, ring_state s 129280 m) \<and> ring_stage s dev 129280 m
    \<and> rx_buffers m dev = high_mem s \<and> tx_buffers m dev = high_mem s + 102400
    \<and> rdes m dev = high_mem s + 128000 \<and> tdes m dev = high_mem s + 129024
    \<and> rx_buffer_count m dev = 64 \<and> tx_buffer_count m dev = 16 \<and> rx_buffer_ptr m dev = 0 \<and> tx_buffer_ptr m dev = 0"
proof -
  let ?F = "heap_free s"
  have fld: "region (dev + k) n \<inter> ?F = {}" if "unat k + n \<le> 96" for k n using field_in_dev [OF that, of dev] dev by blast
  have far: "region (dev + k) n \<inter> region (dev + j) l = {}" if "unat k + n \<le> unat j \<or> unat j + l \<le> unat k" "unat k + n \<le> 96" "unat j + l \<le> 96" for k j n l
    by (rule fields_apart) (use that in simp_all)
  have l16: "load16 m' (dev + k) = load16 m (dev + k)" if "\<forall>x. x \<notin> ?F \<longrightarrow> x \<notin> region (dev + f) 4 \<longrightarrow> m' x = m x"
    "unat k + 2 \<le> unat f \<or> unat f + 4 \<le> unat k" "unat k + 2 \<le> 96" "unat f + 4 \<le> 96" for m m' k f
    using that(1) fld [of k 2] far [of k 2 f 4] that(2-4) by (intro load16_cong) blast
  have l32: "load32 m' (dev + k) = load32 m (dev + k)" if "\<forall>x. x \<notin> ?F \<longrightarrow> x \<notin> region (dev + f) 4 \<longrightarrow> m' x = m x"
    "unat k + 4 \<le> unat f \<or> unat f + 4 \<le> unat k" "unat k + 4 \<le> 96" "unat f + 4 \<le> 96" for m m' k f
    using that(1) fld [of k 4] far [of k 4 f 4] that(2-4) by (intro load32_cong) blast
  note break = ring_break [OF ok]
  define m1 where "m1 = store16 (store16 (mem s) (dev + 64) 64) (dev + 60) 0"
  have c1: "load16 m1 (dev + 64) = 64" "load16 m1 (dev + 60) = 0"
    using far [of 60 2 64 2] by (simp_all add: m1_def load16_other)
  have K: "region (dev + k) n \<subseteq> region (dev + 60) 24" if "60 \<le> unat k" "unat k + n \<le> 84" for k n using that by (intro fields_within) simp_all
  have st1: "ring_stage s dev 0 m1"
  proof (rule ring_stage_write [OF ok _ _ dev])
    show "ring_stage s dev 0 (mem s)" using ok by (simp add: ring_stage_def)
    fix x assume "x \<notin> region (dev + 60) 24"
    then have "x \<notin> region (dev + 64) 2" "x \<notin> region (dev + 60) 2" using K [of 64 2] K [of 60 2] by auto
    then show "m1 x = mem s x" by (simp add: m1_def del: in_region)
  qed (use room in simp)
  obtain m2 where m2: "pcnet32_block (dev + 68) (of_nat 102400) (ring_state s 0 m1) = Some (high_mem s + of_nat 0, ring_state s (0 + 102400) m2)"
    "ring_stage s dev (0 + 102400) m2" "load32 m2 (dev + 68) = high_mem s + of_nat 0" "\<forall>x. x \<notin> ?F \<longrightarrow> x \<notin> region (dev + 68) 4 \<longrightarrow> m2 x = m1 x"
    using ring_stage_block [OF ok st1, of 102400 68] dev room by auto
  define m3 where "m3 = store16 (store16 (memset (high_mem s) 0 102400 m2) (dev + 66) 16) (dev + 62) 0"
  have m3: "m3 x = m2 x" if "x \<notin> region (high_mem s) 102400" "x \<notin> region (dev + 66) 2" "x \<notin> region (dev + 62) 2" for x
    using that by (simp add: m3_def memset_apply del: in_region)
  have st3: "ring_stage s dev 102400 m3"
  proof (rule ring_stage_write [OF ok _ _ dev])
    show "ring_stage s dev 102400 m2" using m2(2) by simp
    fix x assume "x \<notin> region (high_mem s) 102400" "x \<notin> region (dev + 60) 24"
    then show "m3 x = m2 x" using K [of 66 2] K [of 62 2] by (intro m3) auto
  qed (use room in simp)
  have keep: "m3 x = m2 x" if "x \<in> region (dev + k) n" "unat k + n \<le> 96" "unat k + n \<le> 62 \<or> 64 \<le> unat k" "unat k + n \<le> 66 \<or> 68 \<le> unat k" for x k n
    using that fld [OF that(2)] break(5) [of 102400] far [of k n 66 2] far [of k n 62 2] room by (intro m3) (auto simp del: in_region)
  have c3: "load16 m3 (dev + 64) = 64" "load16 m3 (dev + 60) = 0" "load16 m3 (dev + 66) = 16" "load16 m3 (dev + 62) = 0"
    "load32 m3 (dev + 68) = high_mem s"
  proof -
    have "load16 m3 (dev + k) = load16 m1 (dev + k)" if "k = 64 \<or> k = 60" for k
    proof -
      have "load16 m3 (dev + k) = load16 m2 (dev + k)" using that by (intro load16_cong keep) auto
      also have "\<dots> = load16 m1 (dev + k)" using that by (intro l16 [OF m2(4)]) auto
      finally show ?thesis .
    qed
    from this [of 64] this [of 60] show "load16 m3 (dev + 64) = 64" "load16 m3 (dev + 60) = 0" using c1 by simp_all
    show "load16 m3 (dev + 66) = 16" "load16 m3 (dev + 62) = 0"
      using far [of 62 2 66 2] by (simp_all add: m3_def load16_other)
    have "load32 m3 (dev + 68) = load32 m2 (dev + 68)" by (intro load32_cong keep) auto
    then show "load32 m3 (dev + 68) = high_mem s" using m2(3) by simp
  qed
  obtain m4 where m4: "pcnet32_block (dev + 72) (of_nat 25600) (ring_state s 102400 m3) = Some (high_mem s + of_nat 102400, ring_state s (102400 + 25600) m4)"
    "ring_stage s dev (102400 + 25600) m4" "load32 m4 (dev + 72) = high_mem s + of_nat 102400" "\<forall>x. x \<notin> ?F \<longrightarrow> x \<notin> region (dev + 72) 4 \<longrightarrow> m4 x = m3 x"
    using ring_stage_block [OF ok st3, of 25600 72] dev room by auto
  obtain m5 where m5: "pcnet32_block (dev + 76) (of_nat 1024) (ring_state s (102400 + 25600) m4) = Some (high_mem s + of_nat (102400 + 25600), ring_state s (102400 + 25600 + 1024) m5)"
    "ring_stage s dev (102400 + 25600 + 1024) m5" "load32 m5 (dev + 76) = high_mem s + of_nat (102400 + 25600)" "\<forall>x. x \<notin> ?F \<longrightarrow> x \<notin> region (dev + 76) 4 \<longrightarrow> m5 x = m4 x"
    using ring_stage_block [OF ok m4(2), of 1024 76] dev room by auto
  obtain m6 where m6: "pcnet32_block (dev + 80) (of_nat 256) (ring_state s (102400 + 25600 + 1024) m5) = Some (high_mem s + of_nat (102400 + 25600 + 1024), ring_state s (102400 + 25600 + 1024 + 256) m6)"
    "ring_stage s dev (102400 + 25600 + 1024 + 256) m6" "load32 m6 (dev + 80) = high_mem s + of_nat (102400 + 25600 + 1024)" "\<forall>x. x \<notin> ?F \<longrightarrow> x \<notin> region (dev + 80) 4 \<longrightarrow> m6 x = m5 x"
    using ring_stage_block [OF ok m5(2), of 256 80] dev room by auto
  have c6: "load16 m6 (dev + k) = load16 m3 (dev + k)" "load16 m5 (dev + k) = load16 m3 (dev + k)" "load16 m4 (dev + k) = load16 m3 (dev + k)" if "unat k \<le> 66" for k
    using that l16 [OF m6(4), of k] l16 [OF m5(4), of k] l16 [OF m4(4), of k] by simp_all
  have p6: "load32 m6 (dev + 68) = high_mem s" "load32 m6 (dev + 72) = high_mem s + 102400" "load32 m6 (dev + 76) = high_mem s + 128000"
    "load32 m6 (dev + 80) = high_mem s + 129024"
    using l32 [OF m6(4), of 68] l32 [OF m5(4), of 68] l32 [OF m4(4), of 68] c3(5) l32 [OF m6(4), of 72] l32 [OF m5(4), of 72] m4(3)
      l32 [OF m6(4), of 76] m5(3) m6(3) by simp_all
  note nz = break(2) [of 0] break(2) [of 102400] break(2) [of 128000] break(2) [of 129024]
  note rd = rx_buffer_count_def tx_buffer_count_def rx_buffers_def tx_buffers_def rdes_def tdes_def rx_buffer_ptr_def tx_buffer_ptr_def
  have m2_68: "load32 m2 (dev + 68) = high_mem s" and m2_64: "load16 m2 (dev + 64) = 64" using m2(3) l16 [OF m2(4), of 64] c1 by simp_all
  have swap: "s\<lparr>high_mem := h, mem := m\<rparr> = s\<lparr>mem := m, high_mem := h\<rparr>" for h m by simp
  have "pcnet32_rings dev s = Some (True, ring_state s 129280 m6)"
    unfolding pcnet32_rings_def using room nz m2(1) m4(1) m5(1) m6(1)
    by (simp add: Let_def rd m1_def [symmetric] c1 m2_68 m2_64 m3_def [symmetric] c3 c6 swap)
  then show ?thesis using m6(2) p6 c6 c3 by (intro exI [of _ m6]) (simp add: rd)
qed

section \<open>The descriptors\<close>

text \<open>The page tables lie in the last 4 MB.\<close>

lemma get_physaddr_cong:
  assumes "\<And>x. 0xFFC00000 \<le> x \<Longrightarrow> m' x = m x"
  shows "get_physaddr m' va = get_physaddr m va"
proof -
  have at: "load32 m' a = load32 m a" if "0xFFC00000 \<le> unat a" "unat a + 4 \<le> 2 ^ 32" for a
  proof (rule load32_cong)
    fix x assume "x \<in> region a 4"
    then have "unat a \<le> unat x" using region_absoluteD [of x a 4] that(2) by simp
    then show "m' x = m x" using that(1) by (intro assms) (simp add: word_le_nat_alt)
  qed
  have b: "unat (drop_bit 22 va) < 0x400" "unat (drop_bit 12 va AND 0x3FF) < 0x400" by (rule index_bounds)+
  have "unat (0xFFFFF000 + 4 * drop_bit 22 va) = 0xFFFFF000 + 4 * unat (drop_bit 22 va)"
    using b by (simp add: unat_word_ariths)
  then have pd: "load32 m' (0xFFFFF000 + 4 * drop_bit 22 va) = load32 m (0xFFFFF000 + 4 * drop_bit 22 va)" using b by (intro at) simp_all
  have "unat (0xFFC00000 + 4 * (0x400 * drop_bit 22 va) + 4 * (drop_bit 12 va AND 0x3FF))
      = 0xFFC00000 + 0x1000 * unat (drop_bit 22 va) + 4 * unat (drop_bit 12 va AND 0x3FF)"
    using b by (simp add: unat_word_ariths)
  then have "load32 m' (0xFFC00000 + 4 * (0x400 * drop_bit 22 va) + 4 * (drop_bit 12 va AND 0x3FF))
      = load32 m (0xFFC00000 + 4 * (0x400 * drop_bit 22 va) + 4 * (drop_bit 12 va AND 0x3FF))" using b by (intro at) simp_all
  with pd show ?thesis by (simp add: get_physaddr_def Let_def)
qed

lemma get_physaddr_kept:
  assumes "\<And>x. x \<in> A \<Longrightarrow> x < 0xFFC00000" "\<And>x. x \<notin> A \<Longrightarrow> m' x = m x"
  shows "get_physaddr m' = get_physaddr m"
proof
  fix va show "get_physaddr m' va = get_physaddr m va"
  proof (rule get_physaddr_cong)
    fix x :: addr assume "0xFFC00000 \<le> x"
    then have "x \<notin> A" using assms(1) [of x] by fastforce
    then show "m' x = m x" by (rule assms(2))
  qed
qed

text \<open>An entry as the card wants it: the physical address of its buffer, the length of the buffer, and the byte with the
  ownership bit.\<close>

definition de_set :: "(addr \<Rightarrow> addr) \<Rightarrow> addr \<Rightarrow> addr \<Rightarrow> u8 \<Rightarrow> byte_mem \<Rightarrow> nat \<Rightarrow> bool" where
  "de_set phys des buf own m i \<longleftrightarrow> load32 m (cell des 16 i) = phys (cell buf 1600 i)
     \<and> bcnt_length (load16 m (cell des 16 i + 4)) = 1600 \<and> m (cell des 16 i + 7) = own"

lemma de_set_cong: "(\<And>x. x \<in> region (cell des 16 i) 16 \<Longrightarrow> m' x = m x) \<Longrightarrow> de_set phys des buf own m' i = de_set phys des buf own m i"
proof -
  assume same: "\<And>x. x \<in> region (cell des 16 i) 16 \<Longrightarrow> m' x = m x"
  have "load32 m' (cell des 16 i) = load32 m (cell des 16 i)" by (intro load32_cong same) simp
  moreover have "load16 m' (cell des 16 i + 4) = load16 m (cell des 16 i + 4)"
    using region_sub [of 4 2 16 "cell des 16 i"] by (intro load16_cong same) auto
  moreover have "m' (cell des 16 i + 7) = m (cell des 16 i + 7)" using own_in_cell by (rule same)
  ultimately show ?thesis by (simp add: de_set_def)
qed

lemma initialize_de_effect:
  assumes i: "i < 65536" and fields: "(if is_tx then tdes m dev else rdes m dev) = des" "(if is_tx then tx_buffers m dev else rx_buffers m dev) = buf"
    and tables: "\<And>x. x \<in> region (cell des 16 i) 16 \<Longrightarrow> x < 0xFFC00000"
  shows "de_set (get_physaddr m) des buf (if is_tx then 0 else 0x80) (pcnet32_initialize_de dev (of_nat i) is_tx m) i"
    "x \<notin> region (cell des 16 i) 16 \<Longrightarrow> pcnet32_initialize_de dev (of_nat i) is_tx m x = m x"
proof -
  let ?d = "cell des 16 i"
  have ui: "unat (of_nat i :: u16) = i" using i by (simp add: unat_of_nat)
  define m1 where "m1 = memset ?d 0 16 m"
  define m2 where "m2 = store32 m1 ?d (get_physaddr m1 (cell buf 1600 i))"
  define m3 where "m3 = store16 m2 (?d + 4) ((- 1600 AND 0x0FFF) OR 0xF000)"
  have eq: "pcnet32_initialize_de dev (of_nat i) is_tx m = (if is_tx then m3 else m3(?d + 7 := 0x80))"
    using fields by (cases is_tx) (simp_all add: pcnet32_initialize_de_def Let_def entry_addresses [OF ui] m1_def m2_def m3_def)
  have "m1 x = m x" if "0xFFC00000 \<le> x" for x
  proof -
    have "x \<notin> region ?d 16" using tables [of x] that by fastforce
    then show ?thesis by (simp add: m1_def memset_apply del: in_region)
  qed
  then have "get_physaddr m1 va = get_physaddr m va" for va by (rule get_physaddr_cong)
  then have base: "m2 = store32 m1 ?d (get_physaddr m (cell buf 1600 i))" by (simp add: m2_def)
  have "x \<notin> region ?d 4" if "x \<in> region (?d + 4) 2" for x using that by (simp add: region_shift del: in_region) simp
  then have far: "region (?d + 4) 2 \<inter> region ?d 4 = {}" by blast
  have near: "?d + 7 \<notin> region (?d + 4) 2" "?d + 7 \<notin> region ?d 4" "?d + 7 \<in> region ?d 16" "?d + 7 \<notin> region (?d + 4) 2"
    by (simp_all add: region_shift del: in_region) (simp_all add: add_diff_eq [symmetric])
  have own: "m3 (?d + 7) = 0" using near by (simp add: m3_def m2_def m1_def memset_apply del: in_region)
  have len: "load16 m3 (?d + 4) = bcnt 1600" by (simp add: m3_def bcnt_def)
  have adr: "load32 m3 ?d = get_physaddr m (cell buf 1600 i)"
  proof -
    have "load32 m3 ?d = load32 m2 ?d" unfolding m3_def
    proof (rule load32_cong)
      fix x assume "x \<in> region ?d 4"
      then have "x \<notin> region (?d + 4) 2" using far by blast
      then show "store16 m2 (?d + 4) ((- 1600 AND 0x0FFF) OR 0xF000) x = m2 x" by (rule store16_same)
    qed
    then show ?thesis by (simp add: base)
  qed
  have "de_set (get_physaddr m) des buf 0 m3 i" using adr len own by (simp add: de_set_def bcnt_roundtrip)
  moreover have "load32 (m3(?d + 7 := 0x80)) ?d = load32 m3 ?d" using near by (intro load32_cong) auto
  moreover have "load16 (m3(?d + 7 := 0x80)) (?d + 4) = load16 m3 (?d + 4)" using near by (intro load16_cong) auto
  ultimately show "de_set (get_physaddr m) des buf (if is_tx then 0 else 0x80) (pcnet32_initialize_de dev (of_nat i) is_tx m) i"
    by (simp add: eq de_set_def)
  show "pcnet32_initialize_de dev (of_nat i) is_tx m x = m x" if "x \<notin> region ?d 16"
  proof -
    have "x \<notin> region (?d + 4) 2" "x \<notin> region ?d 4" "x \<noteq> ?d + 7"
      using that region_sub [of 4 2 16 ?d] region_mono [of 4 16 ?d] near(3) by auto
    then show ?thesis using that by (simp add: eq m3_def m2_def m1_def memset_apply del: in_region)
  qed
qed

lemma initialize_ring:
  assumes n: "n \<le> N" "N \<le> 64" and sep: "region des (16 * N) \<inter> region dev 96 = {}"
    and fields: "(if is_tx then tdes m dev else rdes m dev) = des" "(if is_tx then tx_buffers m dev else rx_buffers m dev) = buf"
    and tables: "\<And>x. x \<in> region des (16 * N) \<Longrightarrow> x < 0xFFC00000"
  shows "(\<forall>i < n. de_set (get_physaddr m) des buf (if is_tx then 0 else 0x80)
      (fold (\<lambda>i. pcnet32_initialize_de dev (of_nat i) is_tx) [0..<n] m) i)
    \<and> (\<forall>x. x \<notin> region des (16 * N) \<longrightarrow> fold (\<lambda>i. pcnet32_initialize_de dev (of_nat i) is_tx) [0..<n] m x = m x)"
  using n(1)
proof (induction n)
  case (Suc n)
  define m' where "m' = fold (\<lambda>i. pcnet32_initialize_de dev (of_nat i) is_tx) [0..<n] m"
  have IH: "\<And>i. i < n \<Longrightarrow> de_set (get_physaddr m) des buf (if is_tx then 0 else 0x80) m' i"
    "\<And>x. x \<notin> region des (16 * N) \<Longrightarrow> m' x = m x" using Suc by (simp_all add: m'_def del: in_region)
  have cell: "region (cell des 16 i) 16 \<subseteq> region des (16 * N)" if "i < N" for i using that n(2) by (intro cell_subset) auto
  have same: "m' x = m x" if "x \<in> region dev 96" for x using that sep IH(2) [of x] by blast
  have f: "load32 m' (dev + k) = load32 m (dev + k)" if "unat k + 4 \<le> 96" for k
    using same field_in_dev [OF that, of dev] by (intro load32_cong) blast
  have "(if is_tx then tdes m' dev else rdes m' dev) = des" "(if is_tx then tx_buffers m' dev else rx_buffers m' dev) = buf"
    using fields f [of 80] f [of 76] f [of 72] f [of 68] by (cases is_tx; simp add: tdes_def rdes_def tx_buffers_def rx_buffers_def)+
  note step = initialize_de_effect [OF _ this, of n]
  have tab: "x < 0xFFC00000" if "x \<in> region (cell des 16 n) 16" for x using that cell [of n] Suc.prems tables by auto
  have phys: "get_physaddr m' = get_physaddr m" using tables IH(2) by (rule get_physaddr_kept)
  have n64: "n < 65536" using Suc.prems n(2) by simp
  have new: "de_set (get_physaddr m) des buf (if is_tx then 0 else 0x80) (pcnet32_initialize_de dev (of_nat n) is_tx m') n"
    using step(1) [OF n64 tab] unfolding phys .
  have out: "pcnet32_initialize_de dev (of_nat n) is_tx m' x = m' x" if "x \<notin> region (cell des 16 n) 16" for x
    using step(2) [OF n64 tab that] .
  have eq: "fold (\<lambda>i. pcnet32_initialize_de dev (of_nat i) is_tx) [0..<Suc n] m = pcnet32_initialize_de dev (of_nat n) is_tx m'"
    by (simp add: m'_def)
  have "de_set (get_physaddr m) des buf (if is_tx then 0 else 0x80) (pcnet32_initialize_de dev (of_nat n) is_tx m') i" if "i < Suc n" for i
  proof (cases "i = n")
    case False
    have "region (cell des 16 i) 16 \<inter> region (cell des 16 n) 16 = {}"
      using False that Suc.prems n(2) by (intro cells_disjoint [of 16 N]) auto
    then have "de_set (get_physaddr m) des buf (if is_tx then 0 else 0x80) (pcnet32_initialize_de dev (of_nat n) is_tx m') i
      = de_set (get_physaddr m) des buf (if is_tx then 0 else 0x80) m' i"
      by (intro de_set_cong out) blast
    then show ?thesis using IH(1) [of i] False that by simp
  qed (use new in simp)
  moreover have "pcnet32_initialize_de dev (of_nat n) is_tx m' x = m x" if "x \<notin> region des (16 * N)" for x
  proof -
    have "x \<notin> region (cell des 16 n) 16" using that cell [of n] Suc.prems by auto
    from out [OF this] show ?thesis using IH(2) [OF that] by simp
  qed
  ultimately show ?case unfolding eq by blast
qed simp

lemma pcnet32_descriptors_ready:
  assumes f: "rdes m dev = rd" "rx_buffers m dev = rb" "tdes m dev = td" "tx_buffers m dev = tb"
    "rx_buffer_count m dev = 64" "tx_buffer_count m dev = 16"
    and sep: "region rd 1024 \<inter> region dev 96 = {}" "region td 256 \<inter> region dev 96 = {}" "region rd 1024 \<inter> region td 256 = {}"
    and tables: "\<And>x. x \<in> region rd 1024 \<union> region td 256 \<Longrightarrow> x < 0xFFC00000"
  shows "(\<forall>i < 64. de_set (get_physaddr m) rd rb 0x80 (pcnet32_descriptors dev m) i)
    \<and> (\<forall>i < 16. de_set (get_physaddr m) td tb 0 (pcnet32_descriptors dev m) i)
    \<and> (\<forall>x. x \<notin> region rd 1024 \<union> region td 256 \<longrightarrow> pcnet32_descriptors dev m x = m x)"
proof -
  define m1 where "m1 = fold (\<lambda>i. pcnet32_initialize_de dev (of_nat i) False) [0..<64] m"
  define m2 where "m2 = fold (\<lambda>i. pcnet32_initialize_de dev (of_nat i) True) [0..<16] m1"
  have 1: "\<And>i. i < 64 \<Longrightarrow> de_set (get_physaddr m) rd rb 0x80 m1 i" "\<And>x. x \<notin> region rd 1024 \<Longrightarrow> m1 x = m x"
    using initialize_ring [of 64 64 rd dev False m rb] f(1,2) sep(1) tables unfolding m1_def by (simp_all del: in_region)
  have same: "m1 x = m x" if "x \<in> region dev 96" for x using that sep(1) 1(2) [of x] by blast
  have f1: "tdes m1 dev = td" "tx_buffers m1 dev = tb" "tx_buffer_count m1 dev = 16"
    using tx_fields_cong [of dev m1 m] same f by simp_all
  have phys: "get_physaddr m1 = get_physaddr m" using tables 1(2) by (intro get_physaddr_kept [of "region rd 1024"]) blast+
  have 2: "\<And>i. i < 16 \<Longrightarrow> de_set (get_physaddr m) td tb 0 m2 i" "\<And>x. x \<notin> region td 256 \<Longrightarrow> m2 x = m1 x"
    using initialize_ring [of 16 16 td dev True m1 tb] f1 sep(2) tables unfolding m2_def phys by (simp_all del: in_region)
  have "de_set (get_physaddr m) rd rb 0x80 m2 i" if "i < 64" for i
  proof -
    have "region (cell rd 16 i) 16 \<subseteq> region rd 1024" using cell_subset [of 16 64 i rd] that by simp
    then have "de_set (get_physaddr m) rd rb 0x80 m2 i = de_set (get_physaddr m) rd rb 0x80 m1 i"
      using sep(3) by (intro de_set_cong 2(2)) blast
    then show ?thesis using 1(1) [OF that] by simp
  qed
  moreover have "pcnet32_descriptors dev m = m2" using f(5) f1(3) by (simp add: pcnet32_descriptors_def Let_def m1_def m2_def)
  ultimately show ?thesis using 1(2) 2 by (simp del: in_region)
qed

text \<open>The initialisation block tells the card where its rings are.\<close>

definition card_block :: "(addr \<Rightarrow> addr) \<Rightarrow> u8 list \<Rightarrow> addr \<Rightarrow> addr \<Rightarrow> addr \<Rightarrow> byte_mem \<Rightarrow> bool" where
  "card_block phys mac rd td r m \<longleftrightarrow> load16 m r = 0 \<and> m (r + 2) = 0x60 \<and> m (r + 3) = 0x40 \<and> bytes_at m (r + 4) 6 = mac
     \<and> load32 m (r + 20) = phys rd \<and> load32 m (r + 24) = phys td"

lemma pcnet32_card_reg_block:
  assumes mac: "length mac = 6" and f: "rdes m dev = rd" "tdes m dev = td"
    and tables: "\<And>x. x \<in> region dev 96 \<Longrightarrow> x < 0xFFC00000"
  shows "card_block (get_physaddr m) mac rd td (dev + 32) (pcnet32_card_reg mac dev m)
    \<and> (\<forall>x. x \<notin> region (dev + 32) 28 \<longrightarrow> pcnet32_card_reg mac dev m x = m x)"
proof -
  define r where "r = dev + 32"
  have dr: "region r 28 \<subseteq> region dev 96" unfolding r_def by (rule region_sub) simp
  obtain a b c d e g where h: "mac = [a, b, c, d, e, g]" using mac by (auto simp: eval_nat_numeral length_Suc_conv)
  define m6 where "m6 = memset (r + 12) 0xFF 8 (store16 (store_list (r + 4) mac ((store16 m r 0)(r + 2 := 0x60, r + 3 := 0x40))) (r + 10) 0)"
  have phys: "get_physaddr m' = get_physaddr m" if "\<And>x. x \<notin> region r 28 \<Longrightarrow> m' x = m x" for m'
    using tables dr that by (intro get_physaddr_kept [of "region r 28"]) blast+
  have o: "x \<noteq> r + k" if "x \<notin> region r 28" "unat k < 28" for x k using that by auto
  have m6: "m6 x = m x" if "x \<notin> region r 28" for x
  proof -
    have "x \<notin> region (r + 12) 8" using that region_sub [of 12 8 28 r] by auto
    then show ?thesis using o [OF that, of 0] o [OF that, of 1] o [OF that, of 2] o [OF that, of 3] o [OF that, of 4] o [OF that, of 5]
      o [OF that, of 6] o [OF that, of 7] o [OF that, of 8] o [OF that, of 9] o [OF that, of 10] o [OF that, of 11]
      by (simp add: m6_def memset_apply h store16_apply add.assoc del: in_region)
  qed
  define m7 where "m7 = store32 m6 (r + 20) (get_physaddr m rd)"
  define m8 where "m8 = store32 m7 (r + 24) (get_physaddr m td)"
  have r20: "region (r + 20) 4 \<subseteq> region r 28" and r24: "region (r + 24) 4 \<subseteq> region r 28" by (rule region_sub, simp)+
  have m7: "m7 x = m x" if "x \<notin> region r 28" for x
  proof -
    have "x \<notin> region (r + 20) 4" using that r20 by blast
    then show ?thesis using m6 [OF that] by (simp add: m7_def del: in_region)
  qed
  have m8: "m8 x = m x" if "x \<notin> region r 28" for x
  proof -
    have "x \<notin> region (r + 24) 4" using that r24 by blast
    then show ?thesis using m7 [OF that] by (simp add: m8_def del: in_region)
  qed
  have f': "rdes m' dev = rd" "tdes m' dev = td" if "\<And>x. x \<notin> region r 28 \<Longrightarrow> m' x = m x" for m'
  proof -
    have "region (dev + k) 4 \<inter> region r 28 = {}" if "k = 76 \<or> k = 80" for k
      unfolding r_def using that by (elim disjE) (simp_all add: fields_apart)
    then have "load32 m' (dev + k) = load32 m (dev + k)" if "k = 76 \<or> k = 80" for k
      using that \<open>\<And>x. x \<notin> region r 28 \<Longrightarrow> m' x = m x\<close> by (intro load32_cong) blast
    from this [of 76] this [of 80] show "rdes m' dev = rd" "tdes m' dev = td" using f by (simp_all add: rdes_def tdes_def)
  qed
  have "pcnet32_card_reg mac dev m = m8"
    unfolding pcnet32_card_reg_def r_def [symmetric] using phys [OF m6] phys [OF m7] f' [OF m6] f' [OF m7]
    by (simp add: Let_def m6_def [symmetric] m7_def [symmetric] m8_def [symmetric])
  moreover have "load32 m8 (r + 20) = get_physaddr m rd"
  proof -
    have "region (r + 24) 4 \<inter> region (r + 20) 4 = {}" using fields_apart [of 24 4 20 4 r] by simp
    then show ?thesis unfolding m8_def by (simp add: load32_store32_disjoint m7_def)
  qed
  moreover have "load32 m8 (r + 24) = get_physaddr m td" by (simp add: m8_def)
  moreover have at: "m8 (r + k) = store_list (r + 4) mac ((store16 m r 0)(r + 2 := 0x60, r + 3 := 0x40)) (r + k)" if "unat k < 10" for k
  proof -
    have "m8 (r + k) = m6 (r + k)" using that by (simp add: m8_def m7_def region_shift del: in_region)
    also have "\<dots> = store_list (r + 4) mac ((store16 m r 0)(r + 2 := 0x60, r + 3 := 0x40)) (r + k)"
      using that by (simp add: m6_def memset_apply region_shift del: in_region)
    finally show ?thesis .
  qed
  moreover have "load16 m8 r = 0" using at [of 0] at [of 1] by (simp add: load16_def h store16_apply add.assoc)
  moreover have "m8 (r + 2) = 0x60" "m8 (r + 3) = 0x40" using at [of 2] at [of 3] by (simp_all add: h add.assoc)
  moreover have "bytes_at m8 (r + 4) 6 = mac"
  proof -
    have "m8 (r + 4 + of_nat i) = mac ! i" if "i < 6" for i
    proof -
      have u: "unat (of_nat i :: addr) = i" using that by (simp add: unat_of_nat)
      then have "unat (4 + of_nat i :: addr) < 10" using that by (simp add: unat_word_ariths)
      from at [OF this] show ?thesis using that mac u by (simp add: store_list_apply add.assoc [symmetric] Let_def)
    qed
    then show ?thesis using mac by (intro nth_equalityI) simp_all
  qed
  ultimately show ?thesis using m8 unfolding r_def [symmetric] by (simp add: card_block_def del: in_region)
qed

section \<open>The start of the card\<close>

text \<open>The lines stay in order when the break moves up.\<close>

lemma irq_ready_grow:
  assumes "pic_device pic" "irq_ready pic L s" "heap_ok s'" "heap_free s' \<subseteq> heap_free s" "irq_handlers s' = irq_handlers s"
    and "io s' = io s @ evs" "list_all pic_apart evs" "con_ok s'" "\<And>n x. n \<in> nodes L \<Longrightarrow> x \<in> region n 12 \<Longrightarrow> mem s' x = mem s x"
  shows "irq_ready pic L s'"
proof -
  have lines: "lines_ok pic s L" using assms(2) by (simp add: irq_ready_def)
  have "lines_ok pic s' L"
  proof (rule lines_ok_cong [OF assms(1) lines assms(5-7)])
    fix n assume "n \<in> nodes L"
    then show "h_next (mem s') n = h_next (mem s) n" using handler_fields_cong [of n "mem s'" "mem s"] assms(9) by blast
  qed
  then show ?thesis using assms(2-4,8) unfolding irq_ready_def by blast
qed

lemma rings_irq_ready:
  fixes s :: "'a irq_scheme"
  assumes "pic_device pic" "irq_ready pic L s" "ring_stage s dev k m" "unat (high_mem s) + k < 0xC0C00000"
    and dev: "\<And>n. n \<in> nodes L \<Longrightarrow> region n 12 \<inter> region dev 96 = {}"
  shows "irq_ready pic L (ring_state s k m)"
proof (rule irq_ready_grow [OF assms(1,2), where evs = "[]"])
  have heap: "heap_ok s" using assms(2) by (simp add: irq_ready_def)
  show "heap_ok (ring_state s k m)" using assms(3) by (simp add: ring_stage_def)
  show "heap_free (ring_state s k m) \<subseteq> heap_free s" using ring_break(3) [OF heap assms(4)] .
  show "con_ok (ring_state s k m)" using assms(2) by (simp add: irq_ready_def con_ok_def)
  fix n x assume n: "n \<in> nodes L" "x \<in> region n 12"
  have "region (dev + 60) 24 \<subseteq> region dev 96" by (rule region_sub) simp
  then have "x \<notin> heap_free s" "x \<notin> region (dev + 60) 24" using assms(2) dev [OF n(1)] n unfolding irq_ready_def by blast+
  then show "mem (ring_state s k m) x = mem s x" using assms(3) by (simp add: ring_stage_def del: in_region)
qed simp_all

text \<open>The register writes lie outside the interrupt controllers and the wait ends at once.\<close>

definition csr_write :: "u16 \<Rightarrow> u16 \<Rightarrow> u32 \<Rightarrow> io_event list" where
  "csr_write ioa index v = [OutL (ioa + 0x14) (ucast index), OutL (ioa + 0x10) v]"

lemma dwio_write_csr_io: "dwio_write_csr ioa index v s = s\<lparr>io := io s @ csr_write ioa index v\<rparr>"
  by (simp add: dwio_write_csr_def csr_write_def outportl_def)

lemma ioa_apart: "0x100 \<le> ioa \<Longrightarrow> ioa \<le> 0xFFE0 \<Longrightarrow> unat k \<le> 0x1C \<Longrightarrow> 0x100 \<le> ioa + (k :: u16)"
proof -
  assume a: "0x100 \<le> ioa" "ioa \<le> 0xFFE0" "unat k \<le> 0x1C"
  then have "unat (ioa + k) = unat ioa + unat k" by (simp add: word_le_nat_alt unat_word_ariths)
  then show ?thesis using a(1) by (simp add: word_le_nat_alt)
qed

lemma csr_apart: "0x100 \<le> ioa \<Longrightarrow> ioa \<le> 0xFFE0 \<Longrightarrow> list_all pic_apart (csr_write ioa index v) \<and> pic_apart (OutL (ioa + 0x14) w)"
  by (simp add: csr_write_def ioa_apart)

lemma pcnet32_wait_once: "pcnet32_wait rd ioa s = Some (s\<lparr>io := io s @ [OutL (ioa + 0x14) 0]\<rparr>)"
  by (subst pcnet32_wait.simps) (simp add: dwio_read_csr_def Let_def outportl_def)

lemma render_running: "render safe m (cbytes '' running'') [] = Some (chars '' running'')"
  by (simp add: render_defs)

text \<open>The memory after the descriptors, the initialisation block and the handler structure.\<close>

definition card_memory :: "env \<Rightarrow> nat \<Rightarrow> u8 list \<Rightarrow> addr \<Rightarrow> byte_mem \<Rightarrow> byte_mem" where
  "card_memory e netdev mac dev m = store32 (store32 (store32 (pcnet32_card_reg mac dev (pcnet32_descriptors dev m))
     (dev + 8) (irq_code e)) (dev + 12) (net_devs_at e + 40 * of_nat netdev)) (dev + 16) 0"

lemma install_io: "install_irq_handler pic i h s = Some s' \<Longrightarrow> \<exists>es. io s' = io s @ es"
  by (auto simp: install_irq_handler_def irq_clear_mask_def Let_def disable_def enable_def outportb_def split: if_splits)

text \<open>What the card is told when it is started: the physical address of the initialisation block, the features, initialise
  (with one read of the status), stop the initialisation, and, after the installation of the handler (events \<open>ei\<close>), start with interrupts.\<close>

definition start_writes :: "u16 \<Rightarrow> u32 \<Rightarrow> io_event list \<Rightarrow> io_event list" where
  "start_writes ioa p ei = csr_write ioa 1 (p AND 0xFFFF) @ csr_write ioa 2 (drop_bit 16 p) @ csr_write ioa 4 0x915 @ csr_write ioa 0 1
     @ [OutL (ioa + 0x14) 0] @ csr_write ioa 0 4 @ ei @ csr_write ioa 0 0x42"

lemma pcnet32_start_runs:
  fixes s :: "'a net_scheme"
  assumes pic: "pic_device (in8 e)" and ready: "irq_ready (in8 e) L s" and intr: "unat intr < 18" and lb: "local_byte e \<noteq> 0"
    and ioa: "0x100 \<le> ioa" "ioa \<le> 0xFFE0" and nz: "dev + 8 \<noteq> 0"
    and dev: "region dev 96 \<inter> heap_free s = {}" "region dev 96 \<inter> region video 4000 = {}" "\<And>n. n \<in> nodes L \<Longrightarrow> region n 12 \<inter> region dev 96 = {}"
    and mem: "\<And>x. x \<in> heap_free s \<or> (\<exists>n \<in> nodes L. x \<in> region n 12) \<Longrightarrow> card_memory e netdev (hw_addr (net_devs s ! netdev)) dev (mem s) x = mem s x"
  shows "\<exists>s' ei es. pcnet32_start e netdev dev ioa intr s = Some s'
    \<and> irq_ready (in8 e) (L(unat intr := (dev + 8) # L (unat intr))) s' \<and> irq.more s' = irq.more s \<and> high_mem s' = high_mem s
    \<and> io s' = io s @ start_writes ioa (get_physaddr (pcnet32_card_reg (hw_addr (net_devs s ! netdev)) dev (pcnet32_descriptors dev (mem s))) (dev + 32)) ei @ es
    \<and> (\<forall>x. x \<notin> region video 4000 \<longrightarrow> x \<notin> region (dev + 16) 4 \<longrightarrow> mem s' x = card_memory e netdev (hw_addr (net_devs s ! netdev)) dev (mem s) x)"
proof -
  let ?mac = "hw_addr (net_devs s ! netdev)"
  let ?m1 = "pcnet32_card_reg ?mac dev (pcnet32_descriptors dev (mem s))"
  let ?p = "get_physaddr ?m1 (dev + 32)"
  let ?M = "card_memory e netdev ?mac dev (mem s)"
  let ?i = "unat intr"
  define evs where "evs = csr_write ioa 1 (?p AND 0xFFFF) @ csr_write ioa 2 (drop_bit 16 ?p) @ csr_write ioa 4 0x915 @ csr_write ioa 0 1
    @ [OutL (ioa + 0x14) 0] @ csr_write ioa 0 4"
  define s8 where "s8 = s\<lparr>mem := ?M, io := io s @ evs\<rparr>"
  note apart = csr_apart [OF ioa]
  have h8: "region (dev + 8) 12 \<subseteq> region dev 96" by (rule region_sub) simp
  have nf: "next_field (dev + 8) = region (dev + 16) 4" by (simp add: add.commute)
  have r8: "irq_ready (in8 e) L s8"
  proof (rule irq_ready_cong [OF pic ready, where evs = evs])
    show "list_all pic_apart evs" using apart by (simp add: evs_def)
    show "con_ok s8" using ready by (simp add: s8_def irq_ready_def con_ok_def)
    show "mem s8 x = mem s x" if "x \<in> heap_free s \<or> (\<exists>n \<in> nodes L. x \<in> region n 12)" for x using mem [OF that] by (simp add: s8_def)
  qed (simp_all add: s8_def)
  have "heap_free s8 = heap_free s" by (simp add: s8_def heap_free_def)
  then have "region (dev + 8) 12 \<inter> heap_free s8 = {}" "region (dev + 8) 12 \<inter> region video 4000 = {}" using dev h8 by blast+
  moreover have "region n 12 \<inter> region (dev + 8) 12 = {}" if "n \<in> nodes L" for n using dev(3) [OF that] h8 by blast
  ultimately obtain s9 h9 where s9: "install_irq_handler (in8 e) ?i (dev + 8) s8 = Some s9"
    "irq_ready (in8 e) (L(?i := (dev + 8) # L ?i)) s9"
    "s9 = s8\<lparr>mem := set_h_next (dev + 8) (irq_handlers s8 ! ?i) (mem s8), io := h9, irq_handlers := (irq_handlers s8)[?i := dev + 8], iflag := True\<rparr>"
    using irq_ready_install [OF pic r8 intr nz] by blast
  define s10 where "s10 = s9\<lparr>io := io s9 @ csr_write ioa 0 (0x2 OR 0x40)\<rparr>"
  have r10: "irq_ready (in8 e) (L(?i := (dev + 8) # L ?i)) s10"
  proof (rule irq_ready_cong [OF pic s9(2), where evs = "csr_write ioa 0 (0x2 OR 0x40)"])
    show "list_all pic_apart (csr_write ioa 0 (0x2 OR 0x40))" using apart by simp
    show "con_ok s10" using s9(2) by (simp add: s10_def irq_ready_def con_ok_def)
  qed (simp_all add: s10_def)
  then have "con_ok s10" by (simp add: irq_ready_def)
  then obtain s' k where s': "printf (local_byte e) (cbytes '' running'') [] s10 = Some (k, s')" "prints (chars '' running'') s10 s'"
    using printf_text [OF _ lb render_running, of s10] by (auto simp: chars_def)
  have "irq_ready (in8 e) (L(?i := (dev + 8) # L ?i)) s'" by (rule irq_ready_prints [OF pic r10 s'(2)])
  moreover have "pcnet32_start e netdev dev ioa intr s = Some s'"
  proof -
    have swap: "s\<lparr>io := h, mem := m\<rparr> = s\<lparr>mem := m, io := h\<rparr>" for h m by simp
    show ?thesis using s9(1) s'(1) unfolding pcnet32_start_def
      by (simp add: Let_def dwio_write_csr_io pcnet32_wait_once s8_def evs_def card_memory_def s10_def swap)
  qed
  moreover have "irq.more s' = irq.more s" "high_mem s' = high_mem s"
    using con_more_fields [of s' s10] s'(2) s9(3) by (simp_all add: prints_def s10_def s8_def)
  moreover have "mem s' x = ?M x" if "x \<notin> region video 4000" "x \<notin> region (dev + 16) 4" for x
    using prints_mem [OF s'(2) that(1)] that(2) nf s9(3) by (simp add: s10_def s8_def set_h_next_def del: in_region)
  moreover obtain es9 where "io s9 = io s8 @ es9" using install_io [OF s9(1)] by blast
  moreover obtain es10 where "io s' = io s10 @ es10" using s'(2) by (auto simp: prints_def)
  ultimately show ?thesis
    by (intro exI [of _ s'] exI [of _ es9] exI [of _ es10])
      (simp add: Let_def s10_def s8_def evs_def start_writes_def)
qed

text \<open>A card that has been found: its network device is registered, the driver's structure is away from free memory, the
  screen, the installed handlers and the page tables, and there is room for the rings.\<close>

definition card_found :: "u8 port_read \<Rightarrow> lines \<Rightarrow> nat \<Rightarrow> addr \<Rightarrow> 'a net_scheme \<Rightarrow> bool" where
  "card_found pic L netdev dev s \<longleftrightarrow> irq_ready pic L s \<and> buffers s = 0 \<and> netdev < length (net_devs s) \<and> priv (net_devs s ! netdev) = dev
     \<and> length (hw_addr (net_devs s ! netdev)) = 6 \<and> region dev 96 \<inter> (heap_free s \<union> region video 4000) = {}
     \<and> (\<forall>n \<in> nodes L. region n 12 \<inter> region dev 96 = {}) \<and> (\<forall>x \<in> region dev 96. x < 0xFFC00000)
     \<and> unat (high_mem s) + 129280 < 0xC0C00000"

text \<open>A card that runs, with its rings from \<open>rb\<close> on: all receive entries belong to the card and all transmit entries to the
  driver, and the card has been told where they are.\<close>

definition card_running :: "env \<Rightarrow> (addr \<Rightarrow> addr) \<Rightarrow> nat \<Rightarrow> addr \<Rightarrow> addr \<Rightarrow> 'a net_scheme \<Rightarrow> bool" where
  "card_running e phys netdev dev rb s \<longleftrightarrow>
     (let tb = rb + 102400; rd = rb + 128000; td = rb + 129024; m = mem s in
      nic_ok netdev dev td tb 0 [] [] [] s \<and> nic_apart dev td tb rd rb [] s \<and> rx_driver dev rd rb m \<and> rx_buffer_ptr m dev = 0
      \<and> (\<forall>i < 64. de_set phys rd rb 0x80 m i) \<and> (\<forall>i < 16. de_set phys td tb 0 m i)
      \<and> card_block phys (hw_addr (net_devs s ! netdev)) rd td (dev + 32) m
      \<and> h_handler m (dev + 8) = irq_code e \<and> h_data m (dev + 8) = net_devs_at e + 40 * of_nat netdev)"

lemma card_block_cong:
  assumes "\<And>x. x \<in> region r 28 \<Longrightarrow> m' x = m x"
  shows "card_block phys mac rd td r m' = card_block phys mac rd td r m"
proof -
  have at: "m' (r + k) = m (r + k)" if "unat k < 28" for k using that by (intro assms) simp
  have "bytes_at m' (r + 4) 6 = bytes_at m (r + 4) 6"
  proof (rule bytes_at_cong)
    fix i :: nat assume "i < 6"
    then have "unat (4 + of_nat i :: addr) < 28" by (simp add: unat_word_ariths unat_of_nat)
    from at [OF this] show "m' (r + 4 + of_nat i) = m (r + 4 + of_nat i)" by (simp add: add.assoc)
  qed
  then show ?thesis using at [of 0] at by (simp add: card_block_def load16_def load32_def add.assoc)
qed

text \<open>What the descriptors, the initialisation block and the handler structure hold.\<close>

lemma card_memory_effect:
  fixes e :: env and netdev :: nat
  assumes fields: "rdes m dev = rd" "rx_buffers m dev = rb" "tdes m dev = td" "tx_buffers m dev = tb"
      "rx_buffer_count m dev = 64" "tx_buffer_count m dev = 16"
    and mac: "length mac = 6"
    and sep: "region rd 1024 \<inter> region dev 96 = {}" "region td 256 \<inter> region dev 96 = {}" "region rd 1024 \<inter> region td 256 = {}"
    and low: "\<forall>x \<in> region rd 1024 \<union> region td 256 \<union> region dev 96. x < 0xFFC00000"
  defines "M \<equiv> card_memory e netdev mac dev m"
  shows "i < 64 \<Longrightarrow> de_set (get_physaddr m) rd rb 0x80 M i" "j < 16 \<Longrightarrow> de_set (get_physaddr m) td tb 0 M j"
    "card_block (get_physaddr m) mac rd td (dev + 32) M" "h_handler M (dev + 8) = irq_code e" "h_data M (dev + 8) = net_devs_at e + 40 * of_nat netdev"
    "x \<notin> region rd 1024 \<union> region td 256 \<union> region (dev + 8) 52 \<Longrightarrow> M x = m x"
    "get_physaddr (pcnet32_card_reg mac dev (pcnet32_descriptors dev m)) = get_physaddr m"
proof -
  let ?phys = "get_physaddr m"
  define m1 where "m1 = pcnet32_descriptors dev m"
  define m2 where "m2 = pcnet32_card_reg mac dev m1"
  have m1: "\<And>i. i < 64 \<Longrightarrow> de_set ?phys rd rb 0x80 m1 i" "\<And>i. i < 16 \<Longrightarrow> de_set ?phys td tb 0 m1 i"
    "\<And>x. x \<notin> region rd 1024 \<union> region td 256 \<Longrightarrow> m1 x = m x"
    using pcnet32_descriptors_ready [OF fields sep] low unfolding m1_def by blast+
  have phys1: "get_physaddr m1 = ?phys" using low m1(3) by (intro get_physaddr_kept [of "region rd 1024 \<union> region td 256"]) blast+
  have "load32 m1 (dev + k) = load32 m (dev + k)" if "unat k + 4 \<le> 96" for k
    using field_in_dev [OF that, of dev] sep by (intro load32_cong m1(3)) blast
  from this [of 76] this [of 80] have m1_fields: "rdes m1 dev = rd" "tdes m1 dev = td" using fields by (simp_all add: rdes_def tdes_def)
  have m2: "card_block ?phys mac rd td (dev + 32) m2" "\<And>x. x \<notin> region (dev + 32) 28 \<Longrightarrow> m2 x = m1 x"
    using pcnet32_card_reg_block [OF mac m1_fields] low unfolding m2_def phys1 by blast+
  have dsub: "region (dev + 32) 28 \<subseteq> region (dev + 8) 52" "region (dev + 8) 12 \<subseteq> region (dev + 8) 52" "region (dev + 8) 52 \<subseteq> region dev 96"
    by (intro fields_within region_mono region_sub; simp)+
  have hb: "region (dev + 8) 12 \<inter> region (dev + 32) 28 = {}" by (rule fields_apart) simp_all
  have M: "M = store32 (store32 (store32 m2 (dev + 8) (irq_code e)) (dev + 12) (net_devs_at e + 40 * of_nat netdev)) (dev + 16) 0"
    by (simp add: M_def card_memory_def m2_def m1_def)
  have Mx: "M x = m2 x" if "x \<notin> region (dev + 8) 12" for x
  proof -
    have "x \<notin> region (dev + 8) 4" "x \<notin> region (dev + 12) 4" "x \<notin> region (dev + 16) 4"
      using that fields_within [of 8 8 4 12 dev] fields_within [of 8 12 4 12 dev] fields_within [of 8 16 4 12 dev] by (auto simp del: in_region)
    then show ?thesis by (simp add: M del: in_region)
  qed
  have far: "region (dev + 16) 4 \<inter> region (dev + 8) 4 = {}" "region (dev + 12) 4 \<inter> region (dev + 8) 4 = {}" "region (dev + 16) 4 \<inter> region (dev + 12) 4 = {}"
    by (rule fields_apart; simp)+
  show "h_handler M (dev + 8) = irq_code e" "h_data M (dev + 8) = net_devs_at e + 40 * of_nat netdev"
    using far by (simp_all add: M h_handler_def h_data_def load32_store32_disjoint add.commute)
  show out: "M x = m x" if "x \<notin> region rd 1024 \<union> region td 256 \<union> region (dev + 8) 52" for x
  proof -
    have "x \<notin> region (dev + 8) 12" "x \<notin> region (dev + 32) 28" "x \<notin> region rd 1024 \<union> region td 256" using that dsub by blast+
    then show ?thesis using Mx [of x] m2(2) [of x] m1(3) [of x] by simp
  qed
  have ring: "M x = m1 x" if "x \<in> region rd 1024 \<union> region td 256" for x
  proof -
    have "x \<notin> region (dev + 8) 12" "x \<notin> region (dev + 32) 28" using that dsub sep by blast+
    then show ?thesis using Mx [of x] m2(2) [of x] by simp
  qed
  show "de_set ?phys rd rb 0x80 M i" if "i < 64" for i
  proof -
    have "region (cell rd 16 i) 16 \<subseteq> region rd 1024" using cell_subset [of 16 64 i rd] that by simp
    then have "de_set ?phys rd rb 0x80 M i = de_set ?phys rd rb 0x80 m1 i" by (intro de_set_cong ring) blast
    then show ?thesis using m1(1) that by simp
  qed
  show "de_set ?phys td tb 0 M j" if "j < 16" for j
  proof -
    have "region (cell td 16 j) 16 \<subseteq> region td 256" using cell_subset [of 16 16 j td] that by simp
    then have "de_set ?phys td tb 0 M j = de_set ?phys td tb 0 m1 j" by (intro de_set_cong ring) blast
    then show ?thesis using m1(2) that by simp
  qed
  have "card_block ?phys mac rd td (dev + 32) M = card_block ?phys mac rd td (dev + 32) m2"
    using hb by (intro card_block_cong Mx) blast
  then show "card_block ?phys mac rd td (dev + 32) M" using m2(1) by simp
  have "get_physaddr m2 = get_physaddr m1" using low dsub m2(2) by (intro get_physaddr_kept [of "region (dev + 32) 28"]) blast+
  then show "get_physaddr (pcnet32_card_reg mac dev (pcnet32_descriptors dev m)) = ?phys"
    using phys1 by (simp add: m2_def m1_def)
qed

text \<open>The layout of the rings from the break on.\<close>

lemma ring_parts:
  fixes h :: addr
  shows "region (h + 128000) 1024 \<subseteq> region h 129280" "region (h + 129024) 256 \<subseteq> region h 129280"
    "region (h + 102400) 25600 \<subseteq> region h 129280" "region h 102400 \<subseteq> region h 129280"
    "region (h + 128000) 1024 \<inter> region (h + 129024) 256 = {}" "region (h + 128000) 1024 \<inter> region (h + 102400) 25600 = {}"
    "region (h + 129024) 256 \<inter> region (h + 102400) 25600 = {}" "region (h + 128000) 1024 \<inter> region h 102400 = {}"
    "region (h + 129024) 256 \<inter> region h 102400 = {}" "region (h + 102400) 25600 \<inter> region h 102400 = {}"
proof -
  have "region (h + k) n \<inter> region (h + 0) 102400 = {}" if "102400 \<le> unat k" "unat k + n \<le> 2 ^ 32" for k n
    by (rule fields_apart) (use that in simp_all)
  from this [of 128000 1024] this [of 129024 256] this [of 102400 25600]
  show "region (h + 128000) 1024 \<inter> region h 102400 = {}"
    "region (h + 129024) 256 \<inter> region h 102400 = {}" "region (h + 102400) 25600 \<inter> region h 102400 = {}" by simp_all
qed (simp_all add: region_sub region_mono fields_apart del: in_region)

lemma card_runs:
  fixes s :: "'a net_scheme"
  assumes M: "\<And>i. i < 64 \<Longrightarrow> de_set phys (rb + 128000) rb 0x80 M i" "\<And>i. i < 16 \<Longrightarrow> de_set phys (rb + 129024) (rb + 102400) 0 M i"
      "card_block phys (hw_addr (net_devs s ! netdev)) (rb + 128000) (rb + 129024) (dev + 32) M"
      "h_handler M (dev + 8) = irq_code e" "h_data M (dev + 8) = net_devs_at e + 40 * of_nat netdev"
      "rx_buffers M dev = rb" "tx_buffers M dev = rb + 102400" "rdes M dev = rb + 128000" "tdes M dev = rb + 129024"
      "rx_buffer_count M dev = 64" "tx_buffer_count M dev = 16" "rx_buffer_ptr M dev = 0" "tx_buffer_ptr M dev = 0"
    and mem: "\<And>x. x \<notin> region video 4000 \<Longrightarrow> x \<notin> region (dev + 16) 4 \<Longrightarrow> mem s x = M x"
    and heap: "heap_ok s" "buffers s = 0" and nd: "netdev < length (net_devs s)" "priv (net_devs s ! netdev) = dev"
    and ring: "region rb 129280 \<inter> region dev 96 = {}" "region rb 129280 \<inter> region video 4000 = {}" "region rb 129280 \<inter> heap_free s = {}"
    and dev: "region dev 96 \<inter> heap_free s = {}" "region dev 96 \<inter> region video 4000 = {}"
  shows "card_running e phys netdev dev rb s"
proof -
  let ?tb = "rb + 102400" and ?rd = "rb + 128000" and ?td = "rb + 129024"
  note parts = ring_parts [of rb]
  have link: "region (dev + 16) 4 \<subseteq> region dev 96" by (rule region_sub) simp
  have rx: "mem s x = M x" if "x \<in> region rb 129280" for x using that ring link by (intro mem) blast+
  have fld: "mem s x = M x" if "x \<in> region (dev + k) n" "unat k + n \<le> 16 \<or> 20 \<le> unat k" "unat k + n \<le> 96" for x k n
  proof (rule mem)
    show "x \<notin> region video 4000" using that(1) dev(2) field_in_dev [OF that(3), of dev] by blast
    have "region (dev + k) n \<inter> region (dev + 16) 4 = {}" using that(2,3) by (intro fields_apart) auto
    then show "x \<notin> region (dev + 16) 4" using that(1) by blast
  qed
  have d16: "load16 (mem s) (dev + k) = load16 M (dev + k)" if "60 \<le> unat k" "unat k \<le> 84" for k
    using that by (intro load16_cong fld) auto
  have d32: "load32 (mem s) (dev + k) = load32 M (dev + k)" if "20 \<le> unat k \<or> unat k \<le> 12" "unat k \<le> 84" for k
    using that by (intro load32_cong fld) auto
  have fields: "rx_buffers (mem s) dev = rb" "tx_buffers (mem s) dev = ?tb" "rdes (mem s) dev = ?rd" "tdes (mem s) dev = ?td"
    "rx_buffer_count (mem s) dev = 64" "tx_buffer_count (mem s) dev = 16" "rx_buffer_ptr (mem s) dev = 0" "tx_buffer_ptr (mem s) dev = 0"
    using M(6-13) d16 [of 60] d16 [of 62] d16 [of 64] d16 [of 66] d32 [of 68] d32 [of 72] d32 [of 76] d32 [of 80]
    by (simp_all add: rx_buffers_def tx_buffers_def rdes_def tdes_def rx_buffer_count_def tx_buffer_count_def rx_buffer_ptr_def tx_buffer_ptr_def)
  have des: "de_set phys ?rd rb 0x80 (mem s) i" if "i < 64" for i
  proof -
    have "region (cell ?rd 16 i) 16 \<subseteq> region ?rd 1024" using cell_subset [of 16 64 i ?rd] that by simp
    then have "de_set phys ?rd rb 0x80 (mem s) i = de_set phys ?rd rb 0x80 M i" using parts(1) by (intro de_set_cong rx) blast
    then show ?thesis using M(1) that by simp
  qed
  have tes: "de_set phys ?td ?tb 0 (mem s) i" if "i < 16" for i
  proof -
    have "region (cell ?td 16 i) 16 \<subseteq> region ?td 256" using cell_subset [of 16 16 i ?td] that by simp
    then have "de_set phys ?td ?tb 0 (mem s) i = de_set phys ?td ?tb 0 M i" using parts(2) by (intro de_set_cong rx) blast
    then show ?thesis using M(2) that by simp
  qed
  then have txr: "tx_ring (mem s) ?td ?tb 0 []" by (simp add: tx_ring_def de_set_def)
  have sep: "region dev 96 \<inter> region ?td 256 = {}" "region dev 96 \<inter> region ?tb 25600 = {}" "region dev 96 \<inter> (region ?rd 1024 \<union> region rb 102400) = {}"
    using ring(1) parts(1-4) by blast+
  have "tx_driver netdev dev ?td ?tb 0 [] s" using nd fields txr sep parts(7) by (simp add: tx_driver_def del: in_region)
  moreover have "pool_ok [] [] s" using heap by (simp add: pool_ok_def buffers_apart_def)
  moreover have "tx_area dev ?td ?tb \<inter> heap_free s = {}" using ring(3) dev(1) parts(2,3) unfolding tx_area_def by blast
  ultimately have "nic_ok netdev dev ?td ?tb 0 [] [] [] s" by (simp add: nic_ok_def)
  moreover have "nic_apart dev ?td ?tb ?rd rb [] s"
  proof -
    have "rx_area ?rd rb \<subseteq> region rb 129280" using parts(1,4) by (simp add: rx_area_def)
    moreover have "rx_area ?rd rb \<inter> tx_area dev ?td ?tb = {}"
      using parts(5,6,9,10) sep(3) by (simp add: rx_area_def tx_area_def Int_Un_distrib Int_Un_distrib2 Int_commute)
    ultimately show ?thesis using ring(3) parts(8) unfolding nic_apart_def by (simp del: in_region) blast
  qed
  moreover have "card_block phys (hw_addr (net_devs s ! netdev)) ?rd ?td (dev + 32) (mem s)
      = card_block phys (hw_addr (net_devs s ! netdev)) ?rd ?td (dev + 32) M" by (intro card_block_cong fld) auto
  moreover have "h_handler (mem s) (dev + 8) = irq_code e" "h_data (mem s) (dev + 8) = net_devs_at e + 40 * of_nat netdev"
  proof -
    have "load32 (mem s) (dev + 8) = load32 M (dev + 8)" "load32 (mem s) (dev + 12) = load32 M (dev + 12)" by (rule d32; simp)+
    then show "h_handler (mem s) (dev + 8) = irq_code e" "h_data (mem s) (dev + 8) = net_devs_at e + 40 * of_nat netdev"
      using M(4,5) by (simp_all add: h_handler_def h_data_def add.commute)
  qed
  ultimately show ?thesis using M(3) fields des tes by (simp add: card_running_def rx_driver_def Let_def)
qed

text \<open>The same for the memory with the rings.\<close>

lemma ring_card_memory:
  fixes s :: "'a net_scheme" and e :: env and netdev :: nat
  assumes heap: "heap_ok s" and room: "unat (high_mem s) + 129280 < 0xC0C00000" and mac: "length mac = 6"
    and dev: "region dev 96 \<inter> heap_free s = {}" "\<forall>x \<in> region dev 96. x < 0xFFC00000" and stage: "ring_stage s dev 129280 m"
    and fields: "rx_buffers m dev = high_mem s" "tx_buffers m dev = high_mem s + 102400" "rdes m dev = high_mem s + 128000"
      "tdes m dev = high_mem s + 129024" "rx_buffer_count m dev = 64" "tx_buffer_count m dev = 16" "rx_buffer_ptr m dev = 0" "tx_buffer_ptr m dev = 0"
  defines "M \<equiv> card_memory e netdev mac dev m"
  shows "i < 64 \<Longrightarrow> de_set (get_physaddr (mem s)) (high_mem s + 128000) (high_mem s) 0x80 M i"
    "j < 16 \<Longrightarrow> de_set (get_physaddr (mem s)) (high_mem s + 129024) (high_mem s + 102400) 0 M j"
    "card_block (get_physaddr (mem s)) mac (high_mem s + 128000) (high_mem s + 129024) (dev + 32) M"
    "h_handler M (dev + 8) = irq_code e" "h_data M (dev + 8) = net_devs_at e + 40 * of_nat netdev"
    "rx_buffers M dev = high_mem s" "tx_buffers M dev = high_mem s + 102400" "rdes M dev = high_mem s + 128000" "tdes M dev = high_mem s + 129024"
    "rx_buffer_count M dev = 64" "tx_buffer_count M dev = 16" "rx_buffer_ptr M dev = 0" "tx_buffer_ptr M dev = 0"
    "x \<notin> region (high_mem s) 129280 \<Longrightarrow> x \<notin> region dev 96 \<Longrightarrow> M x = m x"
    "get_physaddr (pcnet32_card_reg mac dev (pcnet32_descriptors dev m)) = get_physaddr (mem s)"
proof -
  let ?h = "high_mem s"
  have ringF: "region ?h 129280 \<subseteq> heap_free s" using ring_break(5) [OF heap, of 129280] room by simp
  have freelow: "x < 0xFFC00000" if "x \<in> heap_free s" for x
    using that order_less_trans [of x "0xC0C00000" "0xFFC00000"] by (simp add: heap_free_def)
  have low: "\<forall>x \<in> region (?h + 128000) 1024 \<union> region (?h + 129024) 256 \<union> region dev 96. x < 0xFFC00000"
    using freelow dev(2) ringF ring_parts(1,2) [of ?h] by blast
  have ringD: "region ?h 129280 \<inter> region dev 96 = {}" using ringF dev(1) by blast
  then have sep: "region (?h + 128000) 1024 \<inter> region dev 96 = {}" "region (?h + 129024) 256 \<inter> region dev 96 = {}"
    using ring_parts(1,2) [of ?h] by blast+
  have phys: "get_physaddr m = get_physaddr (mem s)"
  proof (rule get_physaddr_kept)
    show "x < 0xFFC00000" if "x \<in> heap_free s \<union> region dev 96" for x using that dev(2) freelow by blast
    show "m x = mem s x" if "x \<notin> heap_free s \<union> region dev 96" for x
      using that stage field_in_dev [of 60 24 dev] by (auto simp: ring_stage_def simp del: in_region)
  qed
  note E = card_memory_effect [OF fields(3,1,4,2,5,6) mac sep ring_parts(5) low, unfolded phys]
  show "i < 64 \<Longrightarrow> de_set (get_physaddr (mem s)) (?h + 128000) ?h 0x80 M i"
    "j < 16 \<Longrightarrow> de_set (get_physaddr (mem s)) (?h + 129024) (?h + 102400) 0 M j"
    "card_block (get_physaddr (mem s)) mac (?h + 128000) (?h + 129024) (dev + 32) M"
    "h_handler M (dev + 8) = irq_code e" "h_data M (dev + 8) = net_devs_at e + 40 * of_nat netdev"
    "get_physaddr (pcnet32_card_reg mac dev (pcnet32_descriptors dev m)) = get_physaddr (mem s)"
    unfolding M_def by (fact E)+
  have out: "M x = m x" if "x \<notin> region ?h 129280" "x \<notin> region (dev + 8) 52" for x
    unfolding M_def
  proof (rule E(6))
    show "x \<notin> region (?h + 128000) 1024 \<union> region (?h + 129024) 256 \<union> region (dev + 8) 52"
      using that ring_parts(1,2) [of ?h] by (auto simp del: in_region)
  qed
  have "region (dev + 8) 52 \<subseteq> region dev 96" by (rule region_sub) simp
  then show "x \<notin> region ?h 129280 \<Longrightarrow> x \<notin> region dev 96 \<Longrightarrow> M x = m x" using out by blast
  have fld: "M x = m x" if "x \<in> region (dev + k) n" "60 \<le> unat k" "unat k + n \<le> 96" for x k n
  proof (rule out)
    show "x \<notin> region ?h 129280" using that(1) ringD(1) field_in_dev [OF that(3), of dev] by blast
    have "region (dev + k) n \<inter> region (dev + 8) 52 = {}" by (rule fields_apart) (use that in simp_all)
    then show "x \<notin> region (dev + 8) 52" using that(1) by blast
  qed
  have "load16 M (dev + k) = load16 m (dev + k)" "load32 M (dev + k) = load32 m (dev + k)" if "60 \<le> unat k" "unat k \<le> 84" for k
    by (intro load16_cong load32_cong fld [where k = k and n = 2] fld [where k = k and n = 4]; use that in simp)+
  note at = this this [of 60] this [of 62] this [of 64] this [of 66] this [of 68] this [of 72] this [of 76] this [of 80]
  show "rx_buffers M dev = ?h" "tx_buffers M dev = ?h + 102400" "rdes M dev = ?h + 128000" "tdes M dev = ?h + 129024"
    "rx_buffer_count M dev = 64" "tx_buffer_count M dev = 16" "rx_buffer_ptr M dev = 0" "tx_buffer_ptr M dev = 0"
    using fields at
    by (simp_all add: rx_buffers_def tx_buffers_def rdes_def tdes_def rx_buffer_count_def tx_buffer_count_def rx_buffer_ptr_def tx_buffer_ptr_def)
qed

lemma card_comes_up:
  fixes s :: "'a net_scheme"
  assumes pic: "pic_device (in8 e)" and found: "card_found (in8 e) L netdev dev s"
    and intr: "unat intr < 18" and lb: "local_byte e \<noteq> 0" and ioa: "0x100 \<le> ioa" "ioa \<le> 0xFFE0"
  shows "\<exists>s1 s' ei es. pcnet32_rings dev s = Some (True, s1) \<and> pcnet32_start e netdev dev ioa intr s1 = Some s'
    \<and> card_running e (get_physaddr (mem s)) netdev dev (high_mem s) s'
    \<and> irq_ready (in8 e) (L(unat intr := (dev + 8) # L (unat intr))) s' \<and> irq.more s' = irq.more s \<and> high_mem s' = high_mem s + 129280
    \<and> io s' = io s @ start_writes ioa (get_physaddr (mem s) (dev + 32)) ei @ es"
proof -
  let ?h = "high_mem s" and ?F = "heap_free s" and ?phys = "get_physaddr (mem s)" and ?mac = "hw_addr (net_devs s ! netdev)"
  have ready: "irq_ready (in8 e) L s" and heap: "heap_ok s" and room: "unat ?h + 129280 < 0xC0C00000" and mac: "length ?mac = 6"
    and devF: "region dev 96 \<inter> ?F = {}" and devV: "region dev 96 \<inter> region video 4000 = {}" and buf: "buffers s = 0"
    and nodes: "\<And>n. n \<in> nodes L \<Longrightarrow> region n 12 \<inter> region dev 96 = {}" and low: "\<forall>x \<in> region dev 96. x < 0xFFC00000"
    and nd: "netdev < length (net_devs s)" "priv (net_devs s ! netdev) = dev"
    using found by (auto simp: card_found_def irq_ready_def simp del: in_region)
  obtain m where rings: "pcnet32_rings dev s = Some (True, ring_state s 129280 m)" "ring_stage s dev 129280 m"
    and fields: "rx_buffers m dev = ?h" "tx_buffers m dev = ?h + 102400" "rdes m dev = ?h + 128000" "tdes m dev = ?h + 129024"
      "rx_buffer_count m dev = 64" "tx_buffer_count m dev = 16" "rx_buffer_ptr m dev = 0" "tx_buffer_ptr m dev = 0"
    using pcnet32_rings_ready [OF heap room devF] by blast
  let ?s1 = "ring_state s 129280 m" and ?M = "card_memory e netdev ?mac dev m"
  note M = ring_card_memory [OF heap room mac devF low rings(2) fields]
  have ringF: "region ?h 129280 \<subseteq> ?F" "region ?h 129280 \<inter> heap_free ?s1 = {}" "heap_free ?s1 \<subseteq> ?F"
    using ring_break(3-5) [OF heap, of 129280] room by simp_all
  have ringD: "region ?h 129280 \<inter> region dev 96 = {}" "region ?h 129280 \<inter> region video 4000 = {}"
    using ringF(1) devF heap_above_video [OF heap] by blast+
  have dev1: "region dev 96 \<inter> heap_free ?s1 = {}" using devF ringF(3) by blast
  have same: "?M x = m x" if "x \<in> heap_free ?s1 \<or> (\<exists>n \<in> nodes L. x \<in> region n 12)" for x
    using that ready nodes ringF dev1 unfolding irq_ready_def by (intro M(14)) blast+
  have nz: "dev + 8 \<noteq> 0"
  proof
    assume "dev + 8 = 0"
    then have "dev = - 8" by (simp add: eq_neg_iff_add_eq_0)
    moreover have "dev \<in> region dev 96" by simp
    ultimately show False using low by fastforce
  qed
  have r1: "irq_ready (in8 e) L ?s1" by (rule rings_irq_ready [OF pic ready rings(2) room nodes])
  obtain s' ei es where s': "pcnet32_start e netdev dev ioa intr ?s1 = Some s'"
    "irq_ready (in8 e) (L(unat intr := (dev + 8) # L (unat intr))) s'" "irq.more s' = irq.more s" "high_mem s' = high_mem ?s1"
    "io s' = io s @ start_writes ioa (?phys (dev + 32)) ei @ es"
    "\<And>x. x \<notin> region video 4000 \<Longrightarrow> x \<notin> region (dev + 16) 4 \<Longrightarrow> mem s' x = ?M x"
    using pcnet32_start_runs [OF pic r1 intr lb ioa nz dev1 devV nodes, of netdev] same
    by (auto simp: M(15) simp del: in_region)
  have "heap_ok s'" "heap_free s' = heap_free ?s1" "buffers s' = 0" "net_devs s' = net_devs s"
    using s'(2-4) buf by (cases s, cases s', simp add: irq_ready_def heap_free_def)+
  then have "card_running e ?phys netdev dev ?h s'"
    by (intro card_runs [where M = ?M]) (use M(1-13) s'(6) nd ringD ringF(2) dev1 devV in \<open>simp_all del: in_region\<close>)
  moreover have "high_mem s' = high_mem s + 129280" using s'(4) by simp
  ultimately show ?thesis using rings(1) s' by blast
qed

end
