(* ===== verification/Frog_Probe.thy ===== *)
theory Frog_Probe
  imports Frog_Card Frog_Loop
begin

text \<open>
  \<^verbatim>\<open>probe_pcnet32\<close> from the first register access to the running card.
\<close>

section \<open>The printed hardware address\<close>

text \<open>A text without NUL and without conversions is printed as it is.\<close>

lemma render_plain: "0 \<notin> set bs \<Longrightarrow> 0x25 \<notin> set bs \<Longrightarrow> render safe m (bs @ [0]) va = Some bs"
  by (induction bs) simp_all

definition mac_text :: "u8 list \<Rightarrow> u8 list" where
  "mac_text mac = hex_text 0x1 2 (mac ! 0) @ [0x3A] @ hex_text 0x1 2 (mac ! 1) @ [0x3A] @ hex_text 0x1 2 (mac ! 2)
     @ [0x3A] @ hex_text 0x1 2 (mac ! 3) @ [0x3A] @ hex_text 0x1 2 (mac ! 4) @ [0x3A] @ hex_text 0x1 2 (mac ! 5)"

lemma hex_text_chars: "c \<in> set (hex_text flags n v) \<Longrightarrow> c \<noteq> 0 \<and> c \<noteq> 0x25"
proof -
  have "digit_char flags (of_nat k) \<noteq> 0x25" if "k < 16" for k
  proof -
    have "(of_nat k :: u8) \<in> set (map word_of_nat [0..<16])" using that by simp
    then have "0x30 + (of_nat k :: u8) \<noteq> 0x25 \<and> 0x41 + (of_nat k :: u8) - 10 \<noteq> 0x25 \<and> 0x61 + (of_nat k :: u8) - 10 \<noteq> 0x25"
      by (rule bspec [rotated]) code_simp
    then show ?thesis by (simp add: digit_char_def)
  qed
  then show "c \<in> set (hex_text flags n v) \<Longrightarrow> c \<noteq> 0 \<and> c \<noteq> 0x25" using hex_text_no_nul [of flags n v] by (auto simp: hex_text_def)
qed

lemma mac_text_plain: "c \<in> set (mac_text mac) \<Longrightarrow> c \<noteq> 0 \<and> c \<noteq> 0x25"
  using hex_text_chars by (auto simp: mac_text_def)

lemma length_mac_text: "length (mac_text mac) = 17"
  by (simp add: mac_text_def hex_text_def)

lemma render_mac: "length mac = 6 \<Longrightarrow> render safe m (cbytes ''%02x:%02x:%02x:%02x:%02x:%02x'')
    [ucast (mac ! 0), ucast (mac ! 1), ucast (mac ! 2), ucast (mac ! 3), ucast (mac ! 4), ucast (mac ! 5)] = Some (mac_text mac)"
  by (simp add: render_defs mac_text_def)

lemma out_list_buffer_frame: "snd (out_list out_buffer b ml bs idx s) = s\<lparr>mem := mem (snd (out_list out_buffer b ml bs idx s))\<rparr>"
proof -
  have "\<exists>m. snd (out_list out_buffer b ml bs idx s) = s\<lparr>mem := m\<rparr>"
  proof (induction bs arbitrary: idx s)
    case Nil
    then show ?case by (intro exI [of _ "mem s"]) simp
  next
    case (Cons c bs)
    obtain m0 where "out_buffer c b idx ml s = s\<lparr>mem := m0\<rparr>"
      by (cases "idx < ml") (auto simp: out_buffer_def intro: that [of "mem s"])
    then show ?case using Cons.IH [of "idx + 1" "s\<lparr>mem := m0\<rparr>"] by simp
  qed
  then show ?thesis by fastforce
qed

lemma eth_ntoa_text:
  assumes "buff \<noteq> 0" "length mac = 6"
  shows "eth_ntoa buff mac s = Some (buff, s\<lparr>mem := store_list buff (mac_text mac @ [0]) (mem s)\<rparr>)"
proof -
  let ?t = "snd (out_list out_buffer buff (- 1) (mac_text mac) 0 s)"
  have run: "sprintf buff (cbytes ''%02x:%02x:%02x:%02x:%02x:%02x'')
      [ucast (mac ! 0), ucast (mac ! 1), ucast (mac ! 2), ucast (mac ! 3), ucast (mac ! 4), ucast (mac ! 5)] s
    = Some (17, ?t\<lparr>mem := (mem ?t)(buff + 17 := 0)\<rparr>)"
    unfolding sprintf_def using vsnprintf_list [OF buffer_sink.printf_sink_axioms TrueI assms(1) render_mac [OF assms(2)], of "- 1" s]
    by (simp add: length_mac_text out_buffer_def)
  have "((mem ?t)(buff + 17 := 0)) x = store_list buff (mac_text mac @ [0]) (mem s) x" for x
  proof -
    have "x = buff + 17 \<longleftrightarrow> x - buff = 17" by (auto simp: algebra_simps)
    also have "\<dots> \<longleftrightarrow> unat (x - buff) = 17" by (simp add: word_unat_eq_iff)
    finally have "x = buff + 17 \<longleftrightarrow> unat (x - buff) = 17" .
    moreover have "mem ?t x = (let k = unat (x - buff) in if k < 17 then mac_text mac ! k else mem s x)"
      using out_list_buffer [of "mac_text mac" 0 buff "- 1" s x] by (simp add: Let_def length_mac_text)
    ultimately show ?thesis by (auto simp: store_list_apply Let_def length_mac_text nth_append)
  qed
  then have "(mem ?t)(buff + 17 := 0) = store_list buff (mac_text mac @ [0]) (mem s)" by blast
  moreover have "?t\<lparr>mem := m\<rparr> = s\<lparr>mem := m\<rparr>" for m by (subst out_list_buffer_frame) simp
  ultimately show ?thesis using run by (simp add: eth_ntoa_def)
qed

section \<open>Steps that leave the kernel as it is\<close>

text \<open>Beyond the screen, the ports and the interrupt lines in order nothing changes.\<close>

definition kept :: "u8 port_read \<Rightarrow> 'a net_scheme \<Rightarrow> 'a net_scheme \<Rightarrow> bool" where
  "kept pic s t \<longleftrightarrow> (\<forall>L. irq_ready pic L s \<longrightarrow> irq_ready pic L t) \<and> high_mem t = high_mem s \<and> pit.more t = pit.more s
     \<and> (\<forall>x. x \<notin> region video 4000 \<longrightarrow> mem t x = mem s x) \<and> (\<exists>es. io t = io s @ es)"

lemma kept_trans: "kept pic s t \<Longrightarrow> kept pic t u \<Longrightarrow> kept pic s u"
  by (auto simp: kept_def simp del: in_region)

lemma irq_more_pit:
  fixes s t :: "'a net_scheme"
  shows "irq.more t = irq.more s \<Longrightarrow> pit.more t = pit.more s"
  by (cases s, cases t) simp

lemma kept_prints: "pic_device pic \<Longrightarrow> prints bs s t \<Longrightarrow> kept pic s t"
  using irq_ready_prints [of pic _ s bs t] con_more_fields [of t s] irq_more_pit [of t s] by (auto simp: kept_def prints_def simp del: in_region)

lemma kept_io:
  assumes "pic_device pic" "list_all pic_apart evs"
  shows "kept pic s (s\<lparr>io := io s @ evs\<rparr>)"
proof -
  have "irq_ready pic L (s\<lparr>io := io s @ evs\<rparr>)" if "irq_ready pic L s" for L
    by (rule irq_ready_cong [OF assms(1) that, where evs = evs]) (use that assms(2) in \<open>simp_all add: irq_ready_def con_ok_def\<close>)
  then show ?thesis by (simp add: kept_def)
qed

lemma kept_devs: "kept pic s t \<Longrightarrow> net_devs t = net_devs s \<and> net_num_devs t = net_num_devs s \<and> buffers t = buffers s \<and> heap_free t = heap_free s"
  by (cases s, cases t) (simp add: kept_def heap_free_def)

text \<open>The interrupts that run while the driver waits for the timer.\<close>

definition tick_ok :: "u8 port_read \<Rightarrow> ('a net_scheme \<Rightarrow> 'a net_scheme) \<Rightarrow> bool" where
  "tick_ok pic tick \<longleftrightarrow> (\<forall>s. kept pic s (tick s))"

text \<open>The timer's interrupt is one of them.\<close>

lemma timer_tick_ok: "pic_device pic \<Longrightarrow> tick_ok pic (\<lambda>s. irq_eoi 32 (pit_handler s))"
proof -
  assume pic: "pic_device pic"
  have "irq_ready pic L (irq_eoi 32 (pit_handler s))" if "irq_ready pic L s" for L and s :: "'a net_scheme"
  proof -
    have "lines_ok pic (pit_handler s) L" using that by (simp add: irq_ready_def pit_handler_def lines_ok_def masked_def)
    from lines_ok_eoi [OF pic this, of 32] show ?thesis using that
      by (simp add: irq_ready_def heap_ok_def heap_free_def con_ok_def pit_handler_def irq_eoi_def outportb_def)
  qed
  moreover have "pit.more (irq_eoi 32 (pit_handler s)) = pit.more s" for s :: "'a net_scheme"
    by (cases s) (simp add: pit_handler_def irq_eoi_def outportb_def)
  ultimately show ?thesis by (simp add: tick_ok_def kept_def pit_handler_def irq_eoi_def outportb_def)
qed

section \<open>The driver's structure\<close>

lemma alloc_netdev_exact:
  assumes "heap_ok s" "unat (high_mem s) + 96 < 0xC0C00000" "net_num_devs s < 16"
  shows "\<exists>m. alloc_netdev 96 s = Some (Some (unat (net_num_devs s)), s\<lparr>mem := m, high_mem := high_mem s + 96, net_num_devs := net_num_devs s + 1,
      net_devs := (net_devs s)[unat (net_num_devs s) := zero_netdev\<lparr>priv := high_mem s, dev_no := net_num_devs s\<rparr>]\<rparr>)
    \<and> heap_ok (s\<lparr>mem := m, high_mem := high_mem s + 96\<rparr>) \<and> (\<forall>x. x \<notin> heap_free s \<longrightarrow> m x = mem s x)"
proof -
  obtain m where m: "alloc 96 1 s = Some (high_mem s, s\<lparr>mem := m, high_mem := high_mem s + 96\<rparr>)"
    "heap_ok (s\<lparr>mem := m, high_mem := high_mem s + 96\<rparr>)" "\<forall>x. x \<notin> heap_free s \<longrightarrow> m x = mem s x"
    using alloc_exact [OF assms(1), of 96] assms(2) by auto
  moreover have "high_mem s \<noteq> 0" using assms(1) by (auto simp: heap_ok_def)
  moreover have "net_num_devs s \<noteq> 16" using assms(3) by auto
  ultimately show ?thesis by (intro exI [of _ m]) (simp add: alloc_netdev_def Let_def)
qed

lemma pci_adjust_io: "\<exists>evs. pci_adjust cfg d s = s\<lparr>io := io s @ evs\<rparr> \<and> list_all pic_apart evs"
  by (auto simp: pci_adjust_def pciConfigReadDword_def pciConfigWriteDword_def outportl_def Let_def)

text \<open>The identification that the card gives in the registers 88 and 89.\<close>

definition pcnet_chip :: "u32 port_read \<Rightarrow> u16 \<Rightarrow> u32 \<Rightarrow> bool" where
  "pcnet_chip rd ioa chip \<longleftrightarrow>
     (\<forall>h h'. rd (h @ [OutL (ioa + 0x14) 88]) (ioa + 0x10) OR push_bit 16 (rd (h' @ [OutL (ioa + 0x14) 89]) (ioa + 0x10)) = chip)"

definition pcnet_kinds :: "u32 set" where
  "pcnet_kinds = {0x2621, 0x2625}"

text \<open>The fields that \<^verbatim>\<open>probe_pcnet32\<close> writes before it prints the address.\<close>

definition setup_memory :: "env \<Rightarrow> nat \<Rightarrow> addr \<Rightarrow> u16 \<Rightarrow> u8 \<Rightarrow> u32 \<Rightarrow> byte_mem \<Rightarrow> byte_mem" where
  "setup_memory e pcidev dev ioa intr kind m =
     (let m1 = store16 (store32 m dev (pcidevs_at e + 8 * of_nat pcidev)) (dev + 4) ioa;
          m2 = m1(dev + 6 := intr, dev + 85 := 0, dev + 84 := 0, dev + 85 := 1)
      in if kind = 0x2625 then m2(dev + 84 := 1) else m2)"

lemma setup_memory_frame: "x \<notin> region dev 96 \<Longrightarrow> setup_memory e pcidev dev ioa intr kind m x = m x"
proof -
  assume x: "x \<notin> region dev 96"
  have "x \<notin> region dev 4" "x \<notin> region (dev + 4) 2" using x region_mono [of 4 96 dev] region_sub [of 4 2 96 dev] by auto
  moreover have "x \<noteq> dev + k" if "unat k < 96" for k using x that by auto
  from this [of 6] this [of 84] this [of 85] have "x \<noteq> dev + 6" "x \<noteq> dev + 84" "x \<noteq> dev + 85" by simp_all
  ultimately show ?thesis by (simp add: setup_memory_def Let_def del: in_region)
qed

lemma upd_dev_nth: "i < length (net_devs s) \<Longrightarrow> net_devs (upd_dev i f s) ! i = f (net_devs s ! i)"
  by (simp add: upd_dev_def)

lemma upd_dev_frame [simp]: "mem (upd_dev i f s) = mem s" "pcidevs (upd_dev i f s) = pcidevs s"
  by (simp_all add: upd_dev_def)

lemma pcnet32_setup_prefix:
  fixes s :: "'a pci_scheme"
  assumes pic: "pic_device (in8 e)" and kind: "drop_bit 12 chip \<in> pcnet_kinds"
    and addrs: "local_byte e \<noteq> 0" "ntoa_buff e \<noteq> 0" and ioa: "0x100 \<le> ioa" "ioa \<le> 0xFFE0"
    and ready: "irq_ready (in8 e) L s" and nd: "i < length (net_devs s)" "priv (net_devs s ! i) = dev"
    and dev: "region dev 96 \<inter> heap_free s = {}" "\<And>n. n \<in> nodes L \<Longrightarrow> region n 12 \<inter> region dev 96 = {}"
    and buff: "region (ntoa_buff e) 18 \<inter> heap_free s = {}" "\<And>n. n \<in> nodes L \<Longrightarrow> region n 12 \<inter> region (ntoa_buff e) 18 = {}"
  shows "\<exists>s' mac es. pcnet32_setup e pcidev i ioa intr chip s = Option.bind (pcnet32_rings dev s')
        (\<lambda>(ok, s8). if ok then pcnet32_start e i dev ioa intr s8 else Some s8)
    \<and> length mac = 6 \<and> irq_ready (in8 e) L s' \<and> high_mem s' = high_mem s \<and> io s' = io s @ es
    \<and> pit.more s' = pit.more (upd_dev i (\<lambda>d. d\<lparr>do_work := work_code e, tx_packet := tx_code e, hw_addr := mac\<rparr>) s)
    \<and> (\<forall>x. x \<notin> region dev 96 \<union> region (ntoa_buff e) 18 \<union> region video 4000 \<longrightarrow> mem s' x = mem s x)"
proof -
  let ?d = "\<lambda>mac d. d\<lparr>do_work := work_code e, tx_packet := tx_code e, hw_addr := mac\<rparr>"
  define m where "m = setup_memory e pcidev dev ioa intr (drop_bit 12 chip) (mem s)"
  define s1 where "s1 = (upd_dev i (\<lambda>d. d\<lparr>do_work := work_code e, tx_packet := tx_code e\<rparr>) s)\<lparr>mem := m\<rparr>"
  define s2 where "s2 = pci_adjust (in32 e) (pcidevs s ! pcidev) s1"
  define mac where "mac = map (\<lambda>i. inportb (in8 e) (ioa + of_nat i) s2) [0..<6]"
  obtain evs where s2: "s2 = s1\<lparr>io := io s1 @ evs\<rparr>" "list_all pic_apart evs" using pci_adjust_io unfolding s2_def by blast
  define s3 where "s3 = upd_dev i (\<lambda>d. d\<lparr>hw_addr := mac\<rparr>) s2"
  define s4 where "s4 = s3\<lparr>mem := store_list (ntoa_buff e) (mac_text mac @ [0]) m\<rparr>"
  have mac: "length mac = 6" by (simp add: mac_def)
  have s4: "mem s4 = store_list (ntoa_buff e) (mac_text mac @ [0]) m" "high_mem s4 = high_mem s" "irq_handlers s4 = irq_handlers s"
    "io s4 = io s @ evs" "csr_x s4 = csr_x s" "csr_y s4 = csr_y s"
    using nd(1) by (simp_all add: s4_def s3_def s2(1) s1_def upd_dev_def)
  have more4: "pit.more s4 = pit.more (upd_dev i (?d mac) s)"
    using nd(1) by (cases s) (simp add: s4_def s3_def s2(1) s1_def upd_dev_def)
  have m4: "mem s4 x = mem s x" if "x \<notin> region dev 96 \<union> region (ntoa_buff e) 18" for x
  proof -
    have "mem s4 x = m x" unfolding s4(1) using that by (intro store_list_out) (simp_all add: length_mac_text)
    then show ?thesis using that by (simp add: m_def setup_memory_frame del: in_region)
  qed
  have r4: "irq_ready (in8 e) L s4"
  proof (rule irq_ready_cong [OF pic ready s4(3,4) s2(2) s4(2)])
    show "con_ok s4" using ready s4(5,6) by (simp add: irq_ready_def con_ok_def)
    fix x assume "x \<in> heap_free s \<or> (\<exists>n \<in> nodes L. x \<in> region n 12)"
    then have "x \<notin> region dev 96 \<and> x \<notin> region (ntoa_buff e) 18"
    proof
      assume "x \<in> heap_free s" then show ?thesis using dev(1) buff(1) by blast
    next
      assume "\<exists>n \<in> nodes L. x \<in> region n 12"
      then obtain n where n: "n \<in> nodes L" "x \<in> region n 12" by blast
      then show ?thesis using dev(2) [OF n(1)] buff(2) [OF n(1)] by blast
    qed
    then show "mem s4 x = mem s x" by (intro m4) blast
  qed
  have "bytes_at (mem s4) (ntoa_buff e) 18 = mac_text mac @ [0]" unfolding s4(1) by (rule bytes_at_store_list) (simp_all add: length_mac_text)
  then have "render (\<lambda>x. x \<notin> region video 4000) (mem s4) (bytes_at (mem s4) (ntoa_buff e) 18) [] = Some (mac_text mac)"
    using render_plain [of "mac_text mac"] mac_text_plain by metis
  moreover have "con_ok s4" using r4 by (simp add: irq_ready_def)
  moreover have "0 \<notin> set (mac_text mac)" using mac_text_plain by blast
  ultimately obtain k s5 where s5: "printf (local_byte e) (bytes_at (mem s4) (ntoa_buff e) 18) [] s4 = Some (k, s5)" "prints (mac_text mac) s4 s5"
    using printf_text [OF _ addrs(1)] by blast
  define s6 where "s6 = snd (dwio_read_csr (in32 e) ioa 58 s5)"
  define v where "v = (fst (dwio_read_csr (in32 e) ioa 58 s5) AND 0xFFFFFFF0) OR 0x2"
  define s7 where "s7 = dwio_write_csr ioa 58 v s6"
  have s7: "s7 = s5\<lparr>io := io s5 @ OutL (ioa + 0x14) 58 # csr_write ioa 58 v\<rparr>"
    by (simp add: s7_def s6_def dwio_write_csr_io dwio_read_csr_def Let_def outportl_def)
  have kept: "kept (in8 e) s4 s7" unfolding s7
    by (rule kept_trans [OF kept_prints [OF pic s5(2)] kept_io [OF pic]]) (use csr_apart [OF ioa] in simp)
  let ?rest = "\<lambda>(p, s4). Option.bind (printf (local_byte e) (bytes_at (mem s4) p 18) [] s4) (\<lambda>(_, s5).
      let (csr58, s6) = dwio_read_csr (in32 e) ioa 58 s5; s7 = dwio_write_csr ioa 58 ((csr58 AND 0xFFFFFFF0) OR 0x2) s6
      in Option.bind (pcnet32_rings dev s7) (\<lambda>(ok, s8). if ok then pcnet32_start e i dev ioa intr s8 else Some s8))"
  have mac3: "hw_addr (net_devs s3 ! i) = mac" using nd(1) by (simp add: s3_def s2(1) s1_def upd_dev_def)
  have "pcnet32_setup e pcidev i ioa intr chip s = Option.bind (eth_ntoa (ntoa_buff e) (hw_addr (net_devs s3 ! i)) s3) ?rest"
    unfolding pcnet32_setup_def
    using kind nd by (auto simp: Let_def pcnet_kinds_def upd_dev_nth s3_def s2_def mac_def s1_def m_def setup_memory_def cong: if_cong)
  also have "eth_ntoa (ntoa_buff e) (hw_addr (net_devs s3 ! i)) s3 = Some (ntoa_buff e, s4)"
    unfolding mac3 using eth_ntoa_text [OF addrs(2) mac, of s3] by (simp add: s4_def s3_def s2(1) s1_def upd_dev_def)
  also have "Option.bind (Some (ntoa_buff e, s4)) ?rest = Option.bind (pcnet32_rings dev s7)
      (\<lambda>(ok, s8). if ok then pcnet32_start e i dev ioa intr s8 else Some s8)"
    by (simp add: s5(1) Let_def case_prod_unfold s7_def s6_def v_def)
  finally have run: "pcnet32_setup e pcidev i ioa intr chip s = Option.bind (pcnet32_rings dev s7)
      (\<lambda>(ok, s8). if ok then pcnet32_start e i dev ioa intr s8 else Some s8)" .
  have "\<exists>es. io s7 = io s @ es" using s5(2) s4(4) by (auto simp: s7 prints_def)
  moreover have "mem s7 x = mem s x" if "x \<notin> region dev 96 \<union> region (ntoa_buff e) 18 \<union> region video 4000" for x
    using kept m4 [of x] that unfolding kept_def by simp
  ultimately show ?thesis using run mac kept r4 s4(2) more4 unfolding kept_def
    by (intro exI [of _ s7] exI [of _ mac]) (auto simp del: in_region)
qed

lemma pit_more_net:
  fixes s t :: "'a net_scheme"
  shows "pit.more t = pit.more s \<Longrightarrow> net_devs t = net_devs s \<and> net_num_devs t = net_num_devs s \<and> buffers t = buffers s"
  by (cases s, cases t) simp

lemma video_low: "x \<in> region video 4000 \<Longrightarrow> x < 0xFFC00000"
  using region_absoluteD [of x video 4000] by (simp add: video_def word_less_nat_alt del: in_region)

lemma pcnet32_setup_runs:
  fixes s :: "'a pci_scheme"
  assumes pic: "pic_device (in8 e)" and kind: "drop_bit 12 chip \<in> pcnet_kinds"
    and addrs: "local_byte e \<noteq> 0" "ntoa_buff e \<noteq> 0" and intr: "unat intr < 18" and ioa: "0x100 \<le> ioa" "ioa \<le> 0xFFE0"
    and ready: "irq_ready (in8 e) L s" and buf: "buffers s = 0" and nd: "i < length (net_devs s)" "priv (net_devs s ! i) = dev"
    and room: "unat (high_mem s) + 129280 < 0xC0C00000"
    and dev: "region dev 96 \<inter> heap_free s = {}" "\<And>n. n \<in> nodes L \<Longrightarrow> region n 12 \<inter> region dev 96 = {}"
      "region dev 96 \<inter> region video 4000 = {}" "\<And>x. x \<in> region dev 96 \<Longrightarrow> x < 0xFFC00000"
    and buff: "region (ntoa_buff e) 18 \<inter> heap_free s = {}" "\<And>n. n \<in> nodes L \<Longrightarrow> region n 12 \<inter> region (ntoa_buff e) 18 = {}"
      "\<And>x. x \<in> region (ntoa_buff e) 18 \<Longrightarrow> x < 0xFFC00000"
  shows "\<exists>s' mac es1 ei es2. pcnet32_setup e pcidev i ioa intr chip s = Some s' \<and> length mac = 6
    \<and> card_running e (get_physaddr (mem s)) i dev (high_mem s) s'
    \<and> irq_ready (in8 e) (L(unat intr := (dev + 8) # L (unat intr))) s' \<and> high_mem s' = high_mem s + 129280
    \<and> pit.more s' = pit.more (upd_dev i (\<lambda>d. d\<lparr>do_work := work_code e, tx_packet := tx_code e, hw_addr := mac\<rparr>) s)
    \<and> io s' = io s @ es1 @ start_writes ioa (get_physaddr (mem s) (dev + 32)) ei @ es2"
proof -
  let ?A = "region dev 96 \<union> region (ntoa_buff e) 18 \<union> region video 4000"
  obtain t mac es where t: "pcnet32_setup e pcidev i ioa intr chip s = Option.bind (pcnet32_rings dev t)
        (\<lambda>(ok, s8). if ok then pcnet32_start e i dev ioa intr s8 else Some s8)"
    "length mac = 6" "irq_ready (in8 e) L t" "high_mem t = high_mem s" "io t = io s @ es"
    "pit.more t = pit.more (upd_dev i (\<lambda>d. d\<lparr>do_work := work_code e, tx_packet := tx_code e, hw_addr := mac\<rparr>) s)"
    "\<forall>x. x \<notin> ?A \<longrightarrow> mem t x = mem s x"
    using pcnet32_setup_prefix [OF pic kind addrs ioa ready nd dev(1,2) buff(1,2), of pcidev intr] by blast
  have low: "x < 0xFFC00000" if "x \<in> ?A" for x using that dev(4) buff(3) video_low by blast
  have phys: "get_physaddr (mem t) = get_physaddr (mem s)" by (rule get_physaddr_kept [OF low]) (use t(7) in blast)+
  have devs: "net_devs t = (net_devs s)[i := (net_devs s ! i)\<lparr>do_work := work_code e, tx_packet := tx_code e, hw_addr := mac\<rparr>]" "buffers t = 0"
    using pit_more_net [OF t(6)] buf by (simp_all add: upd_dev_def)
  have "heap_free t = heap_free s" by (simp add: heap_free_def t(4))
  then have "card_found (in8 e) L i dev t" using t(2,3,4) devs nd dev room by (auto simp: card_found_def simp del: in_region)
  from card_comes_up [OF pic this intr addrs(1) ioa, unfolded phys t(4)] obtain s1 s' ei es2 where
    "pcnet32_rings dev t = Some (True, s1)" "pcnet32_start e i dev ioa intr s1 = Some s'"
    "card_running e (get_physaddr (mem s)) i dev (high_mem s) s'" "irq_ready (in8 e) (L(unat intr := (dev + 8) # L (unat intr))) s'"
    "irq.more s' = irq.more t" "high_mem s' = high_mem s + 129280"
    "io s' = io t @ start_writes ioa (get_physaddr (mem s) (dev + 32)) ei @ es2" by blast
  then show ?thesis using t(1,2,5,6) irq_more_pit [of s' t] by (intro exI [of _ s'] exI [of _ mac] exI [of _ es] exI [of _ ei] exI [of _ es2]) simp
qed

section \<open>The probe\<close>

definition probe_ready :: "env \<Rightarrow> lines \<Rightarrow> 'a net_scheme \<Rightarrow> bool" where
  "probe_ready e L s \<longleftrightarrow> irq_ready (in8 e) L s \<and> buffers s = 0 \<and> devs_ok s \<and> net_num_devs s < 16
     \<and> unat (high_mem s) + 96 + 129280 < 0xC0C00000 \<and> local_byte e \<noteq> 0 \<and> ntoa_buff e \<noteq> 0
     \<and> region (ntoa_buff e) 18 \<inter> heap_free s = {} \<and> (\<forall>n \<in> nodes L. region n 12 \<inter> region (ntoa_buff e) 18 = {})
     \<and> (\<forall>x \<in> region (ntoa_buff e) 18. x < 0xFFC00000)"

lemma card_running_prints:
  fixes s s' :: "'a net_scheme"
  assumes run: "card_running e phys i dev rb s" and pr: "prints bs s s'" and heap: "heap_ok s'"
    and ring: "region rb 129280 \<inter> region dev 96 = {}" "region rb 129280 \<inter> region video 4000 = {}" "region rb 129280 \<inter> heap_free s = {}"
    and dev: "region dev 96 \<inter> heap_free s = {}" "region dev 96 \<inter> region video 4000 = {}"
  shows "card_running e phys i dev rb s'"
proof -
  note r = run [unfolded card_running_def Let_def]
  have d: "tx_driver i dev (rb + 129024) (rb + 102400) 0 [] s" and b: "buffers s = 0"
    using r by (simp_all add: nic_ok_def pool_ok_def)
  have more: "high_mem s' = high_mem s" "pit.more s' = pit.more s" using pr con_more_fields [of s' s] irq_more_pit [of s' s] by (auto simp: prints_def)
  note net = pit_more_net [OF more(2)]
  have "tx_buffer_ptr (mem s) dev = 0" using d by (simp add: tx_driver_def unat_eq_0)
  then show ?thesis
    by (intro card_runs [where M = "mem s"])
      (use r d b net heap ring dev more(1) prints_mem [OF pr] in \<open>simp_all add: tx_driver_def rx_driver_def heap_free_def del: in_region\<close>)
qed

lemma render_probe:
  "render safe m (cbytes ''PCNET32: '') [] = Some (chars ''PCNET32: '')"
  "render safe m (cbytes '' done.\<newline>'') [] = Some (chars '' done.\<newline>'')"
  by (simp_all add: render_defs)

lemma pcnet32_probe_prefix:
  fixes s :: "'a pci_scheme"
  assumes pic: "pic_device (in8 e)" and tick: "tick_ok (in8 e) tick" and ready: "probe_ready e L s"
    and chip: "pcnet_chip (in32 e) ioa chip" "chip AND 0xFFF = 3" and ioa: "0x100 \<le> ioa" "ioa \<le> 0xFFE0"
  shows "\<exists>s' es. probe_pcnet32 e tick pcidev ioa intr s = Option.bind (pcnet32_setup e pcidev (unat (net_num_devs s)) ioa intr chip s')
        (\<lambda>s5. map_option snd (printf (local_byte e) (cbytes '' done.\<newline>'') [] s5))
    \<and> irq_ready (in8 e) L s' \<and> high_mem s' = high_mem s + 96 \<and> buffers s' = 0 \<and> net_num_devs s' = net_num_devs s + 1
    \<and> net_devs s' = (net_devs s)[unat (net_num_devs s) := zero_netdev\<lparr>priv := high_mem s, dev_no := net_num_devs s\<rparr>]
    \<and> heap_free s' \<subseteq> heap_free s \<and> get_physaddr (mem s') = get_physaddr (mem s) \<and> io s' = io s @ es"
proof -
  note P = ready [unfolded probe_ready_def]
  have r0: "irq_ready (in8 e) L s" and lb: "local_byte e \<noteq> 0" and room: "unat (high_mem s) + 96 + 129280 < 0xC0C00000" using P by simp_all
  obtain k s1 where s1: "printf (local_byte e) (cbytes ''PCNET32: '') [] s = Some (k, s1)" "prints (chars ''PCNET32: '') s s1"
    using printf_text [OF _ lb render_probe(1), of s] r0 by (auto simp: irq_ready_def chars_def)
  define s2 where "s2 = pcnet32_reset tick ioa s1"
  define s3 where "s3 = s2\<lparr>io := io s2 @ [OutL (ioa + 0x14) 88, OutL (ioa + 0x14) 89]\<rparr>"
  have version: "pcnet32_version (in32 e) ioa s2 = (chip, s3)"
    using chip(1) by (simp add: pcnet32_version_def dwio_read_csr_def outportl_def inportl_def Let_def pcnet_chip_def s3_def)
  have k3: "kept (in8 e) s s3"
  proof -
    note io = kept_io [OF pic]
    have "kept (in8 e) s1 (touchw (ioa + 0x14) (touchw (ioa + 0x18) s1))"
      unfolding touchw_def by (intro kept_trans [OF io io]) (simp_all add: ioa_apart [OF ioa])
    moreover have "kept (in8 e) t (tick t)" for t using tick by (simp add: tick_ok_def)
    moreover have "kept (in8 e) t (outportl (ioa + 0x10) 0 t)" for t unfolding outportl_def by (intro io) (simp add: ioa_apart [OF ioa])
    ultimately have "kept (in8 e) s1 s2" unfolding s2_def pcnet32_reset_def by (meson kept_trans)
    moreover have "kept (in8 e) s2 s3" unfolding s3_def by (intro io) (simp add: ioa_apart [OF ioa])
    ultimately show ?thesis using kept_prints [OF pic s1(2)] kept_trans by blast
  qed
  have d3: "net_devs s3 = net_devs s" "net_num_devs s3 = net_num_devs s" "buffers s3 = buffers s" "heap_free s3 = heap_free s"
    using kept_devs [OF k3] by simp_all
  have r3: "irq_ready (in8 e) L s3" and h3: "high_mem s3 = high_mem s" using k3 r0 by (simp_all add: kept_def)
  have heap: "heap_ok s" "heap_ok s3" using r0 r3 by (simp_all add: irq_ready_def)
  have n16: "net_num_devs s < 16" using P by simp
  obtain m where m: "alloc_netdev 96 s3 = Some (Some (unat (net_num_devs s)), s3\<lparr>mem := m, high_mem := high_mem s + 96, net_num_devs := net_num_devs s + 1,
      net_devs := (net_devs s)[unat (net_num_devs s) := zero_netdev\<lparr>priv := high_mem s, dev_no := net_num_devs s\<rparr>]\<rparr>)"
    "heap_ok (s3\<lparr>mem := m, high_mem := high_mem s + 96\<rparr>)" "\<forall>x. x \<notin> heap_free s \<longrightarrow> m x = mem s3 x"
    using alloc_netdev_exact [OF heap(2)] room n16 d3 h3 by auto
  define s4 where "s4 = s3\<lparr>mem := m, high_mem := high_mem s + 96, net_num_devs := net_num_devs s + 1,
      net_devs := (net_devs s)[unat (net_num_devs s) := zero_netdev\<lparr>priv := high_mem s, dev_no := net_num_devs s\<rparr>]\<rparr>"
  have h4: "heap_free s4 \<subseteq> heap_free s" using ring_break(3) [OF heap(1), of 96 m] room by (simp add: s4_def heap_free_def)
  have nodeF: "region n 12 \<inter> heap_free s = {}" "region n 12 \<inter> region video 4000 = {}" if "n \<in> nodes L" for n
    using r0 that by (simp_all add: irq_ready_def del: in_region)
  have r4: "irq_ready (in8 e) L s4"
  proof (rule irq_ready_grow [OF pic r3, where evs = "[]"])
    show "heap_ok s4" using m(2) by (simp add: s4_def heap_ok_def)
    show "con_ok s4" using r3 by (simp add: s4_def irq_ready_def con_ok_def)
    show "heap_free s4 \<subseteq> heap_free s3" using h4 d3(4) by simp
    show "mem s4 x = mem s3 x" if "n \<in> nodes L" "x \<in> region n 12" for n x using m(3) nodeF [OF that(1)] that(2) by (auto simp: s4_def simp del: in_region)
  qed (simp_all add: s4_def)
  have FV: "heap_free s \<inter> region video 4000 = {}" using heap_above_video [OF heap(1)] by blast
  have freelow: "x < 0xFFC00000" if "x \<in> heap_free s" for x
    using that order_less_trans [of x "0xC0C00000" "0xFFC00000"] by (simp add: heap_free_def)
  have phys: "get_physaddr (mem s4) = get_physaddr (mem s)"
  proof (rule get_physaddr_kept)
    show "x < 0xFFC00000" if "x \<in> heap_free s \<union> region video 4000" for x using that freelow video_low by blast
    show "mem s4 x = mem s x" if "x \<notin> heap_free s \<union> region video 4000" for x
      using that m(3) k3 by (simp add: s4_def kept_def del: in_region)
  qed
  have "probe_pcnet32 e tick pcidev ioa intr s = Option.bind (pcnet32_setup e pcidev (unat (net_num_devs s)) ioa intr chip s4)
        (\<lambda>s5. map_option snd (printf (local_byte e) (cbytes '' done.\<newline>'') [] s5))"
    using m(1) chip(2) by (simp add: probe_pcnet32_def s1(1) version [unfolded s2_def] s4_def)
  moreover have "\<exists>es. io s4 = io s @ es" using k3 by (simp add: s4_def kept_def)
  ultimately show ?thesis using r4 h4 phys P d3 by (intro exI [of _ s4]) (simp add: s4_def)
qed

text \<open>C3: Probing a supported card returns, and the card runs: \<^verbatim>\<open>probe_pcnet32\<close> on a kernel with its interrupt lines set up, at
  a card that answers with a known chip version, registers one device with the driver's two functions, builds both rings and
  the initialisation block in fresh heap memory, tells the card the physical address of the block in CSR 1 and 2, initialises it,
  puts the driver's handler in front of the list of the card's line, and starts the card with interrupts (0x42 in CSR 0). What results (\<^verbatim>\<open>card_running\<close>, \<^verbatim>\<open>irq_ready\<close>) is what the theorems on transmission,
  reception and the ping assume of the driver. A heap without room, an unknown version and other machines are outside the hypotheses.\<close>

theorem pcnet32_probe_starts_card:
  fixes s :: "'a pci_scheme"
  assumes pic: "pic_device (in8 e)" and tick: "tick_ok (in8 e) tick" and ready: "probe_ready e L s"
    and chip: "pcnet_chip (in32 e) ioa chip" "chip AND 0xFFF = 3" "drop_bit 12 chip \<in> pcnet_kinds"
    and intr: "unat intr < 18" and ioa: "0x100 \<le> ioa" "ioa \<le> 0xFFE0"
  defines "i \<equiv> unat (net_num_devs s)" and "dev \<equiv> high_mem s" and "p \<equiv> get_physaddr (mem s) (high_mem s + 32)"
  shows "\<exists>s' es1 es2 es3. probe_pcnet32 e tick pcidev ioa intr s = Some s'
    \<and> card_running e (get_physaddr (mem s)) i dev (dev + 96) s'
    \<and> irq_ready (in8 e) (L(unat intr := (dev + 8) # L (unat intr))) s'
    \<and> net_num_devs s' = net_num_devs s + 1 \<and> do_work (net_devs s' ! i) = work_code e \<and> tx_packet (net_devs s' ! i) = tx_code e
    \<and> io s' = io s @ es1 @ csr_write ioa 1 (p AND 0xFFFF) @ csr_write ioa 2 (drop_bit 16 p) @ csr_write ioa 4 0x915 @ csr_write ioa 0 1
        @ [OutL (ioa + 0x14) 0] @ csr_write ioa 0 4 @ es2 @ csr_write ioa 0 0x42 @ es3"
proof -
  note P = ready [unfolded probe_ready_def]
  let ?d = "\<lambda>mac d. d\<lparr>do_work := work_code e, tx_packet := tx_code e, hw_addr := mac\<rparr>"
  have r0: "irq_ready (in8 e) L s" and heap: "heap_ok s" and room: "unat (high_mem s) + 96 + 129280 < 0xC0C00000" and lb: "local_byte e \<noteq> 0" "ntoa_buff e \<noteq> 0"
    using P by (simp_all add: irq_ready_def)
  have i: "i < length (net_devs s)" using P by (simp add: devs_ok_def i_def word_less_nat_alt)
  obtain t es where t: "probe_pcnet32 e tick pcidev ioa intr s = Option.bind (pcnet32_setup e pcidev i ioa intr chip t)
        (\<lambda>s5. map_option snd (printf (local_byte e) (cbytes '' done.\<newline>'') [] s5))"
    "irq_ready (in8 e) L t" "high_mem t = dev + 96" "buffers t = 0" "net_num_devs t = net_num_devs s + 1"
    "net_devs t = (net_devs s)[i := zero_netdev\<lparr>priv := dev, dev_no := net_num_devs s\<rparr>]"
    "heap_free t \<subseteq> heap_free s" "get_physaddr (mem t) = get_physaddr (mem s)" "io t = io s @ es"
    using pcnet32_probe_prefix [OF pic tick ready chip(1,2) ioa, of pcidev intr] unfolding i_def dev_def by blast
  have FV: "heap_free s \<inter> region video 4000 = {}" using heap_above_video [OF heap] by blast
  have freelow: "x < 0xFFC00000" if "x \<in> heap_free s" for x
    using that order_less_trans [of x "0xC0C00000" "0xFFC00000"] by (simp add: heap_free_def)
  have u: "unat (dev + 96) = unat dev + 96" using ring_break(1) [OF heap, of 96] room by (simp add: dev_def)
  have devF: "region dev 96 \<subseteq> heap_free s" using ring_break(5) [OF heap, of 96] room by (simp add: dev_def)
  have devT: "region dev 96 \<inter> heap_free t = {}"
    using ring_break(4) [OF heap, of 96 "mem s"] room t(3) by (simp add: dev_def heap_free_def)
  have nodes: "region n 12 \<inter> heap_free s = {}" if "n \<in> nodes L" for n using r0 that by (simp add: irq_ready_def del: in_region)
  obtain s1 mac es1 ei es2 where s1: "pcnet32_setup e pcidev i ioa intr chip t = Some s1" "length mac = 6"
    "card_running e (get_physaddr (mem s)) i dev (dev + 96) s1"
    "irq_ready (in8 e) (L(unat intr := (dev + 8) # L (unat intr))) s1" "high_mem s1 = dev + 96 + 129280"
    "pit.more s1 = pit.more (upd_dev i (?d mac) t)"
    "io s1 = io t @ es1 @ start_writes ioa (get_physaddr (mem s) (dev + 32)) ei @ es2"
  proof -
    have room4: "unat (high_mem t) + 129280 < 0xC0C00000" using room u t(3) by (simp add: dev_def)
    have n: "region n 12 \<inter> region dev 96 = {}" if "n \<in> nodes L" for n using nodes [OF that] devF by blast
    have dv: "region dev 96 \<inter> region video 4000 = {}" using devF FV by blast
    have dl: "x < 0xFFC00000" if "x \<in> region dev 96" for x using that devF freelow by blast
    have nb: "region (ntoa_buff e) 18 \<inter> heap_free t = {}" "\<And>n. n \<in> nodes L \<Longrightarrow> region n 12 \<inter> region (ntoa_buff e) 18 = {}"
      "\<And>x. x \<in> region (ntoa_buff e) 18 \<Longrightarrow> x < 0xFFC00000" using P t(7) by blast+
    have nd: "i < length (net_devs t)" "priv (net_devs t ! i) = dev" using i t(6) by simp_all
    show ?thesis using pcnet32_setup_runs [OF pic chip(3) lb intr ioa t(2,4) nd room4 devT n dv dl nb, of pcidev]
      unfolding t(3,8) using that by blast
  qed
  have r1: "heap_ok s1" "con_ok s1" using s1(4) by (simp_all add: irq_ready_def)
  obtain k s' where s': "printf (local_byte e) (cbytes '' done.\<newline>'') [] s1 = Some (k, s')" "prints (chars '' done.\<newline>'') s1 s'"
    using printf_text [OF r1(2) lb(1) render_probe(2)] by (auto simp: chars_def)
  have ready': "irq_ready (in8 e) (L(unat intr := (dev + 8) # L (unat intr))) s'" by (rule irq_ready_prints [OF pic s1(4) s'(2)])
  have run: "card_running e (get_physaddr (mem s)) i dev (dev + 96) s'"
  proof (rule card_running_prints [OF s1(3) s'(2)])
    show "heap_ok s'" using ready' by (simp add: irq_ready_def)
    have ring: "region (dev + 96) 129280 \<subseteq> heap_free s" "region (dev + 96) 129280 \<inter> heap_free s1 = {}" "region dev 96 \<inter> heap_free s1 = {}"
      "region (dev + 96) 129280 \<inter> region dev 96 = {}"
    proof -
      have ht: "heap_ok t" "unat (high_mem t) + 129280 < 0xC0C00000" using t(2,3) room u by (simp_all add: irq_ready_def dev_def)
      have f1: "heap_free s1 = heap_free (ring_state t 129280 (mem t))" using s1(5) t(3) by (simp add: heap_free_def)
      note brk = ring_break(3-5) [OF ht, unfolded t(3)]
      show "region (dev + 96) 129280 \<subseteq> heap_free s" using brk(3) t(7) by (rule subset_trans)
      show "region (dev + 96) 129280 \<inter> heap_free s1 = {}" unfolding f1 t(3) by (rule brk(2))
      have "heap_free s1 \<subseteq> heap_free t" unfolding f1 t(3) by (rule brk(1))
      then show "region dev 96 \<inter> heap_free s1 = {}" using devT by blast
      show "region (dev + 96) 129280 \<inter> region dev 96 = {}" using brk(3) devT by blast
    qed
    show "region (dev + 96) 129280 \<inter> region video 4000 = {}" "region dev 96 \<inter> region video 4000 = {}" using ring(1) devF FV by blast+
    show "region (dev + 96) 129280 \<inter> heap_free s1 = {}" "region dev 96 \<inter> heap_free s1 = {}"
      "region (dev + 96) 129280 \<inter> region dev 96 = {}" by (fact ring)+
  qed
  have "pit.more s' = pit.more s1" "\<exists>es. io s' = io s1 @ es" using s'(2) con_more_fields [of s' s1] irq_more_pit [of s' s1] by (auto simp: prints_def)
  then have more: "net_num_devs s' = net_num_devs s + 1" "net_devs s' ! i = ?d mac (zero_netdev\<lparr>priv := dev, dev_no := net_num_devs s\<rparr>)"
    using pit_more_net [of s' "upd_dev i (?d mac) t"] s1(6) t(5,6) i by (simp_all add: upd_dev_def)
  obtain es3 where "io s' = io s1 @ es3" using \<open>\<exists>es. io s' = io s1 @ es\<close> by blast
  then have "io s' = io s @ (es @ es1) @ start_writes ioa p ei @ es2 @ es3"
    using s1(7) t(9) by (simp add: p_def dev_def)
  then show ?thesis using t(1) s1(1) s'(1) run ready' more
    by (intro exI [of _ s'] exI [of _ "es @ es1"] exI [of _ ei] exI [of _ "es2 @ es3"]) (simp add: start_writes_def)
qed

section \<open>A concrete instance\<close>

text \<open>A card at the ports 0xC000 of kind 0x2621 on line 11, after \<^verbatim>\<open>set_irqs\<close>.\<close>

definition probe_env :: env where
  "probe_env = (sample_env tree_space)\<lparr>in32 := \<lambda>h p. if last h = OutL 0xC014 88 then 0x1003 else if last h = OutL 0xC014 89 then 0x262 else 0\<rparr>"

definition probe_boot :: pci where
  "probe_boot = boot_pci\<lparr>io := pic_icws @ [OutB 0x21 0xFB, OutB 0xA1 0xFF]\<rparr>"

lemma probe_boot_ready: "probe_ready probe_env (\<lambda>_. []) probe_boot"
proof -
  have b: "irq_handlers boot_pci = replicate 18 0" "heap_ok boot_pci" "io boot_pci = []" "high_mem boot_pci = 0xC0110000" "csr_x boot_pci = 0"
    "csr_y boot_pci = 0" "buffers boot_pci = 0" "net_num_devs boot_pci = 0" "length (net_devs boot_pci) = 16"
    using boot_net_simps(1) by (simp_all add: boot_pci_def net.defs boot_net_def init_mem_def Let_def round_up_def heap_ok_def)
  have "lines_ok last_write probe_boot (\<lambda>_. [])"
    using set_irqs_lines_ok [OF last_write_pic b(1), of 0 "\<lambda>_. 0"] set_irqs_io [of 0 "\<lambda>_. 0" boot_pci] set_irqs_handlers [of 0 "\<lambda>_. 0" boot_pci] b(3)
    by (simp add: lines_ok_def masked_def probe_boot_def nodes_def)
  moreover have "region 0xC0108000 18 \<inter> heap_free probe_boot = {}" "\<forall>x \<in> region (0xC0108000 :: addr) 18. x < 0xFFC00000"
    using region_absoluteD [of _ "0xC0108000 :: addr" 18] b(4)
    by (force simp: heap_free_def probe_boot_def word_le_nat_alt word_less_nat_alt simp del: in_region)+
  ultimately show ?thesis using b
    by (simp add: probe_ready_def irq_ready_def probe_boot_def probe_env_def sample_env_def devs_ok_def con_ok_def nodes_def heap_ok_def)
qed

theorem pcnet32_probe_starts_card_witness:
  "\<exists>s'. probe_pcnet32 probe_env (\<lambda>s. irq_eoi 32 (pit_handler s)) 0 0xC000 11 probe_boot = Some s' \<and> net_num_devs s' = 1
     \<and> card_running probe_env (get_physaddr (mem probe_boot)) 0 0xC0110000 0xC0110060 s'
     \<and> irq_ready last_write ((\<lambda>_. [])(11 := [0xC0110008])) s'"
proof -
  have e: "in8 probe_env = last_write" by (simp add: probe_env_def sample_env_def)
  have b: "high_mem probe_boot = 0xC0110000" "net_num_devs probe_boot = 0"
    by (simp_all add: probe_boot_def boot_pci_def net.defs boot_net_simps boot_net_def init_mem_def Let_def round_up_def)
  have chip: "pcnet_chip (in32 probe_env) 0xC000 0x2621003" by (simp add: pcnet_chip_def probe_env_def)
  have p: "pic_device (in8 probe_env)" unfolding e by (rule last_write_pic)
  show ?thesis
    using pcnet32_probe_starts_card [OF p timer_tick_ok [OF p] probe_boot_ready chip, of 11 0] unfolding b e
    by (auto simp: pcnet_kinds_def)
qed

end
