(* ===== verification/Spec2Isabelle.thy ===== *)
theory Spec2Isabelle
  imports Frog_Prelude Frog_String Frog_Port Frog_Conio Frog_Crc32 Frog_Udivmod Frog_Queue
    Frog_Keyboard Frog_Memory Frog_Paging Frog_Format Frog_Double Frog_Float Frog_Printf Frog_Text
    Frog_Rounding Frog_Decimal Frog_Exponent Frog_Etoa Frog_Info Frog_Irq Frog_Pit Frog_Handlers
    Frog_Net Frog_Cksum Frog_Arp Frog_Icmp Frog_Pci Frog_Pcnet32 Frog_Pciscan Frog_Txring Frog_Rxring
    Frog_Ping Frog_Kernel Frog_Loop Frog_Card Frog_Probe
begin

text \<open>
  FrogOS is a small 32-bit x86 kernel: a text console with \<^verbatim>\<open>printf\<close>, a heap, interrupt handling with
  a timer and a keyboard, PCI enumeration, a driver for the AMD PCnet network card, and enough of
  Ethernet, ARP, IPv4 and ICMP to answer a ping. This library models its C code and proves what makes it
  work; the development reads in the order of the imports of this theory.

  \<^bold>\<open>The machine.\<close> Memory is a function from 32-bit addresses to bytes (\<^verbatim>\<open>byte_mem\<close>, Frog\_Prelude), with
  little-endian loads and stores of 16 and 32 bits. Port output appends to a history of events; what a device
  answers on a port is a function of that history and a parameter of the definitions that read it
  (Frog\_Port, include/port.h). The state of each component is a record that extends the one below it:
  \<^verbatim>\<open>machine\<close> (memory, port history), \<^verbatim>\<open>con\<close> (cursor, colour), \<^verbatim>\<open>heap\<close> (start of the free list), \<^verbatim>\<open>irq\<close>
  (handler lists, interrupt flag), \<^verbatim>\<open>pit\<close> (tick counter), \<^verbatim>\<open>net\<close> (device table, buffer pool), \<^verbatim>\<open>pci\<close> (functions
  found) and \<^verbatim>\<open>kernel\<close> (key ring). A definition of a component works on every extension of its record, so
  that the kernel calls it on the whole state. Integers have the width of the code and wrap around; a read
  past an array, a loop that does not end and a call of unknown code have no result (\<^verbatim>\<open>None\<close>), so that a theorem
  that names a result says that the code returns.

  \<^bold>\<open>Components.\<close>
  \<^item> Frog\_String: lib/memset.c, memcpy.c, memcmp.c, strlen.c, with the string instructions step by step.
  \<^item> Frog\_Conio: lib/conio.c on the video memory at 0xC00B8000; it refines an abstract console, a list of
    2000 cells and a position (\<^verbatim>\<open>putch_refines_console\<close>).
  \<^item> Frog\_Crc32, Frog\_Udivmod: lib/crc32.c and lib/gcc.c, equal to the bitwise CRC and to division with
    remainder.
  \<^item> Frog\_Queue, Frog\_Keyboard: the queue interface, and keyboard.c with include/kbd\_scancode.h: the ring, the
    decoder with its prefix states, and the interleaving of the interrupt handler with the statements of \<^verbatim>\<open>kbd_dequeue\<close>
    as an inductive step relation.
  \<^item> Frog\_Allocator, Frog\_Memory, Frog\_Paging: the allocator interface, memory.c on headers in memory, and
    \<^verbatim>\<open>get_physaddr\<close> of paging.c against the processor's page walk.
  \<^item> Frog\_Format, Frog\_Double, Frog\_Float, Frog\_Printf: lib/printf.c against a rendering of the format as a list of
    characters: the output functions and integers, the floating-point arithmetic of the target (rounding to a format, the
    operations, the representation of a \<^verbatim>\<open>double\<close>), \<^verbatim>\<open>_ftoa\<close> and \<^verbatim>\<open>_etoa\<close> on it, and the formats.
  \<^item> Frog\_Rounding, Frog\_Decimal: the same arithmetic in the real numbers (exact sums and products, the error of a
    rounding), and the text that \<^verbatim>\<open>%f\<close> prints: the nearest decimal number, for a precision of 1 to 9 and arguments up to \<open>10 ^ 9\<close>
    (the limit \<^verbatim>\<open>PRINTF_MAX_FLOAT\<close> of the code, above which \<^verbatim>\<open>_ftoa\<close> hands over to \<^verbatim>\<open>_etoa\<close>).
  \<^item> Frog\_Exponent, Frog\_Etoa: the exponent that \<^verbatim>\<open>_etoa\<close> estimates and the power of ten it divides by, with relative errors
    carried through its continued fraction; from them, that \<^verbatim>\<open>_ftoa\<close> and \<^verbatim>\<open>_etoa\<close>, which call each other, return for every
    \<^verbatim>\<open>double\<close> (precision up to 36, since from 42 on \<^verbatim>\<open>_ftoa\<close> reads past its table of powers), and inputs for which they print wrong text.
  \<^item> Frog\_Text, Frog\_Info: what the callers of \<^verbatim>\<open>printf\<close> need of that; and the callers lib/dump.c, \<^verbatim>\<open>print_mem\<close> and print\_info.c.
  \<^item> Frog\_Irq, Frog\_Pit, Frog\_Handlers: irq.c (descriptor table, masks, handler lists linked through memory, dispatch),
    pit.c, lib/sleep.c, and how \<^verbatim>\<open>set_pit\<close> and \<^verbatim>\<open>init_kbd\<close> install themselves.
  \<^item> Frog\_Net, Frog\_Cksum, Frog\_Arp, Frog\_Icmp: net.c (pool of 2000-byte buffers, device table, byte order), the
    checksum and dispatch of ipv4.c, arp.c, ether.c and icmp.c. The driver's \<^verbatim>\<open>tx_packet\<close> is a parameter there.
  \<^item> Frog\_Pci, Frog\_Pciscan: pci.c, configuration accesses and the recursive scan of the bus tree.
  \<^item> Frog\_Pcnet32, Frog\_Txring, Frog\_Rxring, Frog\_Ping: pcnet32.c, its two descriptor rings against the card, and a ping from
    the receive ring to the transmit ring.
  \<^item> Frog\_Kernel, Frog\_Loop: cmain.c, the start, the routing of interrupts and the main loop.
  \<^item> Frog\_Card, Frog\_Probe: the start of a card: the allocations of \<^verbatim>\<open>probe_pcnet32\<close> one after another, the descriptors and the
    initialisation block they hold, the installation of the handler; after the probe the driver's memory is what
    Frog\_Txring, Frog\_Rxring and Frog\_Ping assume (\<^verbatim>\<open>card_running\<close>).

  \<^bold>\<open>Interfaces.\<close> What one component needs of another is a locale, interpreted on the code's model: a bounded queue
  (interpreted by the key ring), an allocator (by \<^verbatim>\<open>alloc\<close> with alignment 1), a sink of characters
  (by the console, the buffer of \<^verbatim>\<open>snprintf\<close> and the sink that only counts), a transmitter and, on top of it, a receiver (by the PCnet driver). The lemmas of
  the clients are proved once inside the locale and used through the interpretation.

  \<^bold>\<open>What the lemmas show.\<close> Invariants: \<^verbatim>\<open>kbd_ok\<close>, \<^verbatim>\<open>heap_ok\<close>, \<^verbatim>\<open>pool_ok\<close>, \<^verbatim>\<open>lines_ok\<close>, \<^verbatim>\<open>tx_ring\<close>, \<^verbatim>\<open>nic_rx_ok\<close> and \<^verbatim>\<open>kernel_ready\<close>, each kept by
  every operation of its component. Refinement: the console, the key ring and \<^verbatim>\<open>printf\<close> against abstract specifications. Safety under
  interleaving: the key ring against the interrupt, the transmit ring against the card. Termination: the divisions, the
  checksum, the decoder and the receive loop are total; the floating-point conversions return for every \<^verbatim>\<open>double\<close>; loops that need a well-formed input (tag lists, free lists, handler
  lists, bus trees) are partial functions, and the theorems prove that they return on such inputs and, where they do not
  return on others, that too. End to end: the start of the kernel, the start of a card, a typed key on the screen, a ping.

  \<^bold>\<open>Parameters.\<close> The devices' answers on the ports (with their documented behaviour as named hypotheses: \<^verbatim>\<open>pic_device\<close>, \<^verbatim>\<open>pci_host\<close>,
  \<^verbatim>\<open>card_sends\<close>), the addresses that the linker chooses for code and static data, the stack address of \<^verbatim>\<open>printf\<close>'s local byte,
  what interrupts do while the code waits (\<^verbatim>\<open>tick\<close>, \<^verbatim>\<open>wakes\<close>, the readings of \<^verbatim>\<open>usleep\<close>). No model uses fuel.

  \<^bold>\<open>Not modelled.\<close> The assembly files boot.S, gdt.S, irq\_asm.S and loader/, which are not C: the recursive page mapping of
  boot.S is a hypothesis of the paging theorem, and the entry stubs are addresses. multiboot.h, which no C file of the kernel
  uses; of float.h everything but \<^verbatim>\<open>DBL_MAX\<close>; the headers that only declare types and prototypes; of multiboot2.h the structures that print\_info.c does not read.
\<close>

end
